(* ===== verification/Prelude.thy ===== *)
theory Prelude
  imports Complex_Main "HOL-Library.Word" "HOL-Library.Char_ord" "HOL-Library.List_Lexorder"
    "HOL-Library.Product_Lexorder" "HOL-Library.Multiset" "HOL-Library.Sublist"
begin

text \<open>
  The vocabulary the component theories share: Go's 64-bit integers, clock readings and
  durations, decimal printing and reading (\<open>strconv\<close>), \<open>float64\<close> arithmetic as far as
  the jitter computation uses it, error values, and two generic interfaces: a token codec
  (a closed vocabulary with a printer and a parser) and a self-delimiting encoder (a
  printer whose output can be cut off a longer text in one way only).

  Go's \<open>int\<close>, \<open>int64\<close> and \<open>time.Duration\<close> are \<open>int\<close> here, with \<open>wrap64\<close> written
  wherever an operation of the source could leave the 64-bit range. A \<open>time.Time\<close> is the
  number of nanoseconds since Go's zero time.
\<close>

section \<open>Definitions\<close>

named_theorems tokens \<open>printers and parsers of the closed vocabularies\<close>
named_theorems engine_defs \<open>unfolding rules of the decision engine\<close>

type_synonym time = int
type_synonym duration = int

definition int64_min :: int where "int64_min = - (2 ^ 63)"
definition int64_max :: int where "int64_max = 2 ^ 63 - 1"

definition wrap64 :: "int \<Rightarrow> int" where
  "wrap64 x = (x + 2 ^ 63) mod 2 ^ 64 - 2 ^ 63"

definition in_int64 :: "int \<Rightarrow> bool" where
  "in_int64 x \<longleftrightarrow> int64_min \<le> x \<and> x \<le> int64_max"

text \<open>\<open>Time.Sub\<close> saturates instead of wrapping.\<close>

definition time_sub :: "time \<Rightarrow> time \<Rightarrow> duration" where
  "time_sub t u = max int64_min (min int64_max (t - u))"

definition Millisecond :: duration where "Millisecond = 1000000"
definition Second :: duration where "Second = 1000000000"
definition Minute :: duration where "Minute = 60000000000"

subsection \<open>Errors\<close>

text \<open>\<open>errors.New\<close> is \<open>Err\<close>; \<open>fmt.Errorf("prefix: %w", err)\<close> is \<open>Wrap prefix err\<close>.\<close>

datatype go_error = Err string | Wrap string go_error

type_synonym 'a result = "go_error + 'a"

subsection \<open>Decimal text\<close>

fun nat_digits :: "nat \<Rightarrow> string" where
  "nat_digits n =
     (if n < 10 then [char_of (48 + n)] else nat_digits (n div 10) @ [char_of (48 + n mod 10)])"

declare nat_digits.simps [simp del]

text \<open>\<open>strconv.Itoa\<close> and \<open>strconv.AppendInt(_, _, 10)\<close>.\<close>

definition itoa :: "int \<Rightarrow> string" where
  "itoa n = (if n < 0 then CHR ''-'' # nat_digits (nat (- n)) else nat_digits (nat n))"

definition is_digit :: "char \<Rightarrow> bool" where
  "is_digit c \<longleftrightarrow> 48 \<le> (of_char c :: nat) \<and> (of_char c :: nat) \<le> 57"

definition digit_val :: "char \<Rightarrow> nat" where
  "digit_val c = of_char c - 48"

fun digits_val :: "nat \<Rightarrow> string \<Rightarrow> nat" where
  "digits_val acc [] = acc"
| "digits_val acc (c # cs) = digits_val (10 * acc + digit_val c) cs"

text \<open>\<open>strconv.Atoi\<close>: an optional sign, at least one digit, and a value in the 64-bit range.\<close>

definition unsigned_part :: "string \<Rightarrow> string" where
  "unsigned_part s =
     (case s of [] \<Rightarrow> [] | c # cs \<Rightarrow> if c = CHR ''-'' \<or> c = CHR ''+'' then cs else s)"

definition atoi :: "string \<Rightarrow> int option" where
  "atoi s =
     (let ds = unsigned_part s;
          v = int (digits_val 0 ds);
          n = (if s \<noteq> [] \<and> hd s = CHR ''-'' then - v else v)
      in if ds \<noteq> [] \<and> list_all is_digit ds \<and> in_int64 n then Some n else None)"

text \<open>\<open>hex.EncodeToString\<close>.\<close>

definition hex_digit :: "nat \<Rightarrow> char" where
  "hex_digit n = (if n < 10 then char_of (48 + n) else char_of (87 + n))"

definition hex_encode :: "string \<Rightarrow> string" where
  "hex_encode bs = concat (map (\<lambda>c. let n = (of_char c :: nat) in [hex_digit (n div 16), hex_digit (n mod 16)]) bs)"

subsection \<open>Floating point\<close>

text \<open>
  A \<open>float64\<close> is not-a-number, an infinity, or a rational number (the sign of zero is not
  kept: no operation modelled here depends on it). Products are rounded to the nearest
  53-bit value, ties to even, with gradual underflow at the exponent \<open>-1074\<close>.
\<close>

datatype f64 = F64NaN | F64Inf bool | F64 rat

fun bit_length :: "nat \<Rightarrow> nat" where
  "bit_length n = (if n = 0 then 0 else Suc (bit_length (n div 2)))"

declare bit_length.simps [simp del]

definition f64_exponent :: "rat \<Rightarrow> int" where
  "f64_exponent x =
     (let (p, q) = quotient_of \<bar>x\<bar>;
          e = int (bit_length (nat p)) - int (bit_length (nat q)) - 53
      in max (- 1074) (if \<bar>x\<bar> < 2 ^ 53 * (2 powi e) then e else e + 1))"

definition round_half_even :: "rat \<Rightarrow> int" where
  "round_half_even y =
     (let f = \<lfloor>y\<rfloor>; d = y - of_int f
      in if d < 1 / 2 then f else if 1 / 2 < d then f + 1 else if even f then f else f + 1)"

definition f64_round_val :: "rat \<Rightarrow> rat" where
  "f64_round_val x =
     (if x = 0 then 0
      else let u = 2 powi (f64_exponent x) in of_int (round_half_even (x / u)) * u)"

definition f64_round :: "rat \<Rightarrow> f64" where
  "f64_round x =
     (let r = f64_round_val x in if 2 ^ 1024 \<le> \<bar>r\<bar> then F64Inf (r < 0) else F64 r)"

definition f64_of_int :: "int \<Rightarrow> f64" where
  "f64_of_int n = f64_round (of_int n)"

fun f64_mul :: "f64 \<Rightarrow> f64 \<Rightarrow> f64" where
  "f64_mul (F64 x) (F64 y) = f64_round (x * y)"
| "f64_mul (F64Inf s) (F64 y) = (if y = 0 then F64NaN else F64Inf (s \<noteq> (y < 0)))"
| "f64_mul (F64 x) (F64Inf s) = (if x = 0 then F64NaN else F64Inf (s \<noteq> (x < 0)))"
| "f64_mul (F64Inf s) (F64Inf t) = F64Inf (s \<noteq> t)"
| "f64_mul F64NaN _ = F64NaN"
| "f64_mul _ F64NaN = F64NaN"

text \<open>Comparisons with not-a-number are false, as in IEEE 754.\<close>

fun f64_less :: "f64 \<Rightarrow> f64 \<Rightarrow> bool" where
  "f64_less (F64 x) (F64 y) = (x < y)"
| "f64_less (F64Inf s) (F64 y) = s"
| "f64_less (F64 x) (F64Inf s) = (\<not> s)"
| "f64_less (F64Inf s) (F64Inf t) = (s \<and> \<not> t)"
| "f64_less F64NaN _ = False"
| "f64_less _ F64NaN = False"

fun f64_le :: "f64 \<Rightarrow> f64 \<Rightarrow> bool" where
  "f64_le (F64 x) (F64 y) = (x \<le> y)"
| "f64_le (F64Inf s) (F64 y) = s"
| "f64_le (F64 x) (F64Inf s) = (\<not> s)"
| "f64_le (F64Inf s) (F64Inf t) = (s \<or> \<not> t)"
| "f64_le F64NaN _ = False"
| "f64_le _ F64NaN = False"

text \<open>
  The conversion of a \<open>float64\<close> to a \<open>time.Duration\<close> truncates towards zero. A value the
  64-bit range cannot hold converts to the smallest duration, which is what the source's
  own comment in \<open>backoff.go\<close> states of not-a-number.
\<close>

definition rat_trunc :: "rat \<Rightarrow> int" where
  "rat_trunc x = (if x < 0 then - \<lfloor>- x\<rfloor> else \<lfloor>x\<rfloor>)"

fun f64_to_duration :: "f64 \<Rightarrow> duration" where
  "f64_to_duration (F64 x) = (if in_int64 (rat_trunc x) then rat_trunc x else int64_min)"
| "f64_to_duration _ = int64_min"

section \<open>Results\<close>

text \<open>A loop that stops at the first error.\<close>

fun fold_result :: "('x \<Rightarrow> 's \<Rightarrow> 's result) \<Rightarrow> 'x list \<Rightarrow> 's \<Rightarrow> 's result" where
  "fold_result f [] s = Inr s"
| "fold_result f (x # xs) s = (case f x s of Inl e \<Rightarrow> Inl e | Inr s' \<Rightarrow> fold_result f xs s')"

lemma fold_result_append:
  "fold_result f (xs @ ys) s = (case fold_result f xs s of Inl e \<Rightarrow> Inl e | Inr s' \<Rightarrow> fold_result f ys s')"
  by (induction xs arbitrary: s) (auto split: sum.splits)

lemma fold_result_error:
  "fold_result f xs s = Inl e \<Longrightarrow>
     \<exists>pre x post s'. xs = pre @ x # post \<and> fold_result f pre s = Inr s' \<and> f x s' = Inl e"
proof (induction xs arbitrary: s)
  case Nil
  then show ?case by simp
next
  case (Cons y ys)
  show ?case
  proof (cases "f y s")
    case (Inl e')
    with Cons.prems have "y # ys = [] @ y # ys \<and> fold_result f [] s = Inr s \<and> f y s = Inl e" by simp
    then show ?thesis by blast
  next
    case (Inr s')
    with Cons obtain pre x post t
      where "ys = pre @ x # post" "fold_result f pre s' = Inr t" "f x t = Inl e" by fastforce
    with Inr have "y # ys = (y # pre) @ x # post \<and> fold_result f (y # pre) s = Inr t \<and> f x t = Inl e"
      by simp
    then show ?thesis by blast
  qed
qed

lemma case_result_iff:
  "(case x of Inl e \<Rightarrow> Inl e | Inr _ \<Rightarrow> y) = Inr z \<longleftrightarrow> (\<exists>u. x = Inr u) \<and> y = Inr z"
  by (auto split: sum.splits)

lemma ex_Inr_unit: "(\<exists>u. x = Inr (u::unit)) \<longleftrightarrow> x = Inr ()"
  by auto

lemma if_Inl_eq_Inr: "(if p then Inl e else q) = Inr x \<longleftrightarrow> \<not> p \<and> q = Inr x"
  by simp

section \<open>64-bit integers\<close>

lemma in_int64_iff: "in_int64 x \<longleftrightarrow> - (2 ^ 63) \<le> x \<and> x < 2 ^ 63"
  by (auto simp: in_int64_def int64_min_def int64_max_def)

lemma wrap64_id: "in_int64 x \<Longrightarrow> wrap64 x = x"
  by (simp add: wrap64_def in_int64_iff)

lemma wrap64_in_int64: "in_int64 (wrap64 x)"
proof -
  have "0 \<le> (x + 2 ^ 63) mod 2 ^ 64" and "(x + 2 ^ 63) mod 2 ^ 64 < (2 ^ 64 :: int)"
    by simp_all
  then show ?thesis by (simp add: wrap64_def in_int64_iff)
qed

lemma time_sub_in_int64: "in_int64 (time_sub t u)"
  by (simp add: time_sub_def in_int64_def int64_min_def int64_max_def)

lemma time_sub_id: "in_int64 (t - u) \<Longrightarrow> time_sub t u = t - u"
  by (simp add: time_sub_def in_int64_def)

lemma time_sub_ge_iff:
  "int64_min < d \<Longrightarrow> d \<le> int64_max \<Longrightarrow> d \<le> time_sub t u \<longleftrightarrow> d \<le> t - u"
  by (auto simp: time_sub_def)

lemma time_sub_nonneg: "0 \<le> time_sub t u \<longleftrightarrow> u \<le> t"
  by (auto simp: time_sub_def int64_min_def int64_max_def)

lemma time_sub_mono: "t \<le> t' \<Longrightarrow> time_sub t u \<le> time_sub t' u"
  by (auto simp: time_sub_def)

section \<open>Decimal text\<close>

lemma of_char_digit: "(n::nat) < 10 \<Longrightarrow> (of_char (char_of (48 + n)) :: nat) = 48 + n"
  by (simp add: of_char_of)

lemma is_digit_char_of: "(n::nat) < 10 \<Longrightarrow> is_digit (char_of (48 + n))"
  by (simp add: is_digit_def of_char_digit)

lemma digit_val_char_of: "(n::nat) < 10 \<Longrightarrow> digit_val (char_of (48 + n)) = n"
  by (simp add: digit_val_def of_char_digit)

lemma digits_val_append: "digits_val acc (xs @ ys) = digits_val (digits_val acc xs) ys"
  by (induction xs arbitrary: acc) auto

lemma nat_digits_nonempty [simp]: "nat_digits n \<noteq> []"
  by (subst nat_digits.simps) simp

lemma nat_digits_is_digit: "list_all is_digit (nat_digits n)"
proof (induction n rule: nat_digits.induct)
  case (1 n)
  then show ?case
    by (subst nat_digits.simps) (simp add: is_digit_char_of)
qed

lemma digits_val_nat_digits: "digits_val 0 (nat_digits n) = n"
proof (induction n rule: nat_digits.induct)
  case (1 n)
  show ?case
  proof (cases "n < 10")
    case True
    then show ?thesis by (subst nat_digits.simps) (simp add: digit_val_char_of)
  next
    case False
    with "1" have "digits_val 0 (nat_digits (n div 10)) = n div 10" by simp
    with False show ?thesis
      by (subst nat_digits.simps) (simp add: digits_val_append digit_val_char_of)
  qed
qed

lemma nat_digits_hd: "is_digit (hd (nat_digits n))"
  using nat_digits_is_digit [of n] by (cases "nat_digits n") auto

lemma not_is_digit [simp]:
  "\<not> is_digit CHR ''-''" "\<not> is_digit CHR ''+''" "\<not> is_digit CHR '';''" "\<not> is_digit CHR '':''"
  "\<not> is_digit (CHR 0x00)" "\<not> is_digit CHR ''n''"
  by (simp_all add: is_digit_def)

lemma unsigned_part_itoa: "unsigned_part (itoa n) = nat_digits (nat \<bar>n\<bar>)"
proof (cases "n < 0")
  case True
  then show ?thesis by (simp add: itoa_def unsigned_part_def)
next
  case False
  moreover have "hd (nat_digits (nat n)) \<noteq> CHR ''-''" and "hd (nat_digits (nat n)) \<noteq> CHR ''+''"
    using nat_digits_hd [of "nat n"] by auto
  ultimately show ?thesis
    by (cases "nat_digits (nat n)") (auto simp: itoa_def unsigned_part_def)
qed

lemma itoa_nonempty [simp]: "itoa n \<noteq> []"
  by (simp add: itoa_def)

lemma hd_itoa: "hd (itoa n) = CHR ''-'' \<longleftrightarrow> n < 0"
  using nat_digits_hd [of "nat n"] by (auto simp: itoa_def)

lemma atoi_itoa: "in_int64 n \<Longrightarrow> atoi (itoa n) = Some n"
  by (auto simp: atoi_def unsigned_part_itoa digits_val_nat_digits hd_itoa nat_digits_is_digit Let_def)

lemma itoa_inject: "itoa m = itoa n \<Longrightarrow> m = n"
proof -
  assume eq: "itoa m = itoa n"
  have "nat \<bar>m\<bar> = nat \<bar>n\<bar>"
    using arg_cong [OF eq, of unsigned_part] digits_val_nat_digits
    by (metis unsigned_part_itoa)
  moreover have "m < 0 \<longleftrightarrow> n < 0" using eq hd_itoa by metis
  ultimately show "m = n" by linarith
qed

lemma set_itoa: "c \<in> set (itoa n) \<Longrightarrow> is_digit c \<or> c = CHR ''-''"
  using nat_digits_is_digit by (auto simp: itoa_def list_all_iff split: if_splits)

lemma itoa_no_mark [simp]:
  "CHR '';'' \<notin> set (itoa n)" "CHR '':'' \<notin> set (itoa n)" "CHR 0x00 \<notin> set (itoa n)"
  "CHR ''n'' \<notin> set (itoa n)"
  using set_itoa by fastforce+

section \<open>Interfaces\<close>

subsection \<open>Closed vocabularies\<close>

text \<open>
  A configuration vocabulary is a printer and a parser over a set of legal values. The
  source writes each as a \<open>String\<close> method and a \<open>Parse...\<close> function; the laws below are
  what makes a token of the file, of the log and of the value name the same thing.
\<close>

locale token_codec =
  fixes render :: "'a \<Rightarrow> string" and parse :: "string \<Rightarrow> 'a result" and legal :: "'a \<Rightarrow> bool"
  assumes parse_render: "legal x \<Longrightarrow> parse (render x) = Inr x"
    and render_parse: "parse s = Inr x \<Longrightarrow> legal x \<and> render x = s"
begin

lemma parse_iff: "parse s = Inr x \<longleftrightarrow> legal x \<and> render x = s"
  using parse_render render_parse by auto

lemma render_inject: "legal x \<Longrightarrow> legal y \<Longrightarrow> render x = render y \<Longrightarrow> x = y"
  using parse_render by (metis sum.inject(2))

lemma parse_rejects: "(\<exists>e. parse s = Inl e) \<longleftrightarrow> s \<notin> render ` {x. legal x}"
  by (cases "parse s") (auto simp: parse_render dest: render_parse)

end

subsection \<open>Self-delimiting encoders\<close>

text \<open>
  An encoder is self-delimiting when its output can be cut off a longer text in one way
  only. Concatenations of such encodings are unambiguous, which is what the policy hash and
  the credential pool key rely on before they digest anything.
\<close>

locale self_delimiting =
  fixes enc :: "'a \<Rightarrow> 'c list" and ok :: "'a \<Rightarrow> bool"
  assumes cut: "ok x \<Longrightarrow> ok y \<Longrightarrow> enc x @ r = enc y @ s \<Longrightarrow> x = y \<and> r = s"
begin

lemma cut_iff: "ok x \<Longrightarrow> ok y \<Longrightarrow> enc x @ r = enc y @ s \<longleftrightarrow> x = y \<and> r = s"
proof (rule iffI)
  show "x = y \<and> r = s" if "ok x" "ok y" "enc x @ r = enc y @ s" using that by (rule cut)
qed simp

lemma enc_inject: "ok x \<Longrightarrow> ok y \<Longrightarrow> enc x = enc y \<Longrightarrow> x = y"
  using cut [of x y "[]" "[]"] by simp

lemma concat_cut:
  "list_all ok xs \<Longrightarrow> list_all ok ys \<Longrightarrow> length xs = length ys \<Longrightarrow>
   concat (map enc xs) @ r = concat (map enc ys) @ s \<Longrightarrow> xs = ys \<and> r = s"
proof (induction xs arbitrary: ys)
  case Nil
  then show ?case by simp
next
  case (Cons x xs)
  then obtain y zs where ys: "ys = y # zs" by (cases ys) auto
  with Cons.prems have "enc x @ (concat (map enc xs) @ r) = enc y @ (concat (map enc zs) @ s)"
    by simp
  with Cons.prems ys have "x = y" and "concat (map enc xs) @ r = concat (map enc zs) @ s"
    using cut by (auto simp del: append_assoc)
  with Cons ys show ?case by auto
qed

end

subsection \<open>Checked steps\<close>

text \<open>
  A sequence of fallible steps each of which keeps an invariant: the shape of the override
  layers that are merged one after the other onto a policy.
\<close>

locale checked_steps =
  fixes step :: "'x \<Rightarrow> 's \<Rightarrow> 's result" and ok :: "'s \<Rightarrow> bool"
  assumes step_ok: "ok s \<Longrightarrow> step x s = Inr s' \<Longrightarrow> ok s'"
begin

lemma run_ok: "ok s \<Longrightarrow> fold_result step xs s = Inr s' \<Longrightarrow> ok s'"
  by (induction xs arbitrary: s) (auto dest: step_ok split: sum.splits)

end

subsection \<open>Separators\<close>

text \<open>The cut at a separator that does not occur in the text before it.\<close>

lemma sep_cut:
  "c \<notin> set xs \<Longrightarrow> c \<notin> set ys \<Longrightarrow> xs @ c # r = ys @ c # s \<Longrightarrow> xs = ys \<and> r = s"
proof (induction xs arbitrary: ys)
  case Nil
  then show ?case by (cases ys) auto
next
  case (Cons x xs)
  then show ?case by (cases ys) auto
qed

section \<open>Rounding\<close>

lemma round_half_even_bounds: "\<lfloor>y\<rfloor> \<le> round_half_even y \<and> round_half_even y \<le> \<lceil>y\<rceil>"
proof -
  have "\<lfloor>y\<rfloor> + 1 \<le> \<lceil>y\<rceil>" if "y - of_int \<lfloor>y\<rfloor> > 0"
    using that by linarith
  then show ?thesis
    by (auto simp: round_half_even_def Let_def intro: floor_le_ceiling)
qed

lemma round_half_even_abs_le: "\<bar>y\<bar> \<le> of_int n \<Longrightarrow> \<bar>round_half_even y\<bar> \<le> n"
proof -
  assume "\<bar>y\<bar> \<le> of_int n"
  then have "\<lceil>y\<rceil> \<le> n" and "- n \<le> \<lfloor>y\<rfloor>"
    by (simp_all add: ceiling_le_iff le_floor_iff)
  then show ?thesis using round_half_even_bounds [of y] by linarith
qed

lemma bit_length_bounds: "0 < n \<Longrightarrow> 2 ^ (bit_length n - 1) \<le> n \<and> n < 2 ^ bit_length n \<and> 0 < bit_length n"
proof (induction n rule: bit_length.induct)
  case (1 n)
  show ?case
  proof (cases "n = 1")
    case True
    then show ?thesis by (simp add: bit_length.simps)
  next
    case False
    with "1" have IH: "2 ^ (bit_length (n div 2) - 1) \<le> n div 2 \<and> n div 2 < 2 ^ bit_length (n div 2)
      \<and> 0 < bit_length (n div 2)" and step: "bit_length n = Suc (bit_length (n div 2))"
      by (auto simp: bit_length.simps [of n])
    from IH obtain k where "bit_length (n div 2) = Suc k" by (cases "bit_length (n div 2)") auto
    with IH step show ?thesis by auto
  qed
qed

lemma f64_exponent_bound:
  assumes "x \<noteq> 0"
  shows "f64_exponent x = - 1074 \<or> 2 ^ 52 * 2 powi (f64_exponent x) \<le> \<bar>x\<bar>"
proof -
  obtain p q where pq: "quotient_of \<bar>x\<bar> = (p, q)" by (cases "quotient_of \<bar>x\<bar>")
  then have x: "\<bar>x\<bar> = of_int p / of_int q" and q: "0 < q"
    by (rule quotient_of_div, rule quotient_of_denom_pos)
  with assms have p: "0 < p"
    by (metis abs_eq_0 abs_ge_zero divide_eq_0_iff div_0 linorder_neqE_linordered_idom
        not_less of_int_0 of_int_0_less_iff order_le_less zero_less_divide_iff)
  define bp bq where "bp = bit_length (nat p)" and "bq = bit_length (nat q)"
  define e where "e = int bp - int bq - 53"
  have bp: "2 ^ (bp - 1) \<le> nat p" "0 < bp" and bq: "nat q < 2 ^ bq"
    using p q bit_length_bounds [of "nat p"] bit_length_bounds [of "nat q"]
    by (simp_all add: bp_def bq_def)
  have "(2::rat) ^ (bp - 1) = of_nat (2 ^ (bp - 1))" by simp
  also have "\<dots> \<le> of_nat (nat p)" using bp(1) by (simp only: of_nat_le_iff)
  also have "\<dots> = of_int p" using p by simp
  finally have lo: "(2::rat) ^ (bp - 1) \<le> of_int p" .
  have "(of_int q :: rat) = of_nat (nat q)" using q by simp
  also have "\<dots> \<le> of_nat (2 ^ bq)" using bq by (simp only: of_nat_le_iff less_imp_le)
  finally have hi: "(of_int q :: rat) \<le> 2 ^ bq" by simp
  have "2 ^ 52 * 2 powi e = (2::rat) powi (int (bp - 1) - int bq)"
  proof -
    have "int (bp - 1) - int bq = 52 + e" using bp(2) by (simp add: e_def of_nat_diff)
    then show ?thesis by (simp only: power_int_add) (simp add: power_int_add)
  qed
  also have "\<dots> = 2 ^ (bp - 1) / 2 ^ bq" by (simp add: power_int_diff)
  also have "\<dots> \<le> of_int p / of_int q" using lo hi q p by (intro frac_le) auto
  finally have low: "2 ^ 52 * 2 powi e \<le> \<bar>x\<bar>" using x by simp
  show ?thesis
  proof (cases "\<bar>x\<bar> < 2 ^ 53 * 2 powi e")
    case True
    then have "f64_exponent x = max (- 1074) e"
      by (simp add: f64_exponent_def pq e_def bp_def bq_def)
    with low show ?thesis by (auto simp: max_def)
  next
    case False
    then have "f64_exponent x = max (- 1074) (e + 1)"
      by (simp add: f64_exponent_def pq e_def bp_def bq_def)
    moreover have "2 ^ 52 * 2 powi (e + 1) \<le> \<bar>x\<bar>"
      using False by (simp add: power_int_add)
    ultimately show ?thesis by (auto simp: max_def)
  qed
qed

lemma f64_exponent_nonpos:
  assumes "x \<noteq> 0" and "\<bar>x\<bar> < 2 ^ 53"
  shows "f64_exponent x \<le> 0"
proof (rule ccontr)
  assume "\<not> f64_exponent x \<le> 0"
  then have "2 ^ 52 * 2 powi (f64_exponent x) \<le> \<bar>x\<bar>" and "1 \<le> f64_exponent x"
    using f64_exponent_bound [OF assms(1)] by auto
  moreover from \<open>1 \<le> f64_exponent x\<close> have "(2::rat) powi 1 \<le> 2 powi (f64_exponent x)"
    by (intro power_int_increasing) auto
  ultimately show False using assms(2) by simp
qed

text \<open>
  Rounding never passes an integer bound that \<open>float64\<close> represents exactly. This is all the
  jitter computation needs of IEEE arithmetic.
\<close>

lemma f64_round_val_abs_le:
  assumes "\<bar>x\<bar> \<le> of_int b" and "b < 2 ^ 53"
  shows "\<bar>f64_round_val x\<bar> \<le> of_int b"
proof (cases "x = 0")
  case True
  with assms(1) show ?thesis by (simp add: f64_round_val_def)
next
  case False
  have "(of_int b :: rat) < 2 ^ 53"
    using assms(2) by (metis of_int_less_iff of_int_numeral of_int_power)
  with assms(1) False have e: "f64_exponent x \<le> 0"
    by (intro f64_exponent_nonpos) auto
  define k where "k = nat (- f64_exponent x)"
  define u :: rat where "u = 2 powi (f64_exponent x)"
  have u: "u = 1 / 2 ^ k" "0 < u"
    using e by (simp_all add: u_def k_def power_int_def inverse_eq_divide power_one_over)
  have "\<bar>x / u\<bar> \<le> of_int (b * 2 ^ k)"
    using assms(1) u by (simp add: abs_mult)
  then have "\<bar>round_half_even (x / u)\<bar> \<le> b * 2 ^ k"
    by (rule round_half_even_abs_le)
  then have "\<bar>of_int (round_half_even (x / u))\<bar> \<le> (of_int (b * 2 ^ k) :: rat)"
    by (metis of_int_abs of_int_le_iff)
  then have "\<bar>of_int (round_half_even (x / u))\<bar> * u \<le> of_int (b * 2 ^ k) * u"
    using u(2) by (intro mult_right_mono) auto
  also have "\<dots> = of_int b" using u(1) by simp
  finally have "\<bar>of_int (round_half_even (x / u)) * u\<bar> \<le> of_int b"
    using u(2) by (simp add: abs_mult)
  with False show ?thesis by (simp add: f64_round_val_def u_def Let_def)
qed

lemma f64_round_bounded:
  assumes "\<bar>x\<bar> \<le> of_int b" and "b < 2 ^ 53"
  shows "\<exists>r. f64_round x = F64 r \<and> \<bar>r\<bar> \<le> of_int b"
proof -
  have r: "\<bar>f64_round_val x\<bar> \<le> of_int b" by (rule f64_round_val_abs_le [OF assms])
  have "(of_int b :: rat) < 2 ^ 53"
    using assms(2) by (metis of_int_less_iff of_int_numeral of_int_power)
  also have "(2 ^ 53 :: rat) \<le> 2 ^ 1024" by (rule power_increasing) auto
  finally have "\<not> 2 ^ 1024 \<le> \<bar>f64_round_val x\<bar>" using r by linarith
  with r show ?thesis unfolding f64_round_def Let_def by (metis (full_types))
qed

lemma rat_trunc_abs_le: "\<bar>x\<bar> \<le> of_int b \<Longrightarrow> \<bar>rat_trunc x\<bar> \<le> b"
  by (auto simp: rat_trunc_def abs_le_iff floor_le_iff le_floor_iff; linarith)

end
