(* ===== verification/Recovery_Failure.thy ===== *)
theory Recovery_Failure
  imports Prelude
begin

text \<open>
  \<open>internal/recovery/action.go\<close> and \<open>internal/recovery/failure.go\<close>: the three actions of
  the matrix, the layers a failure can come from, the closed cause vocabularies, and the
  observation that is the matrix's only input.
\<close>

section \<open>Actions\<close>

datatype Action = ActionTerminal | ActionFallback | ActionRetry

fun Action_String :: "Action \<Rightarrow> string" where
  "Action_String ActionRetry = ''retry''"
| "Action_String ActionFallback = ''fallback''"
| "Action_String ActionTerminal = ''terminal''"

definition ParseAction :: "string \<Rightarrow> Action result" where
  "ParseAction s =
     (if s = ''terminal'' then Inr ActionTerminal
      else if s = ''fallback'' then Inr ActionFallback
      else if s = ''retry'' then Inr ActionRetry
      else Inl (Err ''action must be one of retry, fallback, terminal''))"

definition errActionNotAllowed :: "string \<Rightarrow> string \<Rightarrow> go_error" where
  "errActionNotAllowed position allowed = Err (position @ '' must be '' @ allowed)"

section \<open>Failure layers\<close>

datatype FailureClass =
  FailureAny | FailureHTTP | FailureTransport | FailureProtocol | FailureCaller | FailureCredential

fun FailureClass_String :: "FailureClass \<Rightarrow> string" where
  "FailureClass_String FailureHTTP = ''http''"
| "FailureClass_String FailureTransport = ''transport''"
| "FailureClass_String FailureProtocol = ''protocol''"
| "FailureClass_String FailureCaller = ''caller''"
| "FailureClass_String FailureCredential = ''credential''"
| "FailureClass_String FailureAny = ''any''"

definition ParseFailureClass :: "string \<Rightarrow> FailureClass result" where
  "ParseFailureClass s =
     (if s = ''http'' then Inr FailureHTTP
      else if s = ''transport'' then Inr FailureTransport
      else if s = ''protocol'' then Inr FailureProtocol
      else if s = ''caller'' then Inr FailureCaller
      else if s = ''credential'' then Inr FailureCredential
      else Inl (Err ''failure must be one of http, transport, protocol, caller, credential''))"

text \<open>The value of the constant: Go's \<open>iota\<close> order.\<close>

fun FailureClass_num :: "FailureClass \<Rightarrow> nat" where
  "FailureClass_num FailureAny = 0"
| "FailureClass_num FailureHTTP = 1"
| "FailureClass_num FailureTransport = 2"
| "FailureClass_num FailureProtocol = 3"
| "FailureClass_num FailureCaller = 4"
| "FailureClass_num FailureCredential = 5"

section \<open>HTTP status buckets\<close>

datatype StatusClass =
  StatusClassNone | StatusClass1xx | StatusClass2xx | StatusClass3xx | StatusClass4xx | StatusClass5xx

fun StatusClass_String :: "StatusClass \<Rightarrow> string" where
  "StatusClass_String StatusClass1xx = ''1xx''"
| "StatusClass_String StatusClass2xx = ''2xx''"
| "StatusClass_String StatusClass3xx = ''3xx''"
| "StatusClass_String StatusClass4xx = ''4xx''"
| "StatusClass_String StatusClass5xx = ''5xx''"
| "StatusClass_String StatusClassNone = ''''"

definition ParseStatusClass :: "string \<Rightarrow> StatusClass result" where
  "ParseStatusClass s =
     (if s = ''1xx'' then Inr StatusClass1xx
      else if s = ''2xx'' then Inr StatusClass2xx
      else if s = ''3xx'' then Inr StatusClass3xx
      else if s = ''4xx'' then Inr StatusClass4xx
      else if s = ''5xx'' then Inr StatusClass5xx
      else Inl (Err ''status class must be one of 1xx, 2xx, 3xx, 4xx, 5xx''))"

fun StatusClass_num :: "StatusClass \<Rightarrow> nat" where
  "StatusClass_num StatusClassNone = 0"
| "StatusClass_num StatusClass1xx = 1"
| "StatusClass_num StatusClass2xx = 2"
| "StatusClass_num StatusClass3xx = 3"
| "StatusClass_num StatusClass4xx = 4"
| "StatusClass_num StatusClass5xx = 5"

definition StatusClassOf :: "int \<Rightarrow> StatusClass" where
  "StatusClassOf status =
     (if 100 \<le> status \<and> status < 200 then StatusClass1xx
      else if 200 \<le> status \<and> status < 300 then StatusClass2xx
      else if 300 \<le> status \<and> status < 400 then StatusClass3xx
      else if 400 \<le> status \<and> status < 500 then StatusClass4xx
      else if 500 \<le> status \<and> status \<le> 599 then StatusClass5xx
      else StatusClassNone)"

definition IsUpstreamError :: "int \<Rightarrow> bool" where
  "IsUpstreamError status \<longleftrightarrow> 400 \<le> status \<and> status \<le> 599"

section \<open>Transport failures\<close>

datatype TransportClass =
  TransportClassNone | TransportClassConnection | TransportClassTimeout
  | TransportClassProxyConnect | TransportClassProxyAuth

fun TransportClass_String :: "TransportClass \<Rightarrow> string" where
  "TransportClass_String TransportClassConnection = ''connection''"
| "TransportClass_String TransportClassTimeout = ''timeout''"
| "TransportClass_String TransportClassProxyConnect = ''proxy_connect''"
| "TransportClass_String TransportClassProxyAuth = ''proxy_auth''"
| "TransportClass_String TransportClassNone = ''''"

definition ParseTransportClass :: "string \<Rightarrow> TransportClass result" where
  "ParseTransportClass s =
     (if s = ''connection'' then Inr TransportClassConnection
      else if s = ''timeout'' then Inr TransportClassTimeout
      else if s = ''proxy_connect'' then Inr TransportClassProxyConnect
      else if s = ''proxy_auth'' then Inr TransportClassProxyAuth
      else Inl (Err ''transport class must be one of connection, timeout, proxy_connect, proxy_auth''))"

fun TransportClass_num :: "TransportClass \<Rightarrow> nat" where
  "TransportClass_num TransportClassNone = 0"
| "TransportClass_num TransportClassConnection = 1"
| "TransportClass_num TransportClassTimeout = 2"
| "TransportClass_num TransportClassProxyConnect = 3"
| "TransportClass_num TransportClassProxyAuth = 4"

abbreviation CauseConnectionRefused :: string where "CauseConnectionRefused \<equiv> ''connection_refused''"
abbreviation CauseTLS :: string where "CauseTLS \<equiv> ''tls''"
abbreviation CauseDial :: string where "CauseDial \<equiv> ''dial''"
abbreviation CauseNetworkTimeout :: string where "CauseNetworkTimeout \<equiv> ''network_timeout''"
abbreviation CauseDeadlineExceeded :: string where "CauseDeadlineExceeded \<equiv> ''deadline_exceeded''"
abbreviation CauseProxyConnect :: string where "CauseProxyConnect \<equiv> ''proxy_connect''"
abbreviation CauseProxyTimeout :: string where "CauseProxyTimeout \<equiv> ''proxy_timeout''"
abbreviation CauseProxyAuth :: string where "CauseProxyAuth \<equiv> ''proxy_auth''"
abbreviation CauseNoEligibleEndpoint :: string where "CauseNoEligibleEndpoint \<equiv> ''no_eligible_endpoint''"
abbreviation CauseExchangeBudget :: string where "CauseExchangeBudget \<equiv> ''exchange_budget''"

definition transportCauses :: "(string \<times> TransportClass) list" where
  "transportCauses =
     [(CauseConnectionRefused, TransportClassConnection),
      (CauseTLS, TransportClassConnection),
      (CauseDial, TransportClassConnection),
      (CauseNetworkTimeout, TransportClassTimeout),
      (CauseDeadlineExceeded, TransportClassTimeout),
      (CauseProxyConnect, TransportClassProxyConnect),
      (CauseProxyTimeout, TransportClassProxyConnect),
      (CauseProxyAuth, TransportClassProxyAuth),
      (CauseNoEligibleEndpoint, TransportClassConnection)]"

definition KnownTransportCause :: "string \<Rightarrow> bool" where
  "KnownTransportCause s \<longleftrightarrow> map_of transportCauses s \<noteq> None"

definition TransportClassOfCause :: "string \<Rightarrow> TransportClass" where
  "TransportClassOfCause s =
     (case map_of transportCauses s of Some c \<Rightarrow> c | None \<Rightarrow> TransportClassNone)"

section \<open>Protocol, caller and credential causes\<close>

abbreviation ProtocolInvalidResponse :: string where "ProtocolInvalidResponse \<equiv> ''invalid_response''"
abbreviation ProtocolOversizedResponse :: string where "ProtocolOversizedResponse \<equiv> ''oversized_response''"
abbreviation ProtocolBodyReadFailed :: string where "ProtocolBodyReadFailed \<equiv> ''body_read_failed''"
abbreviation ProtocolBodyTimeout :: string where "ProtocolBodyTimeout \<equiv> ''body_timeout''"
abbreviation CallerCanceled :: string where "CallerCanceled \<equiv> ''caller_canceled''"
abbreviation CallerDeadline :: string where "CallerDeadline \<equiv> ''caller_deadline_exceeded''"
abbreviation CredentialCooldown :: string where "CredentialCooldown \<equiv> ''cooldown''"

definition KnownProtocolCause :: "string \<Rightarrow> bool" where
  "KnownProtocolCause s \<longleftrightarrow>
     s \<in> {ProtocolInvalidResponse, ProtocolOversizedResponse, ProtocolBodyReadFailed, ProtocolBodyTimeout}"

definition KnownCredentialCause :: "string \<Rightarrow> bool" where
  "KnownCredentialCause s \<longleftrightarrow> s = CredentialCooldown"

definition KnownCallerCause :: "string \<Rightarrow> bool" where
  "KnownCallerCause s \<longleftrightarrow> s \<in> {CallerCanceled, CallerDeadline}"

section \<open>Observations\<close>

record Observation =
  o_Class :: FailureClass
  o_HTTPStatus :: int
  o_StatusClass :: StatusClass
  o_TransportClass :: TransportClass
  o_TransportCause :: string
  o_ProtocolCause :: string
  o_CallerCause :: string
  o_CredentialCause :: string
  o_ProviderErrorType :: string
  o_ProviderErrorCode :: string
  o_Streaming :: bool
  o_Committed :: bool
  o_CandidateIndex :: int
  o_CandidateAttempt :: int
  o_RetryIndex :: int
  o_Elapsed :: int
  o_RetryAfter :: duration
  o_CredentialReadyIn :: duration

text \<open>Go's zero value.\<close>

definition zeroObservation :: Observation where
  "zeroObservation =
     \<lparr>o_Class = FailureAny, o_HTTPStatus = 0, o_StatusClass = StatusClassNone,
      o_TransportClass = TransportClassNone, o_TransportCause = [], o_ProtocolCause = [],
      o_CallerCause = [], o_CredentialCause = [], o_ProviderErrorType = [], o_ProviderErrorCode = [],
      o_Streaming = False, o_Committed = False, o_CandidateIndex = 0, o_CandidateAttempt = 0,
      o_RetryIndex = 0, o_Elapsed = 0, o_RetryAfter = 0, o_CredentialReadyIn = 0\<rparr>"

definition protocolReason :: "string \<Rightarrow> string" where
  "protocolReason cause =
     (if cause = ProtocolBodyReadFailed then ''upstream_body_read_failed''
      else if cause = ProtocolBodyTimeout then ''upstream_body_timeout''
      else ''upstream_invalid_response'')"

definition Reason :: "Observation \<Rightarrow> string" where
  "Reason ob =
     (case o_Class ob of
        FailureHTTP \<Rightarrow>
          if o_HTTPStatus ob = 408 then ''http_408''
          else if o_HTTPStatus ob = 425 then ''http_425''
          else if o_HTTPStatus ob = 429 then ''http_429''
          else if 500 \<le> o_HTTPStatus ob \<and> o_HTTPStatus ob \<le> 599 then ''http_5xx''
          else ''http_'' @ itoa (o_HTTPStatus ob)
      | FailureTransport \<Rightarrow>
          if o_TransportCause ob \<noteq> [] then o_TransportCause ob else ''transport_error''
      | FailureProtocol \<Rightarrow> protocolReason (o_ProtocolCause ob)
      | FailureCaller \<Rightarrow> if o_CallerCause ob \<noteq> [] then o_CallerCause ob else ''caller_ended''
      | FailureCredential \<Rightarrow>
          if o_CredentialCause ob \<noteq> [] then ''credential_'' @ o_CredentialCause ob
          else ''credential_unavailable''
      | FailureAny \<Rightarrow> ''unknown'')"

section \<open>Facts\<close>

interpretation action_tokens: token_codec Action_String ParseAction "\<lambda>_. True"
proof unfold_locales
  show "ParseAction (Action_String x) = Inr x" for x
    by (cases x) (simp_all add: ParseAction_def)
  show "ParseAction s = Inr x \<Longrightarrow> True \<and> Action_String x = s" for s x
    by (auto simp: ParseAction_def split: if_splits)
qed

interpretation failure_tokens:
  token_codec FailureClass_String ParseFailureClass "\<lambda>c. c \<noteq> FailureAny"
proof unfold_locales
  show "x \<noteq> FailureAny \<Longrightarrow> ParseFailureClass (FailureClass_String x) = Inr x" for x
    by (cases x) (simp_all add: ParseFailureClass_def)
  show "ParseFailureClass s = Inr x \<Longrightarrow> x \<noteq> FailureAny \<and> FailureClass_String x = s" for s x
    by (auto simp: ParseFailureClass_def split: if_splits)
qed

interpretation status_tokens:
  token_codec StatusClass_String ParseStatusClass "\<lambda>c. c \<noteq> StatusClassNone"
proof unfold_locales
  show "x \<noteq> StatusClassNone \<Longrightarrow> ParseStatusClass (StatusClass_String x) = Inr x" for x
    by (cases x) (simp_all add: ParseStatusClass_def)
  show "ParseStatusClass s = Inr x \<Longrightarrow> x \<noteq> StatusClassNone \<and> StatusClass_String x = s" for s x
    by (auto simp: ParseStatusClass_def split: if_splits)
qed

interpretation transport_tokens:
  token_codec TransportClass_String ParseTransportClass "\<lambda>c. c \<noteq> TransportClassNone"
proof unfold_locales
  show "x \<noteq> TransportClassNone \<Longrightarrow> ParseTransportClass (TransportClass_String x) = Inr x" for x
    by (cases x) (simp_all add: ParseTransportClass_def)
  show "ParseTransportClass s = Inr x \<Longrightarrow> x \<noteq> TransportClassNone \<and> TransportClass_String x = s" for s x
    by (auto simp: ParseTransportClass_def split: if_splits)
qed

lemma FailureClass_num_inject [simp]: "FailureClass_num c = FailureClass_num c' \<longleftrightarrow> c = c'"
  by (cases c; cases c') simp_all

lemma StatusClass_num_inject [simp]: "StatusClass_num c = StatusClass_num c' \<longleftrightarrow> c = c'"
  by (cases c; cases c') simp_all

lemma TransportClass_num_inject [simp]: "TransportClass_num c = TransportClass_num c' \<longleftrightarrow> c = c'"
  by (cases c; cases c') simp_all

lemma StatusClassOf_upstream_error:
  "IsUpstreamError s \<longleftrightarrow> StatusClassOf s \<in> {StatusClass4xx, StatusClass5xx}"
  by (auto simp: IsUpstreamError_def StatusClassOf_def)

lemma StatusClassOf_none_iff: "StatusClassOf s = StatusClassNone \<longleftrightarrow> s < 100 \<or> 599 < s"
  by (auto simp: StatusClassOf_def)

lemma TransportClassOfCause_none_iff:
  "TransportClassOfCause s = TransportClassNone \<longleftrightarrow> \<not> KnownTransportCause s"
  by (auto simp: TransportClassOfCause_def KnownTransportCause_def transportCauses_def
      split: option.splits if_splits)

end
