(* ===== verification/Recovery_Rule.thy ===== *)
theory Recovery_Rule
  imports Recovery_Failure
begin

text \<open>
  \<open>internal/recovery/rule.go\<close> and \<open>internal/recovery/matrix.go\<close>: typed predicates over
  an observation, their precedence, the conservative overlap test, and the matrix that is
  built, validated, ordered and then read first-match-wins. The theorems show that a matrix
  that was built is unambiguous, that its decisions do not depend on the order the rules
  were written in, and what the validator accepts.
\<close>

unbundle bit_operations_syntax

section \<open>Matches\<close>

record Match =
  m_Class :: FailureClass
  m_Status :: int
  m_StatusClass :: StatusClass
  m_TransportClass :: TransportClass
  m_TransportCause :: string
  m_ProtocolCause :: string
  m_CallerCause :: string
  m_CredentialCause :: string
  m_ProviderErrorType :: string
  m_ProviderErrorCode :: string
  m_Streaming :: "bool option"
  m_CandidateIndex :: int
  m_RetryIndex :: "int option"

definition zeroMatch :: Match where
  "zeroMatch =
     \<lparr>m_Class = FailureAny, m_Status = 0, m_StatusClass = StatusClassNone,
      m_TransportClass = TransportClassNone, m_TransportCause = [], m_ProtocolCause = [],
      m_CallerCause = [], m_CredentialCause = [], m_ProviderErrorType = [], m_ProviderErrorCode = [],
      m_Streaming = None, m_CandidateIndex = 0, m_RetryIndex = None\<rparr>"

definition matches :: "Match \<Rightarrow> Observation \<Rightarrow> bool" where
  "matches m ob =
     (if m_Class m \<noteq> FailureAny \<and> m_Class m \<noteq> o_Class ob then False
      else if m_Status m \<noteq> 0 \<and> m_Status m \<noteq> o_HTTPStatus ob then False
      else if m_StatusClass m \<noteq> StatusClassNone \<and> m_StatusClass m \<noteq> o_StatusClass ob then False
      else if m_TransportClass m \<noteq> TransportClassNone \<and> m_TransportClass m \<noteq> o_TransportClass ob then False
      else if m_TransportCause m \<noteq> [] \<and> m_TransportCause m \<noteq> o_TransportCause ob then False
      else if m_ProtocolCause m \<noteq> [] \<and> m_ProtocolCause m \<noteq> o_ProtocolCause ob then False
      else if m_CallerCause m \<noteq> [] \<and> m_CallerCause m \<noteq> o_CallerCause ob then False
      else if m_CredentialCause m \<noteq> [] \<and> m_CredentialCause m \<noteq> o_CredentialCause ob then False
      else if m_ProviderErrorType m \<noteq> [] \<and> m_ProviderErrorType m \<noteq> o_ProviderErrorType ob then False
      else if m_ProviderErrorCode m \<noteq> [] \<and> m_ProviderErrorCode m \<noteq> o_ProviderErrorCode ob then False
      else if m_Streaming m \<noteq> None \<and> the (m_Streaming m) \<noteq> o_Streaming ob then False
      else if m_CandidateIndex m \<noteq> 0 \<and> m_CandidateIndex m \<noteq> o_CandidateIndex ob then False
      else if m_RetryIndex m \<noteq> None \<and> the (m_RetryIndex m) \<noteq> o_RetryIndex ob then False
      else True)"

definition Specificity :: "Match \<Rightarrow> int" where
  "Specificity m =
     (if m_Status m \<noteq> 0 then push_bit 4 1 else 0)
     OR (if m_ProviderErrorType m \<noteq> [] \<or> m_ProviderErrorCode m \<noteq> [] then push_bit 3 1 else 0)
     OR (if m_StatusClass m \<noteq> StatusClassNone then push_bit 2 1 else 0)
     OR (if m_TransportCause m \<noteq> [] \<or> m_ProtocolCause m \<noteq> [] \<or> m_CallerCause m \<noteq> []
            \<or> m_CredentialCause m \<noteq> [] then push_bit 1 1 else 0)
     OR (if m_Class m \<noteq> FailureAny \<or> m_TransportClass m \<noteq> TransportClassNone then 1 else 0)"

definition classSet :: "Match \<Rightarrow> 8 word" where
  "classSet m =
     (if m_Class m \<noteq> FailureAny then push_bit (FailureClass_num (m_Class m)) 1
      else
        let s = (if m_Status m \<noteq> 0 \<or> m_StatusClass m \<noteq> StatusClassNone
                 then push_bit (FailureClass_num FailureHTTP) 1 else 0)
              OR (if m_TransportClass m \<noteq> TransportClassNone \<or> m_TransportCause m \<noteq> []
                  then push_bit (FailureClass_num FailureTransport) 1 else 0)
              OR (if m_ProtocolCause m \<noteq> [] then push_bit (FailureClass_num FailureProtocol) 1 else 0)
              OR (if m_CallerCause m \<noteq> [] then push_bit (FailureClass_num FailureCaller) 1 else 0)
              OR (if m_CredentialCause m \<noteq> [] then push_bit (FailureClass_num FailureCredential) 1 else 0)
        in if s = 0 then 0xff else s)"

definition overlaps :: "Match \<Rightarrow> Match \<Rightarrow> bool" where
  "overlaps m n =
     (if classSet m AND classSet n = 0 then False
      else if m_Status m \<noteq> 0 \<and> m_Status n \<noteq> 0 \<and> m_Status m \<noteq> m_Status n then False
      else if m_StatusClass m \<noteq> StatusClassNone \<and> m_StatusClass n \<noteq> StatusClassNone
              \<and> m_StatusClass m \<noteq> m_StatusClass n then False
      else if m_Status m \<noteq> 0 \<and> m_StatusClass n \<noteq> StatusClassNone
              \<and> StatusClassOf (m_Status m) \<noteq> m_StatusClass n then False
      else if m_Status n \<noteq> 0 \<and> m_StatusClass m \<noteq> StatusClassNone
              \<and> StatusClassOf (m_Status n) \<noteq> m_StatusClass m then False
      else if m_TransportClass m \<noteq> TransportClassNone \<and> m_TransportClass n \<noteq> TransportClassNone
              \<and> m_TransportClass m \<noteq> m_TransportClass n then False
      else if m_TransportCause m \<noteq> [] \<and> m_TransportClass n \<noteq> TransportClassNone
              \<and> TransportClassOfCause (m_TransportCause m) \<noteq> m_TransportClass n then False
      else if m_TransportCause n \<noteq> [] \<and> m_TransportClass m \<noteq> TransportClassNone
              \<and> TransportClassOfCause (m_TransportCause n) \<noteq> m_TransportClass m then False
      else if m_ProviderErrorType m \<noteq> [] \<and> m_ProviderErrorType n \<noteq> []
              \<and> m_ProviderErrorType m \<noteq> m_ProviderErrorType n then False
      else if m_ProviderErrorCode m \<noteq> [] \<and> m_ProviderErrorCode n \<noteq> []
              \<and> m_ProviderErrorCode m \<noteq> m_ProviderErrorCode n then False
      else if m_Streaming m \<noteq> None \<and> m_Streaming n \<noteq> None
              \<and> the (m_Streaming m) \<noteq> the (m_Streaming n) then False
      else if m_CandidateIndex m \<noteq> 0 \<and> m_CandidateIndex n \<noteq> 0
              \<and> m_CandidateIndex m \<noteq> m_CandidateIndex n then False
      else if m_RetryIndex m \<noteq> None \<and> m_RetryIndex n \<noteq> None
              \<and> the (m_RetryIndex m) \<noteq> the (m_RetryIndex n) then False
      else if m_TransportCause m \<noteq> [] \<and> m_TransportCause n \<noteq> []
              \<and> m_TransportCause m \<noteq> m_TransportCause n then False
      else if m_ProtocolCause m \<noteq> [] \<and> m_ProtocolCause n \<noteq> []
              \<and> m_ProtocolCause m \<noteq> m_ProtocolCause n then False
      else if m_CallerCause m \<noteq> [] \<and> m_CallerCause n \<noteq> []
              \<and> m_CallerCause m \<noteq> m_CallerCause n then False
      else if m_CredentialCause m \<noteq> [] \<and> m_CredentialCause n \<noteq> []
              \<and> m_CredentialCause m \<noteq> m_CredentialCause n then False
      else True)"

section \<open>Rules and their identities\<close>

record Rule =
  r_ID :: string
  r_Match :: Match
  r_Action :: Action

abbreviation maxRuleIDBytes :: nat where "maxRuleIDBytes \<equiv> 64"
abbreviation ReservedRuleID :: string where "ReservedRuleID \<equiv> ''default''"

definition ruleIDByte :: "char \<Rightarrow> bool" where
  "ruleIDByte c \<longleftrightarrow>
     (CHR ''a'' \<le> c \<and> c \<le> CHR ''z'') \<or> (CHR ''A'' \<le> c \<and> c \<le> CHR ''Z'')
     \<or> (CHR ''0'' \<le> c \<and> c \<le> CHR ''9'') \<or> c = CHR ''-'' \<or> c = CHR ''_'' \<or> c = CHR ''.''"

definition ValidateRuleID :: "string \<Rightarrow> unit result" where
  "ValidateRuleID i =
     (if i = [] then Inl (Err ''rule id must not be empty'')
      else if length i > maxRuleIDBytes then Inl (Err ''rule id is too long'')
      else if i = ReservedRuleID
      then Inl (Err ''rule id \"default\" is reserved for the policy's default action'')
      else if \<not> list_all ruleIDByte i
      then Inl (Err (''rule id may contain only letters, digits, '-', '_' and '.'' @ [CHR 0x27]))
      else Inr ())"

definition StatusRuleID :: "int \<Rightarrow> string" where
  "StatusRuleID status = ''http-'' @ itoa status"

definition StatusClassRuleID :: "StatusClass \<Rightarrow> string" where
  "StatusClassRuleID c = ''http-class-'' @ StatusClass_String c"

definition TransportClassRuleID :: "TransportClass \<Rightarrow> string" where
  "TransportClassRuleID c = ''transport-class-'' @ TransportClass_String c"

definition TransportCauseRuleID :: "string \<Rightarrow> string" where
  "TransportCauseRuleID cause = ''transport-cause-'' @ cause"

definition ProtocolRuleID :: "string \<Rightarrow> string" where
  "ProtocolRuleID cause = ''protocol-'' @ cause"

definition CallerRuleID :: "string \<Rightarrow> string" where
  "CallerRuleID cause =
     (if cause = CallerCanceled then ''caller-canceled''
      else if cause = CallerDeadline then ''caller-deadline''
      else ''caller-'' @ map (\<lambda>c. if c = CHR ''_'' then CHR ''-'' else c) cause)"

definition CredentialCauseRuleID :: "string \<Rightarrow> string" where
  "CredentialCauseRuleID cause = ''credential-'' @ cause"

text \<open>
  \<open>sort.Slice\<close> under the comparison "greater precedence key first, then smaller identity".
  The sort is by the pair of the negated key and the identity; Go compares strings
  bytewise, as the lexicographic order on \<open>string\<close> does.
\<close>

definition rule_key :: "Rule \<Rightarrow> int \<times> string" where
  "rule_key r = (- Specificity (r_Match r), r_ID r)"

definition sortRules :: "Rule list \<Rightarrow> Rule list" where
  "sortRules rules = sort_key rule_key rules"

section \<open>The matrix\<close>

record Matrix =
  mx_rules :: "Rule list"
  mx_def :: Action

text \<open>\<open>Match.validate\<close>: the predicates of one rule must come from one failure layer.\<close>

definition count_true :: "bool list \<Rightarrow> nat" where
  "count_true bs = length (filter id bs)"

definition validate :: "Match \<Rightarrow> unit result" where
  "validate m =
     (let kinds = count_true [m_TransportCause m \<noteq> [], m_ProtocolCause m \<noteq> [],
                              m_CallerCause m \<noteq> [], m_CredentialCause m \<noteq> []];
          http = (m_Status m \<noteq> 0 \<or> m_StatusClass m \<noteq> StatusClassNone
                  \<or> m_ProviderErrorType m \<noteq> [] \<or> m_ProviderErrorCode m \<noteq> []);
          transport = (m_TransportClass m \<noteq> TransportClassNone \<or> m_TransportCause m \<noteq> []);
          protocol = (m_ProtocolCause m \<noteq> []);
          caller = (m_CallerCause m \<noteq> []);
          credential = (m_CredentialCause m \<noteq> []);
          layers = count_true [http, transport, protocol, caller, credential]
      in
        if kinds > 1
        then Inl (errActionNotAllowed ''a rule constraining more than one cause kind'' ''a single cause kind'')
        else if m_Status m \<noteq> 0 \<and> m_StatusClass m \<noteq> StatusClassNone
                \<and> StatusClassOf (m_Status m) \<noteq> m_StatusClass m
        then Inl (errActionNotAllowed ''a rule whose status and status class'' ''consistent with each other'')
        else if m_Status m \<noteq> 0 \<and> (m_Status m < 100 \<or> m_Status m > 599)
        then Inl (errActionNotAllowed ''a rule's status'' ''an HTTP status between 100 and 599'')
        else if layers > 1
        then Inl (errActionNotAllowed ''a rule mixing predicates from more than one failure layer''
                    ''predicates from a single layer'')
        else if m_Class m = FailureAny then Inr ()
        else if m_Class m \<noteq> FailureHTTP \<and> http
        then Inl (errActionNotAllowed ''a rule's failure class and its HTTP predicates'' ''the same layer'')
        else if m_Class m \<noteq> FailureTransport \<and> transport
        then Inl (errActionNotAllowed ''a rule's failure class and its transport predicates'' ''the same layer'')
        else if m_Class m \<noteq> FailureProtocol \<and> protocol
        then Inl (errActionNotAllowed ''a rule's failure class and its protocol predicate'' ''the same layer'')
        else if m_Class m \<noteq> FailureCaller \<and> caller
        then Inl (errActionNotAllowed ''a rule's failure class and its caller predicate'' ''the same layer'')
        else if m_Class m \<noteq> FailureCredential \<and> credential
        then Inl (errActionNotAllowed ''a rule's failure class and its credential predicate'' ''the same layer'')
        else Inr ())"

definition validateRuleAction :: "Rule \<Rightarrow> unit result" where
  "validateRuleAction r =
     (if (m_Class (r_Match r) = FailureCaller \<or> m_CallerCause (r_Match r) \<noteq> [])
         \<and> r_Action r \<noteq> ActionTerminal
      then Inl (errActionNotAllowed ''a caller rule'' ''terminal'')
      else Inr ())"

text \<open>
  The first loop of \<open>NewMatrix\<close>: \<open>i\<close> is the rule's index, \<open>seen\<close> the identities met so
  far with their indexes.
\<close>

fun check_rules :: "int \<Rightarrow> (string \<rightharpoonup> int) \<Rightarrow> Rule list \<Rightarrow> unit result" where
  "check_rules i seen [] = Inr ()"
| "check_rules i seen (r # rs) =
     (case ValidateRuleID (r_ID r) of
        Inl e \<Rightarrow> Inl (Wrap (''rule '' @ itoa (i + 1)) e)
      | Inr _ \<Rightarrow>
          (case seen (r_ID r) of
             Some prev \<Rightarrow>
               Inl (Err (''rule '' @ itoa (i + 1) @ '' repeats the identity of rule '' @ itoa (prev + 1)))
           | None \<Rightarrow>
               (case validate (r_Match r) of
                  Inl e \<Rightarrow> Inl (Wrap (''rule '' @ itoa (i + 1)) e)
                | Inr _ \<Rightarrow>
                    (case validateRuleAction r of
                       Inl e \<Rightarrow> Inl (Wrap (''rule '' @ itoa (i + 1)) e)
                     | Inr _ \<Rightarrow> check_rules (i + 1) (seen(r_ID r \<mapsto> i)) rs))))"

text \<open>The second loop: the pairs \<open>i < j\<close> in the order given.\<close>

definition conflict :: "Rule \<Rightarrow> Rule \<Rightarrow> bool" where
  "conflict r q \<longleftrightarrow>
     Specificity (r_Match r) = Specificity (r_Match q) \<and> overlaps (r_Match r) (r_Match q)"

fun check_against :: "int \<Rightarrow> Rule \<Rightarrow> int \<Rightarrow> Rule list \<Rightarrow> unit result" where
  "check_against i r j [] = Inr ()"
| "check_against i r j (q # qs) =
     (if conflict r q
      then Inl (Err (''rules '' @ itoa (i + 1) @ '' and '' @ itoa (j + 1)
                     @ '' have equal precedence and can both match the same failure''))
      else check_against i r (j + 1) qs)"

fun check_pairs :: "int \<Rightarrow> Rule list \<Rightarrow> unit result" where
  "check_pairs i [] = Inr ()"
| "check_pairs i (r # rs) =
     (case check_against i r (i + 1) rs of Inl e \<Rightarrow> Inl e | Inr _ \<Rightarrow> check_pairs (i + 1) rs)"

definition NewMatrix :: "Rule list \<Rightarrow> Action \<Rightarrow> Matrix result" where
  "NewMatrix rules d =
     (case check_rules 0 Map.empty rules of
        Inl e \<Rightarrow> Inl e
      | Inr _ \<Rightarrow>
          (case check_pairs 0 rules of
             Inl e \<Rightarrow> Inl e
           | Inr _ \<Rightarrow> Inr \<lparr>mx_rules = sortRules rules, mx_def = d\<rparr>))"

fun match_rules :: "Rule list \<Rightarrow> Action \<Rightarrow> Observation \<Rightarrow> Action \<times> string" where
  "match_rules [] d ob = (d, ReservedRuleID)"
| "match_rules (r # rs) d ob =
     (if matches (r_Match r) ob then (r_Action r, r_ID r) else match_rules rs d ob)"

definition Matrix_Match :: "Matrix \<Rightarrow> Observation \<Rightarrow> Action \<times> string" where
  "Matrix_Match m ob = match_rules (mx_rules m) (mx_def m) ob"

definition Matrix_Default :: "Matrix \<Rightarrow> Action" where
  "Matrix_Default m = mx_def m"

definition Matrix_Rules :: "Matrix \<Rightarrow> Rule list" where
  "Matrix_Rules m = mx_rules m"

section \<open>Specification vocabulary\<close>

text \<open>
  What the handler guarantees of every observation it builds: the two buckets are derived
  from the status and the cause, and each predicate input belongs to exactly one layer.
\<close>

definition wf_obs :: "Observation \<Rightarrow> bool" where
  "wf_obs ob \<longleftrightarrow>
     o_StatusClass ob = StatusClassOf (o_HTTPStatus ob)
     \<and> o_TransportClass ob = TransportClassOfCause (o_TransportCause ob)
     \<and> (o_HTTPStatus ob = 0 \<or> 100 \<le> o_HTTPStatus ob \<and> o_HTTPStatus ob \<le> 599)
     \<and> (o_HTTPStatus ob \<noteq> 0 \<or> o_ProviderErrorType ob \<noteq> [] \<or> o_ProviderErrorCode ob \<noteq> []
          \<longrightarrow> o_Class ob = FailureHTTP)
     \<and> (o_TransportCause ob \<noteq> [] \<longrightarrow> o_Class ob = FailureTransport)
     \<and> (o_ProtocolCause ob \<noteq> [] \<longrightarrow> o_Class ob = FailureProtocol)
     \<and> (o_CallerCause ob \<noteq> [] \<longrightarrow> o_Class ob = FailureCaller)
     \<and> (o_CredentialCause ob \<noteq> [] \<longrightarrow> o_Class ob = FailureCredential)"

text \<open>
  One predicate of a match selects a value (\<open>sel\<close>), two matches agree on a predicate
  (\<open>agree\<close>), and a fine predicate fits a coarse one (\<open>fits\<close>); \<open>z\<close> is the zero value that
  constrains nothing.
\<close>

definition sel :: "'a \<Rightarrow> 'a \<Rightarrow> 'a \<Rightarrow> bool" where
  "sel z a c \<longleftrightarrow> a = z \<or> a = c"

definition agree :: "'a \<Rightarrow> 'a \<Rightarrow> 'a \<Rightarrow> bool" where
  "agree z a b \<longleftrightarrow> a = z \<or> b = z \<or> a = b"

definition fits :: "'a \<Rightarrow> ('a \<Rightarrow> 'b) \<Rightarrow> 'b \<Rightarrow> 'a \<Rightarrow> 'b \<Rightarrow> bool" where
  "fits z f w a b \<longleftrightarrow> a = z \<or> b = w \<or> f a = b"

text \<open>What \<open>NewMatrix\<close> accepts, and the observation that a satisfiable match is satisfied by.\<close>

definition rule_list_ok :: "Rule list \<Rightarrow> bool" where
  "rule_list_ok rs \<longleftrightarrow>
     (\<forall>r\<in>set rs. ValidateRuleID (r_ID r) = Inr () \<and> validate (r_Match r) = Inr ()
        \<and> validateRuleAction r = Inr ())
     \<and> distinct (map r_ID rs)
     \<and> (\<forall>r\<in>set rs. \<forall>q\<in>set rs. r \<noteq> q \<longrightarrow> \<not> conflict r q)"

definition consistent_transport :: "Match \<Rightarrow> bool" where
  "consistent_transport m \<longleftrightarrow>
     fits [] TransportClassOfCause TransportClassNone (m_TransportCause m) (m_TransportClass m)"

fun status_of_class :: "StatusClass \<Rightarrow> int" where
  "status_of_class c = 100 * int (StatusClass_num c)"

fun cause_of_class :: "TransportClass \<Rightarrow> string" where
  "cause_of_class TransportClassNone = []"
| "cause_of_class TransportClassConnection = CauseDial"
| "cause_of_class TransportClassTimeout = CauseNetworkTimeout"
| "cause_of_class TransportClassProxyConnect = CauseProxyConnect"
| "cause_of_class TransportClassProxyAuth = CauseProxyAuth"

definition sample_class :: "Match \<Rightarrow> FailureClass" where
  "sample_class m =
     (if m_Class m \<noteq> FailureAny then m_Class m
      else if m_Status m \<noteq> 0 \<or> m_StatusClass m \<noteq> StatusClassNone
              \<or> m_ProviderErrorType m \<noteq> [] \<or> m_ProviderErrorCode m \<noteq> [] then FailureHTTP
      else if m_TransportClass m \<noteq> TransportClassNone \<or> m_TransportCause m \<noteq> [] then FailureTransport
      else if m_ProtocolCause m \<noteq> [] then FailureProtocol
      else if m_CallerCause m \<noteq> [] then FailureCaller
      else if m_CredentialCause m \<noteq> [] then FailureCredential else FailureAny)"

definition sample_status :: "Match \<Rightarrow> int" where
  "sample_status m = (if m_Status m \<noteq> 0 then m_Status m else status_of_class (m_StatusClass m))"

definition sample_cause :: "Match \<Rightarrow> string" where
  "sample_cause m =
     (if m_TransportCause m \<noteq> [] then m_TransportCause m else cause_of_class (m_TransportClass m))"

definition sample :: "Match \<Rightarrow> Observation" where
  "sample m = zeroObservation
     \<lparr>o_Class := sample_class m,
      o_HTTPStatus := sample_status m, o_StatusClass := StatusClassOf (sample_status m),
      o_TransportCause := sample_cause m, o_TransportClass := TransportClassOfCause (sample_cause m),
      o_ProtocolCause := m_ProtocolCause m, o_CallerCause := m_CallerCause m,
      o_CredentialCause := m_CredentialCause m, o_ProviderErrorType := m_ProviderErrorType m,
      o_ProviderErrorCode := m_ProviderErrorCode m,
      o_Streaming := (case m_Streaming m of Some b \<Rightarrow> b | None \<Rightarrow> False),
      o_CandidateIndex := m_CandidateIndex m,
      o_RetryIndex := (case m_RetryIndex m of Some k \<Rightarrow> k | None \<Rightarrow> 0)\<rparr>"

definition named_layers :: "Match \<Rightarrow> (bool \<times> FailureClass) list" where
  "named_layers m =
     [(m_Status m \<noteq> 0 \<or> m_StatusClass m \<noteq> StatusClassNone \<or> m_ProviderErrorType m \<noteq> []
         \<or> m_ProviderErrorCode m \<noteq> [], FailureHTTP),
      (m_TransportClass m \<noteq> TransportClassNone \<or> m_TransportCause m \<noteq> [], FailureTransport),
      (m_ProtocolCause m \<noteq> [], FailureProtocol),
      (m_CallerCause m \<noteq> [], FailureCaller),
      (m_CredentialCause m \<noteq> [], FailureCredential)]"

text \<open>The documented precedence: exact status, provider error, status class, cause, class.\<close>

definition precedence :: "Match \<Rightarrow> bool list" where
  "precedence m =
     [m_Status m \<noteq> 0,
      m_ProviderErrorType m \<noteq> [] \<or> m_ProviderErrorCode m \<noteq> [],
      m_StatusClass m \<noteq> StatusClassNone,
      m_TransportCause m \<noteq> [] \<or> m_ProtocolCause m \<noteq> [] \<or> m_CallerCause m \<noteq> []
        \<or> m_CredentialCause m \<noteq> [],
      m_Class m \<noteq> FailureAny \<or> m_TransportClass m \<noteq> TransportClassNone]"

text \<open>A small matrix and an observation for the witnesses: the row of one status and its bucket.\<close>

definition ex_rules :: "Rule list" where
  "ex_rules =
     [\<lparr>r_ID = ''bucket'', r_Match = zeroMatch\<lparr>m_StatusClass := StatusClass4xx\<rparr>, r_Action = ActionTerminal\<rparr>,
      \<lparr>r_ID = ''exact'', r_Match = zeroMatch\<lparr>m_Status := 429\<rparr>, r_Action = ActionRetry\<rparr>]"

definition ex_obs :: Observation where
  "ex_obs = zeroObservation\<lparr>o_Class := FailureHTTP, o_HTTPStatus := 429,
     o_StatusClass := StatusClass4xx, o_CandidateIndex := 1, o_CandidateAttempt := 1\<rparr>"

section \<open>Facts\<close>

lemma agreeI: "sel z a c \<Longrightarrow> sel z b c \<Longrightarrow> agree z a b"
  by (auto simp: sel_def agree_def)

lemma fitsI: "sel z a c \<Longrightarrow> sel w b (f c) \<Longrightarrow> fits z f w a b"
  by (auto simp: sel_def fits_def)

lemma agree_commute: "agree z a b \<longleftrightarrow> agree z b a"
  by (auto simp: agree_def)

lemma if_False_else: "(if p then False else q) \<longleftrightarrow> \<not> p \<and> q"
  by simp

lemma sel_fold_option: "(\<not> (x \<noteq> None \<and> the x \<noteq> y)) \<longleftrightarrow> sel None x (Some y)"
  by (cases x) (auto simp: sel_def)

lemma sel_fold: "(\<not> (a \<noteq> z \<and> a \<noteq> c)) \<longleftrightarrow> sel z a c"
  by (auto simp: sel_def)

lemma agree_fold: "(\<not> (a \<noteq> z \<and> b \<noteq> z \<and> a \<noteq> b)) \<longleftrightarrow> agree z a b"
  by (auto simp: agree_def)

lemma agree_fold_option:
  "(\<not> (x \<noteq> None \<and> y \<noteq> None \<and> the x \<noteq> the y)) \<longleftrightarrow> agree None x y"
  by (cases x; cases y) (auto simp: agree_def)

lemma fits_fold: "(\<not> (a \<noteq> z \<and> d \<noteq> w \<and> f a \<noteq> d)) \<longleftrightarrow> fits z f w a d"
  by (auto simp: fits_def)

lemmas sel_folds = sel_fold sel_fold_option
lemmas agree_folds = agree_fold agree_fold_option fits_fold

lemma FailureClass_num_less [simp]: "FailureClass_num c < 8" "\<not> 8 \<le> FailureClass_num c"
  by (cases c; simp)+

lemma matches_iff:
  "matches m ob \<longleftrightarrow>
     sel FailureAny (m_Class m) (o_Class ob)
     \<and> sel 0 (m_Status m) (o_HTTPStatus ob)
     \<and> sel StatusClassNone (m_StatusClass m) (o_StatusClass ob)
     \<and> sel TransportClassNone (m_TransportClass m) (o_TransportClass ob)
     \<and> sel [] (m_TransportCause m) (o_TransportCause ob)
     \<and> sel [] (m_ProtocolCause m) (o_ProtocolCause ob)
     \<and> sel [] (m_CallerCause m) (o_CallerCause ob)
     \<and> sel [] (m_CredentialCause m) (o_CredentialCause ob)
     \<and> sel [] (m_ProviderErrorType m) (o_ProviderErrorType ob)
     \<and> sel [] (m_ProviderErrorCode m) (o_ProviderErrorCode ob)
     \<and> sel None (m_Streaming m) (Some (o_Streaming ob))
     \<and> sel 0 (m_CandidateIndex m) (o_CandidateIndex ob)
     \<and> sel None (m_RetryIndex m) (Some (o_RetryIndex ob))"
  unfolding matches_def if_False_else sel_folds by (rule refl | simp)

lemma overlaps_iff:
  "overlaps m n \<longleftrightarrow>
     classSet m AND classSet n \<noteq> 0
     \<and> agree 0 (m_Status m) (m_Status n)
     \<and> agree StatusClassNone (m_StatusClass m) (m_StatusClass n)
     \<and> fits 0 StatusClassOf StatusClassNone (m_Status m) (m_StatusClass n)
     \<and> fits 0 StatusClassOf StatusClassNone (m_Status n) (m_StatusClass m)
     \<and> agree TransportClassNone (m_TransportClass m) (m_TransportClass n)
     \<and> fits [] TransportClassOfCause TransportClassNone (m_TransportCause m) (m_TransportClass n)
     \<and> fits [] TransportClassOfCause TransportClassNone (m_TransportCause n) (m_TransportClass m)
     \<and> agree [] (m_ProviderErrorType m) (m_ProviderErrorType n)
     \<and> agree [] (m_ProviderErrorCode m) (m_ProviderErrorCode n)
     \<and> agree None (m_Streaming m) (m_Streaming n)
     \<and> agree 0 (m_CandidateIndex m) (m_CandidateIndex n)
     \<and> agree None (m_RetryIndex m) (m_RetryIndex n)
     \<and> agree [] (m_TransportCause m) (m_TransportCause n)
     \<and> agree [] (m_ProtocolCause m) (m_ProtocolCause n)
     \<and> agree [] (m_CallerCause m) (m_CallerCause n)
     \<and> agree [] (m_CredentialCause m) (m_CredentialCause n)"
  unfolding overlaps_def if_False_else agree_folds by simp

lemma overlaps_sym: "overlaps m n \<Longrightarrow> overlaps n m"
  unfolding overlaps_iff by (simp only: agree_commute [of _ _ _] and.commute simp_thms) 

lemma bit_class [simp]:
  "bit (push_bit (FailureClass_num c) 1 :: 8 word) (FailureClass_num c') \<longleftrightarrow> c = c'"
  "bit (2 ^ FailureClass_num c :: 8 word) (FailureClass_num c') \<longleftrightarrow> c = c'"
  by (cases c; cases c'; simp add: bit_simps)+

lemma bit_ff [simp]: "bit (255 :: 8 word) (FailureClass_num c)" "bit (255 :: int) (FailureClass_num c)"
  "bit (255 :: nat) (FailureClass_num c)"
  by (cases c; simp add: bit_simps)+

lemma wf_obs_class:
  assumes "wf_obs ob"
  shows "o_HTTPStatus ob \<noteq> 0 \<Longrightarrow> o_Class ob = FailureHTTP"
    "o_StatusClass ob \<noteq> StatusClassNone \<Longrightarrow> o_Class ob = FailureHTTP"
    "o_TransportCause ob \<noteq> [] \<Longrightarrow> o_Class ob = FailureTransport"
    "o_TransportClass ob \<noteq> TransportClassNone \<Longrightarrow> o_Class ob = FailureTransport"
    "o_ProtocolCause ob \<noteq> [] \<Longrightarrow> o_Class ob = FailureProtocol"
    "o_CallerCause ob \<noteq> [] \<Longrightarrow> o_Class ob = FailureCaller"
    "o_CredentialCause ob \<noteq> [] \<Longrightarrow> o_Class ob = FailureCredential"
    "o_ProviderErrorType ob \<noteq> [] \<or> o_ProviderErrorCode ob \<noteq> [] \<Longrightarrow> o_Class ob = FailureHTTP"
  using assms
  by (auto simp: wf_obs_def StatusClassOf_def TransportClassOfCause_def transportCauses_def
      split: if_splits)

lemma matches_owner:
  assumes "wf_obs ob" and "matches m ob"
  shows "m_Status m \<noteq> 0 \<or> m_StatusClass m \<noteq> StatusClassNone \<Longrightarrow> o_Class ob = FailureHTTP"
    "m_ProviderErrorType m \<noteq> [] \<or> m_ProviderErrorCode m \<noteq> [] \<Longrightarrow> o_Class ob = FailureHTTP"
    "m_TransportClass m \<noteq> TransportClassNone \<or> m_TransportCause m \<noteq> [] \<Longrightarrow> o_Class ob = FailureTransport"
    "m_ProtocolCause m \<noteq> [] \<Longrightarrow> o_Class ob = FailureProtocol"
    "m_CallerCause m \<noteq> [] \<Longrightarrow> o_Class ob = FailureCaller"
    "m_CredentialCause m \<noteq> [] \<Longrightarrow> o_Class ob = FailureCredential"
  using assms(2) wf_obs_class [OF assms(1)] unfolding matches_iff sel_def by metis+

lemma matches_classSet:
  assumes "wf_obs ob" and "matches m ob"
  shows "bit (classSet m) (FailureClass_num (o_Class ob))"
proof (cases "m_Class m = FailureAny")
  case False
  with assms(2) show ?thesis by (simp add: matches_iff sel_def classSet_def)
next
  case True
  with matches_owner [OF assms] show ?thesis
    by (auto simp: classSet_def Let_def bit_or_iff simp del: FailureClass_num.simps)
qed

lemma overlaps_sound:
  assumes "wf_obs ob" and "matches m ob" and "matches n ob"
  shows "overlaps m n"
proof -
  have "bit (classSet m AND classSet n) (FailureClass_num (o_Class ob))"
    using assms matches_classSet by (simp add: bit_and_iff)
  then have "classSet m AND classSet n \<noteq> 0" by auto
  moreover have "o_StatusClass ob = StatusClassOf (o_HTTPStatus ob)"
    and "o_TransportClass ob = TransportClassOfCause (o_TransportCause ob)"
    using assms(1) by (simp_all add: wf_obs_def)
  ultimately show ?thesis
    using assms(2,3) unfolding matches_iff overlaps_iff by (auto intro: agreeI fitsI)
qed

lemma check_rules_iff:
  "check_rules i seen rs = Inr () \<longleftrightarrow>
     (\<forall>r\<in>set rs. ValidateRuleID (r_ID r) = Inr () \<and> validate (r_Match r) = Inr ()
        \<and> validateRuleAction r = Inr () \<and> seen (r_ID r) = None)
     \<and> distinct (map r_ID rs)"
proof (induction rs arbitrary: i seen)
  case Nil
  then show ?case by simp
next
  case (Cons r rs)
  then show ?case
    by (auto simp: image_iff split: sum.splits option.splits if_splits)
qed

lemma check_against_iff: "check_against i r j qs = Inr () \<longleftrightarrow> (\<forall>q\<in>set qs. \<not> conflict r q)"
  by (induction qs arbitrary: j) auto

lemma check_pairs_iff: "check_pairs i rs = Inr () \<longleftrightarrow> sorted_wrt (\<lambda>r q. \<not> conflict r q) rs"
proof (induction rs arbitrary: i)
  case Nil
  then show ?case by simp
next
  case (Cons r rs)
  then show ?case
    using check_against_iff [of i r "i + 1" rs] by (cases "check_against i r (i + 1) rs") auto
qed

lemma conflict_sym: "conflict r q \<longleftrightarrow> conflict q r"
  using overlaps_sym by (auto simp: conflict_def)

lemma sorted_wrt_sym_iff:
  assumes "\<And>x y. P x y \<longleftrightarrow> P y x" and "distinct xs"
  shows "sorted_wrt P xs \<longleftrightarrow> (\<forall>x\<in>set xs. \<forall>y\<in>set xs. x \<noteq> y \<longrightarrow> P x y)"
  using assms(2)
proof (induction xs)
  case Nil
  then show ?case by simp
next
  case (Cons x xs)
  then show ?case using assms(1) by auto
qed

lemma NewMatrix_ok_iff:
  "NewMatrix rs d = Inr m \<longleftrightarrow> rule_list_ok rs \<and> m = \<lparr>mx_rules = sortRules rs, mx_def = d\<rparr>"
proof -
  have "check_rules 0 Map.empty rs = Inr () \<and> check_pairs 0 rs = Inr () \<longleftrightarrow> rule_list_ok rs"
  proof (cases "distinct (map r_ID rs)")
    case True
    then have "distinct rs" by (simp add: distinct_map)
    with sorted_wrt_sym_iff [of "\<lambda>r q. \<not> conflict r q" rs] conflict_sym True show ?thesis
      by (auto simp: rule_list_ok_def check_rules_iff check_pairs_iff)
  next
    case False
    then show ?thesis by (simp add: rule_list_ok_def check_rules_iff)
  qed
  then show ?thesis by (auto simp: NewMatrix_def split: sum.splits)
qed

lemma rule_list_ok_mset: "mset rs = mset rs' \<Longrightarrow> rule_list_ok rs \<longleftrightarrow> rule_list_ok rs'"
proof -
  assume eq: "mset rs = mset rs'"
  then have "mset (map r_ID rs) = mset (map r_ID rs')" by simp
  then have "distinct (map r_ID rs) \<longleftrightarrow> distinct (map r_ID rs')"
    by (rule mset_eq_imp_distinct_iff)
  moreover have "set rs = set rs'" using eq by (rule mset_eq_setD)
  ultimately show ?thesis by (simp add: rule_list_ok_def)
qed

lemma rule_key_inj: "distinct (map r_ID rs) \<Longrightarrow> inj_on rule_key (set rs)"
  by (auto simp: distinct_map inj_on_def rule_key_def)

lemma sortRules_mset: "mset (sortRules rs) = mset rs"
  by (simp add: sortRules_def)

lemma set_sortRules [simp]: "set (sortRules rs) = set rs"
  by (simp add: sortRules_def)

lemma sorted_sortRules: "sorted (map rule_key (sortRules rs))"
  by (simp add: sortRules_def)

lemma sortRules_canonical:
  assumes "mset rs = mset rs'" and "distinct (map r_ID rs)"
  shows "sortRules rs = sortRules rs'"
proof -
  have "sort (map rule_key rs) = map rule_key (sortRules xs)" if "mset xs = mset rs" for xs
    by (rule properties_for_sort) (simp_all add: sortRules_def that)
  then have "map rule_key (sortRules rs) = map rule_key (sortRules rs')"
    using assms(1) by metis
  moreover have "inj_on rule_key (set (sortRules rs) \<union> set (sortRules rs'))"
    using rule_key_inj [OF assms(2)] mset_eq_setD [OF assms(1)] by simp
  ultimately show ?thesis by (rule map_inj_on)
qed

lemma match_rules_skip:
  "\<forall>q\<in>set pre. \<not> matches (r_Match q) ob \<Longrightarrow> match_rules (pre @ rs) d ob = match_rules rs d ob"
  by (induction pre) auto

lemma match_rules_first:
  "(\<exists>pre r post. rs = pre @ r # post \<and> (\<forall>q\<in>set pre. \<not> matches (r_Match q) ob)
      \<and> matches (r_Match r) ob \<and> match_rules rs d ob = (r_Action r, r_ID r))
   \<or> (\<forall>q\<in>set rs. \<not> matches (r_Match q) ob) \<and> match_rules rs d ob = (d, ReservedRuleID)"
proof (cases "\<exists>r\<in>set rs. matches (r_Match r) ob")
  case True
  from split_list_first_prop [OF this] obtain pre r post
    where "rs = pre @ r # post" "matches (r_Match r) ob" "\<forall>q\<in>set pre. \<not> matches (r_Match q) ob"
    by blast
  then show ?thesis by (auto simp: match_rules_skip)
next
  case False
  then show ?thesis using match_rules_skip [of rs ob "[]" d] by simp
qed

lemma Specificity_sum:
  "Specificity m =
     16 * of_bool (m_Status m \<noteq> 0)
     + 8 * of_bool (m_ProviderErrorType m \<noteq> [] \<or> m_ProviderErrorCode m \<noteq> [])
     + 4 * of_bool (m_StatusClass m \<noteq> StatusClassNone)
     + 2 * of_bool (m_TransportCause m \<noteq> [] \<or> m_ProtocolCause m \<noteq> [] \<or> m_CallerCause m \<noteq> []
            \<or> m_CredentialCause m \<noteq> [])
     + of_bool (m_Class m \<noteq> FailureAny \<or> m_TransportClass m \<noteq> TransportClassNone)"
  unfolding Specificity_def by (auto simp: of_bool_def)

lemma status_of_class [simp]: "StatusClassOf (status_of_class c) = c"
  "status_of_class c = 0 \<longleftrightarrow> c = StatusClassNone"
  "c \<noteq> StatusClassNone \<Longrightarrow> 100 \<le> status_of_class c \<and> status_of_class c \<le> 599"
  by (cases c; simp add: StatusClassOf_def)+

lemma cause_of_class [simp]: "TransportClassOfCause (cause_of_class c) = c"
  "cause_of_class c = [] \<longleftrightarrow> c = TransportClassNone"
  by (cases c; simp add: TransportClassOfCause_def transportCauses_def)+

declare status_of_class.simps [simp del] cause_of_class.simps [simp del]

lemma if_Inr_eq_Inr: "(if p then Inr () else q) = Inr () \<longleftrightarrow> p \<or> \<not> p \<and> q = Inr ()"
  by simp

lemma validate_iff:
  "validate m = Inr () \<longleftrightarrow>
     (m_Status m = 0 \<or> 100 \<le> m_Status m \<and> m_Status m \<le> 599)
     \<and> fits 0 StatusClassOf StatusClassNone (m_Status m) (m_StatusClass m)
     \<and> count_true (map fst (named_layers m)) \<le> 1
     \<and> (m_Class m = FailureAny \<or> (\<forall>(b, c)\<in>set (named_layers m). b \<longrightarrow> m_Class m = c))"
proof -
  define h where "h \<longleftrightarrow> m_Status m \<noteq> 0 \<or> m_StatusClass m \<noteq> StatusClassNone
    \<or> m_ProviderErrorType m \<noteq> [] \<or> m_ProviderErrorCode m \<noteq> []"
  define t where "t \<longleftrightarrow> m_TransportClass m \<noteq> TransportClassNone \<or> m_TransportCause m \<noteq> []"
  have kinds: "count_true [h, t, m_ProtocolCause m \<noteq> [], m_CallerCause m \<noteq> [],
      m_CredentialCause m \<noteq> []] \<le> Suc 0 \<Longrightarrow> count_true [m_TransportCause m \<noteq> [],
      m_ProtocolCause m \<noteq> [], m_CallerCause m \<noteq> [], m_CredentialCause m \<noteq> []] \<le> Suc 0"
    by (auto simp: count_true_def t_def split: if_splits)
  have range: "\<not> (m_Status m \<noteq> 0 \<and> (m_Status m < 100 \<or> 599 < m_Status m))
      \<longleftrightarrow> m_Status m = 0 \<or> 100 \<le> m_Status m \<and> m_Status m \<le> 599"
    by auto
  show ?thesis
    unfolding validate_def Let_def if_Inl_eq_Inr if_Inr_eq_Inr fits_fold range
      named_layers_def h_def [symmetric] t_def [symmetric]
    using kinds by (simp add: not_less) blast
qed

lemma matches_layers:
  assumes "wf_obs ob" and "matches m ob"
  shows "\<forall>(b, c)\<in>set (named_layers m). b \<longrightarrow> o_Class ob = c"
  using matches_owner [OF assms] by (simp add: named_layers_def) blast

lemma count_true_one_class:
  "(\<forall>(b, c)\<in>set bcs. b \<longrightarrow> k = c) \<Longrightarrow> distinct (map snd bcs) \<Longrightarrow> count_true (map fst bcs) \<le> 1"
proof (induction bcs)
  case Nil
  then show ?case by (simp add: count_true_def)
next
  case (Cons bc bcs)
  then show ?case by (cases bc) (force simp: count_true_def filter_empty_conv)
qed

lemma sample_class_layer:
  assumes "validate m = Inr ()"
  shows "\<forall>(b, c)\<in>set (named_layers m). b \<longrightarrow> sample_class m = c"
proof -
  define h where "h \<longleftrightarrow> m_Status m \<noteq> 0 \<or> m_StatusClass m \<noteq> StatusClassNone
    \<or> m_ProviderErrorType m \<noteq> [] \<or> m_ProviderErrorCode m \<noteq> []"
  define t where "t \<longleftrightarrow> m_TransportClass m \<noteq> TransportClassNone \<or> m_TransportCause m \<noteq> []"
  show ?thesis
    using assms unfolding validate_iff named_layers_def sample_class_def h_def [symmetric] t_def [symmetric]
    by (cases h; cases t) (auto simp: count_true_def split: if_splits)
qed

lemma sample_status_range:
  assumes "validate m = Inr ()"
  shows "sample_status m = 0 \<or> 100 \<le> sample_status m \<and> sample_status m \<le> 599"
  using assms by (cases "m_StatusClass m") (auto simp: sample_status_def validate_iff)

lemma sample_wf:
  assumes "validate m = Inr ()"
  shows "wf_obs (sample m)"
proof -
  have "sample_status m \<noteq> 0 \<longleftrightarrow> m_Status m \<noteq> 0 \<or> m_StatusClass m \<noteq> StatusClassNone"
    "sample_cause m \<noteq> [] \<longleftrightarrow> m_TransportClass m \<noteq> TransportClassNone \<or> m_TransportCause m \<noteq> []"
    by (auto simp: sample_status_def sample_cause_def)
  with sample_class_layer [OF assms] sample_status_range [OF assms] show ?thesis
    by (simp add: wf_obs_def named_layers_def sample_def)
qed

lemma sample_selects:
  assumes "validate m = Inr ()" and "consistent_transport m"
  shows "sel FailureAny (m_Class m) (sample_class m)" "sel 0 (m_Status m) (sample_status m)"
    "sel StatusClassNone (m_StatusClass m) (StatusClassOf (sample_status m))"
    "sel [] (m_TransportCause m) (sample_cause m)"
    "sel TransportClassNone (m_TransportClass m) (TransportClassOfCause (sample_cause m))"
  using assms
  by (auto simp: sel_def sample_class_def sample_status_def sample_cause_def consistent_transport_def
      validate_iff fits_def)

lemma sample_matches:
  assumes "validate m = Inr ()" and "consistent_transport m"
  shows "matches m (sample m)"
  unfolding matches_iff using sample_selects [OF assms]
  by (simp add: sample_def) (simp add: sel_def split: option.split)

lemma lex_digit:
  "0 \<le> x \<Longrightarrow> x < k \<Longrightarrow> 0 \<le> y \<Longrightarrow> y < k \<Longrightarrow>
   k * of_bool a + x < k * of_bool b + (y::int) \<longleftrightarrow> a < b \<or> a = b \<and> x < y"
  by (cases a; cases b) auto

lemma ex_rules_ok: "rule_list_ok ex_rules"
  by (simp add: rule_list_ok_def ex_rules_def zeroMatch_def ValidateRuleID_def ruleIDByte_def
      validate_def validateRuleAction_def count_true_def conflict_def Specificity_sum)

lemma ex_obs_wf: "wf_obs ex_obs"
  by (simp add: wf_obs_def ex_obs_def zeroObservation_def StatusClassOf_def TransportClassOfCause_def
      transportCauses_def)

lemma ex_matrix: "NewMatrix ex_rules ActionTerminal = Inr \<lparr>mx_rules = rev ex_rules, mx_def = ActionTerminal\<rparr>"
proof -
  have "sortRules ex_rules = rev ex_rules"
    by (simp add: sortRules_def ex_rules_def rule_key_def Specificity_sum zeroMatch_def)
  then show ?thesis by (simp add: NewMatrix_ok_iff ex_rules_ok)
qed

section \<open>Properties\<close>

text \<open>
  C9: a matrix that was built decides every well-formed failure unambiguously. Either one
  rule matches it with a precedence key strictly greater than that of every other matching
  rule, and \<open>Match\<close> returns that rule's action and identity, or no rule matches and the
  default action is returned under the reserved identity.
\<close>

theorem Matrix_Match_most_specific:
  assumes "NewMatrix rs d = Inr mx" and "wf_obs ob"
  shows "(\<exists>r\<in>set rs. matches (r_Match r) ob
            \<and> (\<forall>q\<in>set rs. q \<noteq> r \<and> matches (r_Match q) ob
                 \<longrightarrow> Specificity (r_Match q) < Specificity (r_Match r))
            \<and> Matrix_Match mx ob = (r_Action r, r_ID r) \<and> r_ID r \<noteq> ReservedRuleID)
         \<or> (\<forall>q\<in>set rs. \<not> matches (r_Match q) ob) \<and> Matrix_Match mx ob = (d, ReservedRuleID)"
proof -
  from assms(1) have ok: "rule_list_ok rs" and mx: "mx = \<lparr>mx_rules = sortRules rs, mx_def = d\<rparr>"
    by (simp_all add: NewMatrix_ok_iff)
  consider pre r post where "sortRules rs = pre @ r # post"
      "\<forall>q\<in>set pre. \<not> matches (r_Match q) ob" "matches (r_Match r) ob"
      "Matrix_Match mx ob = (r_Action r, r_ID r)"
    | "\<forall>q\<in>set rs. \<not> matches (r_Match q) ob" "Matrix_Match mx ob = (d, ReservedRuleID)"
    using match_rules_first [of "sortRules rs" ob d] by (auto simp: Matrix_Match_def mx)
  then show ?thesis
  proof cases
    case 1
    have "set rs = set (pre @ r # post)" using 1(1) set_sortRules by metis
    then have r: "r \<in> set rs" by simp
    have "Specificity (r_Match q) < Specificity (r_Match r)"
      if q: "q \<in> set rs" "q \<noteq> r" "matches (r_Match q) ob" for q
    proof -
      have "q \<in> set post" using q 1(2) \<open>set rs = set (pre @ r # post)\<close> by auto
      then have "rule_key r \<le> rule_key q"
        using sorted_sortRules [of rs] by (simp add: 1(1) sorted_append)
      then have "Specificity (r_Match q) \<le> Specificity (r_Match r)"
        by (auto simp: rule_key_def)
      moreover have "\<not> conflict r q" using ok r q by (auto simp: rule_list_ok_def)
      then have "Specificity (r_Match q) \<noteq> Specificity (r_Match r)"
        using overlaps_sound [OF assms(2) 1(3) q(3)] by (auto simp: conflict_def)
      ultimately show ?thesis by simp
    qed
    moreover have "r_ID r \<noteq> ReservedRuleID"
      using ok r by (auto simp: rule_list_ok_def ValidateRuleID_def split: if_splits)
    ultimately show ?thesis using r 1(3,4) by blast
  next
    case 2
    then show ?thesis by blast
  qed
qed

theorem Matrix_Match_most_specific_witness:
  "wf_obs ex_obs \<and>
   Matrix_Match \<lparr>mx_rules = rev ex_rules, mx_def = ActionTerminal\<rparr> ex_obs = (ActionRetry, ''exact'')"
  using Matrix_Match_most_specific [OF ex_matrix ex_obs_wf] ex_obs_wf
  by (auto simp: ex_rules_def ex_obs_def zeroMatch_def zeroObservation_def matches_def Specificity_sum)

text \<open>
  The order the rules were written in cannot change the matrix. Whenever a rule list is
  accepted, every permutation of it is accepted and builds the identical matrix.
\<close>

theorem NewMatrix_order_irrelevant:
  assumes "mset rs = mset rs'" and "NewMatrix rs d = Inr mx"
  shows "NewMatrix rs' d = Inr mx"
  using assms rule_list_ok_mset [OF assms(1)] sortRules_canonical [OF assms(1)]
  by (auto simp: NewMatrix_ok_iff rule_list_ok_def)

theorem NewMatrix_order_irrelevant_witness:
  "NewMatrix (rev ex_rules) ActionTerminal = Inr \<lparr>mx_rules = rev ex_rules, mx_def = ActionTerminal\<rparr>"
  by (rule NewMatrix_order_irrelevant [OF _ ex_matrix]) simp

text \<open>
  \<open>NewMatrix\<close> accepts a rule list exactly when every identity is valid and unique, every
  match and action passes its own validation, and no two rules of equal precedence overlap;
  the matrix then holds the same rules, sorted by precedence and identity.
\<close>

theorem NewMatrix_accepts_iff:
  "NewMatrix rs d = Inr mx \<longleftrightarrow>
     rule_list_ok rs \<and> mset (Matrix_Rules mx) = mset rs \<and> sorted (map rule_key (Matrix_Rules mx))
     \<and> Matrix_Default mx = d"
proof -
  have "xs = sortRules rs" if "rule_list_ok rs" "mset xs = mset rs" "sorted (map rule_key xs)" for xs
  proof -
    have "distinct (map r_ID rs)" using that(1) by (simp add: rule_list_ok_def)
    then have "distinct (map r_ID xs)" and inj: "inj_on rule_key (set xs)"
      using that(2) rule_key_inj by (metis mset_eq_imp_distinct_iff mset_map)+
    have "sortRules xs = xs"
      unfolding sortRules_def using that(3) by (rule sort_key_id_if_sorted)
    then show ?thesis using sortRules_canonical [OF that(2)] \<open>distinct (map r_ID xs)\<close> by simp
  qed
  then show ?thesis
    by (cases mx) (auto simp: NewMatrix_ok_iff Matrix_Rules_def Matrix_Default_def sortRules_mset
        sorted_sortRules)
qed

text \<open>
  The precedence key orders matches exactly as documented: lexicographically by exact
  status, provider-error predicate, status class, failure cause and failure class.
\<close>

theorem Specificity_lexicographic: "Specificity m < Specificity n \<longleftrightarrow> precedence m < precedence n"
proof -
  have key: "Specificity m = 16 * of_bool a + (8 * of_bool b + (4 * of_bool c + (2 * of_bool d + of_bool e)))"
    if "precedence m = [a, b, c, d, e]" for m a b c d e
    using that by (simp add: Specificity_sum precedence_def)
  obtain a b c d e where m: "precedence m = [a, b, c, d, e]" by (simp add: precedence_def)
  obtain a' b' c' d' e' where n: "precedence n = [a', b', c', d', e']" by (simp add: precedence_def)
  show ?thesis
    unfolding key [OF m] key [OF n] m n
    by (simp add: lex_digit [where k = 16] lex_digit [where k = 8] lex_digit [where k = 4]
        lex_digit [where k = 2] of_bool_def)
qed

text \<open>
  C10: a match passes \<open>validate\<close> and its transport cause belongs to its transport class exactly
  when some well-formed observation satisfies it. The consistency of cause and class is the
  one contradiction \<open>validate\<close> itself does not reject.
\<close>

theorem validate_iff_satisfiable:
  "(\<exists>ob. wf_obs ob \<and> matches m ob) \<longleftrightarrow> validate m = Inr () \<and> consistent_transport m"
proof
  assume "\<exists>ob. wf_obs ob \<and> matches m ob"
  then obtain ob where ob: "wf_obs ob" "matches m ob" by blast
  note layers = matches_layers [OF ob]
  have "count_true (map fst (named_layers m)) \<le> 1"
    by (rule count_true_one_class [OF layers]) (simp add: named_layers_def)
  moreover have sels: "sel FailureAny (m_Class m) (o_Class ob)" "sel 0 (m_Status m) (o_HTTPStatus ob)"
    "sel StatusClassNone (m_StatusClass m) (o_StatusClass ob)"
    "sel TransportClassNone (m_TransportClass m) (o_TransportClass ob)"
    "sel [] (m_TransportCause m) (o_TransportCause ob)"
    using ob(2) by (simp_all add: matches_iff)
  moreover have wf: "o_StatusClass ob = StatusClassOf (o_HTTPStatus ob)"
    "o_TransportClass ob = TransportClassOfCause (o_TransportCause ob)"
    "o_HTTPStatus ob = 0 \<or> 100 \<le> o_HTTPStatus ob \<and> o_HTTPStatus ob \<le> 599"
    using ob(1) by (simp_all add: wf_obs_def)
  moreover have "fits 0 StatusClassOf StatusClassNone (m_Status m) (m_StatusClass m)"
    "fits [] TransportClassOfCause TransportClassNone (m_TransportCause m) (m_TransportClass m)"
    using fitsI [OF sels(2)] fitsI [OF sels(5)] sels(3,4) wf(1,2) by simp_all
  moreover have "m_Status m = 0 \<or> 100 \<le> m_Status m \<and> m_Status m \<le> 599"
    using sels(2) wf(3) by (auto simp: sel_def)
  moreover have "m_Class m = FailureAny \<or> (\<forall>(b, c)\<in>set (named_layers m). b \<longrightarrow> m_Class m = c)"
    using sels(1) layers by (auto simp: sel_def)
  ultimately show "validate m = Inr () \<and> consistent_transport m"
    by (simp add: validate_iff consistent_transport_def)
next
  assume "validate m = Inr () \<and> consistent_transport m"
  then show "\<exists>ob. wf_obs ob \<and> matches m ob" using sample_wf sample_matches by blast
qed

end
