(* ===== verification/Recovery_Policy.thy ===== *)
theory Recovery_Policy
  imports Recovery_Rule
begin

text \<open>
  \<open>internal/recovery/policy.go\<close> and \<open>internal/recovery/defaults.go\<close>: the resolved policy,
  its absolute safety caps, its validator, and the built-in policy every configuration
  starts from. The theorems characterise the validator by the bounds it enforces, and show
  that the built-in policy can be built, validates, and disposes of every well-formed
  failure as its comments say.
\<close>

section \<open>Policies\<close>

record BackoffPolicy =
  bo_Initial :: duration
  bo_Max :: duration
  bo_Jitter :: f64

record RetryPolicy =
  rp_MaxRetries :: int
  rp_MaxElapsed :: duration
  rp_Backoff :: BackoffPolicy
  rp_OnExhausted :: Action

record FallbackPolicy =
  fp_Enabled :: bool
  fp_MaxCandidates :: int
  fp_OnExhausted :: Action

record Envelope =
  en_MaxExchanges :: int
  en_MaxElapsed :: duration

record BudgetPolicy =
  bp_Request :: Envelope
  bp_Candidate :: Envelope

datatype RetryAfterMode = RetryAfterMax | RetryAfterIgnore

definition RetryAfterMode_String :: "RetryAfterMode \<Rightarrow> string" where
  "RetryAfterMode_String m = (if m = RetryAfterIgnore then ''ignore'' else ''max'')"

definition ParseRetryAfterMode :: "string \<Rightarrow> RetryAfterMode result" where
  "ParseRetryAfterMode s =
     (if s = ''max'' then Inr RetryAfterMax
      else if s = ''ignore'' then Inr RetryAfterIgnore
      else Inl (Err ''retry-after mode must be one of ignore, max''))"

record RetryAfterPolicy =
  ra_Enabled :: bool
  ra_Mode :: RetryAfterMode
  ra_MaxDelay :: duration

record StreamPolicy =
  sp_Enabled :: bool
  sp_MaxRecoveries :: int
  sp_MaxElapsed :: duration
  sp_MaxPartialBytes :: int

record Policy =
  p_Matrix :: Matrix
  p_Retry :: RetryPolicy
  p_Fallback :: FallbackPolicy
  p_Budget :: BudgetPolicy
  p_RetryAfter :: RetryAfterPolicy
  p_Stream :: StreamPolicy

definition MaxRetriesCap :: int where "MaxRetriesCap = 8"
definition MaxCandidatesCap :: int where "MaxCandidatesCap = 8"
definition MaxRequestExchangesCap :: int where "MaxRequestExchangesCap = 64"
definition MaxCandidateExchangesCap :: int where "MaxCandidateExchangesCap = 32"
definition MaxRequestElapsedCap :: duration where "MaxRequestElapsedCap = 5 * Minute"
definition MaxCandidateElapsedCap :: duration where "MaxCandidateElapsedCap = 2 * Minute"
definition MaxBackoffCap :: duration where "MaxBackoffCap = 2 * Minute"
definition MinBackoff :: duration where "MinBackoff = Millisecond"
definition MaxStreamRecoveriesCap :: int where "MaxStreamRecoveriesCap = 2"
definition MinStreamPartialBytes :: int where "MinStreamPartialBytes = push_bit 10 1"
definition MaxStreamPartialBytesCap :: int where "MaxStreamPartialBytesCap = push_bit 20 1"

lemmas caps = MaxRetriesCap_def MaxCandidatesCap_def MaxRequestExchangesCap_def
  MaxCandidateExchangesCap_def MaxRequestElapsedCap_def MaxCandidateElapsedCap_def
  MaxBackoffCap_def MinBackoff_def MaxStreamRecoveriesCap_def MinStreamPartialBytes_def
  MaxStreamPartialBytesCap_def Minute_def Second_def Millisecond_def

text \<open>
  \<open>Policy.Validate\<close>, one group of checks after the other in the order of the source. The
  increment of \<open>MaxRetries\<close> cannot wrap: the first check has bounded it by then.
\<close>

definition validate_retry :: "RetryPolicy \<Rightarrow> unit result" where
  "validate_retry r =
     (if rp_MaxRetries r < 0 \<or> rp_MaxRetries r > MaxRetriesCap
      then Inl (Err (''recovery: retries.max-retries must be between 0 and '' @ itoa MaxRetriesCap))
      else if rp_MaxElapsed r < MinBackoff \<or> rp_MaxElapsed r > MaxCandidateElapsedCap
      then Inl (Err ''recovery: retries.max-elapsed is outside the allowed range'')
      else if bo_Initial (rp_Backoff r) < MinBackoff
      then Inl (Err ''recovery: retries.backoff.initial is below the allowed minimum'')
      else if bo_Max (rp_Backoff r) < bo_Initial (rp_Backoff r)
      then Inl (Err ''recovery: retries.backoff.max must not be smaller than retries.backoff.initial'')
      else if bo_Max (rp_Backoff r) > MaxBackoffCap
      then Inl (Err ''recovery: retries.backoff.max exceeds the allowed maximum'')
      else if bo_Jitter (rp_Backoff r) = F64NaN \<or> f64_less (bo_Jitter (rp_Backoff r)) (F64 0)
              \<or> f64_less (F64 1) (bo_Jitter (rp_Backoff r))
      then Inl (Err ''recovery: retries.backoff.jitter must be between 0 and 1'')
      else if rp_OnExhausted r \<noteq> ActionFallback \<and> rp_OnExhausted r \<noteq> ActionTerminal
      then Inl (errActionNotAllowed ''recovery: retries.on-exhausted'' ''fallback or terminal'')
      else Inr ())"

definition validate_fallback :: "FallbackPolicy \<Rightarrow> unit result" where
  "validate_fallback f =
     (if \<not> fp_Enabled f \<and> fp_MaxCandidates f \<noteq> 1
      then Inl (errActionNotAllowed ''recovery: fallback.max-candidates'' ''1 while fallback is disabled'')
      else if fp_Enabled f \<and> (fp_MaxCandidates f < 1 \<or> fp_MaxCandidates f > MaxCandidatesCap)
      then Inl (Err (''recovery: fallback.max-candidates must be between 1 and '' @ itoa MaxCandidatesCap))
      else if fp_OnExhausted f \<noteq> ActionTerminal
      then Inl (errActionNotAllowed ''recovery: fallback.on-exhausted'' ''terminal'')
      else Inr ())"

definition validate_budget :: "BudgetPolicy \<Rightarrow> RetryPolicy \<Rightarrow> unit result" where
  "validate_budget b r =
     (if en_MaxExchanges (bp_Request b) < 1 \<or> en_MaxExchanges (bp_Request b) > MaxRequestExchangesCap
      then Inl (Err (''recovery: budget.request.max-exchanges must be between 1 and '' @ itoa MaxRequestExchangesCap))
      else if en_MaxElapsed (bp_Request b) < MinBackoff \<or> en_MaxElapsed (bp_Request b) > MaxRequestElapsedCap
      then Inl (Err ''recovery: budget.request.max-elapsed is outside the allowed range'')
      else if en_MaxExchanges (bp_Candidate b) < 1 \<or> en_MaxExchanges (bp_Candidate b) > MaxCandidateExchangesCap
      then Inl (Err (''recovery: budget.candidate.max-exchanges must be between 1 and '' @ itoa MaxCandidateExchangesCap))
      else if en_MaxElapsed (bp_Candidate b) < MinBackoff \<or> en_MaxElapsed (bp_Candidate b) > MaxCandidateElapsedCap
      then Inl (Err ''recovery: budget.candidate.max-elapsed is outside the allowed range'')
      else if en_MaxExchanges (bp_Candidate b) > en_MaxExchanges (bp_Request b)
      then Inl (Err ''recovery: budget.candidate.max-exchanges must not exceed budget.request.max-exchanges'')
      else if en_MaxElapsed (bp_Candidate b) > en_MaxElapsed (bp_Request b)
      then Inl (Err ''recovery: budget.candidate.max-elapsed must not exceed budget.request.max-elapsed'')
      else if rp_MaxElapsed r > en_MaxElapsed (bp_Candidate b)
      then Inl (Err ''recovery: retries.max-elapsed must not exceed budget.candidate.max-elapsed'')
      else if rp_MaxRetries r + 1 > en_MaxExchanges (bp_Candidate b)
      then Inl (Err ''recovery: retries.max-retries cannot exceed budget.candidate.max-exchanges minus one'')
      else Inr ())"

definition validate_retry_after :: "RetryAfterPolicy \<Rightarrow> unit result" where
  "validate_retry_after a =
     (if ra_Enabled a \<and> ra_MaxDelay a < 0
      then Inl (Err ''recovery: retry-after.max-delay must not be negative'')
      else if ra_MaxDelay a > MaxCandidateElapsedCap
      then Inl (Err ''recovery: retry-after.max-delay exceeds the allowed maximum'')
      else Inr ())"

definition validate_stream :: "StreamPolicy \<Rightarrow> unit result" where
  "validate_stream s =
     (if sp_MaxRecoveries s < 0 \<or> sp_MaxRecoveries s > MaxStreamRecoveriesCap
      then Inl (Err (''recovery: stream.max-recoveries must be between 0 and '' @ itoa MaxStreamRecoveriesCap))
      else if sp_MaxElapsed s < MinBackoff \<or> sp_MaxElapsed s > MaxCandidateElapsedCap
      then Inl (Err ''recovery: stream.max-elapsed is outside the allowed range'')
      else if sp_MaxPartialBytes s < MinStreamPartialBytes \<or> sp_MaxPartialBytes s > MaxStreamPartialBytesCap
      then Inl (Err (''recovery: stream.max-partial-bytes must be between '' @ itoa MinStreamPartialBytes
                     @ '' and '' @ itoa MaxStreamPartialBytesCap))
      else if \<not> sp_Enabled s \<and> sp_MaxRecoveries s \<noteq> 0
      then Inl (errActionNotAllowed ''recovery: stream.max-recoveries'' ''0 while stream recovery is disabled'')
      else if sp_Enabled s \<and> sp_MaxRecoveries s < 1
      then Inl (Err ''recovery: stream.enabled requires stream.max-recoveries of at least 1'')
      else Inr ())"

definition Validate :: "Policy \<Rightarrow> unit result" where
  "Validate p =
     (case validate_retry (p_Retry p) of
        Inl e \<Rightarrow> Inl e
      | Inr _ \<Rightarrow>
     (case validate_fallback (p_Fallback p) of
        Inl e \<Rightarrow> Inl e
      | Inr _ \<Rightarrow>
     (case validate_budget (p_Budget p) (p_Retry p) of
        Inl e \<Rightarrow> Inl e
      | Inr _ \<Rightarrow>
     (case validate_retry_after (p_RetryAfter p) of
        Inl e \<Rightarrow> Inl e
      | Inr _ \<Rightarrow> validate_stream (p_Stream p)))))"

section \<open>The built-in policy\<close>

definition DefaultMaxRetries :: int where "DefaultMaxRetries = 1"
definition DefaultRetryMaxElapsed :: duration where "DefaultRetryMaxElapsed = 10 * Second"
definition DefaultBackoffInitial :: duration where "DefaultBackoffInitial = 250 * Millisecond"
definition DefaultBackoffMax :: duration where "DefaultBackoffMax = 2 * Second"
definition DefaultBackoffJitter :: f64 where "DefaultBackoffJitter = f64_round (1 / 10)"
definition DefaultFallbackMaxCandidates :: int where "DefaultFallbackMaxCandidates = 2"
definition DefaultRequestMaxExchanges :: int where "DefaultRequestMaxExchanges = 32"
definition DefaultRequestMaxElapsed :: duration where "DefaultRequestMaxElapsed = MaxRequestElapsedCap"
definition DefaultCandidateMaxExchanges :: int where "DefaultCandidateMaxExchanges = 16"
definition DefaultCandidateMaxElapsed :: duration where "DefaultCandidateMaxElapsed = MaxCandidateElapsedCap"
definition DefaultRetryAfterMaxDelay :: duration where "DefaultRetryAfterMaxDelay = 5 * Second"
definition DefaultMaxStreamRecoveries :: int where "DefaultMaxStreamRecoveries = 1"
definition DefaultStreamMaxElapsed :: duration where "DefaultStreamMaxElapsed = 20 * Second"
definition DefaultStreamMaxPartialBytes :: int where "DefaultStreamMaxPartialBytes = push_bit 10 256"

lemmas defaults = DefaultMaxRetries_def DefaultRetryMaxElapsed_def DefaultBackoffInitial_def
  DefaultBackoffMax_def DefaultFallbackMaxCandidates_def DefaultRequestMaxExchanges_def
  DefaultRequestMaxElapsed_def DefaultCandidateMaxExchanges_def DefaultCandidateMaxElapsed_def
  DefaultRetryAfterMaxDelay_def DefaultMaxStreamRecoveries_def DefaultStreamMaxElapsed_def
  DefaultStreamMaxPartialBytes_def

definition status_rule :: "Action \<Rightarrow> int \<Rightarrow> Rule" where
  "status_rule a s = \<lparr>r_ID = StatusRuleID s, r_Match = zeroMatch\<lparr>m_Status := s\<rparr>, r_Action = a\<rparr>"

definition status_class_rule :: "Action \<Rightarrow> StatusClass \<Rightarrow> Rule" where
  "status_class_rule a c =
     \<lparr>r_ID = StatusClassRuleID c, r_Match = zeroMatch\<lparr>m_StatusClass := c\<rparr>, r_Action = a\<rparr>"

definition transport_class_rule :: "TransportClass \<Rightarrow> Rule" where
  "transport_class_rule c =
     \<lparr>r_ID = TransportClassRuleID c,
      r_Match = zeroMatch\<lparr>m_Class := FailureTransport, m_TransportClass := c\<rparr>,
      r_Action = ActionFallback\<rparr>"

definition transport_cause_rule :: "string \<Rightarrow> Rule" where
  "transport_cause_rule c =
     \<lparr>r_ID = TransportCauseRuleID c,
      r_Match = zeroMatch\<lparr>m_Class := FailureTransport, m_TransportCause := c\<rparr>,
      r_Action = ActionFallback\<rparr>"

definition protocol_rule :: "string \<Rightarrow> Rule" where
  "protocol_rule c =
     \<lparr>r_ID = ProtocolRuleID c,
      r_Match = zeroMatch\<lparr>m_Class := FailureProtocol, m_ProtocolCause := c\<rparr>,
      r_Action = ActionRetry\<rparr>"

definition caller_rule :: "string \<Rightarrow> Rule" where
  "caller_rule c =
     \<lparr>r_ID = CallerRuleID c,
      r_Match = zeroMatch\<lparr>m_Class := FailureCaller, m_CallerCause := c\<rparr>,
      r_Action = ActionTerminal\<rparr>"

definition credential_rule :: "string \<Rightarrow> Rule" where
  "credential_rule c =
     \<lparr>r_ID = CredentialCauseRuleID c,
      r_Match = zeroMatch\<lparr>m_Class := FailureCredential, m_CredentialCause := c\<rparr>,
      r_Action = ActionRetry\<rparr>"

definition default_rules :: "Rule list" where
  "default_rules =
     map (status_rule ActionRetry) [408, 425, 429]
     @ map (status_rule ActionFallback) [401, 403, 404, 405, 409, 422]
     @ map (status_rule ActionTerminal) [501, 505]
     @ [status_class_rule ActionTerminal StatusClass4xx, status_class_rule ActionRetry StatusClass5xx]
     @ map transport_class_rule
         [TransportClassConnection, TransportClassTimeout, TransportClassProxyConnect, TransportClassProxyAuth]
     @ map transport_cause_rule
         [CauseConnectionRefused, CauseTLS, CauseDial, CauseNetworkTimeout, CauseDeadlineExceeded,
          CauseProxyConnect, CauseProxyTimeout, CauseProxyAuth, CauseNoEligibleEndpoint]
     @ map protocol_rule
         [ProtocolInvalidResponse, ProtocolOversizedResponse, ProtocolBodyReadFailed, ProtocolBodyTimeout]
     @ map caller_rule [CallerCanceled, CallerDeadline]
     @ [credential_rule CredentialCooldown]"

text \<open>\<open>Default\<close>; the error stands for the panic of its unreachable branch.\<close>

definition Default :: "Policy result" where
  "Default =
     (case NewMatrix default_rules ActionTerminal of
        Inl e \<Rightarrow> Inl (Wrap ''recovery: the default matrix is invalid'' e)
      | Inr m \<Rightarrow> Inr
          \<lparr>p_Matrix = m,
           p_Retry = \<lparr>rp_MaxRetries = DefaultMaxRetries, rp_MaxElapsed = DefaultRetryMaxElapsed,
                      rp_Backoff = \<lparr>bo_Initial = DefaultBackoffInitial, bo_Max = DefaultBackoffMax,
                                    bo_Jitter = DefaultBackoffJitter\<rparr>,
                      rp_OnExhausted = ActionFallback\<rparr>,
           p_Fallback = \<lparr>fp_Enabled = True, fp_MaxCandidates = DefaultFallbackMaxCandidates,
                         fp_OnExhausted = ActionTerminal\<rparr>,
           p_Budget = \<lparr>bp_Request = \<lparr>en_MaxExchanges = DefaultRequestMaxExchanges,
                                     en_MaxElapsed = DefaultRequestMaxElapsed\<rparr>,
                       bp_Candidate = \<lparr>en_MaxExchanges = DefaultCandidateMaxExchanges,
                                       en_MaxElapsed = DefaultCandidateMaxElapsed\<rparr>\<rparr>,
           p_RetryAfter = \<lparr>ra_Enabled = True, ra_Mode = RetryAfterMax,
                           ra_MaxDelay = DefaultRetryAfterMaxDelay\<rparr>,
           p_Stream = \<lparr>sp_Enabled = False, sp_MaxRecoveries = 0,
                       sp_MaxElapsed = DefaultStreamMaxElapsed,
                       sp_MaxPartialBytes = DefaultStreamMaxPartialBytes\<rparr>\<rparr>)"

section \<open>Specification vocabulary\<close>

text \<open>The scopes a validated policy nests: retries in a candidate, a candidate in the request, all under the caps.\<close>

definition policy_bounds :: "Policy \<Rightarrow> bool" where
  "policy_bounds p \<longleftrightarrow>
     (let r = p_Retry p; b = rp_Backoff r; f = p_Fallback p; q = bp_Request (p_Budget p);
          c = bp_Candidate (p_Budget p); a = p_RetryAfter p; s = p_Stream p in
      0 \<le> rp_MaxRetries r \<and> rp_MaxRetries r \<le> MaxRetriesCap
      \<and> rp_MaxRetries r < en_MaxExchanges c \<and> en_MaxExchanges c \<le> MaxCandidateExchangesCap
      \<and> en_MaxExchanges c \<le> en_MaxExchanges q \<and> en_MaxExchanges q \<le> MaxRequestExchangesCap
      \<and> MinBackoff \<le> rp_MaxElapsed r \<and> rp_MaxElapsed r \<le> en_MaxElapsed c
      \<and> en_MaxElapsed c \<le> MaxCandidateElapsedCap \<and> en_MaxElapsed c \<le> en_MaxElapsed q
      \<and> en_MaxElapsed q \<le> MaxRequestElapsedCap
      \<and> MinBackoff \<le> bo_Initial b \<and> bo_Initial b \<le> bo_Max b \<and> bo_Max b \<le> MaxBackoffCap
      \<and> (\<exists>j. bo_Jitter b = F64 j \<and> 0 \<le> j \<and> j \<le> 1)
      \<and> rp_OnExhausted r \<noteq> ActionRetry
      \<and> 1 \<le> fp_MaxCandidates f \<and> fp_MaxCandidates f \<le> (if fp_Enabled f then MaxCandidatesCap else 1)
      \<and> fp_OnExhausted f = ActionTerminal
      \<and> (ra_Enabled a \<longrightarrow> 0 \<le> ra_MaxDelay a) \<and> ra_MaxDelay a \<le> MaxCandidateElapsedCap
      \<and> (if sp_Enabled s then 1 \<le> sp_MaxRecoveries s \<and> sp_MaxRecoveries s \<le> MaxStreamRecoveriesCap
         else sp_MaxRecoveries s = 0)
      \<and> MinBackoff \<le> sp_MaxElapsed s \<and> sp_MaxElapsed s \<le> MaxCandidateElapsedCap
      \<and> MinStreamPartialBytes \<le> sp_MaxPartialBytes s \<and> sp_MaxPartialBytes s \<le> MaxStreamPartialBytesCap)"

text \<open>The disposition table the comments of \<open>Default\<close> describe, by failure layer.\<close>

definition disposition :: "Observation \<Rightarrow> Action" where
  "disposition ob =
     (case o_Class ob of
        FailureHTTP \<Rightarrow>
          (if o_HTTPStatus ob \<in> {408, 425, 429} then ActionRetry
           else if o_HTTPStatus ob \<in> {401, 403, 404, 405, 409, 422} then ActionFallback
           else if o_HTTPStatus ob \<in> {501, 505} then ActionTerminal
           else if 500 \<le> o_HTTPStatus ob then ActionRetry else ActionTerminal)
      | FailureTransport \<Rightarrow> (if KnownTransportCause (o_TransportCause ob) then ActionFallback else ActionTerminal)
      | FailureProtocol \<Rightarrow> (if KnownProtocolCause (o_ProtocolCause ob) then ActionRetry else ActionTerminal)
      | FailureCredential \<Rightarrow> (if KnownCredentialCause (o_CredentialCause ob) then ActionRetry else ActionTerminal)
      | _ \<Rightarrow> ActionTerminal)"

text \<open>The built-in rules in evaluation order.\<close>

definition sorted_defaults :: "Rule list" where
  "sorted_defaults =
     map (status_rule ActionFallback) [401, 403, 404, 405]
     @ [status_rule ActionRetry 408]
     @ map (status_rule ActionFallback) [409, 422]
     @ map (status_rule ActionRetry) [425, 429]
     @ map (status_rule ActionTerminal) [501, 505]
     @ [status_class_rule ActionTerminal StatusClass4xx, status_class_rule ActionRetry StatusClass5xx]
     @ map caller_rule [CallerCanceled, CallerDeadline]
     @ [credential_rule CredentialCooldown]
     @ map protocol_rule
         [ProtocolBodyReadFailed, ProtocolBodyTimeout, ProtocolInvalidResponse, ProtocolOversizedResponse]
     @ map transport_cause_rule
         [CauseConnectionRefused, CauseDeadlineExceeded, CauseDial, CauseNetworkTimeout,
          CauseNoEligibleEndpoint, CauseProxyAuth, CauseProxyConnect, CauseProxyTimeout, CauseTLS]
     @ map transport_class_rule
         [TransportClassConnection, TransportClassProxyAuth, TransportClassProxyConnect, TransportClassTimeout]"

definition default_policy :: Policy where
  "default_policy = projr Default"

section \<open>Facts\<close>

subsection \<open>The vocabulary of retry-after modes\<close>

interpretation retry_after_tokens: token_codec RetryAfterMode_String ParseRetryAfterMode "\<lambda>_. True"
proof
  show "ParseRetryAfterMode (RetryAfterMode_String x) = Inr x" for x
    by (cases x) (simp_all add: RetryAfterMode_String_def ParseRetryAfterMode_def)
  show "True \<and> RetryAfterMode_String x = s" if "ParseRetryAfterMode s = Inr x" for s x
    using that by (auto simp: RetryAfterMode_String_def ParseRetryAfterMode_def split: if_splits)
qed

subsection \<open>The validator\<close>

lemma jitter_ok_iff:
  "(x = F64NaN \<or> f64_less x (F64 0) \<or> f64_less (F64 1) x) \<longleftrightarrow> \<not> (\<exists>j. x = F64 j \<and> 0 \<le> j \<and> j \<le> 1)"
  by (cases x) (auto simp: not_le)

lemma action_not_retry: "(a \<noteq> ActionFallback \<and> a \<noteq> ActionTerminal) \<longleftrightarrow> a = ActionRetry"
  by (cases a) auto

lemma validate_retry_iff:
  "validate_retry r = Inr () \<longleftrightarrow>
     0 \<le> rp_MaxRetries r \<and> rp_MaxRetries r \<le> MaxRetriesCap
     \<and> MinBackoff \<le> rp_MaxElapsed r \<and> rp_MaxElapsed r \<le> MaxCandidateElapsedCap
     \<and> MinBackoff \<le> bo_Initial (rp_Backoff r) \<and> bo_Initial (rp_Backoff r) \<le> bo_Max (rp_Backoff r)
     \<and> bo_Max (rp_Backoff r) \<le> MaxBackoffCap
     \<and> (\<exists>j. bo_Jitter (rp_Backoff r) = F64 j \<and> 0 \<le> j \<and> j \<le> 1) \<and> rp_OnExhausted r \<noteq> ActionRetry"
  unfolding validate_retry_def jitter_ok_iff action_not_retry
  by (simp add: if_Inl_eq_Inr not_less not_le conj_assoc del: not_all not_ex)

lemma validate_fallback_iff:
  "validate_fallback f = Inr () \<longleftrightarrow>
     1 \<le> fp_MaxCandidates f \<and> fp_MaxCandidates f \<le> (if fp_Enabled f then MaxCandidatesCap else 1)
     \<and> fp_OnExhausted f = ActionTerminal"
  unfolding validate_fallback_def by (auto simp: not_less)

lemma validate_budget_iff:
  "validate_budget b r = Inr () \<longleftrightarrow>
     1 \<le> en_MaxExchanges (bp_Request b) \<and> en_MaxExchanges (bp_Request b) \<le> MaxRequestExchangesCap
     \<and> MinBackoff \<le> en_MaxElapsed (bp_Request b) \<and> en_MaxElapsed (bp_Request b) \<le> MaxRequestElapsedCap
     \<and> 1 \<le> en_MaxExchanges (bp_Candidate b) \<and> en_MaxExchanges (bp_Candidate b) \<le> MaxCandidateExchangesCap
     \<and> MinBackoff \<le> en_MaxElapsed (bp_Candidate b) \<and> en_MaxElapsed (bp_Candidate b) \<le> MaxCandidateElapsedCap
     \<and> en_MaxExchanges (bp_Candidate b) \<le> en_MaxExchanges (bp_Request b)
     \<and> en_MaxElapsed (bp_Candidate b) \<le> en_MaxElapsed (bp_Request b)
     \<and> rp_MaxElapsed r \<le> en_MaxElapsed (bp_Candidate b)
     \<and> rp_MaxRetries r < en_MaxExchanges (bp_Candidate b)"
  unfolding validate_budget_def by (simp add: if_Inl_eq_Inr not_less not_le conj_assoc)

lemma validate_retry_after_iff:
  "validate_retry_after a = Inr () \<longleftrightarrow>
     (ra_Enabled a \<longrightarrow> 0 \<le> ra_MaxDelay a) \<and> ra_MaxDelay a \<le> MaxCandidateElapsedCap"
  unfolding validate_retry_after_def by (auto simp: not_less)

lemma validate_stream_iff:
  "validate_stream s = Inr () \<longleftrightarrow>
     (if sp_Enabled s then 1 \<le> sp_MaxRecoveries s \<and> sp_MaxRecoveries s \<le> MaxStreamRecoveriesCap
      else sp_MaxRecoveries s = 0)
     \<and> MinBackoff \<le> sp_MaxElapsed s \<and> sp_MaxElapsed s \<le> MaxCandidateElapsedCap
     \<and> MinStreamPartialBytes \<le> sp_MaxPartialBytes s \<and> sp_MaxPartialBytes s \<le> MaxStreamPartialBytesCap"
  unfolding validate_stream_def by (auto simp: not_less MaxStreamRecoveriesCap_def)

lemma Validate_parts:
  "Validate p = Inr () \<longleftrightarrow>
     validate_retry (p_Retry p) = Inr () \<and> validate_fallback (p_Fallback p) = Inr ()
     \<and> validate_budget (p_Budget p) (p_Retry p) = Inr () \<and> validate_retry_after (p_RetryAfter p) = Inr ()
     \<and> validate_stream (p_Stream p) = Inr ()"
  unfolding Validate_def case_result_iff ex_Inr_unit by blast

lemma Validate_iff_bounds: "Validate p = Inr () \<longleftrightarrow> policy_bounds p"
proof 
  assume "Validate p = Inr ()"
  then show "policy_bounds p"
  unfolding Validate_parts validate_retry_iff validate_fallback_iff validate_budget_iff
    validate_retry_after_iff validate_stream_iff policy_bounds_def Let_def by simp
next
  assume "policy_bounds p"
  then show "Validate p = Inr ()"
  unfolding Validate_parts validate_retry_iff validate_fallback_iff validate_budget_iff
    validate_retry_after_iff validate_stream_iff policy_bounds_def Let_def by simp
qed

subsection \<open>The built-in policy\<close>

lemma DefaultBackoffJitter_value: "DefaultBackoffJitter = F64 (3602879701896397 / 36028797018963968)"
  by code_simp

lemma matches_default_rules:
  "s \<noteq> 0 \<Longrightarrow> matches (r_Match (status_rule a s)) ob \<longleftrightarrow> o_HTTPStatus ob = s"
  "sc \<noteq> StatusClassNone \<Longrightarrow> matches (r_Match (status_class_rule a sc)) ob \<longleftrightarrow> o_StatusClass ob = sc"
  "tc \<noteq> TransportClassNone \<Longrightarrow> matches (r_Match (transport_class_rule tc)) ob \<longleftrightarrow>
     o_Class ob = FailureTransport \<and> o_TransportClass ob = tc"
  "c \<noteq> [] \<Longrightarrow> matches (r_Match (transport_cause_rule c)) ob \<longleftrightarrow>
     o_Class ob = FailureTransport \<and> o_TransportCause ob = c"
  "c \<noteq> [] \<Longrightarrow> matches (r_Match (protocol_rule c)) ob \<longleftrightarrow>
     o_Class ob = FailureProtocol \<and> o_ProtocolCause ob = c"
  "c \<noteq> [] \<Longrightarrow> matches (r_Match (caller_rule c)) ob \<longleftrightarrow>
     o_Class ob = FailureCaller \<and> o_CallerCause ob = c"
  "c \<noteq> [] \<Longrightarrow> matches (r_Match (credential_rule c)) ob \<longleftrightarrow>
     o_Class ob = FailureCredential \<and> o_CredentialCause ob = c"
  by (auto simp: matches_iff sel_def status_rule_def status_class_rule_def transport_class_rule_def
      transport_cause_rule_def protocol_rule_def caller_rule_def credential_rule_def zeroMatch_def)

lemma default_rule_actions:
  "r_Action (status_rule a s) = a"
  "r_Action (status_class_rule a sc) = a"
  "r_Action (transport_class_rule tc) = ActionFallback"
  "r_Action (transport_cause_rule c) = ActionFallback"
  "r_Action (protocol_rule c) = ActionRetry"
  "r_Action (caller_rule c) = ActionTerminal"
  "r_Action (credential_rule c) = ActionRetry"
  by (simp_all add: status_rule_def status_class_rule_def transport_class_rule_def
      transport_cause_rule_def protocol_rule_def caller_rule_def credential_rule_def)

lemma fst_match_rules:
  "fst (match_rules [] d ob) = d"
  "fst (match_rules (r # rs) d ob) = (if matches (r_Match r) ob then r_Action r else fst (match_rules rs d ob))"
  by simp_all

lemma wf_http: "wf_obs ob \<Longrightarrow> o_Class ob \<noteq> FailureHTTP \<Longrightarrow> o_HTTPStatus ob = 0 \<and> o_StatusClass ob = StatusClassNone"
  by (auto simp: wf_obs_def StatusClassOf_def)

lemma StatusClassOf_range: "100 \<le> s \<Longrightarrow> s \<le> 599 \<Longrightarrow> (StatusClassOf s = StatusClass4xx \<longleftrightarrow> 400 \<le> s \<and> s < 500) \<and> (StatusClassOf s = StatusClass5xx \<longleftrightarrow> 500 \<le> s)"
  by (auto simp: StatusClassOf_def)

lemma sorted_defaults_disposition:
  assumes "wf_obs ob"
  shows "fst (match_rules sorted_defaults ActionTerminal ob) = disposition ob"
proof (cases "o_Class ob = FailureHTTP")
  case True
  have s: "o_HTTPStatus ob = 0 \<or> 100 \<le> o_HTTPStatus ob \<and> o_HTTPStatus ob \<le> 599"
    and cl: "o_StatusClass ob = StatusClassOf (o_HTTPStatus ob)" using assms by (simp_all add: wf_obs_def)
  then have "(o_StatusClass ob = StatusClass4xx \<longleftrightarrow> 400 \<le> o_HTTPStatus ob \<and> o_HTTPStatus ob < 500)"
    "(o_StatusClass ob = StatusClass5xx \<longleftrightarrow> 500 \<le> o_HTTPStatus ob)"
    using StatusClassOf_range [of "o_HTTPStatus ob"] by (auto simp: StatusClassOf_def)
  with True show ?thesis
    unfolding sorted_defaults_def list.map append.simps
    by (simp add: fst_match_rules matches_default_rules default_rule_actions disposition_def del: match_rules.simps) 
next
  case False
  note wf = wf_http [OF assms False]
  have cl: "o_TransportClass ob = TransportClassOfCause (o_TransportCause ob)" using assms by (simp add: wf_obs_def)
  show ?thesis
    unfolding sorted_defaults_def list.map append.simps
    using wf False
    by (cases "o_Class ob") (simp_all add: fst_match_rules matches_default_rules default_rule_actions disposition_def KnownTransportCause_def KnownProtocolCause_def KnownCredentialCause_def cl TransportClassOfCause_def transportCauses_def del: match_rules.simps)
qed

lemma sortRules_default: "sortRules default_rules = sorted_defaults"
  by code_simp

lemma NewMatrix_default:
  "NewMatrix default_rules ActionTerminal = Inr \<lparr>mx_rules = sorted_defaults, mx_def = ActionTerminal\<rparr>"
proof -
  have "check_rules 0 Map.empty default_rules = Inr ()" by code_simp
  moreover have "check_pairs 0 default_rules = Inr ()" by code_simp
  ultimately show ?thesis by (simp add: NewMatrix_def sortRules_default)
qed

lemma Default_eq: "Default = Inr default_policy"
  by (simp add: default_policy_def Default_def NewMatrix_default)

lemma default_policy_matrix: "p_Matrix default_policy = \<lparr>mx_rules = sorted_defaults, mx_def = ActionTerminal\<rparr>"
  by (simp add: default_policy_def Default_def NewMatrix_default)

lemma default_jitter: "\<exists>j. DefaultBackoffJitter = F64 j \<and> 0 \<le> j \<and> j \<le> 1"
  unfolding DefaultBackoffJitter_value by (rule exI, rule conjI, rule refl) simp

lemma Validate_default: "Validate default_policy = Inr ()"
  using default_jitter
  by (simp add: Validate_iff_bounds policy_bounds_def default_policy_def Default_def NewMatrix_default
      defaults caps)

section \<open>Properties\<close>

text \<open>
  The panic of \<open>Default\<close> is unreachable: the built-in rules form a matrix, the policy built
  on it validates, and it disposes of every well-formed failure exactly as the table of its
  comments says, whatever the position of the attempt in the walk.
\<close>

theorem Default_valid:
  "\<exists>p. Default = Inr p \<and> Validate p = Inr () \<and>
       (\<forall>ob. wf_obs ob \<longrightarrow> fst (Matrix_Match (p_Matrix p) ob) = disposition ob)"
  by (auto simp: Default_eq Validate_default default_policy_matrix Matrix_Match_def
      sorted_defaults_disposition)

theorem Default_valid_witness:
  "wf_obs ex_obs \<and> (\<exists>p. Default = Inr p \<and> fst (Matrix_Match (p_Matrix p) ex_obs) = ActionRetry)"
proof -
  have "disposition ex_obs = ActionRetry" by (simp add: disposition_def ex_obs_def zeroObservation_def)
  then show ?thesis using Default_valid ex_obs_wf by auto
qed

text \<open>
  A policy passes \<open>Validate\<close> exactly when its scopes nest: every retry is funded by the
  candidate's exchange envelope and that one by the request's, the retry window lies in the
  candidate's and that one in the request's, and each ceiling respects its absolute cap.
\<close>

theorem Validate_iff_nested: "Validate p = Inr () \<longleftrightarrow> policy_bounds p"
  by (rule Validate_iff_bounds)

end
