(* ===== verification/Transport_Seam.thy ===== *)
theory Transport_Seam
  imports Prelude
begin

text \<open>
  The seam of \<open>internal/transport/transport.go\<close> through which real outbound exchanges are
  metered: the shape \<open>Exchange\<close> and the interface \<open>ExchangeBudget\<close>. The interface is a
  locale: \<open>acquire\<close> is \<open>AcquireExchange\<close> at a clock reading, \<open>used\<close> counts the exchanges it
  authorised, \<open>cap\<close> bounds them. The recovery budget provides it; the egress pool and the
  direct path are its clients.
\<close>

record Exchange =
  ex_Granted :: bool
  ex_Window :: duration

definition zeroExchange :: Exchange where
  "zeroExchange = \<lparr>ex_Granted = False, ex_Window = 0\<rparr>"

text \<open>A client that claims one unit at each of a list of clock readings, and counts its grants.\<close>

fun acquire_all :: "('b \<Rightarrow> time \<Rightarrow> 'b \<times> Exchange) \<Rightarrow> 'b \<Rightarrow> time list \<Rightarrow> 'b \<times> Exchange list" where
  "acquire_all acq b [] = (b, [])"
| "acquire_all acq b (t # ts) =
     (let (b', g) = acq b t; (b'', gs) = acquire_all acq b' ts in (b'', g # gs))"

definition grants :: "Exchange list \<Rightarrow> int" where
  "grants gs = int (length (filter ex_Granted gs))"

text \<open>
  \<open>inv b t\<close> is the provider's invariant at the clock reading \<open>t\<close>; the clock does not run
  backwards, as Go's monotonic readings do not.
\<close>

locale exchange_budget =
  fixes acquire :: "'b \<Rightarrow> time \<Rightarrow> 'b \<times> Exchange"
    and used :: "'b \<Rightarrow> int" and cap :: "'b \<Rightarrow> int" and inv :: "'b \<Rightarrow> time \<Rightarrow> bool"
  assumes granted_counts: "acquire b t = (b', g) \<Longrightarrow> inv b t \<Longrightarrow> ex_Granted g \<Longrightarrow> used b' = used b + 1"
    and refused_keeps: "acquire b t = (b', g) \<Longrightarrow> \<not> ex_Granted g \<Longrightarrow> b' = b"
    and granted_window: "acquire b t = (b', g) \<Longrightarrow> inv b t \<Longrightarrow> ex_Granted g \<Longrightarrow> 0 < ex_Window g"
    and cap_fixed: "acquire b t = (b', g) \<Longrightarrow> cap b' = cap b"
    and inv_acquire: "acquire b t = (b', g) \<Longrightarrow> inv b t \<Longrightarrow> inv b' t"
    and inv_later: "inv b t \<Longrightarrow> t \<le> t' \<Longrightarrow> inv b t'"
    and used_le_cap: "inv b t \<Longrightarrow> used b \<le> cap b"
begin

lemma acquire_used: "acquire b t = (b', g) \<Longrightarrow> inv b t \<Longrightarrow> used b' = used b + of_bool (ex_Granted g)"
  by (cases "ex_Granted g") (auto dest: granted_counts refused_keeps)

definition claims_ok :: "'b \<Rightarrow> 'b \<Rightarrow> Exchange list \<Rightarrow> bool" where
  "claims_ok b b' gs \<longleftrightarrow>
     used b' = used b + grants gs \<and> cap b' = cap b \<and> (\<forall>g\<in>set gs. ex_Granted g \<longrightarrow> 0 < ex_Window g)"

lemma acquire_all_facts:
  "acquire_all acquire b ts = (b', gs) \<Longrightarrow> sorted (t # ts) \<Longrightarrow> inv b t \<Longrightarrow>
   claims_ok b b' gs \<and> inv b' (last (t # ts))"
proof (induction ts arbitrary: b t gs)
  case Nil
  then show ?case by (simp add: claims_ok_def grants_def)
next
  case (Cons u ts)
  then obtain m g rest
    where s: "acquire b u = (m, g)" "acquire_all acquire m ts = (b', rest)" "gs = g # rest"
    by (auto simp: Let_def split: prod.splits)
  have u: "inv b u" using Cons.prems(2,3) inv_later by simp
  have "sorted (u # ts)" using Cons.prems(2) by simp
  from Cons.IH [OF s(2) this inv_acquire [OF s(1) u]]
  have "claims_ok m b' rest \<and> inv b' (last (u # ts))" .
  with s(3) acquire_used [OF s(1) u] cap_fixed [OF s(1)] granted_window [OF s(1) u] show ?case
    by (auto simp: claims_ok_def grants_def)
qed

lemma grants_bounded:
  assumes "acquire_all acquire b ts = (b', gs)" and "sorted (t # ts)" and "inv b t"
  shows "grants gs \<le> cap b - used b"
  using acquire_all_facts [OF assms] used_le_cap [of b' "last (t # ts)"]
  by (simp add: claims_ok_def)

end

end
