(* ===== verification/Recovery_Budget.thy ===== *)
theory Recovery_Budget
  imports Recovery_Policy Transport_Seam
begin

text \<open>
  \<open>internal/recovery/budget.go\<close>: one request's exchange envelope, live. The clock the source
  holds as a function is a reading passed to each operation; the mutex makes each operation
  atomic, so concurrent use is a sequence of operations. The theorems show the envelope's
  counts exact and bounded over every history of operations, and that a grant carries a
  window inside both envelopes.
\<close>

section \<open>The budget\<close>

datatype Exhaustion = ExhaustionNone | ExhaustionRequest | ExhaustionCandidate

fun Exhaustion_String :: "Exhaustion \<Rightarrow> string" where
  "Exhaustion_String ExhaustionRequest = ''request''"
| "Exhaustion_String ExhaustionCandidate = ''candidate''"
| "Exhaustion_String ExhaustionNone = ''none''"

record Budget =
  b_start :: time
  b_req :: Envelope
  b_cand :: Envelope
  b_candStart :: time
  b_reqUsed :: int
  b_candUsed :: int

definition zeroEnvelope :: Envelope where
  "zeroEnvelope = \<lparr>en_MaxExchanges = 0, en_MaxElapsed = 0\<rparr>"

definition NewBudget :: "Envelope \<Rightarrow> time \<Rightarrow> Budget" where
  "NewBudget req now =
     \<lparr>b_start = now, b_req = req, b_cand = zeroEnvelope, b_candStart = 0, b_reqUsed = 0, b_candUsed = 0\<rparr>"

definition BeginCandidate :: "Budget \<Rightarrow> Envelope \<Rightarrow> time \<Rightarrow> Budget" where
  "BeginCandidate b cand now = b\<lparr>b_cand := cand, b_candStart := now, b_candUsed := 0\<rparr>"

definition spentLocked :: "time \<Rightarrow> time \<Rightarrow> duration \<Rightarrow> bool" where
  "spentLocked now start limit \<longleftrightarrow> time_sub now start \<ge> limit"

definition stateLocked :: "Budget \<Rightarrow> time \<Rightarrow> Exhaustion" where
  "stateLocked b now =
     (if b_reqUsed b \<ge> en_MaxExchanges (b_req b) \<or> spentLocked now (b_start b) (en_MaxElapsed (b_req b))
      then ExhaustionRequest
      else if b_candUsed b \<ge> en_MaxExchanges (b_cand b)
              \<or> spentLocked now (b_candStart b) (en_MaxElapsed (b_cand b))
      then ExhaustionCandidate
      else ExhaustionNone)"

definition remainingElapsedLocked :: "Budget \<Rightarrow> time \<Rightarrow> duration" where
  "remainingElapsedLocked b now =
     (let rem = wrap64 (en_MaxElapsed (b_req b) - time_sub now (b_start b));
          cand = wrap64 (en_MaxElapsed (b_cand b) - time_sub now (b_candStart b))
      in if cand < rem then cand else rem)"

definition AcquireExchange :: "Budget \<Rightarrow> time \<Rightarrow> Budget \<times> Exchange" where
  "AcquireExchange b now =
     (if stateLocked b now \<noteq> ExhaustionNone then (b, zeroExchange)
      else let b' = b\<lparr>b_reqUsed := wrap64 (b_reqUsed b + 1), b_candUsed := wrap64 (b_candUsed b + 1)\<rparr>
           in (b', \<lparr>ex_Granted = True, ex_Window = remainingElapsedLocked b' now\<rparr>))"

definition Exhausted :: "Budget \<Rightarrow> time \<Rightarrow> Exhaustion" where
  "Exhausted b now = stateLocked b now"

definition Remaining :: "Budget \<Rightarrow> int" where
  "Remaining b =
     (let n = wrap64 (en_MaxExchanges (b_req b) - b_reqUsed b);
          c = wrap64 (en_MaxExchanges (b_cand b) - b_candUsed b);
          n = (if c < n then c else n)
      in if n < 0 then 0 else n)"

definition RequestRemaining :: "Budget \<Rightarrow> int" where
  "RequestRemaining b =
     (let n = wrap64 (en_MaxExchanges (b_req b) - b_reqUsed b) in if n < 0 then 0 else n)"

definition RequestExchanges :: "Budget \<Rightarrow> int" where
  "RequestExchanges b = b_reqUsed b"

definition CandidateExchanges :: "Budget \<Rightarrow> int" where
  "CandidateExchanges b = b_candUsed b"

definition RemainingElapsed :: "Budget \<Rightarrow> time \<Rightarrow> duration" where
  "RemainingElapsed b now = remainingElapsedLocked b now"

section \<open>Specification vocabulary\<close>

text \<open>
  Envelopes of the sizes validation allows, and the invariant of a budget opened on one: the
  counts are between zero and their ceilings, and the candidate's never exceeds the request's.
\<close>

definition envelope_ok :: "Envelope \<Rightarrow> bool" where
  "envelope_ok e \<longleftrightarrow>
     0 \<le> en_MaxExchanges e \<and> en_MaxExchanges e \<le> MaxRequestExchangesCap
     \<and> 0 \<le> en_MaxElapsed e \<and> en_MaxElapsed e \<le> MaxRequestElapsedCap"

definition budget_inv :: "Budget \<Rightarrow> bool" where
  "budget_inv b \<longleftrightarrow>
     envelope_ok (b_req b) \<and> envelope_ok (b_cand b)
     \<and> 0 \<le> b_candUsed b \<and> b_candUsed b \<le> b_reqUsed b
     \<and> b_reqUsed b \<le> en_MaxExchanges (b_req b) \<and> b_candUsed b \<le> en_MaxExchanges (b_cand b)"

text \<open>
  A history of one budget: candidates begin and exchanges are claimed at any clock readings.
  The step relation carries the number of grants issued so far.
\<close>

inductive budget_run :: "Envelope \<Rightarrow> Budget \<Rightarrow> int \<Rightarrow> bool" for req where
  opened: "budget_run req (NewBudget req t) 0"
| began: "budget_run req b n \<Longrightarrow> envelope_ok cand \<Longrightarrow> budget_run req (BeginCandidate b cand t) n"
| claimed: "budget_run req b n \<Longrightarrow> AcquireExchange b t = (b', g) \<Longrightarrow>
    budget_run req b' (n + of_bool (ex_Granted g))"

text \<open>A budget two seconds into its candidate, for the witnesses.\<close>

definition ex_budget :: Budget where
  "ex_budget = \<lparr>b_start = 0, b_req = \<lparr>en_MaxExchanges = 4, en_MaxElapsed = 10 * Second\<rparr>,
                b_cand = \<lparr>en_MaxExchanges = 2, en_MaxElapsed = 3 * Second\<rparr>, b_candStart = Second,
                b_reqUsed = 2, b_candUsed = 1\<rparr>"

definition budget_at :: "Budget \<Rightarrow> time \<Rightarrow> bool" where
  "budget_at b t \<longleftrightarrow> budget_inv b \<and> b_start b \<le> t \<and> b_candStart b \<le> t"

section \<open>Facts\<close>

lemma Validate_envelopes_ok:
  "Validate p = Inr () \<Longrightarrow> envelope_ok (bp_Request (p_Budget p)) \<and> envelope_ok (bp_Candidate (p_Budget p))"
  by (auto simp: Validate_iff_bounds policy_bounds_def envelope_ok_def Let_def caps)

lemma AcquireExchange_cases:
  obtains (refused) "stateLocked b t \<noteq> ExhaustionNone" "AcquireExchange b t = (b, zeroExchange)"
  | (granted) b' where "stateLocked b t = ExhaustionNone"
      "b' = b\<lparr>b_reqUsed := wrap64 (b_reqUsed b + 1), b_candUsed := wrap64 (b_candUsed b + 1)\<rparr>"
      "AcquireExchange b t = (b', \<lparr>ex_Granted = True, ex_Window = remainingElapsedLocked b' t\<rparr>)"
  by (cases "stateLocked b t = ExhaustionNone") (auto simp: AcquireExchange_def Let_def)

lemma stateLocked_None:
  "stateLocked b t = ExhaustionNone \<longleftrightarrow>
     b_reqUsed b < en_MaxExchanges (b_req b) \<and> time_sub t (b_start b) < en_MaxElapsed (b_req b)
     \<and> b_candUsed b < en_MaxExchanges (b_cand b) \<and> time_sub t (b_candStart b) < en_MaxElapsed (b_cand b)"
  by (auto simp: stateLocked_def spentLocked_def)

lemma budget_inv_small:
  assumes "budget_inv b"
  shows "wrap64 (b_reqUsed b + 1) = b_reqUsed b + 1" and "wrap64 (b_candUsed b + 1) = b_candUsed b + 1"
  using assms by (auto intro!: wrap64_id simp: budget_inv_def envelope_ok_def in_int64_iff caps)

lemma BeginCandidate_inv:
  "budget_inv b \<Longrightarrow> envelope_ok cand \<Longrightarrow> budget_inv (BeginCandidate b cand t)"
  by (auto simp: budget_inv_def BeginCandidate_def envelope_ok_def)

lemma NewBudget_inv: "envelope_ok req \<Longrightarrow> budget_inv (NewBudget req t)"
  by (auto simp: budget_inv_def NewBudget_def zeroEnvelope_def envelope_ok_def caps)

lemma AcquireExchange_inv:
  assumes "AcquireExchange b t = (b', g)" and "budget_inv b"
  shows "budget_inv b'"
proof (cases rule: AcquireExchange_cases [of b t])
  case refused
  with assms show ?thesis by simp
next
  case (granted c)
  with assms show ?thesis
    by (auto simp: budget_inv_def stateLocked_None budget_inv_small [OF assms(2)])
qed

text \<open>The window of a grant is what is left of the tighter envelope, and it is positive.\<close>

lemma remainingElapsed_granted:
  assumes "budget_inv b" and "stateLocked b t = ExhaustionNone"
    and "b_start b \<le> t" and "b_candStart b \<le> t"
  shows "remainingElapsedLocked b t =
    min (en_MaxElapsed (b_req b) - (t - b_start b)) (en_MaxElapsed (b_cand b) - (t - b_candStart b))"
proof -
  have small: "time_sub t u = t - u \<and> wrap64 (m - (t - u)) = m - (t - u)"
    if "u \<le> t" "time_sub t u < m" "m \<le> MaxRequestElapsedCap" for u m
  proof -
    have "t - u < m" using that by (auto simp: time_sub_def int64_max_def int64_min_def caps min_def max_def split: if_splits)
    then have "in_int64 (t - u)" "in_int64 (m - (t - u))" using that by (auto simp: in_int64_iff caps)
    then show ?thesis by (simp add: time_sub_id wrap64_id)
  qed
  show ?thesis
    using assms small [of "b_start b" "en_MaxElapsed (b_req b)"]
      small [of "b_candStart b" "en_MaxElapsed (b_cand b)"]
    by (auto simp: remainingElapsedLocked_def Let_def stateLocked_None budget_inv_def envelope_ok_def)
qed

lemma AcquireExchange_window:
  assumes "AcquireExchange b t = (b', g)" and "budget_at b t" and "ex_Granted g"
  shows "ex_Window g =
           min (en_MaxElapsed (b_req b) - (t - b_start b)) (en_MaxElapsed (b_cand b) - (t - b_candStart b))"
    and "0 < ex_Window g"
proof -
  have st: "stateLocked b t = ExhaustionNone"
    using assms by (auto simp: AcquireExchange_def zeroExchange_def split: if_splits)
  then have g: "ex_Window g = remainingElapsedLocked b t"
    using assms(1) by (auto simp: AcquireExchange_def Let_def remainingElapsedLocked_def)
  with st assms(2) show w: "ex_Window g =
      min (en_MaxElapsed (b_req b) - (t - b_start b)) (en_MaxElapsed (b_cand b) - (t - b_candStart b))"
    by (simp add: remainingElapsed_granted budget_at_def)
  have "t - u < m" if "time_sub t u < m" "u \<le> t" "m \<le> MaxRequestElapsedCap" for u m
    using that by (auto simp: time_sub_def int64_max_def caps min_def max_def int64_min_def split: if_splits)
  then show "0 < ex_Window g"
    using st assms(2) unfolding w by (auto simp: stateLocked_None budget_at_def budget_inv_def envelope_ok_def)
qed

interpretation live_budget: exchange_budget AcquireExchange RequestExchanges "\<lambda>b. en_MaxExchanges (b_req b)" budget_at
proof
  fix b t b' g
  assume a: "AcquireExchange b t = (b', g)"
  then show "\<not> ex_Granted g \<Longrightarrow> b' = b" by (auto simp: AcquireExchange_def Let_def split: if_splits)
  from a show "en_MaxExchanges (b_req b') = en_MaxExchanges (b_req b)"
    by (auto simp: AcquireExchange_def Let_def split: if_splits)
  { assume b: "budget_at b t"
    with a AcquireExchange_inv show "budget_at b' t"
      by (auto simp: budget_at_def AcquireExchange_def Let_def split: if_splits)
    assume g: "ex_Granted g"
    from b have "budget_inv b" by (simp add: budget_at_def)
    with a g show "RequestExchanges b' = RequestExchanges b + 1"
      by (auto simp: RequestExchanges_def AcquireExchange_def Let_def zeroExchange_def budget_inv_small split: if_splits)
    from AcquireExchange_window(2) [OF a b g] show "0 < ex_Window g" . }
next
  show "budget_at b t \<Longrightarrow> t \<le> t' \<Longrightarrow> budget_at b t'" for b t t' by (simp add: budget_at_def)
  show "budget_at b t \<Longrightarrow> RequestExchanges b \<le> en_MaxExchanges (b_req b)" for b t
    by (simp add: budget_at_def budget_inv_def RequestExchanges_def)
qed

lemma budget_run_inv:
  "budget_run req b n \<Longrightarrow> envelope_ok req \<Longrightarrow> budget_inv b \<and> RequestExchanges b = n \<and> b_req b = req"
proof (induction rule: budget_run.induct)
  case (opened t)
  then show ?case using NewBudget_inv by (simp add: NewBudget_def RequestExchanges_def)
next
  case (began b n cand t)
  then show ?case using BeginCandidate_inv by (simp add: BeginCandidate_def RequestExchanges_def)
next
  case (claimed b n t b' g)
  then have b: "budget_inv b" by simp
  from AcquireExchange_inv [OF claimed(2) b] claimed b show ?case
    by (auto simp: AcquireExchange_def Let_def RequestExchanges_def zeroExchange_def budget_inv_small split: if_splits)
qed

section \<open>Properties\<close>

text \<open>
  C12: over every history of a budget, whatever the candidates' envelopes and whatever the
  clock does, the request count is exactly the number of exchanges granted, it never passes
  the request envelope, the candidate's count never passes the candidate envelope, and what
  is reported as remaining is exactly the difference.
\<close>

theorem budget_counts_exact:
  assumes "envelope_ok req" and "budget_run req b n"
  shows "RequestExchanges b = n \<and> 0 \<le> n \<and> n \<le> en_MaxExchanges req
         \<and> RequestRemaining b = en_MaxExchanges req - n
         \<and> CandidateExchanges b \<le> n \<and> CandidateExchanges b \<le> en_MaxExchanges (b_cand b)"
proof -
  have "in_int64 (en_MaxExchanges (b_req b) - b_reqUsed b)"
    using budget_run_inv [OF assms(2,1)] by (auto simp: budget_inv_def envelope_ok_def in_int64_iff caps)
  then show ?thesis
    using budget_run_inv [OF assms(2,1)]
    by (auto simp: budget_inv_def RequestExchanges_def CandidateExchanges_def RequestRemaining_def Let_def wrap64_id)
qed

theorem budget_counts_exact_witness:
  "budget_run \<lparr>en_MaxExchanges = 1, en_MaxElapsed = Second\<rparr>
      (NewBudget \<lparr>en_MaxExchanges = 1, en_MaxElapsed = Second\<rparr> 7) 0
   \<and> RequestRemaining (NewBudget \<lparr>en_MaxExchanges = 1, en_MaxElapsed = Second\<rparr> 7) = 1"
proof -
  let ?e = "\<lparr>en_MaxExchanges = 1, en_MaxElapsed = Second\<rparr>"
  have r: "budget_run ?e (NewBudget ?e 7) 0" by (rule budget_run.opened)
  have "envelope_ok ?e" by (simp add: envelope_ok_def caps)
  from budget_counts_exact [OF this r] r show ?thesis by simp
qed

text \<open>
  A granted exchange is authorised by both envelopes at one clock reading: both counts
  move by one, and the window it carries is exactly what is left of the tighter envelope,
  which is positive. A refusal changes nothing.
\<close>

theorem AcquireExchange_atomic:
  assumes "AcquireExchange b t = (b', g)" and "budget_inv b" and "b_start b \<le> t" and "b_candStart b \<le> t"
  shows "if ex_Granted g
         then Exhausted b t = ExhaustionNone
              \<and> RequestExchanges b' = RequestExchanges b + 1 \<and> CandidateExchanges b' = CandidateExchanges b + 1
              \<and> ex_Window g = min (en_MaxElapsed (b_req b) - (t - b_start b))
                                  (en_MaxElapsed (b_cand b) - (t - b_candStart b))
              \<and> 0 < ex_Window g
         else b' = b \<and> Exhausted b t \<noteq> ExhaustionNone"
proof (cases rule: AcquireExchange_cases [of b t])
  case refused
  with assms(1) show ?thesis by (auto simp: zeroExchange_def Exhausted_def)
next
  case (granted c)
  have "budget_at b t" using assms(2-4) by (simp add: budget_at_def)
  with granted assms(1) AcquireExchange_window [OF assms(1)] show ?thesis
    by (auto simp: Exhausted_def RequestExchanges_def CandidateExchanges_def budget_inv_small [OF assms(2)])
qed

theorem AcquireExchange_atomic_witness:
  "ex_Granted (snd (AcquireExchange ex_budget (3 * Second)))
   \<and> ex_Window (snd (AcquireExchange ex_budget (3 * Second))) = Second"
proof -
  have i: "budget_inv ex_budget" by (simp add: ex_budget_def budget_inv_def envelope_ok_def caps)
  have g: "ex_Granted (snd (AcquireExchange ex_budget (3 * Second)))"
    by (simp add: ex_budget_def AcquireExchange_def stateLocked_def spentLocked_def time_sub_def caps
        int64_max_def int64_min_def Let_def)
  have "AcquireExchange ex_budget (3 * Second) =
      (fst (AcquireExchange ex_budget (3 * Second)), snd (AcquireExchange ex_budget (3 * Second)))"
    by simp
  from AcquireExchange_atomic [OF this i] g show ?thesis by (simp add: ex_budget_def caps)
qed

end
