(* ===== verification/Recovery_Backoff.thy ===== *)
theory Recovery_Backoff
  imports Recovery_Policy
begin

text \<open>
  \<open>internal/recovery/backoff.go\<close>, \<open>internal/recovery/retryafter.go\<close> and the parser of
  \<open>internal/proxy/retryafter.go\<close>: the wait schedule between two attempts, its jitter, and
  the reading of an upstream's \<open>Retry-After\<close> directive. \<open>http.ParseTime\<close> is the parameter
  \<open>parse_time\<close>. The theorems give the schedule in closed form (no doubling wraps on a valid
  policy), bound the jitter, and settle which directives are read, discarded and misread.
\<close>

section \<open>The wait schedule\<close>

text \<open>The doubling loop: \<open>n\<close> is the number of iterations left.\<close>

fun backoff_loop :: "BackoffPolicy \<Rightarrow> nat \<Rightarrow> duration \<Rightarrow> duration" where
  "backoff_loop b 0 d = (if d > bo_Max b then bo_Max b else d)"
| "backoff_loop b (Suc n) d =
     (let d = wrap64 (d * 2) in if d \<ge> bo_Max b then bo_Max b else backoff_loop b n d)"

definition backoffDelay :: "BackoffPolicy \<Rightarrow> int \<Rightarrow> duration" where
  "backoffDelay b attempts =
     (let attempts = (if attempts < 1 then 1 else attempts)
      in backoff_loop b (nat (attempts - 1)) (bo_Initial b))"

definition jitteredBackoff :: "BackoffPolicy \<Rightarrow> int \<Rightarrow> f64 \<Rightarrow> duration" where
  "jitteredBackoff b attempts draw =
     (let base = backoffDelay b attempts in
      if bo_Jitter b = F64NaN \<or> f64_le (bo_Jitter b) (F64 0) then base
      else let d = wrap64 (base + f64_to_duration (f64_mul (f64_mul (f64_of_int base) (bo_Jitter b)) draw))
           in if d < 0 then 0 else d)"

section \<open>Retry-After\<close>

text \<open>
  \<open>strings.TrimSpace\<close> on bytes: the UTF-8 encodings of the code points with the White\_Space
  property, removed at both ends.
\<close>

definition space_runes :: "string list" where
  "space_runes =
     [[CHR 0x09], [CHR 0x0A], [CHR 0x0B], [CHR 0x0C], [CHR 0x0D], [CHR 0x20],
      [CHR 0xC2, CHR 0x85], [CHR 0xC2, CHR 0xA0], [CHR 0xE1, CHR 0x9A, CHR 0x80],
      [CHR 0xE2, CHR 0x80, CHR 0x80], [CHR 0xE2, CHR 0x80, CHR 0x81], [CHR 0xE2, CHR 0x80, CHR 0x82],
      [CHR 0xE2, CHR 0x80, CHR 0x83], [CHR 0xE2, CHR 0x80, CHR 0x84], [CHR 0xE2, CHR 0x80, CHR 0x85],
      [CHR 0xE2, CHR 0x80, CHR 0x86], [CHR 0xE2, CHR 0x80, CHR 0x87], [CHR 0xE2, CHR 0x80, CHR 0x88],
      [CHR 0xE2, CHR 0x80, CHR 0x89], [CHR 0xE2, CHR 0x80, CHR 0x8A], [CHR 0xE2, CHR 0x80, CHR 0xA8],
      [CHR 0xE2, CHR 0x80, CHR 0xA9], [CHR 0xE2, CHR 0x80, CHR 0xAF], [CHR 0xE2, CHR 0x81, CHR 0x9F],
      [CHR 0xE3, CHR 0x80, CHR 0x80]]"

function strip_runes :: "string list \<Rightarrow> string \<Rightarrow> string" where
  "strip_runes rs s =
     (case find (\<lambda>r. r \<noteq> [] \<and> prefix r s) rs of
        None \<Rightarrow> s
      | Some r \<Rightarrow> strip_runes rs (drop (length r) s))"
  by pat_completeness auto
termination
  by (relation "measure (\<lambda>(rs, s). length s)") (auto simp: find_Some_iff prefix_def)

declare strip_runes.simps [simp del]

definition TrimSpace :: "string \<Rightarrow> string" where
  "TrimSpace s = rev (strip_runes (map rev space_runes) (rev (strip_runes space_runes s)))"

definition ParseRetryAfter :: "(string \<Rightarrow> time option) \<Rightarrow> string \<Rightarrow> time \<Rightarrow> duration" where
  "ParseRetryAfter parse_time v now =
     (let v = TrimSpace v in
      if v = [] then 0
      else case atoi v of
             Some secs \<Rightarrow>
               (if secs \<le> 0 then 0
                else let d = wrap64 (secs * Second) in if d \<le> 0 then 0 else d)
           | None \<Rightarrow>
               (case parse_time v of
                  Some t \<Rightarrow> (let d = time_sub t now in if d \<le> 0 then 0 else d)
                | None \<Rightarrow> 0))"

text \<open>The copy of the parser that the proxy package calls.\<close>

definition parseRetryAfter :: "(string \<Rightarrow> time option) \<Rightarrow> string \<Rightarrow> time \<Rightarrow> duration" where
  "parseRetryAfter parse_time v now =
     (let v = TrimSpace v in
      if v = [] then 0
      else case atoi v of
             Some secs \<Rightarrow>
               (if secs \<le> 0 then 0
                else let d = wrap64 (secs * Second) in if d \<le> 0 then 0 else d)
           | None \<Rightarrow>
               (case parse_time v of
                  Some t \<Rightarrow> (let d = time_sub t now in if d \<le> 0 then 0 else d)
                | None \<Rightarrow> 0))"

section \<open>Specification vocabulary\<close>

definition backoff_ok :: "BackoffPolicy \<Rightarrow> bool" where
  "backoff_ok b \<longleftrightarrow> MinBackoff \<le> bo_Initial b \<and> bo_Initial b \<le> bo_Max b \<and> bo_Max b \<le> MaxBackoffCap
     \<and> (\<exists>j. bo_Jitter b = F64 j \<and> 0 \<le> j \<and> j \<le> 1)"

section \<open>Facts\<close>

subsection \<open>The schedule\<close>

lemma Validate_backoff_ok: "Validate p = Inr () \<Longrightarrow> backoff_ok (rp_Backoff (p_Retry p))"
  by (simp add: Validate_parts validate_retry_iff backoff_ok_def)

lemma backoff_loop_closed:
  "0 < d \<Longrightarrow> d \<le> bo_Max b \<Longrightarrow> bo_Max b \<le> MaxBackoffCap \<Longrightarrow>
   backoff_loop b n d = min (bo_Max b) (d * 2 ^ n)"
proof (induction n arbitrary: d)
  case 0
  then show ?case by simp
next
  case (Suc n)
  then have w: "wrap64 (d * 2) = d * 2" by (intro wrap64_id) (simp add: in_int64_iff caps)
  show ?case
  proof (cases "bo_Max b \<le> d * 2")
    case True
    have "d * 2 * 1 \<le> d * 2 * 2 ^ n" using Suc.prems by (intro mult_left_mono) auto
    with True show ?thesis by (simp add: w mult.assoc)
  next
    case False
    with Suc show ?thesis by (simp add: w mult.assoc)
  qed
qed

lemma backoffDelay_closed:
  "backoff_ok b \<Longrightarrow> backoffDelay b n = min (bo_Max b) (bo_Initial b * 2 ^ nat (max 1 n - 1))"
  by (auto simp: backoffDelay_def backoff_ok_def backoff_loop_closed caps max_def)

lemma backoffDelay_bounds:
  assumes "backoff_ok b"
  shows "MinBackoff \<le> backoffDelay b n" and "backoffDelay b n \<le> bo_Max b"
proof -
  have "bo_Initial b * 1 \<le> bo_Initial b * 2 ^ nat (max 1 n - 1)"
    using assms by (intro mult_left_mono) (auto simp: backoff_ok_def caps)
  then show "MinBackoff \<le> backoffDelay b n" "backoffDelay b n \<le> bo_Max b"
    using assms by (auto simp: backoffDelay_closed backoff_ok_def)
qed

subsection \<open>Jitter\<close>

lemma f64_mul_abs_le:
  assumes "\<bar>x\<bar> \<le> of_int b" and "\<bar>y\<bar> \<le> 1" and "b < 2 ^ 53"
  shows "\<exists>r. f64_mul (F64 x) (F64 y) = F64 r \<and> \<bar>r\<bar> \<le> of_int b"
proof -
  have "\<bar>x * y\<bar> \<le> of_int b * 1" unfolding abs_mult using assms by (intro mult_mono) auto
  then show ?thesis using f64_round_bounded [of "x * y" b] assms(3) by simp
qed

lemma jitter_spread:
  assumes "0 \<le> base" and "base < 2 ^ 53" and "0 \<le> j" and "j \<le> 1" and "\<bar>x\<bar> \<le> 1"
  shows "\<bar>f64_to_duration (f64_mul (f64_mul (f64_of_int base) (F64 j)) (F64 x))\<bar> \<le> \<lceil>of_int base * j\<rceil>"
proof -
  define c where "c = \<lceil>of_int base * j\<rceil>"
  have "of_int base * j \<le> of_int base * 1" using assms by (intro mult_left_mono) auto
  then have cb: "c \<le> base" by (simp add: c_def ceiling_le_iff)
  obtain r where r: "f64_of_int base = F64 r" "\<bar>r\<bar> \<le> of_int base"
    using f64_round_bounded [of "of_int base" base] assms by (auto simp: f64_of_int_def)
  have "\<bar>r * j\<bar> \<le> of_int base * j" unfolding abs_mult using r assms by (intro mult_mono) auto
  then have "\<bar>r * j\<bar> \<le> of_int c" unfolding c_def by linarith
  then obtain s where s: "f64_mul (F64 r) (F64 j) = F64 s" "\<bar>s\<bar> \<le> of_int c"
    using f64_round_bounded [of "r * j" c] cb assms(2) by auto
  obtain t where t: "f64_mul (F64 s) (F64 x) = F64 t" "\<bar>t\<bar> \<le> of_int c"
    using f64_mul_abs_le [OF s(2) assms(5)] cb assms(2) by auto
  from t(2) have tr: "\<bar>rat_trunc t\<bar> \<le> c" by (rule rat_trunc_abs_le)
  with cb assms(2) have "in_int64 (rat_trunc t)" by (auto simp: in_int64_iff abs_le_iff)
  then show ?thesis
    unfolding r(1) s(1) t(1) f64_to_duration.simps using tr by (simp add: c_def)
qed

lemma jitteredBackoff_range:
  assumes "backoff_ok b" and "bo_Jitter b = F64 j" and "\<bar>x\<bar> \<le> 1"
  shows "\<bar>jitteredBackoff b n (F64 x) - backoffDelay b n\<bar> \<le> \<lceil>of_int (backoffDelay b n) * j\<rceil>"
    and "0 \<le> jitteredBackoff b n (F64 x)" and "jitteredBackoff b n (F64 x) \<le> 2 * backoffDelay b n"
proof -
  define base where "base = backoffDelay b n"
  have base: "0 < base" "base \<le> MaxBackoffCap"
    using backoffDelay_bounds [OF assms(1), of n] assms(1) by (auto simp: base_def caps backoff_ok_def)
  have j: "0 \<le> j" "j \<le> 1" using assms(1,2) by (auto simp: backoff_ok_def)
  define c where "c = \<lceil>of_int base * j\<rceil>"
  have "of_int base * j \<le> of_int base * 1" using base j by (intro mult_left_mono) auto
  then have cb: "c \<le> base" by (simp add: c_def ceiling_le_iff)
  have "0 \<le> of_int base * j" using base j by simp
  then have c0: "0 \<le> c" unfolding c_def by linarith
  define e where "e = f64_to_duration (f64_mul (f64_mul (f64_of_int base) (F64 j)) (F64 x))"
  have e: "\<bar>e\<bar> \<le> c" unfolding e_def c_def using base j assms(3) by (intro jitter_spread) (auto simp: caps)
  have "wrap64 (base + e) = base + e"
    using e cb base by (intro wrap64_id) (auto simp: in_int64_iff caps abs_le_iff)
  then have "jitteredBackoff b n (F64 x) = base \<or> jitteredBackoff b n (F64 x) = base + e"
    using e cb by (auto simp: jitteredBackoff_def Let_def base_def [symmetric] assms(2) e_def [symmetric])
  then show "\<bar>jitteredBackoff b n (F64 x) - backoffDelay b n\<bar> \<le> \<lceil>of_int (backoffDelay b n) * j\<rceil>"
    "0 \<le> jitteredBackoff b n (F64 x)" "jitteredBackoff b n (F64 x) \<le> 2 * backoffDelay b n"
    using e cb c0 base unfolding base_def [symmetric] c_def [symmetric] by auto
qed

subsection \<open>Directives\<close>

lemma strip_runes_stop: "(\<forall>r\<in>set rs. r \<noteq> [] \<longrightarrow> \<not> prefix r s) \<Longrightarrow> strip_runes rs s = s"
proof -
  assume "\<forall>r\<in>set rs. r \<noteq> [] \<longrightarrow> \<not> prefix r s"
  then have "find (\<lambda>r. r \<noteq> [] \<and> prefix r s) rs = None" by (auto simp: find_None_iff)
  then show ?thesis by (subst strip_runes.simps) simp
qed

lemma strip_runes_hd: "s = [] \<or> hd s \<notin> hd ` (set rs - {[]}) \<Longrightarrow> strip_runes rs s = s"
  by (rule strip_runes_stop) (force simp: prefix_def)

lemma TrimSpace_itoa: "TrimSpace (itoa n) = itoa n"
proof -
  have hd: "is_digit (hd (itoa n)) \<or> hd (itoa n) = CHR ''-''"
    using set_itoa [of "hd (itoa n)" n] by simp
  have last: "is_digit (last (itoa n)) \<or> last (itoa n) = CHR ''-''"
    using set_itoa [of "last (itoa n)" n] by simp
  have "hd (itoa n) \<notin> hd ` (set space_runes - {[]})"
    using hd by (auto simp: space_runes_def is_digit_def)
  moreover have "hd (rev (itoa n)) \<notin> hd ` (set (map rev space_runes) - {[]})"
    using last by (auto simp: space_runes_def is_digit_def hd_rev)
  ultimately show ?thesis unfolding TrimSpace_def by (metis rev_rev_ident strip_runes_hd)
qed

lemma ParseRetryAfter_itoa:
  "in_int64 n \<Longrightarrow> 0 < n \<Longrightarrow> ParseRetryAfter pt (itoa n) now = max 0 (wrap64 (n * Second))"
  by (simp add: ParseRetryAfter_def TrimSpace_itoa atoi_itoa Let_def)

lemma parseRetryAfter_eq: "parseRetryAfter = ParseRetryAfter"
  by (intro ext) (simp add: parseRetryAfter_def ParseRetryAfter_def)

section \<open>Properties\<close>

text \<open>
  Under a validated policy the wait before the retry that follows the \<open>n\<close>-th attempt is
  the initial delay doubled \<open>n - 1\<close> times, saturating at the ceiling; no doubling wraps.
\<close>

theorem backoffDelay_schedule:
  assumes "Validate p = Inr ()"
  shows "backoffDelay (rp_Backoff (p_Retry p)) n =
           min (bo_Max (rp_Backoff (p_Retry p)))
               (bo_Initial (rp_Backoff (p_Retry p)) * 2 ^ nat (max 1 n - 1))"
  by (rule backoffDelay_closed [OF Validate_backoff_ok [OF assms]])

theorem backoffDelay_schedule_witness: "backoffDelay (rp_Backoff (p_Retry default_policy)) 3 = 1000 * Millisecond"
  using backoffDelay_schedule [OF Validate_default, of 3]
  by (simp add: default_policy_def Default_def NewMatrix_default defaults caps)

text \<open>
  For every draw in the documented range the jittered wait stays within the configured
  fraction of the schedule, rounded up to a nanosecond, is never negative and never more than
  twice the schedule, in IEEE double arithmetic.
\<close>

theorem jitteredBackoff_bounds:
  assumes "Validate p = Inr ()" and "bo_Jitter (rp_Backoff (p_Retry p)) = F64 j" and "\<bar>x\<bar> \<le> 1"
  shows "\<bar>jitteredBackoff (rp_Backoff (p_Retry p)) n (F64 x) - backoffDelay (rp_Backoff (p_Retry p)) n\<bar>
           \<le> \<lceil>of_int (backoffDelay (rp_Backoff (p_Retry p)) n) * j\<rceil>
         \<and> 0 \<le> jitteredBackoff (rp_Backoff (p_Retry p)) n (F64 x)
         \<and> jitteredBackoff (rp_Backoff (p_Retry p)) n (F64 x) \<le> 2 * backoffDelay (rp_Backoff (p_Retry p)) n"
  using jitteredBackoff_range [OF Validate_backoff_ok [OF assms(1)] assms(2,3), of n] by blast

theorem jitteredBackoff_bounds_witness:
  "0 \<le> jitteredBackoff (rp_Backoff (p_Retry default_policy)) 1 (F64 (- 1))
   \<and> jitteredBackoff (rp_Backoff (p_Retry default_policy)) 1 (F64 (- 1)) \<le> 500 * Millisecond"
proof -
  obtain j where j: "bo_Jitter (rp_Backoff (p_Retry default_policy)) = F64 j"
    using default_jitter by (auto simp: default_policy_def Default_def NewMatrix_default)
  have "backoffDelay (rp_Backoff (p_Retry default_policy)) 1 = 250 * Millisecond"
    by (simp add: default_policy_def Default_def NewMatrix_default defaults caps backoffDelay_def)
  with jitteredBackoff_bounds [OF Validate_default j, of "- 1" 1] show ?thesis by simp
qed

text \<open>
  Whatever the header and whatever the date parser, the directive is a non-negative
  duration; a delta whose nanoseconds fit the range is read exactly, and a date is the exact
  time left until it, saturated, or nothing when it has passed.
\<close>

theorem ParseRetryAfter_correct:
  "0 \<le> ParseRetryAfter pt v now \<and> in_int64 (ParseRetryAfter pt v now)
   \<and> (\<forall>n. 0 < n \<and> n * Second \<le> int64_max \<longrightarrow> ParseRetryAfter pt (itoa n) now = n * Second)
   \<and> (\<forall>t. atoi (TrimSpace v) = None \<and> TrimSpace v \<noteq> [] \<and> pt (TrimSpace v) = Some t
        \<longrightarrow> ParseRetryAfter pt v now = max 0 (min int64_max (t - now)))"
proof -
  have z: "in_int64 0" by (simp add: in_int64_iff)
  have "0 \<le> ParseRetryAfter pt v now \<and> in_int64 (ParseRetryAfter pt v now)"
    using z wrap64_in_int64 time_sub_in_int64
    by (simp add: ParseRetryAfter_def Let_def split: option.split)
  moreover have "ParseRetryAfter pt (itoa n) now = n * Second" if "0 < n" "n * Second \<le> int64_max" for n
  proof -
    have "in_int64 n" "in_int64 (n * Second)" using that by (auto simp: in_int64_iff int64_max_def Second_def)
    then show ?thesis using that(1) by (simp add: ParseRetryAfter_itoa wrap64_id Second_def)
  qed
  moreover have "ParseRetryAfter pt v now = max 0 (min int64_max (t - now))"
    if "atoi (TrimSpace v) = None" "TrimSpace v \<noteq> []" "pt (TrimSpace v) = Some t" for t
    using that
    by (auto simp: ParseRetryAfter_def Let_def time_sub_def int64_min_def int64_max_def max_def min_def)
  ultimately show ?thesis by blast
qed

theorem ParseRetryAfter_correct_witness:
  "0 < (120::int) \<and> 120 * Second \<le> int64_max \<and> ParseRetryAfter (\<lambda>_. None) (itoa 120) 0 = 120 * Second"
proof -
  have h: "0 < (120::int) \<and> 120 * Second \<le> int64_max" by (simp add: Second_def int64_max_def)
  with ParseRetryAfter_correct [of "\<lambda>_. None" "[]" 0] show ?thesis by blast
qed

text \<open>
  The check after the multiplication does not discard every delta that wraps it. A delta
  of 18446744074 seconds, more than five centuries, is read as a wait of 290448384
  nanoseconds, while 9223372037 seconds is discarded as the comment says.
\<close>

theorem parseRetryAfter_wraps:
  "parseRetryAfter pt (itoa 18446744074) now = 290448384 \<and> parseRetryAfter pt (itoa 9223372037) now = 0"
proof -
  have "wrap64 (18446744074 * Second) = 290448384" "wrap64 (9223372037 * Second) < 0"
    by (simp_all add: wrap64_def Second_def)
  then show ?thesis
    by (simp add: parseRetryAfter_eq ParseRetryAfter_itoa in_int64_iff)
qed

end
