(* ===== verification/Recovery_Merge.thy ===== *)
theory Recovery_Merge
  imports Recovery_Policy
begin

text \<open>
  \<open>internal/recovery/merge.go\<close> and \<open>internal/recovery/resolve.go\<close>: partial policies, the deep
  semantic merge of one layer, and the resolver that folds the layers. A pointer field of
  the source is an \<open>option\<close>. The theorems show what a merge inherits and replaces, that it is
  idempotent, that every resolved policy is valid, and that a rejection names the first
  layer that could not be applied.
\<close>

section \<open>Layers\<close>

record MatrixPartial =
  mp_Rules :: "Rule list"
  mp_Default :: "Action option"

record BackoffPartial =
  bop_Initial :: "duration option"
  bop_Max :: "duration option"
  bop_Jitter :: "f64 option"

record RetryPartial =
  rpp_MaxRetries :: "int option"
  rpp_MaxElapsed :: "duration option"
  rpp_Backoff :: "BackoffPartial option"
  rpp_OnExhausted :: "Action option"

record FallbackPartial =
  fpp_Enabled :: "bool option"
  fpp_MaxCandidates :: "int option"
  fpp_OnExhausted :: "Action option"

record EnvelopePartial =
  enp_MaxExchanges :: "int option"
  enp_MaxElapsed :: "duration option"

record BudgetPartial =
  bpp_Request :: "EnvelopePartial option"
  bpp_Candidate :: "EnvelopePartial option"

record RetryAfterPartial =
  rap_Enabled :: "bool option"
  rap_Mode :: "RetryAfterMode option"
  rap_MaxDelay :: "duration option"

record StreamPartial =
  spp_Enabled :: "bool option"
  spp_MaxRecoveries :: "int option"
  spp_MaxElapsed :: "duration option"
  spp_MaxPartialBytes :: "int option"

record Partial =
  pa_Matrix :: "MatrixPartial option"
  pa_Retry :: "RetryPartial option"
  pa_Fallback :: "FallbackPartial option"
  pa_Budget :: "BudgetPartial option"
  pa_RetryAfter :: "RetryAfterPartial option"
  pa_Stream :: "StreamPartial option"

record Layer =
  l_Name :: string
  l_Partial :: Partial

section \<open>Merging\<close>

text \<open>\<open>if p != nil { out = *p }\<close>\<close>

definition stated :: "'a option \<Rightarrow> 'a \<Rightarrow> 'a" where
  "stated p inherited = (case p of None \<Rightarrow> inherited | Some v \<Rightarrow> v)"

text \<open>\<open>mergeMatrix\<close>: the index of the base rules (the last index of an identity wins, as in
  the source's loop), the check for repeated identities in one layer, and the fold.\<close>

definition rule_index :: "Rule list \<Rightarrow> (string \<rightharpoonup> nat)" where
  "rule_index rules = fold (\<lambda>(i, r) m. m(r_ID r \<mapsto> i)) (enumerate 0 rules) Map.empty"

fun check_layer :: "int \<Rightarrow> (string \<rightharpoonup> int) \<Rightarrow> Rule list \<Rightarrow> unit result" where
  "check_layer i seen [] = Inr ()"
| "check_layer i seen (r # rs) =
     (case seen (r_ID r) of
        Some prev \<Rightarrow>
          Inl (Err (''rule '' @ itoa (i + 1) @ '' repeats the identity of rule '' @ itoa (prev + 1)
                    @ '' in the same layer''))
      | None \<Rightarrow> check_layer (i + 1) (seen(r_ID r \<mapsto> i)) rs)"

definition put_rule :: "(string \<rightharpoonup> nat) \<Rightarrow> Rule \<Rightarrow> Rule list \<Rightarrow> Rule list" where
  "put_rule idx r rules = (case idx (r_ID r) of Some i \<Rightarrow> rules[i := r] | None \<Rightarrow> rules @ [r])"

definition mergeMatrix :: "Matrix \<Rightarrow> MatrixPartial \<Rightarrow> Matrix result" where
  "mergeMatrix base p =
     (let rules = Matrix_Rules base; idx = rule_index rules in
      case check_layer 0 Map.empty (mp_Rules p) of
        Inl e \<Rightarrow> Inl e
      | Inr _ \<Rightarrow> NewMatrix (fold (put_rule idx) (mp_Rules p) rules) (stated (mp_Default p) (Matrix_Default base)))"

definition merge_backoff :: "BackoffPartial option \<Rightarrow> BackoffPolicy \<Rightarrow> BackoffPolicy" where
  "merge_backoff p out =
     (case p of
        None \<Rightarrow> out
      | Some b \<Rightarrow> out\<lparr>bo_Initial := stated (bop_Initial b) (bo_Initial out),
                      bo_Max := stated (bop_Max b) (bo_Max out),
                      bo_Jitter := stated (bop_Jitter b) (bo_Jitter out)\<rparr>)"

definition merge_retry :: "RetryPartial option \<Rightarrow> RetryPolicy \<Rightarrow> RetryPolicy" where
  "merge_retry p out =
     (case p of
        None \<Rightarrow> out
      | Some r \<Rightarrow> out\<lparr>rp_MaxRetries := stated (rpp_MaxRetries r) (rp_MaxRetries out),
                      rp_MaxElapsed := stated (rpp_MaxElapsed r) (rp_MaxElapsed out),
                      rp_Backoff := merge_backoff (rpp_Backoff r) (rp_Backoff out),
                      rp_OnExhausted := stated (rpp_OnExhausted r) (rp_OnExhausted out)\<rparr>)"

text \<open>Switching the walk off without stating its reach is a one-candidate walk.\<close>

definition merge_fallback :: "FallbackPartial option \<Rightarrow> FallbackPolicy \<Rightarrow> FallbackPolicy" where
  "merge_fallback p out =
     (case p of
        None \<Rightarrow> out
      | Some f \<Rightarrow>
          (let out = (case fpp_Enabled f of
                        None \<Rightarrow> out
                      | Some e \<Rightarrow>
                          (let out = out\<lparr>fp_Enabled := e\<rparr> in
                           if \<not> e \<and> fpp_MaxCandidates f = None then out\<lparr>fp_MaxCandidates := 1\<rparr> else out));
               out = out\<lparr>fp_MaxCandidates := stated (fpp_MaxCandidates f) (fp_MaxCandidates out)\<rparr>
           in out\<lparr>fp_OnExhausted := stated (fpp_OnExhausted f) (fp_OnExhausted out)\<rparr>))"

definition merge_envelope :: "EnvelopePartial option \<Rightarrow> Envelope \<Rightarrow> Envelope" where
  "merge_envelope p out =
     (case p of
        None \<Rightarrow> out
      | Some e \<Rightarrow> out\<lparr>en_MaxExchanges := stated (enp_MaxExchanges e) (en_MaxExchanges out),
                      en_MaxElapsed := stated (enp_MaxElapsed e) (en_MaxElapsed out)\<rparr>)"

definition merge_budget :: "BudgetPartial option \<Rightarrow> BudgetPolicy \<Rightarrow> BudgetPolicy" where
  "merge_budget p out =
     (case p of
        None \<Rightarrow> out
      | Some b \<Rightarrow> out\<lparr>bp_Request := merge_envelope (bpp_Request b) (bp_Request out),
                      bp_Candidate := merge_envelope (bpp_Candidate b) (bp_Candidate out)\<rparr>)"

definition merge_retry_after :: "RetryAfterPartial option \<Rightarrow> RetryAfterPolicy \<Rightarrow> RetryAfterPolicy" where
  "merge_retry_after p out =
     (case p of
        None \<Rightarrow> out
      | Some a \<Rightarrow> out\<lparr>ra_Enabled := stated (rap_Enabled a) (ra_Enabled out),
                      ra_Mode := stated (rap_Mode a) (ra_Mode out),
                      ra_MaxDelay := stated (rap_MaxDelay a) (ra_MaxDelay out)\<rparr>)"

text \<open>
  Switching stream recovery off without stating its reach is zero recoveries; switching it
  on from off gives the documented default reach; restating the switch keeps the reach.
\<close>

definition merge_stream :: "StreamPartial option \<Rightarrow> StreamPolicy \<Rightarrow> StreamPolicy" where
  "merge_stream p out =
     (case p of
        None \<Rightarrow> out
      | Some s \<Rightarrow>
          (let wasEnabled = sp_Enabled out;
               out = (case spp_Enabled s of
                        None \<Rightarrow> out
                      | Some e \<Rightarrow>
                          (let out = out\<lparr>sp_Enabled := e\<rparr> in
                           if spp_MaxRecoveries s = None
                           then (if \<not> e then out\<lparr>sp_MaxRecoveries := 0\<rparr>
                                 else if \<not> wasEnabled
                                 then out\<lparr>sp_MaxRecoveries := DefaultMaxStreamRecoveries\<rparr>
                                 else out)
                           else out));
               out = out\<lparr>sp_MaxRecoveries := stated (spp_MaxRecoveries s) (sp_MaxRecoveries out)\<rparr>;
               out = out\<lparr>sp_MaxElapsed := stated (spp_MaxElapsed s) (sp_MaxElapsed out)\<rparr>
           in out\<lparr>sp_MaxPartialBytes := stated (spp_MaxPartialBytes s) (sp_MaxPartialBytes out)\<rparr>))"

definition merge_mechanics :: "Policy \<Rightarrow> Partial \<Rightarrow> Matrix \<Rightarrow> Policy" where
  "merge_mechanics base p m =
     \<lparr>p_Matrix = m,
      p_Retry = merge_retry (pa_Retry p) (p_Retry base),
      p_Fallback = merge_fallback (pa_Fallback p) (p_Fallback base),
      p_Budget = merge_budget (pa_Budget p) (p_Budget base),
      p_RetryAfter = merge_retry_after (pa_RetryAfter p) (p_RetryAfter base),
      p_Stream = merge_stream (pa_Stream p) (p_Stream base)\<rparr>"

definition Merge :: "Policy \<Rightarrow> Partial \<Rightarrow> Policy result" where
  "Merge base p =
     (case (case pa_Matrix p of None \<Rightarrow> Inr (p_Matrix base) | Some mp \<Rightarrow> mergeMatrix (p_Matrix base) mp) of
        Inl e \<Rightarrow> Inl e
      | Inr m \<Rightarrow>
          (let out = merge_mechanics base p m in
           case Validate out of Inl e \<Rightarrow> Inl e | Inr _ \<Rightarrow> Inr out))"

section \<open>Resolution\<close>

definition resolve_step :: "Layer \<Rightarrow> Policy \<Rightarrow> Policy result" where
  "resolve_step l out =
     (case Merge out (l_Partial l) of Inl e \<Rightarrow> Inl (Wrap (l_Name l) e) | Inr merged \<Rightarrow> Inr merged)"

definition Resolve :: "Policy \<Rightarrow> Layer list \<Rightarrow> Policy result" where
  "Resolve base layers =
     (case Validate base of Inl e \<Rightarrow> Inl e | Inr _ \<Rightarrow> fold_result resolve_step layers base)"

section \<open>Specification vocabulary\<close>

text \<open>
  The rules a layer leaves in force: restated identities in place, new ones behind; matrices
  that came from \<open>NewMatrix\<close>; policies that passed validation on such a matrix.
\<close>

definition overlay :: "Rule list \<Rightarrow> Rule list \<Rightarrow> Rule list" where
  "overlay layer base =
     map (\<lambda>r. case find (\<lambda>q. r_ID q = r_ID r) layer of Some q \<Rightarrow> q | None \<Rightarrow> r) base
     @ filter (\<lambda>q. r_ID q \<notin> r_ID ` set base) layer"

definition built :: "Matrix \<Rightarrow> bool" where
  "built m \<longleftrightarrow> NewMatrix (Matrix_Rules m) (Matrix_Default m) = Inr m"

definition policy_ok :: "Policy \<Rightarrow> bool" where
  "policy_ok p \<longleftrightarrow> Validate p = Inr () \<and> built (p_Matrix p)"

text \<open>Layers for the witnesses: one that narrows a row and turns fallback off, one that is over a cap.\<close>

definition emptyPartial :: Partial where
  "emptyPartial = \<lparr>pa_Matrix = None, pa_Retry = None, pa_Fallback = None, pa_Budget = None,
                   pa_RetryAfter = None, pa_Stream = None\<rparr>"

definition ex_partial :: Partial where
  "ex_partial = emptyPartial
     \<lparr>pa_Matrix := Some \<lparr>mp_Rules = [status_rule ActionTerminal 404], mp_Default = None\<rparr>,
      pa_Fallback := Some \<lparr>fpp_Enabled = Some False, fpp_MaxCandidates = None, fpp_OnExhausted = None\<rparr>\<rparr>"

definition ex_bad_partial :: Partial where
  "ex_bad_partial = emptyPartial
     \<lparr>pa_Retry := Some \<lparr>rpp_MaxRetries = Some 9, rpp_MaxElapsed = None, rpp_Backoff = None,
                        rpp_OnExhausted = None\<rparr>\<rparr>"

definition ex_merged :: Policy where
  "ex_merged = projr (Merge default_policy ex_partial)"

section \<open>Facts\<close>

subsection \<open>Rule lists\<close>

lemma rule_index_simps [simp]:
  "rule_index [] = Map.empty"
  "rule_index (rs @ [r]) = (rule_index rs)(r_ID r \<mapsto> length rs)"
  by (simp_all add: rule_index_def enumerate_append_eq)

lemma rule_index_None: "rule_index rs k = None \<longleftrightarrow> k \<notin> r_ID ` set rs"
  by (induction rs rule: rev_induct) auto

lemma rule_index_Some:
  "rule_index rs k = Some i \<Longrightarrow> i < length rs \<and> r_ID (rs ! i) = k"
  by (induction rs rule: rev_induct) (auto simp: nth_append split: if_splits)

lemma find_snoc: "find P (xs @ [x]) = (case find P xs of None \<Rightarrow> if P x then Some x else None | Some y \<Rightarrow> Some y)"
  by (induction xs) auto

lemma fold_put_overlay:
  assumes "distinct (map r_ID base)" and "distinct (map r_ID layer)"
  shows "fold (put_rule (rule_index base)) layer base = overlay layer base"
  using assms(2)
proof (induction layer rule: rev_induct)
  case Nil
  then show ?case by (simp add: overlay_def)
next
  case (snoc r layer)
  then have IH: "fold (put_rule (rule_index base)) layer base = overlay layer base" by simp
  have new: "find (\<lambda>q. r_ID q = r_ID r) layer = None" using snoc.prems by (auto simp: find_None_iff image_iff)
  show ?case
  proof (cases "rule_index base (r_ID r)")
    case None
    then have "r_ID r \<notin> r_ID ` set base" using rule_index_None by simp
    moreover from this have "\<forall>b\<in>set base. r_ID r \<noteq> r_ID b" by auto
    then have "map (\<lambda>b. case find (\<lambda>q. r_ID q = r_ID b) (layer @ [r]) of Some q \<Rightarrow> q | None \<Rightarrow> b) base =
        map (\<lambda>b. case find (\<lambda>q. r_ID q = r_ID b) layer of Some q \<Rightarrow> q | None \<Rightarrow> b) base"
      by (auto simp: find_snoc split: option.split)
    ultimately show ?thesis using None IH by (simp add: put_rule_def [of _ r] overlay_def)
  next
    case (Some i)
    then have i: "i < length base" "r_ID (base ! i) = r_ID r" using rule_index_Some by auto
    have other: "\<forall>j<length base. j \<noteq> i \<longrightarrow> r_ID r \<noteq> r_ID (base ! j)"
      using i assms(1) by (metis distinct_conv_nth length_map nth_map)
    have "(map (\<lambda>r. case find (\<lambda>q. r_ID q = r_ID r) layer of Some q \<Rightarrow> q | None \<Rightarrow> r) base) [i := r] =
        map (\<lambda>b. case find (\<lambda>q. r_ID q = r_ID b) (layer @ [r]) of Some q \<Rightarrow> q | None \<Rightarrow> b) base"
      using i other new by (intro nth_equalityI) (auto simp: nth_list_update find_snoc split: option.split)
    moreover have "r_ID r \<in> r_ID ` set base" using i by (metis imageI nth_mem)
    ultimately show ?thesis using Some i
      by (simp add: IH put_rule_def [of _ r] overlay_def list_update_append)
  qed
qed

lemma overlay_set:
  assumes "distinct (map r_ID layer)"
  shows "set (overlay layer base) \<subseteq> set layer \<union> {r \<in> set base. r_ID r \<notin> r_ID ` set layer}"
proof -
  have "(case find (\<lambda>q. r_ID q = r_ID r) layer of Some q \<Rightarrow> q | None \<Rightarrow> r) \<in> set layer \<union> {r \<in> set base. r_ID r \<notin> r_ID ` set layer}"
    if "r \<in> set base" for r
  proof (cases "find (\<lambda>q. r_ID q = r_ID r) layer")
    case None
    then have "\<forall>q\<in>set layer. r_ID q \<noteq> r_ID r" by (simp add: find_None_iff)
    then show ?thesis using that None by (auto simp: image_iff)
  next
    case (Some q)
    then have "q \<in> set layer" by (metis find_Some_iff nth_mem)
    then show ?thesis using Some by simp
  qed
  then show ?thesis by (auto simp: overlay_def)
qed

lemma overlay_set_eq:
  assumes "distinct (map r_ID layer)"
  shows "set (overlay layer base) = set layer \<union> {r \<in> set base. r_ID r \<notin> r_ID ` set layer}"
proof (rule equalityI [OF overlay_set [OF assms]], rule subsetI)
  fix r assume r: "r \<in> set layer \<union> {r \<in> set base. r_ID r \<notin> r_ID ` set layer}"
  show "r \<in> set (overlay layer base)"
  proof (cases "r \<in> set layer")
    case True
    have "find (\<lambda>q. r_ID q = r_ID r) layer = Some r"
    proof (cases "find (\<lambda>q. r_ID q = r_ID r) layer")
      case None
      then show ?thesis using True by (auto simp: find_None_iff)
    next
      case (Some q)
      then have "q \<in> set layer" "r_ID q = r_ID r" by (auto simp: find_Some_iff)
      then have "q = r" using True assms by (metis distinct_map inj_onD)
      with Some show ?thesis by simp
    qed
    note found = this
    show ?thesis
    proof (cases "r_ID r \<in> r_ID ` set base")
      case True
      then obtain b where "b \<in> set base" "r_ID b = r_ID r" by force
      with found have "r = (\<lambda>r. case find (\<lambda>q. r_ID q = r_ID r) layer of Some q \<Rightarrow> q | None \<Rightarrow> r) b" by simp
      with \<open>b \<in> set base\<close> show ?thesis by (auto simp: overlay_def)
    next
      case False
      with True show ?thesis by (simp add: overlay_def)
    qed
  next
    case False
    with r have "r \<in> set base" "find (\<lambda>q. r_ID q = r_ID r) layer = None" by (auto simp: find_None_iff image_iff)
    then have "r = (\<lambda>r. case find (\<lambda>q. r_ID q = r_ID r) layer of Some q \<Rightarrow> q | None \<Rightarrow> r) r" "r \<in> set base" by simp_all
    then show ?thesis unfolding overlay_def by (metis (no_types, lifting) UnI1 image_eqI list.set_map set_append)
  qed
qed

lemma overlay_self:
  assumes "distinct (map r_ID base)" and "set layer \<subseteq> set base"
  shows "overlay layer base = base"
proof -
  have "(case find (\<lambda>q. r_ID q = r_ID r) layer of Some q \<Rightarrow> q | None \<Rightarrow> r) = r" if "r \<in> set base" for r
  proof (cases "find (\<lambda>q. r_ID q = r_ID r) layer")
    case (Some q)
    then have "q \<in> set layer" "r_ID q = r_ID r" by (auto simp: find_Some_iff)
    with assms that have "q = r" by (metis distinct_map inj_onD subsetD)
    with Some show ?thesis by simp
  qed simp
  moreover have "filter (\<lambda>q. r_ID q \<notin> r_ID ` set base) layer = []" using assms(2) by (auto simp: filter_empty_conv)
  ultimately show ?thesis by (simp add: overlay_def map_idI)
qed

lemma check_layer_iff:
  "check_layer i seen rs = Inr () \<longleftrightarrow> distinct (map r_ID rs) \<and> (\<forall>r\<in>set rs. seen (r_ID r) = None)"
  by (induction rs arbitrary: i seen) (auto split: option.splits simp: image_iff)

subsection \<open>Matrices\<close>

lemma sortRules_idem: "sortRules (sortRules rs) = sortRules rs"
  unfolding sortRules_def [of "sortRules rs"] by (rule sort_key_id_if_sorted [OF sorted_sortRules])

lemma NewMatrix_built:
  assumes "NewMatrix rs d = Inr m"
  shows "built m" and "set (Matrix_Rules m) = set rs" and "Matrix_Default m = d" and "rule_list_ok rs"
proof -
  from assms have ok: "rule_list_ok rs" and m: "m = \<lparr>mx_rules = sortRules rs, mx_def = d\<rparr>"
    by (simp_all add: NewMatrix_ok_iff)
  moreover have "rule_list_ok (sortRules rs)" using ok rule_list_ok_mset [OF sortRules_mset] by simp
  ultimately show "built m"
    by (simp add: built_def Matrix_Rules_def Matrix_Default_def NewMatrix_ok_iff sortRules_idem)
  show "set (Matrix_Rules m) = set rs" "Matrix_Default m = d" "rule_list_ok rs"
    using ok m by (simp_all add: Matrix_Rules_def Matrix_Default_def)
qed

lemma built_distinct: "built m \<Longrightarrow> distinct (map r_ID (Matrix_Rules m))"
  unfolding built_def using NewMatrix_built(4) by (auto simp: rule_list_ok_def)

lemma mergeMatrix_overlay:
  assumes "mergeMatrix base p = Inr m" and "built base"
  shows "NewMatrix (overlay (mp_Rules p) (Matrix_Rules base)) (stated (mp_Default p) (Matrix_Default base)) = Inr m"
    and "distinct (map r_ID (mp_Rules p))"
proof -
  from assms(1) have d: "check_layer 0 Map.empty (mp_Rules p) = Inr ()"
    by (auto simp: mergeMatrix_def Let_def split: sum.splits)
  then show dl: "distinct (map r_ID (mp_Rules p))" by (simp add: check_layer_iff)
  show "NewMatrix (overlay (mp_Rules p) (Matrix_Rules base)) (stated (mp_Default p) (Matrix_Default base)) = Inr m"
    using assms(1) d fold_put_overlay [OF built_distinct [OF assms(2)] dl] by (simp add: mergeMatrix_def Let_def)
qed

lemma mergeMatrix_built:
  assumes "mergeMatrix base p = Inr m" and "built base"
  shows "built m"
    and "set (Matrix_Rules m) =
           set (mp_Rules p) \<union> {r \<in> set (Matrix_Rules base). r_ID r \<notin> r_ID ` set (mp_Rules p)}"
    and "Matrix_Default m = stated (mp_Default p) (Matrix_Default base)"
  using NewMatrix_built [OF mergeMatrix_overlay(1) [OF assms]] overlay_set_eq [OF mergeMatrix_overlay(2) [OF assms]]
  by auto

lemma mergeMatrix_idem:
  assumes "mergeMatrix base p = Inr m" and "built base"
  shows "mergeMatrix m p = Inr m"
proof -
  note b = mergeMatrix_built [OF assms] and d = mergeMatrix_overlay(2) [OF assms]
  have "overlay (mp_Rules p) (Matrix_Rules m) = Matrix_Rules m"
    using b(2) by (intro overlay_self built_distinct b(1)) auto
  moreover have "stated (mp_Default p) (Matrix_Default m) = Matrix_Default m"
    using b(3) by (simp add: stated_def split: option.splits)
  moreover have "check_layer 0 Map.empty (mp_Rules p) = Inr ()" using d by (simp add: check_layer_iff)
  ultimately show ?thesis
    using b(1) fold_put_overlay [OF built_distinct [OF b(1)] d]
    by (simp add: mergeMatrix_def Let_def built_def)
qed

subsection \<open>Policies\<close>

lemma stated_idem [simp]: "stated p (stated p x) = stated p x"
  by (simp add: stated_def split: option.split)

lemma stated_None [simp]: "stated None x = x"
  by (simp add: stated_def)

lemma stated_Some [simp]: "stated (Some v) x = v"
  by (simp add: stated_def)

lemma merge_mechanics_idem:
  "merge_mechanics (merge_mechanics base p m) p m' = (merge_mechanics base p m)\<lparr>p_Matrix := m'\<rparr>"
proof -
  have "merge_backoff q (merge_backoff q b) = merge_backoff q b" for q b
    by (simp add: merge_backoff_def split: option.split)
  moreover have "merge_envelope q (merge_envelope q b) = merge_envelope q b" for q b
    by (simp add: merge_envelope_def split: option.split)
  ultimately have "merge_retry q (merge_retry q r) = merge_retry q r"
    "merge_budget q' (merge_budget q' b) = merge_budget q' b" for q r q' b
    by (simp_all add: merge_retry_def merge_budget_def split: option.split)
  moreover have "merge_fallback q (merge_fallback q f) = merge_fallback q f" for q f
    by (cases q) (auto simp: merge_fallback_def Let_def split: option.split)
  moreover have "merge_retry_after q (merge_retry_after q a) = merge_retry_after q a" for q a
    by (simp add: merge_retry_after_def split: option.split)
  moreover have "merge_stream q (merge_stream q s) = merge_stream q s" for q s
    by (cases q) (auto simp: merge_stream_def Let_def split: option.split)
  ultimately show ?thesis by (simp add: merge_mechanics_def)
qed

lemma Merge_ok_iff:
  "Merge base p = Inr out \<longleftrightarrow>
     (\<exists>m. (case pa_Matrix p of None \<Rightarrow> Inr (p_Matrix base) | Some mp \<Rightarrow> mergeMatrix (p_Matrix base) mp) = Inr m
          \<and> out = merge_mechanics base p m \<and> Validate out = Inr ())"
  by (auto simp: Merge_def Let_def split: sum.splits)

lemma Merge_policy_ok:
  assumes "Merge base p = Inr out" and "built (p_Matrix base)"
  shows "policy_ok out"
  using assms mergeMatrix_built(1)
  by (auto simp: Merge_ok_iff policy_ok_def merge_mechanics_def split: option.splits)

text \<open>The layers of the resolver are checked steps that keep \<open>policy_ok\<close>.\<close>

interpretation layers: checked_steps resolve_step policy_ok
proof
  fix s x s' assume "policy_ok s" and "resolve_step x s = Inr s'"
  then have "built (p_Matrix s)" and "Merge s (l_Partial x) = Inr s'"
    by (auto simp: policy_ok_def resolve_step_def split: sum.splits)
  then show "policy_ok s'" by (rule Merge_policy_ok [rotated])
qed

lemma policy_ok_default: "policy_ok default_policy"
  by (simp add: policy_ok_def Validate_default default_policy_matrix NewMatrix_built(1) [OF NewMatrix_default])

lemma ex_Merge: "Merge default_policy ex_partial = Inr ex_merged"
proof -
  have "\<not> isl (mergeMatrix \<lparr>mx_rules = sorted_defaults, mx_def = ActionTerminal\<rparr>
                 \<lparr>mp_Rules = [status_rule ActionTerminal 404], mp_Default = None\<rparr>)"
    by code_simp
  then obtain m where m: "mergeMatrix (p_Matrix default_policy)
      \<lparr>mp_Rules = [status_rule ActionTerminal 404], mp_Default = None\<rparr> = Inr m"
    unfolding default_policy_matrix by (metis isl_def sum.exhaust_sel)
  have "Validate (merge_mechanics default_policy ex_partial m) = Inr ()"
    using Validate_default
    by (simp add: Validate_parts merge_mechanics_def ex_partial_def emptyPartial_def merge_retry_def
        merge_budget_def merge_retry_after_def merge_stream_def merge_fallback_def validate_fallback_iff
        Let_def)
  with m have "Merge default_policy ex_partial = Inr (merge_mechanics default_policy ex_partial m)"
    by (simp add: Merge_def ex_partial_def Let_def)
  then show ?thesis by (simp add: ex_merged_def)
qed

lemma ex_bad_Merge:
  "Merge default_policy ex_bad_partial = Inl (Err ''recovery: retries.max-retries must be between 0 and 8'')"
proof -
  have "itoa 8 = ''8''" by code_simp
  then show ?thesis
    by (simp add: Merge_def Let_def ex_bad_partial_def emptyPartial_def Validate_def validate_retry_def
        merge_mechanics_def merge_retry_def MaxRetriesCap_def)
qed

section \<open>Properties\<close>

text \<open>
  The rules in force after a merge are the layer's rules together with the base rules
  whose identity the layer does not restate, and the default action is the layer's when it
  states one; every block the layer omits is inherited unchanged.
\<close>

theorem Merge_inherits:
  assumes "Merge base p = Inr out" and "built (p_Matrix base)"
  shows "set (Matrix_Rules (p_Matrix out)) =
           (let layer = (case pa_Matrix p of None \<Rightarrow> [] | Some mp \<Rightarrow> mp_Rules mp)
            in set layer \<union> {r \<in> set (Matrix_Rules (p_Matrix base)). r_ID r \<notin> r_ID ` set layer})
     \<and> (pa_Matrix p = None \<longrightarrow> p_Matrix out = p_Matrix base)
     \<and> (\<forall>mp. pa_Matrix p = Some mp \<longrightarrow>
           Matrix_Default (p_Matrix out) = stated (mp_Default mp) (Matrix_Default (p_Matrix base)))
     \<and> (pa_Retry p = None \<longrightarrow> p_Retry out = p_Retry base)
     \<and> (pa_Fallback p = None \<longrightarrow> p_Fallback out = p_Fallback base)
     \<and> (pa_Budget p = None \<longrightarrow> p_Budget out = p_Budget base)
     \<and> (pa_RetryAfter p = None \<longrightarrow> p_RetryAfter out = p_RetryAfter base)
     \<and> (pa_Stream p = None \<longrightarrow> p_Stream out = p_Stream base)"
proof -
  from assms(1) obtain m
    where m: "(case pa_Matrix p of None \<Rightarrow> Inr (p_Matrix base) | Some mp \<Rightarrow> mergeMatrix (p_Matrix base) mp) = Inr m"
      and out: "out = merge_mechanics base p m" by (auto simp: Merge_ok_iff)
  have "pa_Matrix p = None \<longrightarrow> m = p_Matrix base" using m by auto
  moreover have "set (Matrix_Rules m) = set (mp_Rules mp)
        \<union> {r \<in> set (Matrix_Rules (p_Matrix base)). r_ID r \<notin> r_ID ` set (mp_Rules mp)}
      \<and> Matrix_Default m = stated (mp_Default mp) (Matrix_Default (p_Matrix base))"
    if "pa_Matrix p = Some mp" for mp
    using m that mergeMatrix_built(2,3) [OF _ assms(2)] by simp
  ultimately show ?thesis
    unfolding out
    by (cases "pa_Matrix p")
      (simp_all add: Let_def merge_mechanics_def merge_retry_def merge_fallback_def merge_budget_def
        merge_retry_after_def merge_stream_def)
qed

theorem Merge_inherits_witness:
  "Merge default_policy ex_partial = Inr ex_merged \<and> p_Budget ex_merged = p_Budget default_policy"
  using Merge_inherits [OF ex_Merge] ex_Merge policy_ok_default by (simp add: policy_ok_def ex_partial_def emptyPartial_def)

text \<open>
  Merging is idempotent. A layer applied to its own result changes nothing, the switches
  that imply a reach included.
\<close>

theorem Merge_idempotent:
  assumes "Merge base p = Inr out" and "built (p_Matrix base)"
  shows "Merge out p = Inr out"
proof -
  from assms(1) obtain m
    where m: "(case pa_Matrix p of None \<Rightarrow> Inr (p_Matrix base) | Some mp \<Rightarrow> mergeMatrix (p_Matrix base) mp) = Inr m"
      and out: "out = merge_mechanics base p m" and ok: "Validate out = Inr ()" by (auto simp: Merge_ok_iff)
  have "p_Matrix out = m" by (simp add: out merge_mechanics_def)
  with m have "(case pa_Matrix p of None \<Rightarrow> Inr (p_Matrix out) | Some mp \<Rightarrow> mergeMatrix (p_Matrix out) mp) = Inr m"
    using mergeMatrix_idem [OF _ assms(2)] by (auto split: option.splits)
  moreover have "merge_mechanics out p m = out"
    using \<open>p_Matrix out = m\<close> by (simp add: out merge_mechanics_idem)
  ultimately show ?thesis using ok by (auto simp: Merge_ok_iff)
qed

theorem Merge_idempotent_witness: "Merge ex_merged ex_partial = Inr ex_merged"
  using Merge_idempotent [OF ex_Merge] policy_ok_default by (simp add: policy_ok_def)

text \<open>
  C13: whatever the layers, a policy that resolves is valid and stands on a built, hence
  unambiguous, matrix; and resolution composes, so the validity check between two groups of
  layers is never skipped.
\<close>

theorem Resolve_sound:
  assumes "built (p_Matrix base)" and "Resolve base (ls @ ls') = Inr p"
  shows "policy_ok p \<and> (\<exists>q. Resolve base ls = Inr q \<and> policy_ok q \<and> Resolve q ls' = Inr p)"
proof -
  from assms have v: "Validate base = Inr ()" and f: "fold_result resolve_step (ls @ ls') base = Inr p"
    by (auto simp: Resolve_def split: sum.splits)
  with assms(1) have b: "policy_ok base" by (simp add: policy_ok_def)
  from f obtain q where q: "fold_result resolve_step ls base = Inr q" "fold_result resolve_step ls' q = Inr p"
    by (auto simp: fold_result_append split: sum.splits)
  from layers.run_ok [OF b q(1)] have "policy_ok q" .
  with q v layers.run_ok [OF b f] show ?thesis by (auto simp: Resolve_def policy_ok_def)
qed

theorem Resolve_sound_witness:
  "Resolve default_policy ([\<lparr>l_Name = ''global'', l_Partial = ex_partial\<rparr>] @ []) = Inr ex_merged
   \<and> policy_ok ex_merged"
proof -
  have "Resolve default_policy ([\<lparr>l_Name = ''global'', l_Partial = ex_partial\<rparr>] @ []) = Inr ex_merged"
    by (simp add: Resolve_def Validate_default resolve_step_def ex_Merge)
  then show ?thesis using Resolve_sound policy_ok_default unfolding policy_ok_def by metis
qed

text \<open>
  A rejected resolution of a valid base names the first layer that could not be merged,
  and wraps exactly the error that merge reported.
\<close>

theorem Resolve_error:
  assumes "Resolve base ls = Inl e" and "Validate base = Inr ()"
  shows "\<exists>pre l post q e'. ls = pre @ l # post \<and> Resolve base pre = Inr q
            \<and> Merge q (l_Partial l) = Inl e' \<and> e = Wrap (l_Name l) e'"
proof -
  from assms obtain pre l post q
    where "ls = pre @ l # post" "fold_result resolve_step pre base = Inr q" "resolve_step l q = Inl e"
    using fold_result_error [of resolve_step ls base e] by (auto simp: Resolve_def)
  with assms(2) show ?thesis
    by (auto simp: Resolve_def resolve_step_def split: sum.splits)
qed

theorem Resolve_error_witness:
  "\<exists>q e. Resolve default_policy [] = Inr q
     \<and> Resolve default_policy [\<lparr>l_Name = ''model'', l_Partial = ex_bad_partial\<rparr>] = Inl (Wrap ''model'' e)
     \<and> Merge q ex_bad_partial = Inl e"
proof -
  have "Resolve default_policy [\<lparr>l_Name = ''model'', l_Partial = ex_bad_partial\<rparr>] =
      Inl (Wrap ''model'' (Err ''recovery: retries.max-retries must be between 0 and 8''))"
    by (simp add: Resolve_def Validate_default resolve_step_def ex_bad_Merge)
  from Resolve_error [OF this Validate_default] this show ?thesis
    by (auto simp: Cons_eq_append_conv)
qed

end
