(* ===== verification/Recovery_Engine.thy ===== *)
theory Recovery_Engine
  imports Recovery_Budget Recovery_Backoff Recovery_Merge
begin

text \<open>
  \<open>internal/recovery/engine.go\<close>: the decision maker of one request. The engine reads its
  clock, its jitter source and the request context while it decides; every such reading is a
  field of an environment record, one per place the source reads at, so that no two readings
  are assumed equal. The theorems show the code-owned invariants (a committed answer, a dead
  caller and a spent request envelope end everything), the bounds of every scheduled wait,
  and that a walk driven by these decisions is finite.
\<close>

section \<open>The engine\<close>

abbreviation RuleIDCommitted :: string where "RuleIDCommitted \<equiv> ''committed''"
abbreviation RuleIDCaller :: string where "RuleIDCaller \<equiv> ''caller''"
abbreviation RuleIDBudgetRequest :: string where "RuleIDBudgetRequest \<equiv> ''budget-request''"
abbreviation RuleIDBudgetCandidate :: string where "RuleIDBudgetCandidate \<equiv> ''budget-candidate''"

record Decision =
  d_Action :: Action
  d_RuleID :: string
  d_Delay :: duration
  d_Reason :: string

definition decide :: "Action \<Rightarrow> string \<Rightarrow> string \<Rightarrow> Decision" where
  "decide a rid reason = \<lparr>d_Action = a, d_RuleID = rid, d_Delay = 0, d_Reason = reason\<rparr>"

record Engine =
  e_primary :: Policy
  e_policy :: Policy
  e_budget :: Budget
  e_entered :: int
  e_candAt :: time

text \<open>
  What one decision reads: \<open>ctx.Err() != nil\<close>, \<open>ctx.Deadline()\<close>, the clock in the first and
  the second \<open>Exhausted\<close>, in \<open>retry\<close> and at the deadline step of \<open>retryDelay\<close>, and the draw.
\<close>

record Env =
  v_err :: bool
  v_deadline :: "time option"
  v_nowRequest :: time
  v_nowCandidate :: time
  v_nowRetry :: time
  v_nowDeadline :: time
  v_draw :: f64

definition NewEngine :: "Policy \<Rightarrow> time \<Rightarrow> time \<Rightarrow> Engine" where
  "NewEngine primary nowBudget nowCand =
     \<lparr>e_primary = primary, e_policy = primary,
      e_budget = NewBudget (bp_Request (p_Budget primary)) nowBudget, e_entered = 0, e_candAt = nowCand\<rparr>"

definition canEnter :: "Engine \<Rightarrow> bool" where
  "canEnter e =
     (if e_entered e = 0 then True
      else if \<not> fp_Enabled (p_Fallback (e_primary e)) then False
      else e_entered e < fp_MaxCandidates (p_Fallback (e_primary e)))"

definition EnterCandidate :: "Engine \<Rightarrow> Policy \<Rightarrow> time \<Rightarrow> time \<Rightarrow> bool \<times> Engine" where
  "EnterCandidate e p nowCand nowBudget =
     (if \<not> canEnter e then (False, e)
      else (True, e\<lparr>e_entered := wrap64 (e_entered e + 1), e_policy := p, e_candAt := nowCand,
                    e_budget := BeginCandidate (e_budget e) (bp_Candidate (p_Budget p)) nowBudget\<rparr>))"

definition move :: "Engine \<Rightarrow> string \<Rightarrow> string \<Rightarrow> Decision" where
  "move e rid reason =
     (if canEnter e then decide ActionFallback rid reason else decide ActionTerminal rid reason)"

definition exhaustedRetry :: "Engine \<Rightarrow> string \<Rightarrow> string \<Rightarrow> Decision" where
  "exhaustedRetry e rid reason =
     (if rp_OnExhausted (p_Retry (e_policy e)) = ActionFallback then move e rid reason
      else decide ActionTerminal rid reason)"

text \<open>
  \<open>retryDelay\<close> in its four stages: the ceilinged schedule, the upstream's directive, the
  credential pool's readiness, and the two shortening steps.
\<close>

definition ceiling_at :: "duration \<Rightarrow> duration \<Rightarrow> duration" where
  "ceiling_at c d = (if d > c then c else d)"

definition raise_directive :: "Policy \<Rightarrow> duration \<Rightarrow> duration \<Rightarrow> duration" where
  "raise_directive p directive delay =
     (if ra_Enabled (p_RetryAfter p) \<and> ra_Mode (p_RetryAfter p) = RetryAfterMax
      then let raised = (if ra_MaxDelay (p_RetryAfter p) > 0 \<and> directive > ra_MaxDelay (p_RetryAfter p)
                         then ra_MaxDelay (p_RetryAfter p) else directive);
               raised = ceiling_at (bo_Max (rp_Backoff (p_Retry p))) raised
           in if raised > delay then raised else delay
      else delay)"

definition raise_readiness :: "duration \<Rightarrow> duration \<Rightarrow> duration" where
  "raise_readiness ready delay = (if ready > 0 \<and> ready > delay then ready else delay)"

definition retryDelay :: "Engine \<Rightarrow> Env \<Rightarrow> Observation \<Rightarrow> int \<Rightarrow> duration \<Rightarrow> duration" where
  "retryDelay e v ob attempts windowLeft =
     (let p = e_policy e;
          delay = jitteredBackoff (rp_Backoff (p_Retry p)) attempts (v_draw v);
          delay = ceiling_at (bo_Max (rp_Backoff (p_Retry p))) delay;
          delay = raise_directive p (o_RetryAfter ob) delay;
          delay = raise_readiness (o_CredentialReadyIn ob) delay;
          delay = ceiling_at windowLeft delay
      in case v_deadline v of
           Some deadline \<Rightarrow>
             (let until = time_sub deadline (v_nowDeadline v)
              in if until \<le> 0 then 0
                 else let delay = ceiling_at until delay in if delay < 0 then 0 else delay)
         | None \<Rightarrow> (if delay < 0 then 0 else delay))"

definition retry :: "Engine \<Rightarrow> Env \<Rightarrow> Observation \<Rightarrow> string \<Rightarrow> string \<Rightarrow> Decision" where
  "retry e v ob rid reason =
     (let attempts = (if o_CandidateAttempt ob < 1 then 1 else o_CandidateAttempt ob) in
      if attempts > rp_MaxRetries (p_Retry (e_policy e)) then exhaustedRetry e rid reason
      else let windowLeft = wrap64 (rp_MaxElapsed (p_Retry (e_policy e)) - time_sub (v_nowRetry v) (e_candAt e)) in
           if windowLeft \<le> 0 then exhaustedRetry e rid reason
           else \<lparr>d_Action = ActionRetry, d_RuleID = rid, d_Delay = retryDelay e v ob attempts windowLeft,
                 d_Reason = reason\<rparr>)"

definition Observe :: "Engine \<Rightarrow> Env \<Rightarrow> Observation \<Rightarrow> Decision" where
  "Observe e v ob =
     (let reason = Reason ob in
      if o_Committed ob then decide ActionTerminal RuleIDCommitted reason
      else if o_Class ob = FailureCaller \<or> v_err v then decide ActionTerminal RuleIDCaller reason
      else if Exhausted (e_budget e) (v_nowRequest v) = ExhaustionRequest
      then decide ActionTerminal RuleIDBudgetRequest reason
      else let (action, rid) = Matrix_Match (p_Matrix (e_policy e)) ob in
           case action of
             ActionRetry \<Rightarrow>
               (if Exhausted (e_budget e) (v_nowCandidate v) = ExhaustionCandidate
                then exhaustedRetry e rid reason
                else retry e v ob rid reason)
           | ActionFallback \<Rightarrow> move e rid reason
           | ActionTerminal \<Rightarrow> decide ActionTerminal rid reason)"

definition CandidateSpent :: "Engine \<Rightarrow> time \<Rightarrow> string \<Rightarrow> Decision" where
  "CandidateSpent e now reason =
     (if Exhausted (e_budget e) now = ExhaustionRequest then decide ActionTerminal RuleIDBudgetRequest reason
      else exhaustedRetry e RuleIDBudgetCandidate reason)"

definition CandidatesEntered :: "Engine \<Rightarrow> int" where
  "CandidatesEntered e = e_entered e"

lemmas engine_simps = decide_def move_def exhaustedRetry_def retry_def Observe_def CandidateSpent_def

section \<open>Specification vocabulary\<close>

text \<open>The gates in front of the matrix.\<close>

definition stopped :: "Engine \<Rightarrow> Env \<Rightarrow> Observation \<Rightarrow> bool" where
  "stopped e v ob \<longleftrightarrow> o_Committed ob \<or> o_Class ob = FailureCaller \<or> v_err v
     \<or> Exhausted (e_budget e) (v_nowRequest v) = ExhaustionRequest"

text \<open>The wait before the two shortening steps, and what is left of the caller's deadline.\<close>

definition wanted :: "Policy \<Rightarrow> duration \<Rightarrow> duration \<Rightarrow> duration \<Rightarrow> duration" where
  "wanted p jittered directive ready =
     raise_readiness ready (raise_directive p directive (ceiling_at (bo_Max (rp_Backoff (p_Retry p))) jittered))"

definition time_left :: "Env \<Rightarrow> duration option" where
  "time_left v = map_option (\<lambda>d. time_sub d (v_nowDeadline v)) (v_deadline v)"

text \<open>
  A walk under a primary policy: the engine, the attempts made on the current candidate and
  the attempts made in all. It starts by entering a candidate; exchanges are claimed at any
  time; a retry decision on an observation that carries the current attempt count starts
  another attempt, a fallback decision enters another candidate. Every candidate's policy is
  valid, as the resolver guarantees.
\<close>

inductive walk :: "Policy \<Rightarrow> Engine \<Rightarrow> int \<Rightarrow> int \<Rightarrow> bool" for primary where
  start: "EnterCandidate (NewEngine primary t t') p u u' = (True, e) \<Longrightarrow> Validate p = Inr () \<Longrightarrow>
    walk primary e 1 1"
| exchange: "walk primary e a n \<Longrightarrow> AcquireExchange (e_budget e) t = (b, g) \<Longrightarrow>
    walk primary (e\<lparr>e_budget := b\<rparr>) a n"
| retried: "walk primary e a n \<Longrightarrow> o_CandidateAttempt ob = a \<Longrightarrow>
    d_Action (Observe e v ob) = ActionRetry \<Longrightarrow> walk primary e (a + 1) (n + 1)"
| moved: "walk primary e a n \<Longrightarrow>
    d_Action (Observe e v ob) = ActionFallback \<or> d_Action (CandidateSpent e t reason) = ActionFallback \<Longrightarrow>
    EnterCandidate e p u u' = (True, e') \<Longrightarrow> Validate p = Inr () \<Longrightarrow> walk primary e' 1 (n + 1)"

definition walk_inv :: "Policy \<Rightarrow> Engine \<Rightarrow> int \<Rightarrow> int \<Rightarrow> bool" where
  "walk_inv primary e a n \<longleftrightarrow>
     e_primary e = primary \<and> Validate (e_policy e) = Inr () \<and> budget_inv (e_budget e)
     \<and> b_req (e_budget e) = bp_Request (p_Budget primary)
     \<and> 1 \<le> e_entered e \<and> e_entered e \<le> fp_MaxCandidates (p_Fallback primary)
     \<and> 1 \<le> a \<and> a \<le> rp_MaxRetries (p_Retry (e_policy e)) + 1
     \<and> n \<le> (e_entered e - 1) * (MaxRetriesCap + 1) + a"

text \<open>An engine inside its first candidate and an environment, for the witnesses.\<close>

definition ex_engine :: Engine where
  "ex_engine = snd (EnterCandidate (NewEngine default_policy 0 0) default_policy 0 0)"

definition ex_env :: Env where
  "ex_env = \<lparr>v_err = False, v_deadline = Some (10 * Second), v_nowRequest = Second, v_nowCandidate = Second,
             v_nowRetry = Second, v_nowDeadline = Second, v_draw = F64 0\<rparr>"

section \<open>Facts\<close>

lemma move_action: "d_Action (move e rid reason) = (if canEnter e then ActionFallback else ActionTerminal)"
  by (simp add: move_def decide_def)

lemma move_delay: "d_Delay (move e rid reason) = 0"
  by (simp add: move_def decide_def)

lemma exhaustedRetry_action:
  "d_Action (exhaustedRetry e rid reason) =
     (if rp_OnExhausted (p_Retry (e_policy e)) = ActionFallback \<and> canEnter e then ActionFallback else ActionTerminal)"
  by (simp add: exhaustedRetry_def move_action) (simp add: decide_def)

lemma exhaustedRetry_delay: "d_Delay (exhaustedRetry e rid reason) = 0"
  by (simp add: exhaustedRetry_def move_delay) (simp add: decide_def)

lemma Observe_stopped: "stopped e v ob \<Longrightarrow> d_Action (Observe e v ob) = ActionTerminal \<and> d_Delay (Observe e v ob) = 0"
  by (auto simp: stopped_def Observe_def Let_def decide_def)

lemma Observe_matrix:
  "\<not> stopped e v ob \<Longrightarrow>
   Observe e v ob =
     (let reason = Reason ob; (action, rid) = Matrix_Match (p_Matrix (e_policy e)) ob in
      case action of
        ActionRetry \<Rightarrow> (if Exhausted (e_budget e) (v_nowCandidate v) = ExhaustionCandidate
                         then exhaustedRetry e rid reason else retry e v ob rid reason)
      | ActionFallback \<Rightarrow> move e rid reason
      | ActionTerminal \<Rightarrow> decide ActionTerminal rid reason)"
  by (simp add: stopped_def Observe_def Let_def)

lemma retry_action:
  assumes "d_Action (retry e v ob rid reason) = ActionRetry"
  shows "max 1 (o_CandidateAttempt ob) \<le> rp_MaxRetries (p_Retry (e_policy e))"
    and "0 < wrap64 (rp_MaxElapsed (p_Retry (e_policy e)) - time_sub (v_nowRetry v) (e_candAt e))"
    and "d_Delay (retry e v ob rid reason) =
          retryDelay e v ob (max 1 (o_CandidateAttempt ob))
            (wrap64 (rp_MaxElapsed (p_Retry (e_policy e)) - time_sub (v_nowRetry v) (e_candAt e)))"
proof -
  have m: "(if o_CandidateAttempt ob < 1 then 1 else o_CandidateAttempt ob) = max 1 (o_CandidateAttempt ob)"
    by (simp add: max_def)
  show "max 1 (o_CandidateAttempt ob) \<le> rp_MaxRetries (p_Retry (e_policy e))"
    "0 < wrap64 (rp_MaxElapsed (p_Retry (e_policy e)) - time_sub (v_nowRetry v) (e_candAt e))"
    "d_Delay (retry e v ob rid reason) =
      retryDelay e v ob (max 1 (o_CandidateAttempt ob))
        (wrap64 (rp_MaxElapsed (p_Retry (e_policy e)) - time_sub (v_nowRetry v) (e_candAt e)))"
    using assms unfolding retry_def Let_def m by (auto simp: exhaustedRetry_action split: if_splits)
qed

lemma Observe_retryD:
  assumes "d_Action (Observe e v ob) = ActionRetry"
  obtains rid where "\<not> stopped e v ob" "Matrix_Match (p_Matrix (e_policy e)) ob = (ActionRetry, rid)"
    "Exhausted (e_budget e) (v_nowCandidate v) \<noteq> ExhaustionCandidate"
    "Observe e v ob = retry e v ob rid (Reason ob)"
    "d_Action (retry e v ob rid (Reason ob)) = ActionRetry"
proof -
  have ns: "\<not> stopped e v ob" using assms Observe_stopped by fastforce
  obtain a rid where m: "Matrix_Match (p_Matrix (e_policy e)) ob = (a, rid)" by fastforce
  with assms ns have "a = ActionRetry" "Exhausted (e_budget e) (v_nowCandidate v) \<noteq> ExhaustionCandidate"
    by (cases a; auto simp: Observe_matrix move_action exhaustedRetry_action decide_def split: if_splits)+
  with m ns assms that show thesis by (simp add: Observe_matrix)
qed

subsection \<open>Waits\<close>

lemma ceiling_at_min: "ceiling_at c d = min c d"
  by (simp add: ceiling_at_def min_def)

lemma retryDelay_wanted:
  "retryDelay e v ob n w =
     (let want = min w (wanted (e_policy e) (jitteredBackoff (rp_Backoff (p_Retry (e_policy e))) n (v_draw v))
                   (o_RetryAfter ob) (o_CredentialReadyIn ob))
      in case time_left v of
           None \<Rightarrow> max 0 want
         | Some u \<Rightarrow> if u \<le> 0 then 0 else max 0 (min u want))"
proof -
  have "(if a < 0 then 0 else a) = max 0 a" for a :: int by auto
  then show ?thesis
    unfolding retryDelay_def Let_def wanted_def time_left_def ceiling_at_min
    by (cases "v_deadline v") simp_all
qed

lemma raise_directive_bounds:
  "d \<le> raise_directive p x d"
  "d \<le> bo_Max (rp_Backoff (p_Retry p)) \<Longrightarrow> raise_directive p x d \<le> bo_Max (rp_Backoff (p_Retry p))"
  by (auto simp: raise_directive_def Let_def ceiling_at_def)

lemma wanted_nonneg:
  assumes "backoff_ok (rp_Backoff (p_Retry p))" and "0 \<le> j"
  shows "0 \<le> wanted p j d r"
proof -
  have "0 \<le> bo_Max (rp_Backoff (p_Retry p))" using assms(1) by (auto simp: backoff_ok_def caps)
  with assms(2) have "0 \<le> ceiling_at (bo_Max (rp_Backoff (p_Retry p))) j" by (simp add: ceiling_at_min)
  with raise_directive_bounds(1) [of "ceiling_at (bo_Max (rp_Backoff (p_Retry p))) j" p d] show ?thesis
    by (simp add: wanted_def raise_readiness_def)
qed

lemma wanted_le: "r \<le> 0 \<Longrightarrow> wanted p j d r \<le> bo_Max (rp_Backoff (p_Retry p))"
  using raise_directive_bounds(2) [of "ceiling_at (bo_Max (rp_Backoff (p_Retry p))) j" p d]
  by (simp add: wanted_def raise_readiness_def ceiling_at_min)

lemma wanted_ge_ready: "0 < r \<Longrightarrow> r \<le> wanted p j d r"
  by (simp add: wanted_def raise_readiness_def)

lemma retryDelay_bounds:
  assumes "backoff_ok (rp_Backoff (p_Retry (e_policy e)))" and "v_draw v = F64 x" and "\<bar>x\<bar> \<le> 1" and "0 \<le> w"
  shows "0 \<le> retryDelay e v ob n w" and "retryDelay e v ob n w \<le> w"
    and "time_left v = Some u \<Longrightarrow> retryDelay e v ob n w \<le> max 0 u"
    and "o_CredentialReadyIn ob \<le> 0 \<Longrightarrow> retryDelay e v ob n w \<le> bo_Max (rp_Backoff (p_Retry (e_policy e)))"
    and "min w (case time_left v of None \<Rightarrow> o_CredentialReadyIn ob | Some u \<Rightarrow> min (max 0 u) (o_CredentialReadyIn ob))
           \<le> retryDelay e v ob n w"
proof -
  obtain j where "bo_Jitter (rp_Backoff (p_Retry (e_policy e))) = F64 j" using assms(1) by (auto simp: backoff_ok_def)
  from jitteredBackoff_range(2) [OF assms(1) this assms(3), of n]
  have "0 \<le> jitteredBackoff (rp_Backoff (p_Retry (e_policy e))) n (v_draw v)" by (simp add: assms(2))
  then have w0: "0 \<le> wanted (e_policy e) (jitteredBackoff (rp_Backoff (p_Retry (e_policy e))) n (v_draw v)) (o_RetryAfter ob) (o_CredentialReadyIn ob)"
    by (rule wanted_nonneg [OF assms(1)])
  have top: "0 \<le> bo_Max (rp_Backoff (p_Retry (e_policy e)))" using assms(1) by (auto simp: backoff_ok_def caps)
  define q where "q = wanted (e_policy e) (jitteredBackoff (rp_Backoff (p_Retry (e_policy e))) n (v_draw v)) (o_RetryAfter ob) (o_CredentialReadyIn ob)"
  have D: "retryDelay e v ob n w = (case time_left v of None \<Rightarrow> min w q | Some u \<Rightarrow> min (max 0 u) (min w q))"
    using w0 assms(4) by (auto simp: retryDelay_wanted q_def [symmetric] Let_def split: option.split)
  have q0: "0 \<le> q" using w0 by (simp add: q_def)
  show "0 \<le> retryDelay e v ob n w" "retryDelay e v ob n w \<le> w" 
    unfolding D using q0 assms(4) by (auto split: option.split)
  show "time_left v = Some u \<Longrightarrow> retryDelay e v ob n w \<le> max 0 u" unfolding D by simp
  show "retryDelay e v ob n w \<le> bo_Max (rp_Backoff (p_Retry (e_policy e)))" if "o_CredentialReadyIn ob \<le> 0"
  proof -
    have "q \<le> bo_Max (rp_Backoff (p_Retry (e_policy e)))" unfolding q_def by (rule wanted_le [OF that])
    then show ?thesis unfolding D by (auto simp: min_le_iff_disj split: option.split)
  qed
  have "o_CredentialReadyIn ob \<le> q" using wanted_ge_ready q0 unfolding q_def by (cases "0 < o_CredentialReadyIn ob") fastforce+
  then show "min w (case time_left v of None \<Rightarrow> o_CredentialReadyIn ob | Some u \<Rightarrow> min (max 0 u) (o_CredentialReadyIn ob))
           \<le> retryDelay e v ob n w"
    unfolding D using q0 by (auto split: option.split)
qed

lemma window_left:
  assumes "Validate p = Inr ()" and "u \<le> t" and "0 < wrap64 (rp_MaxElapsed (p_Retry p) - time_sub t u)"
  shows "wrap64 (rp_MaxElapsed (p_Retry p) - time_sub t u) = rp_MaxElapsed (p_Retry p) - (t - u)"
proof -
  have m: "MinBackoff \<le> rp_MaxElapsed (p_Retry p)" "rp_MaxElapsed (p_Retry p) \<le> MaxCandidateElapsedCap"
    using assms(1) by (simp_all add: Validate_parts validate_retry_iff)
  have s: "0 \<le> time_sub t u" "time_sub t u \<le> int64_max" using assms(2) by (simp_all add: time_sub_nonneg) (simp add: time_sub_def int64_min_def int64_max_def)
  then have w: "wrap64 (rp_MaxElapsed (p_Retry p) - time_sub t u) = rp_MaxElapsed (p_Retry p) - time_sub t u"
    using m by (intro wrap64_id) (auto simp: in_int64_iff caps int64_max_def)
  with assms(3) m have "time_sub t u < int64_max" by (simp add: caps int64_max_def)
  then have "time_sub t u = t - u" using assms(2) by (auto simp: time_sub_def int64_min_def int64_max_def)
  with w show ?thesis by simp
qed
subsection \<open>Walks\<close>

lemma EnterCandidate_iff:
  "EnterCandidate e p u u' = (True, e') \<longleftrightarrow>
     canEnter e \<and> e' = e\<lparr>e_entered := wrap64 (e_entered e + 1), e_policy := p, e_candAt := u,
                        e_budget := BeginCandidate (e_budget e) (bp_Candidate (p_Budget p)) u'\<rparr>"
  by (auto simp: EnterCandidate_def)

lemma BeginCandidate_req: "b_req (BeginCandidate b cand t) = b_req b"
  by (simp add: BeginCandidate_def)

lemma Validate_fallback_bounds:
  assumes "Validate p = Inr ()"
  shows "1 \<le> fp_MaxCandidates (p_Fallback p)" and "fp_MaxCandidates (p_Fallback p) \<le> MaxCandidatesCap"
  using assms by (auto simp: Validate_parts validate_fallback_iff caps split: if_splits)

lemma Validate_retries:
  "Validate p = Inr () \<Longrightarrow> 0 \<le> rp_MaxRetries (p_Retry p) \<and> rp_MaxRetries (p_Retry p) \<le> MaxRetriesCap"
  by (simp add: Validate_parts validate_retry_iff)

lemma walk_inv_enter:
  assumes "walk_inv primary e a n" and "Validate primary = Inr ()" and "Validate p = Inr ()"
    and "EnterCandidate e p u u' = (True, e')"
  shows "walk_inv primary e' 1 (n + 1)"
proof -
  from assms(1,4) have can: "e_entered e < fp_MaxCandidates (p_Fallback primary)"
    by (auto simp: walk_inv_def EnterCandidate_iff canEnter_def split: if_splits)
  then have "wrap64 (e_entered e + 1) = e_entered e + 1"
    using assms(1) Validate_fallback_bounds [OF assms(2)]
    by (intro wrap64_id) (auto simp: walk_inv_def in_int64_iff caps)
  with assms can Validate_envelopes_ok [OF assms(3)] Validate_retries [OF assms(3)]
    Validate_retries [of "e_policy e"] show ?thesis
    by (auto simp: walk_inv_def EnterCandidate_iff BeginCandidate_inv BeginCandidate_req algebra_simps)
qed

lemma walk_invariant:
  assumes "walk primary e a n" and "Validate primary = Inr ()"
  shows "walk_inv primary e a n"
  using assms
proof (induction rule: walk.induct)
  case (start t t' p u u' e)
  then show ?case
    using Validate_fallback_bounds(1) [of primary] Validate_envelopes_ok [of primary] Validate_envelopes_ok [of p]
      Validate_retries [of p] NewBudget_inv [of "bp_Request (p_Budget primary)" t]
    by (auto simp: walk_inv_def EnterCandidate_iff NewEngine_def BeginCandidate_inv BeginCandidate_req
        wrap64_id in_int64_iff) (simp add: NewBudget_def)
next
  case (exchange e a n t b g)
  then have "budget_inv b" using AcquireExchange_inv by (auto simp: walk_inv_def)
  moreover have "b_req b = b_req (e_budget e)"
    using exchange by (auto simp: AcquireExchange_def Let_def split: if_splits)
  ultimately show ?case using exchange by (simp add: walk_inv_def)
next
  case (retried e a n ob v)
  from retried(3) obtain rid where "d_Action (retry e v ob rid (Reason ob)) = ActionRetry"
    by (rule Observe_retryD)
  from retry_action(1) [OF this] retried show ?case by (auto simp: walk_inv_def)
next
  case (moved e a n v ob t reason p u u' e')
  then show ?case using walk_inv_enter by blast
qed

section \<open>Properties\<close>



text \<open>
  A decision to retry is always funded and always bounded. It is made only for a live,
  uncommitted request with both envelopes open, when the matrix asked for it and the attempt
  count allows it; the wait it schedules is not negative, ends inside the candidate's retry
  window and before the caller's deadline, never exceeds the backoff ceiling unless the local
  credential pool asked for more, and honours that pool's readiness up to the two bounds.
\<close>

theorem Observe_retry_bounded:
  assumes "Validate (e_policy e) = Inr ()" and "e_candAt e \<le> v_nowRetry v"
    and "v_draw v = F64 x" and "\<bar>x\<bar> \<le> 1"
    and "d_Action (Observe e v ob) = ActionRetry"
  shows "\<not> stopped e v ob \<and> fst (Matrix_Match (p_Matrix (e_policy e)) ob) = ActionRetry
         \<and> Exhausted (e_budget e) (v_nowCandidate v) \<noteq> ExhaustionCandidate
         \<and> o_CandidateAttempt ob \<le> rp_MaxRetries (p_Retry (e_policy e))
         \<and> 0 \<le> d_Delay (Observe e v ob)
         \<and> v_nowRetry v + d_Delay (Observe e v ob) \<le> e_candAt e + rp_MaxElapsed (p_Retry (e_policy e))
         \<and> (\<forall>dl. v_deadline v = Some dl \<and> v_nowDeadline v \<le> dl
               \<longrightarrow> v_nowDeadline v + d_Delay (Observe e v ob) \<le> dl)
         \<and> (o_CredentialReadyIn ob \<le> 0 \<longrightarrow>
              d_Delay (Observe e v ob) \<le> bo_Max (rp_Backoff (p_Retry (e_policy e))))
         \<and> (v_deadline v = None \<longrightarrow>
              min (rp_MaxElapsed (p_Retry (e_policy e)) - (v_nowRetry v - e_candAt e)) (o_CredentialReadyIn ob)
                \<le> d_Delay (Observe e v ob))"
proof -
  from assms(5) obtain rid where ns: "\<not> stopped e v ob"
    and m: "Matrix_Match (p_Matrix (e_policy e)) ob = (ActionRetry, rid)"
    and ex: "Exhausted (e_budget e) (v_nowCandidate v) \<noteq> ExhaustionCandidate"
    and ob: "Observe e v ob = retry e v ob rid (Reason ob)"
    and act: "d_Action (retry e v ob rid (Reason ob)) = ActionRetry"
    by (rule Observe_retryD)
  note r = retry_action [OF act]
  define w where "w = rp_MaxElapsed (p_Retry (e_policy e)) - (v_nowRetry v - e_candAt e)"
  have wl: "wrap64 (rp_MaxElapsed (p_Retry (e_policy e)) - time_sub (v_nowRetry v) (e_candAt e)) = w"
    unfolding w_def by (rule window_left [OF assms(1,2) r(2)])
  have w0: "0 \<le> w" using r(2) wl by simp
  have d: "d_Delay (Observe e v ob) = retryDelay e v ob (max 1 (o_CandidateAttempt ob)) w"
    unfolding ob r(3) wl ..
  note b = retryDelay_bounds [OF Validate_backoff_ok [OF assms(1)] assms(3,4) w0, where ob = ob and n = "max 1 (o_CandidateAttempt ob)"]
  have "v_nowDeadline v + d_Delay (Observe e v ob) \<le> dl" if "v_deadline v = Some dl" "v_nowDeadline v \<le> dl" for dl
  proof -
    have "time_left v = Some (time_sub dl (v_nowDeadline v))" using that by (simp add: time_left_def)
    from b(3) [OF this] show ?thesis using that(2) unfolding d
      by (auto simp: time_sub_def int64_min_def int64_max_def)
  qed
  moreover have "v_deadline v = None \<Longrightarrow> min w (o_CredentialReadyIn ob) \<le> d_Delay (Observe e v ob)"
    using b(5) by (simp add: d time_left_def)
  ultimately show ?thesis
    using ns m ex r(1) b(1,2,4) unfolding d w_def [symmetric] by (auto simp: w_def)
qed

theorem Observe_retry_bounded_witness:
  "d_Action (Observe ex_engine ex_env ex_obs) = ActionRetry
   \<and> Second + d_Delay (Observe ex_engine ex_env ex_obs) \<le> 10 * Second"
proof -
  have d: "disposition ex_obs = ActionRetry" by (simp add: disposition_def ex_obs_def zeroObservation_def)
  have eng: "e_policy ex_engine = default_policy" "e_candAt ex_engine = 0"
    by (simp_all add: ex_engine_def EnterCandidate_def canEnter_def NewEngine_def)
  obtain rid where m: "Matrix_Match (p_Matrix default_policy) ex_obs = (ActionRetry, rid)"
    using sorted_defaults_disposition [OF ex_obs_wf] d
    by (cases "Matrix_Match (p_Matrix default_policy) ex_obs") (simp add: Matrix_Match_def default_policy_matrix)
  have st: "Exhausted (e_budget ex_engine) Second = ExhaustionNone"
    by (simp add: ex_engine_def EnterCandidate_def canEnter_def NewEngine_def Exhausted_def stateLocked_def
        spentLocked_def BeginCandidate_def NewBudget_def default_policy_def Default_def NewMatrix_default
        defaults caps time_sub_def int64_max_def int64_min_def)
  have "d_Action (Observe ex_engine ex_env ex_obs) = ActionRetry"
    using st by (simp add: Observe_def Let_def m eng ex_env_def)
      (simp add: ex_obs_def zeroObservation_def retry_def Let_def eng default_policy_def Default_def
        NewMatrix_default defaults caps time_sub_def int64_max_def int64_min_def wrap64_def)
  from Observe_retry_bounded [OF _ _ _ _ this, of 0] this show ?thesis
    by (simp add: eng Validate_default ex_env_def Second_def)
qed

text \<open>
  The engine only ever weakens the matrix. A retry needs a matrix row that says retry; a
  fallback needs a row that says fallback, or one that says retry with a spent retry budget
  and an exhaustion policy that says fallback; and a fallback, also the one decided for a
  spent candidate, is decided only when the next candidate can really be entered.
\<close>

theorem Observe_fallback_enters:
  assumes "d_Action (Observe e v ob) = ActionFallback \<or> d_Action (CandidateSpent e t reason) = ActionFallback"
  shows "fst (EnterCandidate e p u u')
         \<and> (d_Action (Observe e v ob) = ActionFallback \<longrightarrow>
              fst (Matrix_Match (p_Matrix (e_policy e)) ob) = ActionFallback
              \<or> fst (Matrix_Match (p_Matrix (e_policy e)) ob) = ActionRetry
                \<and> rp_OnExhausted (p_Retry (e_policy e)) = ActionFallback)"
proof -
  have obs: "canEnter e \<and> (fst (Matrix_Match (p_Matrix (e_policy e)) ob) = ActionFallback
      \<or> fst (Matrix_Match (p_Matrix (e_policy e)) ob) = ActionRetry
        \<and> rp_OnExhausted (p_Retry (e_policy e)) = ActionFallback)"
    if f: "d_Action (Observe e v ob) = ActionFallback"
  proof -
    have "\<not> stopped e v ob" using f Observe_stopped by fastforce
    moreover obtain a rid where "Matrix_Match (p_Matrix (e_policy e)) ob = (a, rid)" by fastforce
    ultimately show ?thesis
      using f by (cases a; auto simp: Observe_matrix move_action exhaustedRetry_action decide_def retry_def Let_def
          split: if_splits)
  qed
  have "canEnter e" if "d_Action (CandidateSpent e t reason) = ActionFallback"
    using that by (auto simp: CandidateSpent_def exhaustedRetry_action decide_def split: if_splits)
  with obs assms show ?thesis by (auto simp: EnterCandidate_def)
qed

theorem Observe_fallback_enters_witness:
  "d_Action (CandidateSpent ex_engine Second []) = ActionFallback \<and> fst (EnterCandidate ex_engine default_policy 0 0)"
proof -
  have "d_Action (CandidateSpent ex_engine Second []) = ActionFallback"
    by (simp add: CandidateSpent_def ex_engine_def EnterCandidate_def canEnter_def NewEngine_def Exhausted_def
        stateLocked_def spentLocked_def BeginCandidate_def NewBudget_def default_policy_def Default_def
        NewMatrix_default defaults caps time_sub_def int64_max_def int64_min_def exhaustedRetry_def move_def
        decide_def wrap64_def)
  with Observe_fallback_enters [of ex_engine ex_env ex_obs Second "[]" default_policy 0 0] show ?thesis by simp
qed

text \<open>
  A walk is finite. Under a valid primary policy and valid candidate policies, a walk
  makes at most \<open>MaxCandidates\<close> times nine attempts (hence at most 72), enters at most
  \<open>MaxCandidates\<close> candidates, and starts at most \<open>MaxExchanges\<close> exchanges.
\<close>

theorem walk_bounded:
  assumes "walk primary e a n" and "Validate primary = Inr ()"
  shows "n \<le> fp_MaxCandidates (p_Fallback primary) * (MaxRetriesCap + 1)
         \<and> n \<le> MaxCandidatesCap * (MaxRetriesCap + 1)
         \<and> CandidatesEntered e \<le> fp_MaxCandidates (p_Fallback primary)
         \<and> RequestExchanges (e_budget e) \<le> en_MaxExchanges (bp_Request (p_Budget primary))"
proof -
  have i: "walk_inv primary e a n" by (rule walk_invariant [OF assms])
  then have "n \<le> (e_entered e - 1) * (MaxRetriesCap + 1) + a" "a \<le> MaxRetriesCap + 1"
    using Validate_retries [of "e_policy e"] by (auto simp: walk_inv_def)
  then have "n \<le> e_entered e * (MaxRetriesCap + 1)" by (simp add: algebra_simps)
  also have "\<dots> \<le> fp_MaxCandidates (p_Fallback primary) * (MaxRetriesCap + 1)"
    using i by (intro mult_right_mono) (auto simp: walk_inv_def caps)
  finally have n: "n \<le> fp_MaxCandidates (p_Fallback primary) * (MaxRetriesCap + 1)" .
  also have "\<dots> \<le> MaxCandidatesCap * (MaxRetriesCap + 1)"
    using Validate_fallback_bounds(2) [OF assms(2)] by (intro mult_right_mono) (auto simp: caps)
  finally show ?thesis
    using n i by (auto simp: walk_inv_def CandidatesEntered_def RequestExchanges_def budget_inv_def)
qed

theorem walk_bounded_witness:
  "walk default_policy ex_engine 1 1 \<and> CandidatesEntered ex_engine \<le> 2"
proof -
  have "walk default_policy ex_engine 1 1"
    by (rule walk.start [of _ 0 0 default_policy 0 0])
      (simp_all add: Validate_default ex_engine_def EnterCandidate_def canEnter_def NewEngine_def)
  from walk_bounded [OF this Validate_default] this show ?thesis
    by (simp add: default_policy_def Default_def NewMatrix_default defaults)
qed

end
