(* ===== verification/Recovery_Hash.thy ===== *)
theory Recovery_Hash
  imports Recovery_Merge
begin

text \<open>
  \<open>internal/recovery/hash.go\<close>: the canonical encoding behind a policy's identity. The digest
  (\<open>sha\<close>) and the formatting of a \<open>float64\<close> (\<open>fmt\<close>) are parameters; of the latter the
  encoding needs that it is injective and writes no separator. The theorem shows that the
  bytes that are digested determine the policy, field by field.
\<close>

section \<open>The encoder\<close>

abbreviation hashTag :: string where "hashTag \<equiv> ''recovery-policy-v3''"

definition w_str :: "string \<Rightarrow> string" where
  "w_str s = itoa (int (length s)) @ CHR '':'' # s @ [CHR '';'']"

definition w_int :: "int \<Rightarrow> string" where
  "w_int n = itoa n @ [CHR '';'']"

definition w_optInt :: "int option \<Rightarrow> string" where
  "w_optInt n = (case n of None \<Rightarrow> ''n;'' | Some k \<Rightarrow> w_int k)"

definition w_bool :: "bool \<Rightarrow> string" where
  "w_bool b = (if b then ''1;'' else ''0;'')"

definition w_optBool :: "bool option \<Rightarrow> string" where
  "w_optBool b = (case b of None \<Rightarrow> ''n;'' | Some c \<Rightarrow> w_bool c)"

definition w_duration :: "duration \<Rightarrow> string" where
  "w_duration d = itoa d @ [CHR '';'']"

definition w_float :: "(f64 \<Rightarrow> string) \<Rightarrow> f64 \<Rightarrow> string" where
  "w_float fmt f = fmt f @ [CHR '';'']"

fun Action_num :: "Action \<Rightarrow> int" where
  "Action_num ActionTerminal = 0"
| "Action_num ActionFallback = 1"
| "Action_num ActionRetry = 2"

definition w_action :: "Action \<Rightarrow> string" where
  "w_action a = w_int (Action_num a)"

fun RetryAfterMode_num :: "RetryAfterMode \<Rightarrow> int" where
  "RetryAfterMode_num RetryAfterMax = 0"
| "RetryAfterMode_num RetryAfterIgnore = 1"

definition w_rule :: "Rule \<Rightarrow> string" where
  "w_rule r =
     w_str (r_ID r)
     @ w_int (int (FailureClass_num (m_Class (r_Match r))))
     @ w_int (m_Status (r_Match r))
     @ w_int (int (StatusClass_num (m_StatusClass (r_Match r))))
     @ w_int (int (TransportClass_num (m_TransportClass (r_Match r))))
     @ w_str (m_TransportCause (r_Match r))
     @ w_str (m_ProtocolCause (r_Match r))
     @ w_str (m_CallerCause (r_Match r))
     @ w_str (m_CredentialCause (r_Match r))
     @ w_str (m_ProviderErrorType (r_Match r))
     @ w_str (m_ProviderErrorCode (r_Match r))
     @ w_optBool (m_Streaming (r_Match r))
     @ w_int (m_CandidateIndex (r_Match r))
     @ w_optInt (m_RetryIndex (r_Match r))
     @ w_action (r_Action r)"

definition hash_bytes :: "(f64 \<Rightarrow> string) \<Rightarrow> Policy \<Rightarrow> string" where
  "hash_bytes fmt p =
     w_str hashTag
     @ w_action (Matrix_Default (p_Matrix p))
     @ w_int (int (length (Matrix_Rules (p_Matrix p))))
     @ concat (map w_rule (Matrix_Rules (p_Matrix p)))
     @ w_int (rp_MaxRetries (p_Retry p))
     @ w_duration (rp_MaxElapsed (p_Retry p))
     @ w_duration (bo_Initial (rp_Backoff (p_Retry p)))
     @ w_duration (bo_Max (rp_Backoff (p_Retry p)))
     @ w_float fmt (bo_Jitter (rp_Backoff (p_Retry p)))
     @ w_action (rp_OnExhausted (p_Retry p))
     @ w_bool (fp_Enabled (p_Fallback p))
     @ w_int (fp_MaxCandidates (p_Fallback p))
     @ w_action (fp_OnExhausted (p_Fallback p))
     @ w_int (en_MaxExchanges (bp_Request (p_Budget p)))
     @ w_duration (en_MaxElapsed (bp_Request (p_Budget p)))
     @ w_int (en_MaxExchanges (bp_Candidate (p_Budget p)))
     @ w_duration (en_MaxElapsed (bp_Candidate (p_Budget p)))
     @ w_bool (ra_Enabled (p_RetryAfter p))
     @ w_int (RetryAfterMode_num (ra_Mode (p_RetryAfter p)))
     @ w_duration (ra_MaxDelay (p_RetryAfter p))
     @ w_bool (sp_Enabled (p_Stream p))
     @ w_int (sp_MaxRecoveries (p_Stream p))
     @ w_duration (sp_MaxElapsed (p_Stream p))
     @ w_int (sp_MaxPartialBytes (p_Stream p))"

text \<open>The sixteen characters of the digest that are kept.\<close>

definition Hash :: "(f64 \<Rightarrow> string) \<Rightarrow> (string \<Rightarrow> string) \<Rightarrow> Policy \<Rightarrow> string" where
  "Hash fmt sha p = take 16 (hex_encode (sha (hash_bytes fmt p)))"

section \<open>Specification vocabulary\<close>

text \<open>
  What \<open>strconv.AppendFloat(_, f, 'g', -1, 64)\<close> documents: the shortest text that reads back
  as the same value, made of digits, signs, a point, an exponent mark or a name.
\<close>

definition float_format :: "(f64 \<Rightarrow> string) \<Rightarrow> bool" where
  "float_format fmt \<longleftrightarrow> inj fmt \<and> (\<forall>f. CHR '';'' \<notin> set (fmt f))"

text \<open>A concrete format for the witness: the fraction in lowest terms.\<close>

fun fraction_format :: "f64 \<Rightarrow> string" where
  "fraction_format F64NaN = ''NaN''"
| "fraction_format (F64Inf s) = (if s then ''-Inf'' else ''+Inf'')"
| "fraction_format (F64 x) = itoa (fst (quotient_of x)) @ CHR '':'' # itoa (snd (quotient_of x))"

section \<open>Facts\<close>

interpretation int_enc: self_delimiting w_int "\<lambda>_. True"
proof
  show "x = y \<and> r = s" if "w_int x @ r = w_int y @ s" for x y r s
  proof -
    have "itoa x @ CHR '';'' # r = itoa y @ CHR '';'' # s" using that by (simp add: w_int_def)
    then have "itoa x = itoa y \<and> r = s" by (rule sep_cut [rotated 2]) simp_all
    then show ?thesis by (simp add: itoa_inject)
  qed
qed

interpretation str_enc: self_delimiting w_str "\<lambda>_. True"
proof
  show "x = y \<and> r = s" if "w_str x @ r = w_str y @ s" for x y r s
  proof -
    have "itoa (int (length x)) @ CHR '':'' # (x @ CHR '';'' # r) =
        itoa (int (length y)) @ CHR '':'' # (y @ CHR '';'' # s)"
      using that by (simp add: w_str_def)
    then have "itoa (int (length x)) = itoa (int (length y)) \<and> x @ CHR '';'' # r = y @ CHR '';'' # s"
      by (rule sep_cut [rotated 2]) simp_all
    moreover from this have "length x = length y" using itoa_inject by fastforce
    ultimately show ?thesis by simp
  qed
qed

lemma w_optInt_cut: "w_optInt x @ r = w_optInt y @ s \<longleftrightarrow> x = y \<and> r = s"
proof -
  have "w_int k @ r \<noteq> CHR ''n'' # CHR '';'' # s" for k r s
  proof
    assume "w_int k @ r = CHR ''n'' # CHR '';'' # s"
    then have "hd (itoa k) = CHR ''n''" by (cases "itoa k") (auto simp: w_int_def)
    then have "CHR ''n'' \<in> set (itoa k)" by (metis hd_in_set itoa_nonempty)
    then show False by simp
  qed
  then show ?thesis
    using int_enc.cut_iff by (auto simp: w_optInt_def split: option.splits) (metis append_Cons append_Nil)+
qed

lemma w_bool_cut: "w_bool x @ r = w_bool y @ s \<longleftrightarrow> x = y \<and> r = s"
  by (auto simp: w_bool_def)

lemma w_optBool_cut: "w_optBool x @ r = w_optBool y @ s \<longleftrightarrow> x = y \<and> r = s"
  by (auto simp: w_optBool_def w_bool_def split: option.splits if_splits)

lemma w_duration_eq: "w_duration = w_int"
  by (intro ext) (simp add: w_duration_def w_int_def)

lemma w_action_cut: "w_action x @ r = w_action y @ s \<longleftrightarrow> x = y \<and> r = s"
  by (cases x; cases y) (simp_all add: w_action_def int_enc.cut_iff)

lemma w_float_cut: "float_format fmt \<Longrightarrow> w_float fmt x @ r = w_float fmt y @ s \<longleftrightarrow> x = y \<and> r = s"
  using sep_cut [of "CHR '';''" "fmt x" "fmt y" r s] by (auto simp: w_float_def float_format_def inj_eq)

lemma nums_inject:
  "FailureClass_num c = FailureClass_num c' \<longleftrightarrow> c = c'"
  "StatusClass_num sc = StatusClass_num sc' \<longleftrightarrow> sc = sc'"
  "TransportClass_num tc = TransportClass_num tc' \<longleftrightarrow> tc = tc'"
  "RetryAfterMode_num m = RetryAfterMode_num m' \<longleftrightarrow> m = m'"
     apply (cases c; cases c'; simp)
    apply (cases sc; cases sc'; simp)
   apply (cases tc; cases tc'; simp)
  apply (cases m; cases m'; simp)
  done

lemmas cuts = int_enc.cut_iff str_enc.cut_iff w_optInt_cut w_bool_cut w_optBool_cut w_action_cut w_float_cut

interpretation rule_enc: self_delimiting w_rule "\<lambda>_. True"
proof
  show "x = y \<and> r = s" if "w_rule x @ r = w_rule y @ s" for x y r s
    using that by (simp add: w_rule_def cuts nums_inject)
qed

lemma fraction_format_mark: "CHR '':'' \<in> set (fraction_format x) \<longleftrightarrow> (\<exists>a. x = F64 a)"
  by (cases x) auto

lemma fraction_format_inject: "fraction_format x = fraction_format y \<Longrightarrow> x = y"
proof (cases "\<exists>a. x = F64 a")
  case True
  assume eq: "fraction_format x = fraction_format y"
  with True fraction_format_mark obtain a b where ab: "x = F64 a" "y = F64 b" by metis
  with eq have "itoa (fst (quotient_of a)) @ CHR '':'' # itoa (snd (quotient_of a)) =
      itoa (fst (quotient_of b)) @ CHR '':'' # itoa (snd (quotient_of b))"
    by simp
  then have "itoa (fst (quotient_of a)) = itoa (fst (quotient_of b)) \<and>
      itoa (snd (quotient_of a)) = itoa (snd (quotient_of b))"
    by (rule sep_cut [rotated 2]) simp_all
  then have "quotient_of a = quotient_of b" by (auto intro!: prod_eqI dest: itoa_inject)
  then show "x = y" using ab quotient_of_inject by blast
next
  case False
  assume eq: "fraction_format x = fraction_format y"
  with False have "\<not> (\<exists>a. y = F64 a)" using fraction_format_mark by metis
  with False eq show "x = y" by (cases x; cases y) (auto split: if_splits)
qed

lemma fraction_format_ok: "float_format fraction_format"
proof -
  have "CHR '';'' \<notin> set (fraction_format f)" for f by (cases f) auto
  then show ?thesis using fraction_format_inject by (auto simp: float_format_def inj_def)
qed

lemma matrix_eqI: "Matrix_Rules m = Matrix_Rules m' \<Longrightarrow> Matrix_Default m = Matrix_Default m' \<Longrightarrow> m = m'"
  for m m' :: Matrix
  by (simp add: Matrix_Rules_def Matrix_Default_def)

lemma rules_cut:
  "length xs = length ys \<Longrightarrow>
   concat (map w_rule xs) @ r = concat (map w_rule ys) @ s \<longleftrightarrow> xs = ys \<and> r = s"
  using rule_enc.concat_cut [of xs ys r s] by (auto simp: list_all_iff)

lemma hash_bytes_parts:
  assumes "float_format fmt" and "hash_bytes fmt p = hash_bytes fmt q"
  shows "p_Matrix p = p_Matrix q \<and> p_Retry p = p_Retry q \<and> p_Fallback p = p_Fallback q
         \<and> p_Budget p = p_Budget q \<and> p_RetryAfter p = p_RetryAfter q \<and> p_Stream p = p_Stream q"
proof -
  have "hash_bytes fmt p @ [] = hash_bytes fmt q @ []" using assms(2) by simp
  then have len: "length (Matrix_Rules (p_Matrix p)) = length (Matrix_Rules (p_Matrix q))"
    unfolding hash_bytes_def append_assoc by (simp only: cuts) simp
  from \<open>hash_bytes fmt p @ [] = hash_bytes fmt q @ []\<close> show ?thesis
    unfolding hash_bytes_def append_assoc w_duration_eq
    by (simp only: cuts rules_cut [OF len] w_float_cut [OF assms(1)])
      (auto simp: nums_inject intro: matrix_eqI)
qed

section \<open>Properties\<close>

text \<open>
  C15: the canonical encoding is injective. Two policies are digested from the same bytes only
  when they are the same policy, rule by rule and field by field, so equal digests of
  different policies can only come from the digest itself.
\<close>

theorem hash_bytes_injective:
  assumes "float_format fmt"
  shows "hash_bytes fmt p = hash_bytes fmt q \<longleftrightarrow> p = q"
  using hash_bytes_parts [OF assms, of p q] by (auto intro: Policy.equality)

theorem hash_bytes_injective_witness:
  "hash_bytes fraction_format default_policy \<noteq> hash_bytes fraction_format ex_merged"
proof -
  obtain m where m: "ex_merged = merge_mechanics default_policy ex_partial m"
    using ex_Merge by (auto simp: Merge_ok_iff)
  have "fp_Enabled (p_Fallback ex_merged) = False"
    unfolding m by (simp add: merge_mechanics_def merge_fallback_def ex_partial_def emptyPartial_def Let_def)
  moreover have "fp_Enabled (p_Fallback default_policy)"
    by (simp add: default_policy_def Default_def NewMatrix_default)
  ultimately show ?thesis using hash_bytes_injective [OF fraction_format_ok] by metis
qed

end
