(* ===== verification/Credential_Pool.thy ===== *)
theory Credential_Pool
  imports Prelude "HOL-Library.AList"
begin

text \<open>
  \<open>internal/credential\<close> (spec.go, state.go, provider.go, registry.go) and the cooldown rule of
  \<open>internal/proxy/credential.go\<close>: validated upstream keys, their round-robin rotation with
  per-key cooldown, and the registry that shares rotation state across reloads. The digest of
  the identities is the parameter \<open>sha\<close>. The theorems show who is handed out and when: never a
  cooling key, always a ready one, in rotation order, and after the wait \<open>NextReady\<close> reports.
\<close>

section \<open>Specs\<close>

abbreviation StrategyRoundRobin :: string where "StrategyRoundRobin \<equiv> ''round_robin''"

abbreviation MaxHeaderBytes :: nat where "MaxHeaderBytes \<equiv> 128"
abbreviation MaxPrefixBytes :: nat where "MaxPrefixBytes \<equiv> 128"
abbreviation MaxIDBytes :: nat where "MaxIDBytes \<equiv> 64"
abbreviation MaxValueBytes :: nat where "MaxValueBytes \<equiv> 4096"
abbreviation MaxKeys :: nat where "MaxKeys \<equiv> 256"

definition quote :: "string \<Rightarrow> string" where
  "quote s = CHR 0x22 # s @ [CHR 0x22]"

definition parseStrategy :: "string \<Rightarrow> string result" where
  "parseStrategy s =
     (if s = StrategyRoundRobin then Inr StrategyRoundRobin
      else Inl (Err (''credential: unknown auth strategy '' @ quote ''(input redacted)''
                     @ '' (accepted: '' @ quote StrategyRoundRobin @ '')'')))"

record Key =
  k_ID :: string
  k_Value :: string

record Spec =
  cs_Header :: string
  cs_Prefix :: string
  cs_Strategy :: string
  cs_Keys :: "Key list"

definition invalid :: "string \<Rightarrow> go_error" where
  "invalid msg = Wrap ''invalid provider auth configuration'' (Err msg)"

definition alnum :: "char \<Rightarrow> bool" where
  "alnum c \<longleftrightarrow> (CHR ''a'' \<le> c \<and> c \<le> CHR ''z'') \<or> (CHR ''A'' \<le> c \<and> c \<le> CHR ''Z'')
     \<or> (CHR ''0'' \<le> c \<and> c \<le> CHR ''9'')"

definition isTokenByte :: "char \<Rightarrow> bool" where
  "isTokenByte c \<longleftrightarrow> alnum c \<or> c \<in> set (''!#$%&*+-.^_`|~'' @ [CHR 0x27])"

definition control :: "char \<Rightarrow> bool" where
  "control c \<longleftrightarrow> c < CHR 0x20 \<or> c = CHR 0x7F"

definition ValidHeader :: "string \<Rightarrow> unit result" where
  "ValidHeader h =
     (if h = [] then Inl (invalid ''auth header must not be empty'')
      else if length h > MaxHeaderBytes
      then Inl (invalid (''auth header must be at most '' @ itoa (int MaxHeaderBytes) @ '' bytes''))
      else if \<not> list_all isTokenByte h
      then Inl (invalid ''auth header must contain only RFC 7230 token characters'')
      else Inr ())"

definition ValidPrefix :: "string \<Rightarrow> unit result" where
  "ValidPrefix p =
     (if length p > MaxPrefixBytes
      then Inl (invalid (''auth prefix must be at most '' @ itoa (int MaxPrefixBytes) @ '' bytes''))
      else if list_ex control p then Inl (invalid ''auth prefix must not contain control characters'')
      else Inr ())"

definition ValidID :: "string \<Rightarrow> unit result" where
  "ValidID i =
     (if i = [] then Inl (invalid ''credential key id must not be empty'')
      else if length i > MaxIDBytes
      then Inl (invalid (''credential key id must be at most '' @ itoa (int MaxIDBytes) @ '' bytes''))
      else if \<not> list_all (\<lambda>c. alnum c \<or> c \<in> set ''._-:'') i
      then Inl (invalid ''credential key id must contain only [A-Za-z0-9._:-]'')
      else Inr ())"

definition ValidValue :: "string \<Rightarrow> unit result" where
  "ValidValue v =
     (if v = [] then Inl (invalid ''credential key value must not be empty'')
      else if length v > MaxValueBytes
      then Inl (invalid (''credential key value must be at most '' @ itoa (int MaxValueBytes) @ '' bytes''))
      else if list_ex control v then Inl (invalid ''credential key value must not contain control characters'')
      else Inr ())"

fun validate_keys :: "string set \<Rightarrow> Key list \<Rightarrow> unit result" where
  "validate_keys seen [] = Inr ()"
| "validate_keys seen (k # ks) =
     (case ValidID (k_ID k) of
        Inl e \<Rightarrow> Inl e
      | Inr _ \<Rightarrow>
          (case ValidValue (k_Value k) of
             Inl e \<Rightarrow> Inl e
           | Inr _ \<Rightarrow>
               (if k_ID k \<in> seen then Inl (invalid ''credential key ids must be unique within a provider'')
                else validate_keys (insert (k_ID k) seen) ks)))"

definition ValidateSpec :: "Spec \<Rightarrow> unit result" where
  "ValidateSpec s =
     (case ValidHeader (cs_Header s) of
        Inl e \<Rightarrow> Inl e
      | Inr _ \<Rightarrow>
     (case ValidPrefix (cs_Prefix s) of
        Inl e \<Rightarrow> Inl e
      | Inr _ \<Rightarrow>
          (if cs_Strategy s \<noteq> StrategyRoundRobin
           then Inl (invalid (''auth strategy must be '' @ quote StrategyRoundRobin))
           else if cs_Keys s = [] then Inl (invalid ''auth must declare at least one key'')
           else if length (cs_Keys s) > MaxKeys
           then Inl (invalid (''auth must declare at most '' @ itoa (int MaxKeys) @ '' keys''))
           else validate_keys {} (cs_Keys s))))"

section \<open>Identities\<close>

text \<open>\<open>writeField\<close>: the length, a zero byte, the bytes.\<close>

definition writeField :: "string \<Rightarrow> string" where
  "writeField v = itoa (int (length v)) @ CHR 0x00 # v"

definition content_bytes :: "Spec \<Rightarrow> string" where
  "content_bytes s =
     writeField (cs_Header s) @ writeField (cs_Prefix s) @ writeField (cs_Strategy s)
     @ writeField (itoa (int (length (cs_Keys s))))
     @ concat (map (\<lambda>k. writeField (k_ID k) @ writeField (k_Value k)) (cs_Keys s))"

definition ContentKey :: "(string \<Rightarrow> string) \<Rightarrow> Spec \<Rightarrow> string" where
  "ContentKey sha s = hex_encode (sha (content_bytes s))"

record RateLimit =
  rl_Cooldown :: duration
  rl_MaxCooldown :: duration

record Provider =
  pv_Identity :: string
  pv_Spec :: Spec
  pv_RateLimit :: RateLimit

definition pool_key_bytes :: "(string \<Rightarrow> string) \<Rightarrow> Provider \<Rightarrow> string" where
  "pool_key_bytes sha p =
     writeField ''credential-pool-key-v1'' @ writeField (pv_Identity p)
     @ writeField (ContentKey sha (pv_Spec p))
     @ writeField (itoa (rl_Cooldown (pv_RateLimit p)))
     @ writeField (itoa (rl_MaxCooldown (pv_RateLimit p)))"

definition PoolKey :: "(string \<Rightarrow> string) \<Rightarrow> Provider \<Rightarrow> string" where
  "PoolKey sha p = hex_encode (sha (pool_key_bytes sha p))"

text \<open>\<open>credentialCooldown\<close> of the proxy: how long a 429 keeps the key out of rotation.\<close>

definition credentialCooldown :: "duration \<Rightarrow> RateLimit \<Rightarrow> duration" where
  "credentialCooldown directive rl =
     (if directive \<le> 0 then rl_Cooldown rl
      else if directive > rl_MaxCooldown rl then rl_MaxCooldown rl
      else directive)"

section \<open>Rotation state\<close>

text \<open>The cooldown map is an association list from key ids to deadlines.\<close>

record CredPool =
  cp_spec :: Spec
  cp_cursor :: nat
  cp_cooling :: "(string \<times> time) list"

definition NewPool :: "Spec \<Rightarrow> CredPool result" where
  "NewPool spec =
     (if cs_Keys spec = [] then Inl (Err ''credential: pool requires at least one key'')
      else Inr \<lparr>cp_spec = spec, cp_cursor = 0, cp_cooling = []\<rparr>)"

definition readyLocked :: "CredPool \<Rightarrow> string \<Rightarrow> time \<Rightarrow> bool" where
  "readyLocked p keyID now =
     (case map_of (cp_cooling p) keyID of None \<Rightarrow> True | Some until \<Rightarrow> \<not> now < until)"

definition preferred_key :: "CredPool \<Rightarrow> time \<Rightarrow> string \<Rightarrow> Key option" where
  "preferred_key p now preferred =
     (if preferred = [] then None
      else find (\<lambda>k. k_ID k = preferred \<and> readyLocked p (k_ID k) now) (cs_Keys (cp_spec p)))"

fun rotate_from :: "CredPool \<Rightarrow> time \<Rightarrow> nat list \<Rightarrow> CredPool \<times> Key option" where
  "rotate_from p now [] = (p, None)"
| "rotate_from p now (off # offs) =
     (let n = length (cs_Keys (cp_spec p));
          idx = (cp_cursor p + off) mod n;
          k = cs_Keys (cp_spec p) ! idx
      in if readyLocked p (k_ID k) now then (p\<lparr>cp_cursor := (idx + 1) mod n\<rparr>, Some k)
         else rotate_from p now offs)"

definition Acquire :: "CredPool \<Rightarrow> time \<Rightarrow> string \<Rightarrow> CredPool \<times> Key option" where
  "Acquire p now preferred =
     (case preferred_key p now preferred of
        Some k \<Rightarrow> (p, Some k)
      | None \<Rightarrow> rotate_from p now [0..<length (cs_Keys (cp_spec p))])"

definition MarkRateLimited :: "CredPool \<Rightarrow> time \<Rightarrow> string \<Rightarrow> duration \<Rightarrow> CredPool" where
  "MarkRateLimited p now keyID cooldown =
     (if cooldown \<le> 0 then p
      else if \<not> list_ex (\<lambda>k. k_ID k = keyID) (cs_Keys (cp_spec p)) then p
      else let deadline = now + cooldown in
           case map_of (cp_cooling p) keyID of
             Some until \<Rightarrow> (if until > deadline then p
                            else p\<lparr>cp_cooling := AList.update keyID deadline (cp_cooling p)\<rparr>)
           | None \<Rightarrow> p\<lparr>cp_cooling := AList.update keyID deadline (cp_cooling p)\<rparr>)"

fun next_ready :: "time \<Rightarrow> time option \<Rightarrow> (string \<times> time) list \<Rightarrow> time option" where
  "next_ready now best [] = best"
| "next_ready now best ((i, until) # rest) =
     (if \<not> now < until then next_ready now best rest
      else case best of
             None \<Rightarrow> next_ready now (Some until) rest
           | Some earliest \<Rightarrow> next_ready now (Some (if until < earliest then until else earliest)) rest)"

definition NextReady :: "CredPool \<Rightarrow> time \<Rightarrow> time option" where
  "NextReady p now = next_ready now None (cp_cooling p)"

definition CoolingUntil :: "CredPool \<Rightarrow> time \<Rightarrow> string \<Rightarrow> time" where
  "CoolingUntil p now keyID =
     (case map_of (cp_cooling p) keyID of
        None \<Rightarrow> 0
      | Some until \<Rightarrow> if \<not> now < until then 0 else until)"

section \<open>The registry\<close>

text \<open>
  Pools are shared by reference: the registry maps pool identities to locations of a store,
  and a request that resolved a pool keeps its location.
\<close>

record Registry =
  rg_pools :: "(string \<times> nat) list"
  rg_store :: "CredPool list"

definition NewRegistry :: Registry where
  "NewRegistry = \<lparr>rg_pools = [], rg_store = []\<rparr>"

definition Registry_Pool :: "(string \<Rightarrow> string) \<Rightarrow> Registry \<Rightarrow> Provider \<Rightarrow> (Registry \<times> nat) result" where
  "Registry_Pool sha r p =
     (case map_of (rg_pools r) (PoolKey sha p) of
        Some l \<Rightarrow> Inr (r, l)
      | None \<Rightarrow>
          (case NewPool (pv_Spec p) of
             Inl e \<Rightarrow> Inl e
           | Inr pool \<Rightarrow>
               Inr (\<lparr>rg_pools = AList.update (PoolKey sha p) (length (rg_store r)) (rg_pools r),
                     rg_store = rg_store r @ [pool]\<rparr>, length (rg_store r))))"

definition Registry_Retain :: "(string \<Rightarrow> string) \<Rightarrow> Registry \<Rightarrow> Provider list \<Rightarrow> Registry" where
  "Registry_Retain sha r active =
     r\<lparr>rg_pools := filter (\<lambda>(k, l). k \<in> set (map (PoolKey sha) active)) (rg_pools r)\<rparr>"

section \<open>The interface of a rotating pool\<close>

text \<open>
  What the request handler relies on when it acquires a key per attempt and marks the key of
  every 429: an acquired key is past its deadline, acquiring moves no deadline, a mark never
  shortens one and sets the one it names. Its operations interleave in any order.
\<close>

datatype pool_op = OpAcquire time string | OpMark time string duration

fun run_ops :: "('p \<Rightarrow> time \<Rightarrow> string \<Rightarrow> 'p \<times> 'k option) \<Rightarrow> ('p \<Rightarrow> time \<Rightarrow> string \<Rightarrow> duration \<Rightarrow> 'p)
    \<Rightarrow> 'p \<Rightarrow> pool_op list \<Rightarrow> 'p" where
  "run_ops acq mark p [] = p"
| "run_ops acq mark p (OpAcquire t pref # ops) = run_ops acq mark (fst (acq p t pref)) ops"
| "run_ops acq mark p (OpMark t i c # ops) = run_ops acq mark (mark p t i c) ops"

locale key_pool =
  fixes acquire :: "'p \<Rightarrow> time \<Rightarrow> string \<Rightarrow> 'p \<times> 'k option"
    and mark :: "'p \<Rightarrow> time \<Rightarrow> string \<Rightarrow> duration \<Rightarrow> 'p"
    and deadline :: "'p \<Rightarrow> string \<Rightarrow> time option"
    and known :: "'p \<Rightarrow> string set" and ident :: "'k \<Rightarrow> string"
  assumes acquire_ready: "acquire p t pref = (p', Some k) \<Longrightarrow> deadline p (ident k) = Some d \<Longrightarrow> d \<le> t"
    and acquire_keeps: "deadline (fst (acquire p t pref)) = deadline p"
    and mark_raises: "deadline p i = Some d \<Longrightarrow> \<exists>d'\<ge>d. deadline (mark p t j c) i = Some d'"
    and mark_sets: "i \<in> known p \<Longrightarrow> 0 < c \<Longrightarrow> \<exists>d\<ge>t + c. deadline (mark p t i c) i = Some d"
begin

lemma cooling_persists: "deadline p i = Some d \<Longrightarrow> \<exists>d'\<ge>d. deadline (run_ops acquire mark p ops) i = Some d'"
proof (induction ops arbitrary: p d)
  case Nil
  then show ?case by auto
next
  case (Cons op ops)
  show ?case
  proof (cases op)
    case (OpAcquire t pref)
    with Cons show ?thesis by (simp add: acquire_keeps)
  next
    case (OpMark t j c)
    obtain d' where d': "d \<le> d'" "deadline (mark p t j c) i = Some d'"
      using mark_raises [OF Cons.prems] by blast
    from Cons.IH [OF d'(2)] show ?thesis using OpMark d'(1) by fastforce
  qed
qed

lemma no_early_reuse:
  assumes "i \<in> known p" and "0 < c"
    and "acquire (run_ops acquire mark (mark p t i c) ops) t' pref = (q, Some k)" and "t' < t + c"
  shows "ident k \<noteq> i"
proof
  assume k: "ident k = i"
  obtain d where "t + c \<le> d" "deadline (mark p t i c) i = Some d" using mark_sets [OF assms(1,2)] by blast
  moreover obtain d' where "d \<le> d'" "deadline (run_ops acquire mark (mark p t i c) ops) i = Some d'"
    using cooling_persists [OF \<open>deadline (mark p t i c) i = Some d\<close>] by blast
  ultimately show False using acquire_ready [OF assms(3)] k assms(4) by fastforce
qed

end

section \<open>Specification vocabulary\<close>

definition pool_wf :: "CredPool \<Rightarrow> bool" where
  "pool_wf p \<longleftrightarrow> cs_Keys (cp_spec p) \<noteq> [] \<and> cp_cursor p < length (cs_Keys (cp_spec p))
     \<and> distinct (map fst (cp_cooling p)) \<and> fst ` set (cp_cooling p) \<subseteq> k_ID ` set (cs_Keys (cp_spec p))"

definition key_ids :: "CredPool \<Rightarrow> string set" where
  "key_ids p = k_ID ` set (cs_Keys (cp_spec p))"

text \<open>The keys handed out by acquisitions without preference at a list of clock readings.\<close>

fun acquire_keys :: "CredPool \<Rightarrow> time list \<Rightarrow> Key option list" where
  "acquire_keys p [] = []"
| "acquire_keys p (t # ts) = (let (p', k) = Acquire p t [] in k # acquire_keys p' ts)"

text \<open>What a validated spec guarantees of the header the proxy composes from it.\<close>

definition spec_ok :: "Spec \<Rightarrow> bool" where
  "spec_ok s \<longleftrightarrow>
     cs_Header s \<noteq> [] \<and> length (cs_Header s) \<le> MaxHeaderBytes \<and> (\<forall>c\<in>set (cs_Header s). isTokenByte c)
     \<and> length (cs_Prefix s) \<le> MaxPrefixBytes \<and> cs_Strategy s = StrategyRoundRobin
     \<and> 0 < length (cs_Keys s) \<and> length (cs_Keys s) \<le> MaxKeys \<and> distinct (map k_ID (cs_Keys s))
     \<and> (\<forall>c\<in>set (cs_Prefix s). \<not> control c)
     \<and> (\<forall>k\<in>set (cs_Keys s). ValidID (k_ID k) = Inr () \<and> k_Value k \<noteq> []
          \<and> length (k_Value k) \<le> MaxValueBytes \<and> (\<forall>c\<in>set (k_Value k). \<not> control c))"

text \<open>A pool of two keys for the witnesses.\<close>

definition ex_spec :: Spec where
  "ex_spec = \<lparr>cs_Header = ''Authorization'', cs_Prefix = ''Bearer '', cs_Strategy = StrategyRoundRobin,
              cs_Keys = [\<lparr>k_ID = ''a'', k_Value = ''s1''\<rparr>, \<lparr>k_ID = ''b'', k_Value = ''s2''\<rparr>]\<rparr>"

definition ex_pool :: CredPool where
  "ex_pool = \<lparr>cp_spec = ex_spec, cp_cursor = 1, cp_cooling = [(''a'', 50), (''b'', 30)]\<rparr>"

section \<open>Facts\<close>

lemma rotate_from_frame:
  "rotate_from p now offs = (p', r) \<Longrightarrow> cp_spec p' = cp_spec p \<and> cp_cooling p' = cp_cooling p"
  by (induction offs) (auto simp: Let_def split: if_splits)

lemma Acquire_frame: "cp_spec (fst (Acquire p now pref)) = cp_spec p \<and> cp_cooling (fst (Acquire p now pref)) = cp_cooling p"
  using rotate_from_frame [of p now "[0..<length (cs_Keys (cp_spec p))]"]
  by (cases "rotate_from p now [0..<length (cs_Keys (cp_spec p))]") (auto simp: Acquire_def split: option.split)

lemma rotate_from_Some:
  "rotate_from p now offs = (p', Some k) \<Longrightarrow> cs_Keys (cp_spec p) \<noteq> [] \<Longrightarrow>
   k \<in> set (cs_Keys (cp_spec p)) \<and> readyLocked p (k_ID k) now \<and> cp_cursor p' < length (cs_Keys (cp_spec p))"
  by (induction offs) (auto simp: Let_def split: if_splits)

lemma rotate_from_None:
  "rotate_from p now offs = (p', None) \<longleftrightarrow>
     p' = p \<and> (\<forall>off\<in>set offs. \<not> readyLocked p (k_ID (cs_Keys (cp_spec p) ! ((cp_cursor p + off) mod length (cs_Keys (cp_spec p))))) now)"
  by (induction offs) (auto simp: Let_def)

lemma rotation_hits:
  assumes "c < n" and "i < n"
  shows "\<exists>off<n. (c + off) mod n = (i::nat)"
proof (intro exI conjI)
  show "(i + n - c) mod n < n" using assms by simp
  have "(c + (i + n - c) mod n) mod n = (c + (i + n - c)) mod n" by (rule mod_add_right_eq)
  also have "\<dots> = i" using assms by simp
  finally show "(c + (i + n - c) mod n) mod n = i" .
qed

lemma preferred_key_Some:
  "preferred_key p now pref = Some k \<Longrightarrow>
   k \<in> set (cs_Keys (cp_spec p)) \<and> k_ID k = pref \<and> pref \<noteq> [] \<and> readyLocked p (k_ID k) now"
  by (auto simp: preferred_key_def find_Some_iff split: if_splits)

lemma Acquire_SomeD:
  assumes "Acquire p now pref = (p', Some k)" and "cs_Keys (cp_spec p) \<noteq> []"
  shows "k \<in> set (cs_Keys (cp_spec p))" and "readyLocked p (k_ID k) now"
  using assms preferred_key_Some rotate_from_Some by (auto simp: Acquire_def split: option.splits)

lemma Acquire_None_iff:
  assumes "pool_wf p"
  shows "snd (Acquire p now pref) = None \<longleftrightarrow> (\<forall>k\<in>set (cs_Keys (cp_spec p)). \<not> readyLocked p (k_ID k) now)"
proof -
  let ?ks = "cs_Keys (cp_spec p)" and ?n = "length (cs_Keys (cp_spec p))"
  have c: "cp_cursor p < ?n" using assms by (simp add: pool_wf_def)
  have rot: "snd (rotate_from p now [0..<?n]) = None \<longleftrightarrow> (\<forall>k\<in>set ?ks. \<not> readyLocked p (k_ID k) now)"
  proof
    assume "snd (rotate_from p now [0..<?n]) = None"
    then have all: "\<forall>off<?n. \<not> readyLocked p (k_ID (?ks ! ((cp_cursor p + off) mod ?n))) now"
      using rotate_from_None [of p now "[0..<?n]" "fst (rotate_from p now [0..<?n])"]
      by (metis atLeastLessThan_iff le0 prod.collapse set_upt)
    show "\<forall>k\<in>set ?ks. \<not> readyLocked p (k_ID k) now"
    proof
      fix k assume "k \<in> set ?ks"
      then obtain i where "i < ?n" "k = ?ks ! i" by (auto simp: in_set_conv_nth)
      with rotation_hits [OF c] all show "\<not> readyLocked p (k_ID k) now" by metis
    qed
  next
    assume "\<forall>k\<in>set ?ks. \<not> readyLocked p (k_ID k) now"
    moreover have "(cp_cursor p + off) mod ?n < ?n" for off by (rule mod_less_divisor) (use c in linarith)
    ultimately show "snd (rotate_from p now [0..<?n]) = None"
      using rotate_from_None [of p now "[0..<?n]" p] by (simp add: nth_mem)
  qed
  show ?thesis
  proof (cases "preferred_key p now pref")
    case None
    with rot show ?thesis by (simp add: Acquire_def)
  next
    case (Some k)
    with preferred_key_Some [OF Some] show ?thesis by (auto simp: Acquire_def)
  qed
qed

lemma next_ready_Some:
  "next_ready now best xs = Some e \<Longrightarrow>
   (best = Some e \<or> (\<exists>i. (i, e) \<in> set xs \<and> now < e))
   \<and> (\<forall>b. best = Some b \<longrightarrow> e \<le> b) \<and> (\<forall>(i, u)\<in>set xs. now < u \<longrightarrow> e \<le> u)"
proof (induction xs arbitrary: best)
  case Nil
  then show ?case by simp
next
  case (Cons x xs)
  obtain i u where x: "x = (i, u)" by fastforce
  show ?case
  proof (cases "now < u")
    case False
    with Cons x show ?thesis by fastforce
  next
    case True
    define b where "b = (case best of None \<Rightarrow> u | Some y \<Rightarrow> if u < y then u else y)"
    have "next_ready now (Some b) xs = Some e"
      using Cons.prems True by (auto simp: x b_def split: option.splits)
    note IH = Cons.IH [OF this]
    have "b \<le> u" "\<And>y. best = Some y \<Longrightarrow> b \<le> y" "b = u \<or> best = Some b"
      by (auto simp: b_def split: option.splits)
    with IH True show ?thesis by (auto simp: x)
  qed
qed

lemma next_ready_None: "next_ready now best xs = None \<longleftrightarrow> best = None \<and> (\<forall>(i, u)\<in>set xs. \<not> now < u)"
  by (induction now best xs rule: next_ready.induct) (auto split: option.splits)

lemma readyLocked_iff: "readyLocked p i t \<longleftrightarrow> (\<forall>d. map_of (cp_cooling p) i = Some d \<longrightarrow> d \<le> t)"
  by (auto simp: readyLocked_def split: option.split)

interpretation rotation: key_pool Acquire MarkRateLimited "\<lambda>p. map_of (cp_cooling p)" key_ids k_ID
proof
  show "d \<le> t" if "Acquire p t pref = (p', Some k)" "map_of (cp_cooling p) (k_ID k) = Some d" for p t pref p' k d
  proof -
    have "Acquire p t pref = (p, None)" if "cs_Keys (cp_spec p) = []"
      by (simp add: Acquire_def preferred_key_def that)
    with that(1) have "cs_Keys (cp_spec p) \<noteq> []" by auto
    from Acquire_SomeD(2) [OF that(1) this] that(2) show ?thesis by (simp add: readyLocked_iff)
  qed
  show "map_of (cp_cooling (fst (Acquire p t pref))) = map_of (cp_cooling p)" for p t pref
    by (simp add: Acquire_frame)
  show "\<exists>d'\<ge>d. map_of (cp_cooling (MarkRateLimited p t j c)) i = Some d'" if "map_of (cp_cooling p) i = Some d" for p i d t j c
    using that by (cases "i = j") (auto simp: MarkRateLimited_def Let_def update_conv' split: option.split)
  show "\<exists>d\<ge>t + c. map_of (cp_cooling (MarkRateLimited p t i c)) i = Some d" if "i \<in> key_ids p" "0 < c" for i p c t
    using that by (auto simp: MarkRateLimited_def Let_def key_ids_def list_ex_iff update_conv' split: option.split)
qed

lemma MarkRateLimited_wf: "pool_wf p \<Longrightarrow> pool_wf (MarkRateLimited p t i c)"
proof -
  assume wf: "pool_wf p"
  have "pool_wf (p\<lparr>cp_cooling := AList.update i d (cp_cooling p)\<rparr>)"
    if "list_ex (\<lambda>k. k_ID k = i) (cs_Keys (cp_spec p))" for d
    using wf that by (auto simp: pool_wf_def distinct_update dom_update list_ex_iff)
  with wf show ?thesis by (simp add: MarkRateLimited_def Let_def split: option.split)
qed

lemma rotate_from_cursor:
  "cp_cursor p < length (cs_Keys (cp_spec p)) \<Longrightarrow>
   cp_cursor (fst (rotate_from p now offs)) < length (cs_Keys (cp_spec p))"
proof (induction offs)
  case (Cons off offs)
  then have "0 < length (cs_Keys (cp_spec p))" by linarith
  then have "j mod length (cs_Keys (cp_spec p)) < length (cs_Keys (cp_spec p))" for j
    by (rule mod_less_divisor)
  with Cons show ?case by (simp add: Let_def)
qed simp

lemma Acquire_wf: "pool_wf p \<Longrightarrow> pool_wf (fst (Acquire p t pref))"
  using rotate_from_cursor [of p t] Acquire_frame [of p t pref]
  by (auto simp: pool_wf_def Acquire_def split: option.splits)

lemma Acquire_rotates:
  assumes "pool_wf p" and "\<forall>k\<in>set (cs_Keys (cp_spec p)). readyLocked p (k_ID k) now"
  shows "Acquire p now [] =
    (p\<lparr>cp_cursor := (cp_cursor p + 1) mod length (cs_Keys (cp_spec p))\<rparr>, Some (cs_Keys (cp_spec p) ! cp_cursor p))"
proof -
  have c: "cp_cursor p < length (cs_Keys (cp_spec p))" using assms(1) by (simp add: pool_wf_def)
  then have up: "[0..<length (cs_Keys (cp_spec p))] = 0 # [Suc 0..<length (cs_Keys (cp_spec p))]"
    by (intro upt_conv_Cons) linarith
  have "readyLocked p (k_ID (cs_Keys (cp_spec p) ! cp_cursor p)) now" using assms(2) c by simp
  with c show ?thesis by (simp add: Acquire_def preferred_key_def up Let_def)
qed

lemma acquire_keys_rotation:
  assumes "pool_wf p" and "\<forall>t\<in>set ts. \<forall>k\<in>set (cs_Keys (cp_spec p)). readyLocked p (k_ID k) t"
  shows "acquire_keys p ts =
    map (\<lambda>i. Some (cs_Keys (cp_spec p) ! ((cp_cursor p + i) mod length (cs_Keys (cp_spec p))))) [0..<length ts]"
  using assms
proof (induction ts arbitrary: p)
  case Nil
  then show ?case by simp
next
  case (Cons t ts)
  let ?n = "length (cs_Keys (cp_spec p))"
  define q where "q = p\<lparr>cp_cursor := (cp_cursor p + 1) mod ?n\<rparr>"
  have a: "Acquire p t [] = (q, Some (cs_Keys (cp_spec p) ! cp_cursor p))"
    using Acquire_rotates [OF Cons.prems(1)] Cons.prems(2) by (simp add: q_def)
  have q: "pool_wf q" using Acquire_wf [OF Cons.prems(1), of t "[]"] a by simp
  have "\<forall>t\<in>set ts. \<forall>k\<in>set (cs_Keys (cp_spec q)). readyLocked q (k_ID k) t"
    using Cons.prems(2) by (simp add: q_def readyLocked_def)
  from Cons.IH [OF q this] have "acquire_keys q ts =
      map (\<lambda>i. Some (cs_Keys (cp_spec p) ! ((cp_cursor p + Suc i) mod ?n))) [0..<length ts]"
    by (simp add: q_def mod_add_left_eq [of "Suc (cp_cursor p)" ?n, simplified] mod_Suc_eq flip: mod_add_left_eq [of "Suc (cp_cursor p)"])
  moreover have "[0..<length (t # ts)] = 0 # map Suc [0..<length ts]"
    unfolding map_Suc_upt by (subst upt_conv_Cons) simp_all
  moreover have "cp_cursor p mod ?n = cp_cursor p" using Cons.prems(1) by (simp add: pool_wf_def)
  ultimately show ?case using a by simp
qed

interpretation field_enc: self_delimiting writeField "\<lambda>_. True"
proof
  show "x = y \<and> r = s" if "writeField x @ r = writeField y @ s" for x y r s
  proof -
    have "itoa (int (length x)) @ CHR 0x00 # (x @ r) = itoa (int (length y)) @ CHR 0x00 # (y @ s)"
      using that by (simp add: writeField_def)
    then have "itoa (int (length x)) = itoa (int (length y)) \<and> x @ r = y @ s"
      by (rule sep_cut [rotated 2]) simp_all
    moreover from this have "length x = length y" using itoa_inject by fastforce
    ultimately show ?thesis by simp
  qed
qed

interpretation key_enc: self_delimiting "\<lambda>k. writeField (k_ID k) @ writeField (k_Value k)" "\<lambda>k :: Key. True"
proof
  show "x = y \<and> r = s"
    if "(writeField (k_ID x) @ writeField (k_Value x)) @ r = (writeField (k_ID y) @ writeField (k_Value y)) @ s"
    for x y :: Key and r s
    using that by (simp add: field_enc.cut_iff)
qed

lemma content_bytes_inject: "content_bytes s = content_bytes s' \<Longrightarrow> s = s'"
proof -
  assume eq: "content_bytes s = content_bytes s'"
  then have len: "length (cs_Keys s) = length (cs_Keys s')"
    by (auto simp: content_bytes_def field_enc.cut_iff dest: itoa_inject)
  with eq have "cs_Keys s = cs_Keys s'"
    using key_enc.concat_cut [of "cs_Keys s" "cs_Keys s'" "[]" "[]"]
    by (auto simp: content_bytes_def field_enc.cut_iff list_all_iff)
  with eq show ?thesis by (auto simp: content_bytes_def field_enc.cut_iff dest: field_enc.enc_inject [rotated 2])
qed

lemma validate_keys_iff:
  "validate_keys seen ks = Inr () \<longleftrightarrow>
     (\<forall>k\<in>set ks. ValidID (k_ID k) = Inr () \<and> ValidValue (k_Value k) = Inr () \<and> k_ID k \<notin> seen)
     \<and> distinct (map k_ID ks)"
  by (induction ks arbitrary: seen) (auto simp: image_iff split: sum.splits)

lemma ValidValue_iff:
  "ValidValue v = Inr () \<longleftrightarrow> v \<noteq> [] \<and> length v \<le> MaxValueBytes \<and> (\<forall>c\<in>set v. \<not> control c)"
  by (auto simp: ValidValue_def list_ex_iff)

lemma ValidHeader_iff:
  "ValidHeader h = Inr () \<longleftrightarrow> h \<noteq> [] \<and> length h \<le> MaxHeaderBytes \<and> (\<forall>c\<in>set h. isTokenByte c)"
  by (auto simp: ValidHeader_def list_all_iff)

lemma ValidPrefix_iff: "ValidPrefix p = Inr () \<longleftrightarrow> length p \<le> MaxPrefixBytes \<and> (\<forall>c\<in>set p. \<not> control c)"
  by (auto simp: ValidPrefix_def list_ex_iff)

lemma ex_pool_wf: "pool_wf ex_pool"
  by (simp add: pool_wf_def ex_pool_def ex_spec_def)

section \<open>Properties\<close>

text \<open>
  C16: a key that received a 429 is not handed out again before its cooldown has passed,
  whatever other requests acquire and mark on the shared pool in between, and whatever key
  the caller prefers.
\<close>

theorem Acquire_no_early_reuse:
  assumes "i \<in> key_ids p" and "0 < c"
    and "Acquire (run_ops Acquire MarkRateLimited (MarkRateLimited p t i c) ops) t' pref = (q, Some k)"
    and "t' < t + c"
  shows "k_ID k \<noteq> i"
  using assms by (rule rotation.no_early_reuse)

theorem Acquire_no_early_reuse_witness:
  "\<exists>q k. Acquire (run_ops Acquire MarkRateLimited (MarkRateLimited (ex_pool\<lparr>cp_cooling := []\<rparr>) 5 ''b'' 10)
            [OpAcquire 6 [], OpMark 7 ''b'' 1]) 14 ''b'' = (q, Some k) \<and> k_ID k \<noteq> ''b''"
proof -
  have "Acquire (run_ops Acquire MarkRateLimited (MarkRateLimited (ex_pool\<lparr>cp_cooling := []\<rparr>) 5 ''b'' 10)
      [OpAcquire 6 [], OpMark 7 ''b'' 1]) 14 ''b'' =
    (\<lparr>cp_spec = ex_spec, cp_cursor = 1, cp_cooling = [(''b'', 15)]\<rparr>, Some \<lparr>k_ID = ''a'', k_Value = ''s1''\<rparr>)"
    by (simp add: ex_pool_def ex_spec_def Acquire_def preferred_key_def MarkRateLimited_def readyLocked_def
        Let_def upt_rec)
  with Acquire_no_early_reuse [OF _ _ this] show ?thesis
    by (auto simp: key_ids_def ex_pool_def ex_spec_def)
qed

text \<open>
  Acquisition is complete and sticky. It fails exactly when every key is cooling, what it
  hands out is a ready key of the spec, and a preferred key that is ready is handed back
  without moving the rotation.
\<close>

theorem Acquire_complete:
  assumes "pool_wf p"
  shows "(snd (Acquire p now pref) = None \<longleftrightarrow> (\<forall>k\<in>set (cs_Keys (cp_spec p)). \<not> readyLocked p (k_ID k) now))
         \<and> (\<forall>k. snd (Acquire p now pref) = Some k \<longrightarrow>
               k \<in> set (cs_Keys (cp_spec p)) \<and> readyLocked p (k_ID k) now)
         \<and> (pref \<noteq> [] \<and> pref \<in> key_ids p \<and> readyLocked p pref now \<longrightarrow>
              (\<exists>k. Acquire p now pref = (p, Some k) \<and> k_ID k = pref))"
proof -
  have ne: "cs_Keys (cp_spec p) \<noteq> []" using assms by (simp add: pool_wf_def)
  have "\<exists>k. Acquire p now pref = (p, Some k) \<and> k_ID k = pref"
    if "pref \<noteq> []" "pref \<in> key_ids p" "readyLocked p pref now"
  proof -
    from that have "preferred_key p now pref \<noteq> None"
      by (auto simp: preferred_key_def key_ids_def find_None_iff)
    then obtain k where "preferred_key p now pref = Some k" by blast
    with preferred_key_Some [OF this] show ?thesis by (simp add: Acquire_def)
  qed
  moreover have "k \<in> set (cs_Keys (cp_spec p)) \<and> readyLocked p (k_ID k) now"
    if "snd (Acquire p now pref) = Some k" for k
    using that Acquire_SomeD [of p now pref "fst (Acquire p now pref)" k] ne by (simp add: prod_eq_iff)
  ultimately show ?thesis using Acquire_None_iff [OF assms] by blast
qed

theorem Acquire_complete_witness:
  "snd (Acquire ex_pool 10 []) = None \<and> (\<exists>k. Acquire ex_pool 30 ''b'' = (ex_pool, Some k) \<and> k_ID k = ''b'')"
proof -
  have "\<forall>k\<in>set (cs_Keys (cp_spec ex_pool)). \<not> readyLocked ex_pool (k_ID k) 10"
    by (simp add: ex_pool_def ex_spec_def readyLocked_def)
  moreover have "''b'' \<in> key_ids ex_pool \<and> readyLocked ex_pool ''b'' 30"
    by (simp add: key_ids_def ex_pool_def ex_spec_def readyLocked_def)
  ultimately show ?thesis
    using Acquire_complete [OF ex_pool_wf, of 10 "[]"] Acquire_complete [OF ex_pool_wf, of 30 "''b''"] by simp
qed

text \<open>
  When every key is cooling, the wait that \<open>NextReady\<close> reports is exactly the wait that is
  needed: it lies in the future, acquiring fails at every earlier reading, and acquiring at
  that reading succeeds.
\<close>

theorem NextReady_exact:
  assumes "pool_wf p" and "snd (Acquire p now pref) = None"
  shows "\<exists>e. NextReady p now = Some e \<and> now < e
            \<and> (\<forall>t. now \<le> t \<and> t < e \<longrightarrow> snd (Acquire p t pref') = None) \<and> snd (Acquire p e pref') \<noteq> None"
proof -
  let ?ks = "cs_Keys (cp_spec p)"
  have cool: "\<exists>d. map_of (cp_cooling p) (k_ID k) = Some d \<and> now < d" if "k \<in> set ?ks" for k
    using assms Acquire_None_iff [OF assms(1)] that by (auto simp: readyLocked_iff not_le)
  have "?ks \<noteq> []" using assms(1) by (simp add: pool_wf_def)
  then obtain k0 where "k0 \<in> set ?ks" by (cases ?ks) auto
  with cool obtain d0 where "(k_ID k0, d0) \<in> set (cp_cooling p)" "now < d0" by (meson map_of_SomeD)
  then obtain e where e: "NextReady p now = Some e"
    unfolding NextReady_def using next_ready_None [of now None "cp_cooling p"]
    by (cases "next_ready now None (cp_cooling p)") auto
  then obtain i where i: "(i, e) \<in> set (cp_cooling p)" "now < e"
    and least: "\<And>j u. (j, u) \<in> set (cp_cooling p) \<Longrightarrow> now < u \<Longrightarrow> e \<le> u"
    using next_ready_Some [of now None "cp_cooling p" e] by (auto simp: NextReady_def)
  have "\<not> readyLocked p (k_ID k) t" if "k \<in> set ?ks" "t < e" for k t
    using cool [OF that(1)] least that(2) by (fastforce simp: readyLocked_iff dest: map_of_SomeD)
  then have "snd (Acquire p t pref') = None" if "t < e" for t
    using that Acquire_None_iff [OF assms(1)] by blast
  moreover have "snd (Acquire p e pref') \<noteq> None"
  proof -
    have "i \<in> fst ` set (cp_cooling p)" using i(1) by force
    with assms(1) obtain k where "k \<in> set ?ks" "k_ID k = i" by (auto simp: pool_wf_def)
    moreover have "map_of (cp_cooling p) i = Some e" using i(1) assms(1) by (simp add: pool_wf_def)
    ultimately have "readyLocked p (k_ID k) e" by (simp add: readyLocked_iff)
    with \<open>k \<in> set ?ks\<close> show ?thesis using Acquire_None_iff [OF assms(1)] by blast
  qed
  ultimately show ?thesis using e i(2) by blast
qed

theorem NextReady_exact_witness: "\<exists>e. NextReady ex_pool 10 = Some e \<and> snd (Acquire ex_pool e []) \<noteq> None"
proof -
  have "snd (Acquire ex_pool 10 []) = None"
    by (simp add: ex_pool_def ex_spec_def Acquire_def preferred_key_def readyLocked_def Let_def upt_rec)
  from NextReady_exact [OF ex_pool_wf this, of "[]"] show ?thesis by blast
qed

text \<open>
  The rotation is fair. While no key is cooling, as many acquisitions without preference
  as there are keys hand out every key exactly once, in configuration order from the cursor.
\<close>

theorem Acquire_round_robin:
  assumes "pool_wf p" and "length ts = length (cs_Keys (cp_spec p))"
    and "\<forall>t\<in>set ts. \<forall>k\<in>set (cs_Keys (cp_spec p)). readyLocked p (k_ID k) t"
  shows "acquire_keys p ts = map Some (rotate (cp_cursor p) (cs_Keys (cp_spec p)))"
  unfolding acquire_keys_rotation [OF assms(1,3)]
  by (rule nth_equalityI) (simp_all add: assms(2) nth_rotate)

theorem Acquire_round_robin_witness:
  "acquire_keys (ex_pool\<lparr>cp_cooling := []\<rparr>) [1, 2] =
     [Some \<lparr>k_ID = ''b'', k_Value = ''s2''\<rparr>, Some \<lparr>k_ID = ''a'', k_Value = ''s1''\<rparr>]"
proof -
  have "pool_wf (ex_pool\<lparr>cp_cooling := []\<rparr>)" by (simp add: pool_wf_def ex_pool_def ex_spec_def)
  from Acquire_round_robin [OF this, of "[1, 2]"] show ?thesis
    by (simp add: ex_pool_def ex_spec_def readyLocked_def)
qed

text \<open>
  The bytes digested into a credential identity determine what they identify: the content
  bytes the whole spec, and the pool key bytes the declaring provider, the content digest and
  both cooldown bounds.
\<close>

theorem credential_identity:
  "(content_bytes s = content_bytes s' \<longleftrightarrow> s = s')
   \<and> (pool_key_bytes sha p = pool_key_bytes sha p' \<longleftrightarrow>
        pv_Identity p = pv_Identity p' \<and> ContentKey sha (pv_Spec p) = ContentKey sha (pv_Spec p')
        \<and> pv_RateLimit p = pv_RateLimit p')"
proof -
  have "writeField (itoa m) = writeField (itoa n) \<longleftrightarrow> m = n" for m n
    using field_enc.enc_inject itoa_inject by fastforce
  moreover have "itoa m = itoa n \<longleftrightarrow> m = n" for m n using itoa_inject by blast
  ultimately show ?thesis
    using content_bytes_inject by (auto simp: pool_key_bytes_def field_enc.cut_iff)
qed

text \<open>
  A validated spec can only compose a well-formed header: a non-empty token name, and for
  every key a value free of control bytes, hence of line breaks; its key ids are unique.
\<close>

theorem ValidateSpec_iff: "ValidateSpec s = Inr () \<longleftrightarrow> spec_ok s"
proof -
  have "ValidateSpec s = Inr () \<longleftrightarrow>
      ValidHeader (cs_Header s) = Inr () \<and> ValidPrefix (cs_Prefix s) = Inr ()
      \<and> cs_Strategy s = StrategyRoundRobin \<and> cs_Keys s \<noteq> [] \<and> length (cs_Keys s) \<le> MaxKeys
      \<and> validate_keys {} (cs_Keys s) = Inr ()"
    unfolding ValidateSpec_def case_result_iff ex_Inr_unit if_Inl_eq_Inr by (simp add: not_less)
  then show ?thesis
    unfolding ValidHeader_iff ValidPrefix_iff validate_keys_iff ValidValue_iff spec_ok_def by auto
qed

text \<open>
  A request that resolved its pool keeps it. Resolving the same identity again gives the
  same location while it is retained; a reload that retains other providers changes no pool
  in the store; and a provider that is still active keeps its rotation state.
\<close>

theorem Registry_pinned:
  assumes "Registry_Pool sha r p = Inr (r', l)"
  shows "Registry_Pool sha r' p = Inr (r', l)
         \<and> rg_store (Registry_Retain sha r' active) = rg_store r'
         \<and> (\<exists>new. rg_store r' = rg_store r @ new)
         \<and> (p \<in> set active \<longrightarrow> Registry_Pool sha (Registry_Retain sha r' active) p =
              Inr (Registry_Retain sha r' active, l))"
proof -
  have l: "map_of (rg_pools r') (PoolKey sha p) = Some l"
    using assms by (auto simp: Registry_Pool_def update_conv' split: option.splits sum.splits)
  have kept: "map_of (filter (\<lambda>(k, l). k \<in> S) xs) k = map_of xs k" if "k \<in> S"
    for S and xs :: "(string \<times> nat) list" and k
    using that by (induction xs) auto
  have "map_of (rg_pools (Registry_Retain sha r' active)) (PoolKey sha p) = Some l" if "p \<in> set active"
    using l that kept [of "PoolKey sha p" "set (map (PoolKey sha) active)" "rg_pools r'"]
    by (simp add: Registry_Retain_def)
  with l show ?thesis
    using assms by (auto simp: Registry_Pool_def Registry_Retain_def split: option.splits sum.splits)
qed

theorem Registry_pinned_witness:
  "\<exists>r l. Registry_Pool id NewRegistry \<lparr>pv_Identity = ''p'', pv_Spec = ex_spec,
            pv_RateLimit = \<lparr>rl_Cooldown = 1, rl_MaxCooldown = 2\<rparr>\<rparr> = Inr (r, l)
         \<and> rg_store (Registry_Retain id r []) = rg_store r"
proof -
  let ?p = "\<lparr>pv_Identity = ''p'', pv_Spec = ex_spec, pv_RateLimit = \<lparr>rl_Cooldown = 1, rl_MaxCooldown = 2\<rparr>\<rparr>"
  obtain r l where r: "Registry_Pool id NewRegistry ?p = Inr (r, l)"
    by (simp add: Registry_Pool_def NewRegistry_def NewPool_def ex_spec_def)
  with Registry_pinned [OF r, of "[]"] show ?thesis by blast
qed

text \<open>
  An upstream cannot pin a key out of rotation: with a default cooldown inside its
  ceiling, every cooldown a 429 earns is positive and at most the configured maximum, and a
  usable directive below the maximum is honoured exactly.
\<close>

theorem credentialCooldown_bounded:
  assumes "0 < rl_Cooldown rl" and "rl_Cooldown rl \<le> rl_MaxCooldown rl"
  shows "0 < credentialCooldown d rl \<and> credentialCooldown d rl \<le> rl_MaxCooldown rl
         \<and> (0 < d \<and> d \<le> rl_MaxCooldown rl \<longrightarrow> credentialCooldown d rl = d)"
  using assms by (simp add: credentialCooldown_def)

theorem credentialCooldown_bounded_witness:
  "credentialCooldown (3600 * Second) \<lparr>rl_Cooldown = Second, rl_MaxCooldown = 60 * Second\<rparr> \<le> 60 * Second"
  using credentialCooldown_bounded [of "\<lparr>rl_Cooldown = Second, rl_MaxCooldown = 60 * Second\<rparr>" "3600 * Second"]
  by (simp add: Second_def)

end
