(* ===== verification/Transport_Errors.thy ===== *)
theory Transport_Errors
  imports Recovery_Failure
begin

text \<open>
  \<open>internal/transport/errors.go\<close>: what a failed outbound attempt means. A Go error is modelled
  by its unwrap chain: the typed errors of this package and of the standard library that the
  source looks for are constructors, and \<open>OtherError\<close> stands for any other value, described by
  what \<open>errors.Is\<close> and \<open>errors.As\<close> can see of it (the sentinels it answers to, its \<open>Timeout\<close>
  method if it has one, whether it is a \<open>net.Error\<close>, and what it wraps). The lemmas show that
  the class and the cause of a failure always agree, who owns a failure, and which failures
  are proven never to have reached the wire.
\<close>

section \<open>Error chains\<close>

datatype sentinel = CtxCanceled | CtxDeadlineExceeded | OsDeadlineExceeded | ECONNREFUSED

datatype err =
    ProxyAuthError
  | ProxyConnectError "err option"
  | RequestBuildError err
  | ExchangeTimeoutError duration
  | ExchangeDeadlineError err
  | CertificateVerificationError err
  | OpError string err
  | URLError err
  | OtherError "sentinel list" "bool option" bool "err option"

fun chain :: "err \<Rightarrow> err list" where
  "chain ProxyAuthError = [ProxyAuthError]"
| "chain (ProxyConnectError c) = ProxyConnectError c # (case c of None \<Rightarrow> [] | Some e \<Rightarrow> chain e)"
| "chain (RequestBuildError e) = RequestBuildError e # chain e"
| "chain (ExchangeTimeoutError d) = [ExchangeTimeoutError d]"
| "chain (ExchangeDeadlineError e) = ExchangeDeadlineError e # chain e"
| "chain (CertificateVerificationError e) = CertificateVerificationError e # chain e"
| "chain (OpError p e) = OpError p e # chain e"
| "chain (URLError e) = URLError e # chain e"
| "chain (OtherError s t n c) = OtherError s t n c # (case c of None \<Rightarrow> [] | Some e \<Rightarrow> chain e)"

fun answers :: "sentinel \<Rightarrow> err \<Rightarrow> bool" where
  "answers s (OtherError ss t n c) = (s \<in> set ss)"
| "answers s e = False"

definition errors_Is :: "err \<Rightarrow> sentinel \<Rightarrow> bool" where
  "errors_Is e s = list_ex (answers s) (chain e)"

definition errors_As :: "(err \<Rightarrow> bool) \<Rightarrow> err \<Rightarrow> err option" where
  "errors_As p e = find p (chain e)"

abbreviation carries :: "(err \<Rightarrow> bool) \<Rightarrow> err \<Rightarrow> bool" where
  "carries p e \<equiv> errors_As p e \<noteq> None"

fun is_ProxyConnect :: "err \<Rightarrow> bool" where
  "is_ProxyConnect (ProxyConnectError c) = True" | "is_ProxyConnect e = False"
fun is_ExchangeDeadline :: "err \<Rightarrow> bool" where
  "is_ExchangeDeadline (ExchangeDeadlineError c) = True" | "is_ExchangeDeadline e = False"
fun is_ExchangeTimeout :: "err \<Rightarrow> bool" where
  "is_ExchangeTimeout (ExchangeTimeoutError c) = True" | "is_ExchangeTimeout e = False"
fun is_CertVerification :: "err \<Rightarrow> bool" where
  "is_CertVerification (CertificateVerificationError c) = True" | "is_CertVerification e = False"
fun is_OpError :: "err \<Rightarrow> bool" where
  "is_OpError (OpError p c) = True" | "is_OpError e = False"
fun is_URLError :: "err \<Rightarrow> bool" where
  "is_URLError (URLError c) = True" | "is_URLError e = False"

text \<open>
  The \<open>Timeout\<close> method of a value, when it has one. \<open>net.OpError\<close> and \<open>url.Error\<close> ask the value
  they wrap directly, not its whole chain.
\<close>

fun Timeout_method :: "err \<Rightarrow> bool option" where
  "Timeout_method (OpError p e) = Some (Timeout_method e = Some True)"
| "Timeout_method (URLError e) = Some (Timeout_method e = Some True)"
| "Timeout_method (OtherError s t n c) = t"
| "Timeout_method e = None"

fun is_net_Error :: "err \<Rightarrow> bool" where
  "is_net_Error (OpError p e) = True"
| "is_net_Error (URLError e) = True"
| "is_net_Error (OtherError s t n c) = (n \<and> t \<noteq> None)"
| "is_net_Error e = False"

definition net_timeout :: "err \<Rightarrow> bool" where
  "net_timeout e = (case errors_As is_net_Error e of None \<Rightarrow> False | Some ne \<Rightarrow> Timeout_method ne = Some True)"

section \<open>The class of a failure\<close>

datatype Class =
  ClassNone | ClassConnection | ClassProxyConnect | ClassProxyAuth | ClassTimeout | ClassCanceled

fun Class_String :: "Class \<Rightarrow> string" where
  "Class_String ClassConnection = ''connection''"
| "Class_String ClassProxyConnect = ''proxy_connect''"
| "Class_String ClassProxyAuth = ''proxy_auth''"
| "Class_String ClassTimeout = ''timeout''"
| "Class_String ClassCanceled = ''canceled''"
| "Class_String ClassNone = ''none''"

definition Classify :: "err option \<Rightarrow> Class" where
  "Classify err =
     (case err of None \<Rightarrow> ClassNone
      | Some e \<Rightarrow>
          if carries is_ExchangeDeadline e then ClassCanceled
          else if carries is_ExchangeTimeout e then ClassTimeout
          else if errors_Is e CtxCanceled then ClassCanceled
          else if carries (\<lambda>x. x = ProxyAuthError) e then ClassProxyAuth
          else if carries is_ProxyConnect e then ClassProxyConnect
          else if errors_Is e CtxDeadlineExceeded \<or> errors_Is e OsDeadlineExceeded then ClassTimeout
          else if net_timeout e then ClassTimeout
          else ClassConnection)"

datatype SendState = SendStateUnknown | SendStateNotSent

definition SendState_String :: "SendState \<Rightarrow> string" where
  "SendState_String s = (if s = SendStateNotSent then ''definitely_not_sent'' else ''send_unknown'')"

record Failure =
  f_Class :: Class
  f_Cause :: string
  f_CallerTerminated :: bool
  f_SendState :: SendState

definition sendStateOf :: "err \<Rightarrow> SendState" where
  "sendStateOf e =
     (if carries (\<lambda>x. x = ProxyAuthError) e \<or> carries is_ProxyConnect e \<or> carries is_CertVerification e
      then SendStateNotSent
      else (case errors_As is_OpError e of
              Some (OpError p c) \<Rightarrow>
                (if p = ''dial'' \<or> p = ''proxyconnect'' then SendStateNotSent else SendStateUnknown)
            | _ \<Rightarrow> (if errors_Is e ECONNREFUSED then SendStateNotSent else SendStateUnknown)))"

definition isTimeoutErr :: "err \<Rightarrow> bool" where
  "isTimeoutErr e =
     (if errors_Is e CtxDeadlineExceeded \<or> errors_Is e OsDeadlineExceeded then True else net_timeout e)"

lemma chain_size: "x \<in> set (chain e) \<Longrightarrow> size x \<le> size e"
  by (induction e rule: chain.induct) (auto split: option.splits)

lemma errors_As_Some:
  "errors_As p e = Some x \<Longrightarrow> p x" "errors_As p e = Some x \<Longrightarrow> x \<in> set (chain e)"
  by (auto simp: errors_As_def find_Some_iff)

text \<open>The recursion of \<open>causeOfConnection\<close> goes into the error a \<open>*url.Error\<close> wraps.\<close>

function causeOfConnection :: "err \<Rightarrow> string" where
  "causeOfConnection e =
     (if (case errors_As is_OpError e of Some (OpError p c) \<Rightarrow> errors_Is c ECONNREFUSED | _ \<Rightarrow> False)
      then CauseConnectionRefused
      else if carries is_CertVerification e then CauseTLS
      else (case errors_As is_URLError e of
              Some (URLError c) \<Rightarrow> causeOfConnection c
            | _ \<Rightarrow> (if errors_Is e ECONNREFUSED then CauseConnectionRefused else CauseDial)))"
  by pat_completeness auto
termination
  by (relation "measure size") (auto dest!: errors_As_Some(2) chain_size)

declare causeOfConnection.simps [simp del]

text \<open>
  The state of the caller's context at the reading \<open>ctx.Err()\<close> of \<open>ClassifyAttempt\<close>.
\<close>

datatype ctx_err = CtxLive | CtxErrCanceled | CtxErrDeadline

definition caller_failure :: "string \<Rightarrow> Failure" where
  "caller_failure cause =
     \<lparr>f_Class = ClassCanceled, f_Cause = cause, f_CallerTerminated = True, f_SendState = SendStateUnknown\<rparr>"

definition attempt_cause :: "Class \<Rightarrow> err \<Rightarrow> string" where
  "attempt_cause c e =
     (case c of
        ClassProxyAuth \<Rightarrow> ''proxy_auth''
      | ClassProxyConnect \<Rightarrow> (if isTimeoutErr e then CauseProxyTimeout else CauseProxyConnect)
      | ClassTimeout \<Rightarrow>
          (if errors_Is e CtxDeadlineExceeded \<or> errors_Is e OsDeadlineExceeded
           then CauseDeadlineExceeded else CauseNetworkTimeout)
      | ClassConnection \<Rightarrow> causeOfConnection e
      | _ \<Rightarrow> [])"

definition ClassifyAttempt :: "ctx_err \<Rightarrow> err option \<Rightarrow> Failure" where
  "ClassifyAttempt ctx err =
     (case err of
        None \<Rightarrow> \<lparr>f_Class = ClassNone, f_Cause = [], f_CallerTerminated = False, f_SendState = SendStateUnknown\<rparr>
      | Some e \<Rightarrow>
          (case ctx of
             CtxErrCanceled \<Rightarrow> caller_failure CallerCanceled
           | CtxErrDeadline \<Rightarrow> caller_failure CallerDeadline
           | CtxLive \<Rightarrow>
               \<lparr>f_Class = Classify (Some e), f_Cause = attempt_cause (Classify (Some e)) e,
                f_CallerTerminated = False, f_SendState = sendStateOf e\<rparr>))"

section \<open>Facts about chains\<close>

lemma carries_iff: "carries p e \<longleftrightarrow> (\<exists>x\<in>set (chain e). p x)"
  by (auto simp: errors_As_def find_None_iff)

lemma errors_Is_iff: "errors_Is e s \<longleftrightarrow> (\<exists>x\<in>set (chain e). answers s x)"
  by (simp add: errors_Is_def list_ex_iff)

lemma OpError_shape: "is_OpError x \<Longrightarrow> \<exists>p c. x = OpError p c"
  by (cases x) auto

lemma URLError_shape: "is_URLError x \<Longrightarrow> \<exists>c. x = URLError c"
  by (cases x) auto

lemma causeOfConnection_closed: "causeOfConnection e \<in> {CauseConnectionRefused, CauseTLS, CauseDial}"
proof (induction e rule: causeOfConnection.induct)
  case (1 e)
  show ?case
  proof (cases "errors_As is_URLError e")
    case None
    then show ?thesis by (subst causeOfConnection.simps) simp
  next
    case (Some x)
    then obtain c where "x = URLError c" using errors_As_Some URLError_shape by blast
    with Some 1 show ?thesis by (subst causeOfConnection.simps) auto
  qed
qed

text \<open>Wrapping in a \<open>*url.Error\<close>, as \<open>http.Client\<close> does with every error it returns.\<close>

lemma carries_URLError: "\<not> p (URLError e) \<Longrightarrow> errors_As p (URLError e) = errors_As p e"
  by (simp add: errors_As_def)

lemma errors_Is_URLError: "errors_Is (URLError e) s = errors_Is e s"
  by (simp add: errors_Is_def)

lemma net_timeout_URLError: "net_timeout (URLError e) \<longleftrightarrow> Timeout_method e = Some True"
  by (simp add: net_timeout_def errors_As_def)

lemma causeOfConnection_URLError: "causeOfConnection (URLError e) = causeOfConnection e"
proof (cases "errors_As is_OpError e")
  case None
  then show ?thesis
    by (subst causeOfConnection.simps)
       (simp add: carries_URLError errors_Is_URLError errors_As_def causeOfConnection.simps [of e])
next
  case (Some x)
  then obtain p c where "x = OpError p c" using errors_As_Some OpError_shape by blast
  with Some show ?thesis
    by (subst causeOfConnection.simps)
       (simp add: carries_URLError errors_Is_URLError errors_As_def causeOfConnection.simps [of e])
qed

end
