(* ===== verification/Attempt_Observation.thy ===== *)
theory Attempt_Observation
  imports Recovery_Rule Transport_Errors
begin

text \<open>
  The seam of \<open>internal/proxy/handler.go\<close> between the transport's failure classes and the
  recovery vocabulary: \<open>transportClassOf\<close>, the observation the provider walk hands to the
  engine for a failed dial, and the fold of a decided action against the candidates left. The
  theorems show that whatever error comes back from the wire, the engine is asked about a
  well-formed observation, and that the wrapping \<open>http.Client\<close> adds does not change what it is
  asked.
\<close>

section \<open>From a failure to an observation\<close>

definition transportClassOf :: "Class \<Rightarrow> TransportClass" where
  "transportClassOf c =
     (case c of
        ClassConnection \<Rightarrow> TransportClassConnection
      | ClassTimeout \<Rightarrow> TransportClassTimeout
      | ClassProxyConnect \<Rightarrow> TransportClassProxyConnect
      | ClassProxyAuth \<Rightarrow> TransportClassProxyAuth
      | _ \<Rightarrow> TransportClassNone)"

text \<open>
  Where the walk stands at a failed attempt: the stream flag, whether an answer is committed,
  the one-based candidate and attempt, the retries of this candidate, and the milliseconds
  since the candidate was entered.
\<close>

record Position =
  at_stream :: bool
  at_committed :: bool
  at_candidate :: int
  at_attempt :: int
  at_retry :: int
  at_elapsed :: int

definition located :: "Position \<Rightarrow> Observation" where
  "located a = zeroObservation\<lparr>o_Streaming := at_stream a, o_Committed := at_committed a,
     o_CandidateIndex := at_candidate a, o_CandidateAttempt := at_attempt a,
     o_RetryIndex := at_retry a, o_Elapsed := at_elapsed a\<rparr>"

definition transport_observation :: "Position \<Rightarrow> Failure \<Rightarrow> bool \<Rightarrow> Observation" where
  "transport_observation a f pool_exhausted =
     (let ob = (located a)\<lparr>o_Class := FailureTransport,
                 o_TransportClass := transportClassOf (f_Class f), o_TransportCause := f_Cause f\<rparr>
      in if f_CallerTerminated f
         then ob\<lparr>o_Class := FailureCaller, o_CallerCause := f_Cause f,
                 o_TransportClass := TransportClassNone, o_TransportCause := []\<rparr>
         else if pool_exhausted
         then ob\<lparr>o_TransportCause := CauseNoEligibleEndpoint,
                 o_TransportClass := TransportClassOfCause CauseNoEligibleEndpoint\<rparr>
         else ob)"

definition walkAction :: "Action \<Rightarrow> bool \<Rightarrow> Action" where
  "walkAction a hasNext = (if a = ActionFallback \<and> \<not> hasNext then ActionTerminal else a)"

section \<open>What the classification guarantees\<close>

lemma attempt_cause_class:
  "transportClassOf c = TransportClassOfCause (attempt_cause c e)"
  using causeOfConnection_closed [of e]
  by (cases c)
     (auto simp: transportClassOf_def attempt_cause_def TransportClassOfCause_def transportCauses_def)

lemma attempt_cause_known: "c \<noteq> ClassNone \<Longrightarrow> c \<noteq> ClassCanceled \<Longrightarrow> KnownTransportCause (attempt_cause c e)"
  using causeOfConnection_closed [of e]
  by (cases c) (auto simp: attempt_cause_def KnownTransportCause_def transportCauses_def)

lemma known_nil: "\<not> KnownTransportCause []"
  by (simp add: KnownTransportCause_def transportCauses_def)

lemma attempt_cause_canceled: "attempt_cause ClassCanceled e = []"
  by (simp add: attempt_cause_def)

lemma Classify_some: "Classify (Some e) \<noteq> ClassNone"
  by (simp add: Classify_def)

lemma Classify_canceled:
  "Classify (Some e) = ClassCanceled \<longleftrightarrow>
     carries is_ExchangeDeadline e \<or> errors_Is e CtxCanceled \<and> \<not> carries is_ExchangeTimeout e"
  by (auto simp: Classify_def split: if_splits)

lemma ClassifyAttempt_live:
  "ClassifyAttempt CtxLive (Some e) =
     \<lparr>f_Class = Classify (Some e), f_Cause = attempt_cause (Classify (Some e)) e,
      f_CallerTerminated = False, f_SendState = sendStateOf e\<rparr>"
  by (simp add: ClassifyAttempt_def)

lemma ClassifyAttempt_done:
  "c \<noteq> CtxLive \<Longrightarrow> \<exists>cause. ClassifyAttempt c (Some e) = caller_failure cause \<and> KnownCallerCause cause"
  by (cases c) (auto simp: ClassifyAttempt_def KnownCallerCause_def)

lemma located_wf:
  "wf_obs ((located a)\<lparr>o_Class := FailureTransport, o_TransportClass := t, o_TransportCause := c\<rparr>)
     \<longleftrightarrow> t = TransportClassOfCause c"
  "wf_obs ((located a)\<lparr>o_Class := FailureCaller, o_CallerCause := c, o_TransportClass := TransportClassNone,
            o_TransportCause := []\<rparr>)"
  by (simp_all add: wf_obs_def located_def zeroObservation_def StatusClassOf_def
      TransportClassOfCause_def transportCauses_def)

lemma transport_observation_live:
  "transport_observation a (ClassifyAttempt CtxLive (Some e)) True =
     (located a)\<lparr>o_Class := FailureTransport,
        o_TransportClass := TransportClassOfCause CauseNoEligibleEndpoint,
        o_TransportCause := CauseNoEligibleEndpoint\<rparr>"
  "transport_observation a (ClassifyAttempt CtxLive (Some e)) False =
     (located a)\<lparr>o_Class := FailureTransport,
        o_TransportClass := TransportClassOfCause (attempt_cause (Classify (Some e)) e),
        o_TransportCause := attempt_cause (Classify (Some e)) e\<rparr>"
  unfolding transport_observation_def Let_def ClassifyAttempt_live attempt_cause_class [of _ e, symmetric]
  by simp_all

section \<open>Theorems\<close>

text \<open>A dial that timed out: \<open>net.OpError\<close> of the operation \<open>dial\<close> over an i/o timeout.\<close>

definition dial_timeout :: err where
  "dial_timeout = OpError ''dial'' (OtherError [CtxDeadlineExceeded] (Some True) True None)"

text \<open>
  C17: whatever error an attempt ends with, the engine is asked about a well-formed
  observation. A caller whose context has ended owns the failure, with a cause of the caller's
  closed vocabulary and no transport class; otherwise the observation's transport class is
  the class of its cause, and the cause is one of the closed transport vocabulary unless the
  error is a cancellation that no live context explains.
\<close>

theorem transport_observation_wf:
  fixes a :: Position and e :: err and c :: ctx_err and x :: bool
  defines "ob \<equiv> transport_observation a (ClassifyAttempt c (Some e)) x"
  shows "wf_obs ob
         \<and> (c \<noteq> CtxLive \<longrightarrow> o_Class ob = FailureCaller \<and> KnownCallerCause (o_CallerCause ob))
         \<and> (c = CtxLive \<longrightarrow> o_Class ob = FailureTransport
              \<and> (KnownTransportCause (o_TransportCause ob) \<longleftrightarrow> x \<or> Classify (Some e) \<noteq> ClassCanceled))"
proof (cases "c = CtxLive")
  case True
  have known: "KnownTransportCause (attempt_cause (Classify (Some e)) e) \<longleftrightarrow> Classify (Some e) \<noteq> ClassCanceled"
    using attempt_cause_known [OF Classify_some, of e e] known_nil attempt_cause_canceled [of e] by metis
  define k where "k = (if x then CauseNoEligibleEndpoint else attempt_cause (Classify (Some e)) e)"
  have ob: "ob = (located a)\<lparr>o_Class := FailureTransport,
      o_TransportClass := TransportClassOfCause k, o_TransportCause := k\<rparr>"
    unfolding ob_def True k_def
    by (cases x) (simp_all only: transport_observation_live if_True if_False)
  have "wf_obs ob" unfolding ob located_wf ..
  moreover have "o_Class ob = FailureTransport" "o_TransportCause ob = k" by (simp_all add: ob)
  moreover have "KnownTransportCause CauseNoEligibleEndpoint"
    by (simp add: KnownTransportCause_def transportCauses_def)
  ultimately show ?thesis using True known by (simp add: k_def)
next
  case False
  then obtain cause where f: "ClassifyAttempt c (Some e) = caller_failure cause" and k: "KnownCallerCause cause"
    using ClassifyAttempt_done by blast
  have ob: "ob = (located a)\<lparr>o_Class := FailureCaller, o_CallerCause := cause,
      o_TransportClass := TransportClassNone, o_TransportCause := []\<rparr>"
    unfolding ob_def transport_observation_def f by (simp add: caller_failure_def)
  with False k located_wf(2) [where a = a and c = cause] show ?thesis by simp
qed

theorem transport_observation_wf_witness:
  "\<exists>ob. ob = transport_observation \<lparr>at_stream = False, at_committed = False, at_candidate = 1, at_attempt = 1,
            at_retry = 0, at_elapsed = 5\<rparr> (ClassifyAttempt CtxLive (Some dial_timeout)) False
        \<and> wf_obs ob \<and> o_Class ob = FailureTransport \<and> KnownTransportCause (o_TransportCause ob)"
proof -
  have "Classify (Some dial_timeout) = ClassTimeout"
    by (simp add: Classify_def dial_timeout_def errors_As_def errors_Is_def)
  with transport_observation_wf [of "\<lparr>at_stream = False, at_committed = False, at_candidate = 1, at_attempt = 1,
            at_retry = 0, at_elapsed = 5\<rparr>" CtxLive dial_timeout False] show ?thesis by simp
qed

text \<open>
  The \<open>*url.Error\<close> that \<open>http.Client\<close> wraps around every error it returns is transparent:
  when the wrapped error answers for its own timeouts (its \<open>Timeout\<close> method says what the
  first \<open>net.Error\<close> of its chain says), the wrapped error has the same class, cause, owner
  and send state.
\<close>

theorem ClassifyAttempt_URLError:
  assumes "Timeout_method e = Some True \<longleftrightarrow> net_timeout e"
  shows "ClassifyAttempt c (Some (URLError e)) = ClassifyAttempt c (Some e)"
proof -
  have "Classify (Some (URLError e)) = Classify (Some e)"
    using assms by (simp add: Classify_def carries_URLError errors_Is_URLError net_timeout_URLError)
  moreover have "attempt_cause k (URLError e) = attempt_cause k e" for k
    using assms
    by (cases k) (simp_all add: attempt_cause_def isTimeoutErr_def errors_Is_URLError net_timeout_URLError
        causeOfConnection_URLError)
  moreover have "sendStateOf (URLError e) = sendStateOf e"
    by (simp add: sendStateOf_def carries_URLError errors_Is_URLError)
  ultimately show ?thesis by (cases c) (simp_all add: ClassifyAttempt_def)
qed

theorem ClassifyAttempt_URLError_witness:
  "(Timeout_method dial_timeout = Some True \<longleftrightarrow> net_timeout dial_timeout)
   \<and> ClassifyAttempt CtxLive (Some (URLError dial_timeout)) = ClassifyAttempt CtxLive (Some dial_timeout)
   \<and> f_SendState (ClassifyAttempt CtxLive (Some (URLError dial_timeout))) = SendStateNotSent"
proof -
  have t: "Timeout_method dial_timeout = Some True \<longleftrightarrow> net_timeout dial_timeout"
    by (simp add: dial_timeout_def net_timeout_def errors_As_def)
  have "f_SendState (ClassifyAttempt CtxLive (Some dial_timeout)) = SendStateNotSent"
    by (simp add: dial_timeout_def ClassifyAttempt_def sendStateOf_def errors_As_def)
  with t ClassifyAttempt_URLError [OF t, of CtxLive] show ?thesis by simp
qed

end
