(* ===== verification/Transport_Dial.thy ===== *)
theory Transport_Dial
  imports Transport_Errors
begin

text \<open>
  The windowed exchange of \<open>internal/transport/transport.go\<close>: \<open>dialWithin\<close>, the race between the
  exchange's window and the caller's context (\<open>dialRace\<close>), the body that stays under the window
  until it is handed off (\<open>windowedBody\<close>), and the search for that body under its wrappers
  (\<open>handoffBody\<close>). Three goroutines share the exchange (the caller's own, the timer's callback
  and the callback on the caller's context), so it is a step relation with one step per
  critical section; the guarded release is one step, since its four actions commute with what
  the other goroutines can do once its first has run. A non-positive window runs \<open>doer.Do\<close>
  directly, with none of this. The theorems show that a failed dial has one owner, that the exchange is
  released exactly once and leaves no armed timer, and what a handoff guarantees.
\<close>

section \<open>The race\<close>

abbreviation causeExchangeWindow :: string where "causeExchangeWindow \<equiv> ''exchange_window''"
abbreviation causeCaller :: string where "causeCaller \<equiv> ''caller''"

record dialOutcome =
  oc_cause :: string
  oc_elapsed :: duration

definition ctx_canceled :: err where
  "ctx_canceled = OtherError [CtxCanceled] None False None"

definition outcome_err :: "dialOutcome \<Rightarrow> err" where
  "outcome_err oc =
     (if oc_cause oc = causeExchangeWindow then ExchangeTimeoutError (oc_elapsed oc)
      else ExchangeDeadlineError ctx_canceled)"

record dialRace =
  dr_cause :: string
  dr_window :: duration
  dr_done :: bool

definition claim :: "dialRace \<Rightarrow> string \<Rightarrow> dialRace \<times> dialOutcome" where
  "claim d cause =
     (let d' = (if dr_done d then d else d\<lparr>dr_done := True, dr_cause := cause\<rparr>)
      in (d', \<lparr>oc_cause = dr_cause d', oc_elapsed = dr_window d'\<rparr>))"

definition decided :: "dialRace \<Rightarrow> dialOutcome \<times> bool" where
  "decided d = (\<lparr>oc_cause = dr_cause d, oc_elapsed = dr_window d\<rparr>, dr_done d)"

section \<open>The exchange\<close>

text \<open>
  The timer of the window: armed, stopped before it fired, or fired with its callback before
  the claim, after the claim, after cancelling the derived context, with the body it read
  under the lock, and finished. Likewise the callback on the caller's context.
\<close>

datatype Timer = TArmed | TStopped | TFired | TClaimed | TCanceled | TBody bool | TFinished
datatype Watch = WArmed | WStopped | WFired | WClaimed | WFinished

text \<open>
  The goroutine of the caller: inside \<open>doer.Do\<close>, with the endpoint's error in hand, with the
  decision it read, with a response, with the wrapped body published, and returned with an
  error or with the response.
\<close>

datatype Main =
    Dialing
  | DoFailed err
  | DoDecided err dialOutcome bool
  | Answered
  | Published
  | Returned "err option"

record Dial =
  dl_race :: dialRace
  dl_timer :: Timer
  dl_watch :: Watch
  dl_canceled :: bool
  dl_published :: bool
  dl_released :: bool
  dl_releases :: nat
  dl_handed :: bool
  dl_closed :: bool
  dl_main :: Main

definition start_dial :: "duration \<Rightarrow> Dial" where
  "start_dial window =
     \<lparr>dl_race = \<lparr>dr_cause = [], dr_window = window, dr_done = False\<rparr>,
      dl_timer = TArmed, dl_watch = WArmed, dl_canceled = False, dl_published = False,
      dl_released = False, dl_releases = 0, dl_handed = False, dl_closed = False, dl_main = Dialing\<rparr>"

definition stop_timer :: "Timer \<Rightarrow> Timer" where
  "stop_timer t = (if t = TArmed then TStopped else t)"

definition stop_watch :: "Watch \<Rightarrow> Watch" where
  "stop_watch w = (if w = WArmed then WStopped else w)"

text \<open>The guarded release; \<open>dl_releases\<close> counts the executions of the guarded body.\<close>

definition release :: "Dial \<Rightarrow> Dial" where
  "release s =
     (if dl_released s then s
      else s\<lparr>dl_timer := stop_timer (dl_timer s), dl_watch := stop_watch (dl_watch s),
             dl_race := fst (claim (dl_race s) causeCaller), dl_canceled := True,
             dl_released := True, dl_releases := dl_releases s + 1\<rparr>)"

text \<open>\<open>windowedBody\<close>: closing, handing off, and relabelling a failed read.\<close>

definition body_Close :: "Dial \<Rightarrow> Dial" where
  "body_Close s = release (s\<lparr>dl_closed := True\<rparr>)"

definition handoff :: "Dial \<Rightarrow> Dial" where
  "handoff s = (if dl_handed s then s else s\<lparr>dl_timer := stop_timer (dl_timer s), dl_handed := True\<rparr>)"

definition body_Read :: "dialRace \<Rightarrow> nat \<times> err option \<Rightarrow> nat \<times> err option" where
  "body_Read d r =
     (case r of
        (n, None) \<Rightarrow> (n, None)
      | (n, Some e) \<Rightarrow>
          (let (oc, ok) = decided d
           in if ok \<and> oc_cause oc = causeExchangeWindow then (n, Some (outcome_err oc)) else (n, Some e)))"

text \<open>The steps of the caller's goroutine in \<open>dialWithin\<close>.\<close>

definition read_decision :: "Dial \<Rightarrow> err \<Rightarrow> Dial" where
  "read_decision s e = s\<lparr>dl_main := DoDecided e (fst (decided (dl_race s))) (snd (decided (dl_race s)))\<rparr>"

definition fail_dial :: "Dial \<Rightarrow> err \<Rightarrow> dialOutcome \<Rightarrow> bool \<Rightarrow> Dial" where
  "fail_dial s e oc d = (release s)\<lparr>dl_main := Returned (Some (if d then outcome_err oc else e))\<rparr>"

definition publish :: "Dial \<Rightarrow> Dial" where
  "publish s = s\<lparr>dl_published := True, dl_main := Published\<rparr>"

definition check_published :: "Dial \<Rightarrow> Dial" where
  "check_published s =
     (let (oc, ok) = decided (dl_race s)
      in if ok \<and> oc_cause oc = causeExchangeWindow
         then (body_Close s)\<lparr>dl_main := Returned (Some (outcome_err oc))\<rparr>
         else s\<lparr>dl_main := Returned None\<rparr>)"

text \<open>The callback of the window, one step per critical section.\<close>

definition timer_step :: "Dial \<Rightarrow> Dial option" where
  "timer_step s =
     (case dl_timer s of
        TArmed \<Rightarrow> Some (s\<lparr>dl_timer := TFired\<rparr>)
      | TFired \<Rightarrow> Some (s\<lparr>dl_race := fst (claim (dl_race s) causeExchangeWindow), dl_timer := TClaimed\<rparr>)
      | TClaimed \<Rightarrow> Some (s\<lparr>dl_canceled := True, dl_timer := TCanceled\<rparr>)
      | TCanceled \<Rightarrow> Some (s\<lparr>dl_timer := TBody (dl_published s)\<rparr>)
      | TBody b \<Rightarrow> Some ((if b then body_Close s else s)\<lparr>dl_timer := TFinished\<rparr>)
      | _ \<Rightarrow> None)"

definition watch_step :: "Dial \<Rightarrow> Dial option" where
  "watch_step s =
     (case dl_watch s of
        WArmed \<Rightarrow> Some (s\<lparr>dl_watch := WFired\<rparr>)
      | WFired \<Rightarrow> Some (s\<lparr>dl_race := fst (claim (dl_race s) causeCaller), dl_watch := WClaimed\<rparr>)
      | WClaimed \<Rightarrow> Some (s\<lparr>dl_canceled := True, dl_watch := WFinished\<rparr>)
      | _ \<Rightarrow> None)"

text \<open>
  The interleavings. \<open>do_fails\<close> and \<open>do_answers\<close> are the two ways \<open>doer.Do\<close> returns; the response is
  read, handed off and closed by its consumer once \<open>dialWithin\<close> returned it.
\<close>

inductive dial_step :: "Dial \<Rightarrow> Dial \<Rightarrow> bool" where
  timer: "timer_step s = Some s' \<Longrightarrow> dial_step s s'"
| watch: "watch_step s = Some s' \<Longrightarrow> dial_step s s'"
| do_fails: "dl_main s = Dialing \<Longrightarrow> dial_step s (s\<lparr>dl_main := DoFailed e\<rparr>)"
| do_answers: "dl_main s = Dialing \<Longrightarrow> dial_step s (s\<lparr>dl_main := Answered\<rparr>)"
| reads: "dl_main s = DoFailed e \<Longrightarrow> dial_step s (read_decision s e)"
| fails: "dl_main s = DoDecided e oc d \<Longrightarrow> dial_step s (fail_dial s e oc d)"
| publishes: "dl_main s = Answered \<Longrightarrow> dial_step s (publish s)"
| checks: "dl_main s = Published \<Longrightarrow> dial_step s (check_published s)"
| hands_off: "dl_main s = Returned None \<Longrightarrow> dial_step s (handoff s)"
| closes: "dl_main s = Returned None \<Longrightarrow> dial_step s (body_Close s)"

inductive_cases dial_stepE: "dial_step s s'"

abbreviation dial_reach :: "Dial \<Rightarrow> Dial \<Rightarrow> bool" where
  "dial_reach \<equiv> dial_step\<^sup>*\<^sup>*"

section \<open>Finding the windowed body\<close>

text \<open>
  A response body as \<open>handoffBody\<close> sees it: the windowed body, a wrapper whose \<open>Unwrap\<close> returns
  another body, a wrapper whose \<open>Unwrap\<close> returns nil or itself, and a body without \<open>Unwrap\<close>.
\<close>

datatype Body = WindowedBody | Wrapper Body | EndWrapper | PlainBody

definition maxBodyUnwrapDepth :: nat where "maxBodyUnwrapDepth = 8"

fun unwrap_loop :: "nat \<Rightarrow> Body \<Rightarrow> bool" where
  "unwrap_loop 0 b = False"
| "unwrap_loop (Suc n) WindowedBody = True"
| "unwrap_loop (Suc n) (Wrapper b) = unwrap_loop n b"
| "unwrap_loop (Suc n) EndWrapper = False"
| "unwrap_loop (Suc n) PlainBody = False"

definition handoffBody :: "Dial \<Rightarrow> Body \<Rightarrow> Dial \<times> bool" where
  "handoffBody s b = (if unwrap_loop maxBodyUnwrapDepth b then (handoff s, True) else (s, False))"

definition HandoffStream :: "Dial \<Rightarrow> Body option \<Rightarrow> Dial \<times> bool" where
  "HandoffStream s resp = (case resp of None \<Rightarrow> (s, False) | Some b \<Rightarrow> handoffBody s b)"

section \<open>Invariants of the exchange\<close>

definition timer_claimed :: "Timer \<Rightarrow> bool" where
  "timer_claimed t \<longleftrightarrow> t \<notin> {TArmed, TStopped, TFired}"

definition watch_claimed :: "Watch \<Rightarrow> bool" where
  "watch_claimed w \<longleftrightarrow> w \<in> {WClaimed, WFinished}"

text \<open>
  The race: its winner is the window only after the timer's callback ran, and the caller only
  after the callback on its context ran or the exchange was released.
\<close>

definition race_inv :: "Dial \<Rightarrow> bool" where
  "race_inv s \<longleftrightarrow>
     (dr_done (dl_race s) \<longrightarrow>
        dr_cause (dl_race s) = causeExchangeWindow \<and> timer_claimed (dl_timer s)
        \<or> dr_cause (dl_race s) = causeCaller \<and> (watch_claimed (dl_watch s) \<or> dl_released s))
     \<and> (timer_claimed (dl_timer s) \<or> watch_claimed (dl_watch s) \<or> dl_released s \<longrightarrow> dr_done (dl_race s))"

text \<open>The release: once, disarming the timer and the watch and cancelling the derived context.\<close>

definition release_inv :: "Dial \<Rightarrow> bool" where
  "release_inv s \<longleftrightarrow>
     dl_releases s = of_bool (dl_released s)
     \<and> (dl_released s \<longrightarrow> dl_timer s \<noteq> TArmed \<and> dl_watch s \<noteq> WArmed \<and> dl_canceled s)"

text \<open>The caller's goroutine: what it has read and what it returned.\<close>

definition owned :: "Dial \<Rightarrow> err \<Rightarrow> bool" where
  "owned s e \<longleftrightarrow>
     e = ExchangeTimeoutError (dr_window (dl_race s)) \<and> timer_claimed (dl_timer s)
     \<or> e = ExchangeDeadlineError ctx_canceled \<and> watch_claimed (dl_watch s)"

definition main_inv :: "Dial \<Rightarrow> bool" where
  "main_inv s \<longleftrightarrow>
     (case dl_main s of
        DoDecided e oc d \<Rightarrow> \<not> dl_released s \<and> \<not> dl_published s \<and> (d \<longrightarrow> owned s (outcome_err oc))
      | Published \<Rightarrow> dl_published s
      | Returned None \<Rightarrow> dl_published s
      | Returned (Some e) \<Rightarrow> dl_released s
      | _ \<Rightarrow> \<not> dl_released s \<and> \<not> dl_published s)
     \<and> (dl_timer s = TBody True \<longrightarrow> dl_published s)
     \<and> (dl_closed s \<longrightarrow> dl_released s)"

definition dial_inv :: "Dial \<Rightarrow> bool" where
  "dial_inv s \<longleftrightarrow> race_inv s \<and> release_inv s \<and> main_inv s"

lemma release_frame:
  "dl_main (release s) = dl_main s" "dl_published (release s) = dl_published s" "dl_closed (release s) = dl_closed s"
  "dl_handed (release s) = dl_handed s" "dr_window (dl_race (release s)) = dr_window (dl_race s)"
  "timer_claimed (dl_timer (release s)) = timer_claimed (dl_timer s)"
  "dl_timer (release s) = TBody b \<longleftrightarrow> dl_timer s = TBody b"
  "watch_claimed (dl_watch (release s)) = watch_claimed (dl_watch s)"
  by (auto simp: release_def claim_def Let_def stop_timer_def stop_watch_def timer_claimed_def watch_claimed_def)

lemma release_inv_release:
  assumes "race_inv s" and "release_inv s"
  shows "race_inv (release s)" and "release_inv (release s)" and "dl_released (release s)"
  using assms
  by (auto simp: race_inv_def release_inv_def release_def claim_def Let_def timer_claimed_def watch_claimed_def
      stop_timer_def stop_watch_def)

lemma inv_closed:
  "race_inv (s\<lparr>dl_closed := c\<rparr>) = race_inv s" "release_inv (s\<lparr>dl_closed := c\<rparr>) = release_inv s"
  by (simp_all add: race_inv_def release_inv_def)

lemma inv_main:
  "race_inv (s\<lparr>dl_main := m\<rparr>) = race_inv s" "release_inv (s\<lparr>dl_main := m\<rparr>) = release_inv s"
  "race_inv (s\<lparr>dl_published := p\<rparr>) = race_inv s" "release_inv (s\<lparr>dl_published := p\<rparr>) = release_inv s"
  "race_inv (s\<lparr>dl_handed := p\<rparr>) = race_inv s" "release_inv (s\<lparr>dl_handed := p\<rparr>) = release_inv s"
  by (simp_all add: race_inv_def release_inv_def)

lemma body_Close_inv:
  assumes "dial_inv s" and "dl_published s"
  shows "dial_inv (body_Close s)"
proof -
  have rr: "race_inv (body_Close s)" "release_inv (body_Close s)" "dl_released (body_Close s)"
    using assms release_inv_release [of "s\<lparr>dl_closed := True\<rparr>"]
    by (simp_all add: body_Close_def dial_inv_def inv_closed)
  with assms show ?thesis
    by (cases "dl_main s") (auto simp: dial_inv_def main_inv_def body_Close_def release_frame split: option.splits)
qed

lemma main_inv_later:
  assumes "main_inv s" and "dl_main s' = dl_main s" and "dl_published s' = dl_published s"
    and "dl_released s' = dl_released s" and "dl_closed s' = dl_closed s"
    and "\<And>e. owned s e \<Longrightarrow> owned s' e" and "dl_timer s' = TBody True \<longrightarrow> dl_published s'"
  shows "main_inv s'"
  using assms by (cases "dl_main s") (auto simp: main_inv_def split: option.splits)

lemma timer_step_inv:
  assumes "timer_step s = Some s'" and i: "dial_inv s"
  shows "dial_inv s'"
proof (cases "dl_timer s = TBody True")
  case True
  with i have p: "dl_published s" by (simp add: dial_inv_def main_inv_def)
  define c where "c = body_Close s"
  have c: "dial_inv c" "dl_timer c = TBody True"
    using body_Close_inv [OF i p] True by (simp_all add: c_def body_Close_def release_frame)
  have s': "s' = c\<lparr>dl_timer := TFinished\<rparr>" using True assms(1) by (simp add: timer_step_def c_def)
  have "race_inv s'" "release_inv s'"
    using c by (simp_all add: s' dial_inv_def race_inv_def release_inv_def timer_claimed_def)
  moreover have "main_inv s'"
    using c by - (rule main_inv_later [of c]; auto simp: s' dial_inv_def owned_def timer_claimed_def)
  ultimately show ?thesis by (simp add: dial_inv_def)
next
  case False
  from i have r: "race_inv s" "release_inv s" by (simp_all add: dial_inv_def)
  have "race_inv s'"
    using r(1) assms(1) [symmetric] False
    by (cases "dl_timer s"; cases "dr_done (dl_race s)")
       (auto simp: timer_step_def race_inv_def claim_def timer_claimed_def Let_def)
  moreover have "release_inv s'"
    using r(2) assms(1) False
    by (cases "dl_timer s") (auto simp: timer_step_def release_inv_def)
  moreover have "main_inv s'"
    using assms False
    by - (rule main_inv_later [of s]; cases "dl_timer s"; auto simp: timer_step_def dial_inv_def owned_def claim_def Let_def timer_claimed_def)
  ultimately show ?thesis by (simp add: dial_inv_def)
qed

lemma watch_step_inv:
  assumes "watch_step s = Some s'" and "dial_inv s"
  shows "dial_inv s'"
proof -
  have "race_inv s' \<and> release_inv s'"
    using assms
    by (cases "dl_watch s")
       (auto simp: watch_step_def dial_inv_def race_inv_def release_inv_def claim_def Let_def watch_claimed_def)
  moreover have "main_inv s'"
    using assms
    by - (rule main_inv_later [of s]; cases "dl_watch s"; auto simp: watch_step_def dial_inv_def main_inv_def owned_def claim_def Let_def watch_claimed_def)
  ultimately show ?thesis by (simp add: dial_inv_def)
qed

lemma read_decision_inv:
  assumes "dl_main s = DoFailed e" and "dial_inv s"
  shows "dial_inv (read_decision s e)"
  using assms
  by (auto simp: read_decision_def dial_inv_def inv_main main_inv_def owned_def outcome_err_def decided_def race_inv_def)

lemma fail_dial_inv:
  assumes "dl_main s = DoDecided e oc d" and "dial_inv s"
  shows "dial_inv (fail_dial s e oc d)"
  using assms release_inv_release [of s]
  by (auto simp: fail_dial_def dial_inv_def inv_main main_inv_def release_frame)

lemma publish_inv:
  assumes "dl_main s = Answered" and "dial_inv s"
  shows "dial_inv (publish s)"
  using assms by (auto simp: publish_def dial_inv_def inv_main main_inv_def)

lemma handoff_inv:
  assumes "dl_main s = Returned None" and "dial_inv s"
  shows "dial_inv (handoff s)"
  using assms
  by (auto simp: handoff_def dial_inv_def race_inv_def release_inv_def main_inv_def stop_timer_def timer_claimed_def)

lemma check_published_inv:
  assumes m: "dl_main s = Published" and "dial_inv s"
  shows "dial_inv (check_published s)"
proof -
  from assms have "dl_published s" by (simp add: dial_inv_def main_inv_def)
  from body_Close_inv [OF assms(2) this] have "dial_inv (body_Close s)" .
  then have "dial_inv ((body_Close s)\<lparr>dl_main := Returned (Some e)\<rparr>)" for e
    using release_inv_release [of "s\<lparr>dl_closed := True\<rparr>"] assms(2)
    by (auto simp: dial_inv_def inv_main inv_closed main_inv_def body_Close_def)
  with assms show ?thesis
    by (auto simp: check_published_def decided_def dial_inv_def inv_main main_inv_def)
qed

lemma dial_step_inv: "dial_step s s' \<Longrightarrow> dial_inv s \<Longrightarrow> dial_inv s'"
proof (induction rule: dial_step.induct)
  case (do_fails s e)
  then show ?case by (auto simp: dial_inv_def inv_main main_inv_def)
next
  case (do_answers s)
  then show ?case by (auto simp: dial_inv_def inv_main main_inv_def)
next
  case (closes s)
  then have "dl_published s" by (simp add: dial_inv_def main_inv_def)
  with closes show ?case by (simp add: body_Close_inv)
qed (simp_all add: timer_step_inv watch_step_inv read_decision_inv fail_dial_inv publish_inv handoff_inv
    check_published_inv)

lemma start_dial_inv: "dial_inv (start_dial w)"
  by (simp add: start_dial_def dial_inv_def race_inv_def release_inv_def main_inv_def timer_claimed_def
      watch_claimed_def)

lemma dial_reach_inv: "dial_reach s s' \<Longrightarrow> dial_inv s \<Longrightarrow> dial_inv s'"
  by (induction rule: rtranclp_induct) (simp_all add: dial_step_inv)

lemma window_fixed: "dial_step s s' \<Longrightarrow> dr_window (dl_race s') = dr_window (dl_race s)"
  by (erule dial_step.cases)
     (auto simp: timer_step_def watch_step_def claim_def Let_def body_Close_def release_frame read_decision_def
        fail_dial_def publish_def check_published_def handoff_def decided_def split: Timer.splits Watch.splits)

lemma stop_timer_claimed: "timer_claimed (stop_timer t) = timer_claimed t"
  by (simp add: stop_timer_def timer_claimed_def)

lemma timer_claimed_stable: "dial_step s s' \<Longrightarrow> timer_claimed (dl_timer s) \<Longrightarrow> timer_claimed (dl_timer s')"
  by (erule dial_step.cases)
     (auto simp: timer_step_def watch_step_def body_Close_def release_frame read_decision_def
        fail_dial_def publish_def check_published_def handoff_def decided_def stop_timer_claimed split: Timer.splits Watch.splits,
      simp_all add: timer_claimed_def)

lemma watch_claimed_stable: "dial_step s s' \<Longrightarrow> watch_claimed (dl_watch s) \<Longrightarrow> watch_claimed (dl_watch s')"
  by (erule dial_step.cases)
     (auto simp: timer_step_def watch_step_def body_Close_def release_frame read_decision_def
        fail_dial_def publish_def check_published_def handoff_def decided_def split: Timer.splits Watch.splits,
      simp_all add: watch_claimed_def)

lemma owned_stable: "dial_step s s' \<Longrightarrow> owned s e \<Longrightarrow> owned s' e"
  unfolding owned_def using window_fixed timer_claimed_stable watch_claimed_stable by metis

text \<open>The error a dial returned is an outcome of the race, or the endpoint's own while the race was open.\<close>

definition own_error :: "Dial \<Rightarrow> err \<Rightarrow> bool" where
  "own_error s0 e \<longleftrightarrow> (\<exists>s. dial_reach s0 s \<and> dl_main s = DoFailed e \<and> \<not> dr_done (dl_race s))"

definition answer_ok :: "Dial \<Rightarrow> Dial \<Rightarrow> bool" where
  "answer_ok s0 s \<longleftrightarrow>
     (case dl_main s of
        DoDecided e oc d \<Rightarrow> \<not> d \<longrightarrow> own_error s0 e
      | Returned (Some e) \<Rightarrow> owned s e \<or> own_error s0 e
      | _ \<Rightarrow> True)"

lemma goroutine_main: "timer_step s = Some s' \<Longrightarrow> dl_main s' = dl_main s" "watch_step s = Some s' \<Longrightarrow> dl_main s' = dl_main s"
  by (auto simp: timer_step_def watch_step_def body_Close_def release_frame split: Timer.splits Watch.splits if_splits)

lemma answer_ok_frame:
  "dial_step s s' \<Longrightarrow> answer_ok s0 s \<Longrightarrow> dl_main s' = dl_main s \<Longrightarrow> answer_ok s0 s'"
  by (auto simp: answer_ok_def owned_stable split: Main.splits option.splits)

lemma answer_ok_step:
  assumes "dial_step s s'" and "dial_reach s0 s" and "dial_inv s" and "answer_ok s0 s"
  shows "answer_ok s0 s'"
  using assms(1)
proof cases
  case (reads e)
  with assms(2) show ?thesis by (auto simp: answer_ok_def read_decision_def decided_def own_error_def)
next
  case (fails e oc d)
  with assms have "d \<longrightarrow> owned s' (outcome_err oc)" "\<not> d \<longrightarrow> own_error s0 e"
    by (auto simp: answer_ok_def dial_inv_def main_inv_def intro: owned_stable)
  with fails show ?thesis by (simp add: answer_ok_def fail_dial_def)
next
  case checks
  have "owned s (ExchangeTimeoutError (dr_window (dl_race s)))"
    if "dr_done (dl_race s)" "dr_cause (dl_race s) = causeExchangeWindow"
    using that assms(3) by (auto simp: owned_def dial_inv_def race_inv_def)
  with checks assms(1) show ?thesis
    by (auto simp: answer_ok_def check_published_def decided_def outcome_err_def dest: owned_stable)
qed (use assms(1,4) in \<open>auto simp: answer_ok_frame goroutine_main handoff_def body_Close_def release_frame
       intro: answer_ok_frame\<close>, simp_all add: answer_ok_def publish_def)

lemma answer_ok_reach: "dial_reach (start_dial w) s \<Longrightarrow> answer_ok (start_dial w) s \<and> dr_window (dl_race s) = w"
proof (induction rule: rtranclp_induct)
  case base
  show ?case by (simp add: answer_ok_def start_dial_def)
next
  case (step s s')
  then show ?case
    using answer_ok_step [OF step(2,1) dial_reach_inv [OF step(1) start_dial_inv]] window_fixed by simp
qed

section \<open>The handoff\<close>

lemma unwrap_depth: "unwrap_loop n ((Wrapper ^^ k) WindowedBody) \<longleftrightarrow> k < n"
proof (induction n arbitrary: k)
  case (Suc n)
  then show ?case by (cases k) auto
qed simp

lemma HandoffStream_found:
  "k < maxBodyUnwrapDepth \<Longrightarrow> HandoffStream s (Some ((Wrapper ^^ k) WindowedBody)) = (handoff s, True)"
  by (simp add: HandoffStream_def handoffBody_def unwrap_depth)

definition disarmed :: "Dial \<Rightarrow> bool" where
  "disarmed s \<longleftrightarrow> dl_timer s = TStopped"

lemma disarmed_stable: "dial_step s s' \<Longrightarrow> disarmed s \<Longrightarrow> disarmed s'"
  by (erule dial_step.cases)
     (auto simp: disarmed_def timer_step_def watch_step_def body_Close_def release_def stop_timer_def read_decision_def
        fail_dial_def publish_def check_published_def handoff_def decided_def split: Watch.splits)

lemma disarmed_reach: "dial_reach s s' \<Longrightarrow> disarmed s \<Longrightarrow> disarmed s'"
  by (induction rule: rtranclp_induct) (simp_all add: disarmed_stable)

lemma disarmed_reads:
  assumes "dial_inv s" and "disarmed s"
  shows "body_Read (dl_race s) r = r"
  using assms
  by (auto simp: body_Read_def decided_def dial_inv_def race_inv_def disarmed_def timer_claimed_def
      split: prod.splits option.splits)

text \<open>The callback of a timer that fired runs to its end.\<close>

lemma timer_reach: "timer_step s = Some s' \<Longrightarrow> dial_reach s' u \<Longrightarrow> dial_reach s u"
  using dial_step.timer by (metis converse_rtranclp_into_rtranclp)

lemma fired_closes:
  assumes "dl_timer s = TFired" and "\<not> dr_done (dl_race s)" and "dl_published s"
  shows "\<exists>u. dial_reach s u \<and> dl_closed u \<and> dr_done (dl_race u) \<and> dr_cause (dl_race u) = causeExchangeWindow
             \<and> dr_window (dl_race u) = dr_window (dl_race s)"
proof -
  define r where "r = (dl_race s)\<lparr>dr_done := True, dr_cause := causeExchangeWindow\<rparr>"
  define a where "a = s\<lparr>dl_race := r, dl_timer := TClaimed\<rparr>"
  define b where "b = a\<lparr>dl_canceled := True, dl_timer := TCanceled\<rparr>"
  define c where "c = b\<lparr>dl_timer := TBody True\<rparr>"
  define u where "u = (body_Close c)\<lparr>dl_timer := TFinished\<rparr>"
  have "dial_reach s u"
    by (rule timer_reach [of s a], simp add: timer_step_def assms a_def r_def claim_def,
        rule timer_reach [of a b], simp add: timer_step_def a_def b_def,
        rule timer_reach [of b c], simp add: timer_step_def assms a_def b_def c_def,
        rule timer_reach [of c u], simp add: timer_step_def c_def u_def, simp)
  moreover have "dl_closed u \<and> dl_race u = r"
    by (simp add: u_def body_Close_def release_frame)
       (simp add: release_def c_def b_def a_def r_def claim_def)
  ultimately show ?thesis by (auto simp: r_def)
qed

lemma outcome_classes:
  "Classify (Some (ExchangeTimeoutError w)) = ClassTimeout" "sendStateOf (ExchangeTimeoutError w) = SendStateUnknown"
  "Classify (Some (ExchangeDeadlineError ctx_canceled)) = ClassCanceled"
  by (simp_all add: Classify_def sendStateOf_def errors_As_def errors_Is_def)

section \<open>Theorems\<close>


text \<open>A dial whose window elapses before \<open>Do\<close> returns the error of the cancelled context.\<close>

definition timed_out :: "duration \<Rightarrow> Dial" where
  "timed_out w =
     (let a = (start_dial w)\<lparr>dl_timer := TFired\<rparr>;
          b = a\<lparr>dl_race := fst (claim (dl_race a) causeExchangeWindow), dl_timer := TClaimed\<rparr>;
          c = b\<lparr>dl_main := DoFailed ctx_canceled\<rparr>;
          d = read_decision c ctx_canceled
      in fail_dial d ctx_canceled \<lparr>oc_cause = causeExchangeWindow, oc_elapsed = w\<rparr> True)"

lemma timed_out_reach: "dial_reach (start_dial w) (timed_out w)"
proof -
  define a where "a = (start_dial w)\<lparr>dl_timer := TFired\<rparr>"
  define b where "b = a\<lparr>dl_race := fst (claim (dl_race a) causeExchangeWindow), dl_timer := TClaimed\<rparr>"
  define c where "c = b\<lparr>dl_main := DoFailed ctx_canceled\<rparr>"
  define d where "d = read_decision c ctx_canceled"
  have "dial_step (start_dial w) a" by (rule dial_step.timer) (simp add: timer_step_def start_dial_def a_def)
  moreover have "dial_step a b" by (rule dial_step.timer) (simp add: timer_step_def a_def b_def)
  moreover have "dial_step b c"
    unfolding c_def by (rule dial_step.do_fails) (simp add: b_def a_def start_dial_def)
  moreover have "dial_step c d" unfolding d_def by (rule dial_step.reads) (simp add: c_def)
  moreover have "dial_step d (timed_out w)"
    unfolding timed_out_def Let_def a_def [symmetric] b_def [symmetric] c_def [symmetric] d_def [symmetric]
    by (rule dial_step.fails)
       (simp add: d_def c_def b_def a_def read_decision_def decided_def claim_def start_dial_def)
  ultimately show ?thesis by (meson rtranclp.rtrancl_refl rtranclp.rtrancl_into_rtrancl)
qed

lemma timed_out_main: "dl_main (timed_out w) = Returned (Some (ExchangeTimeoutError w))"
  by (simp add: timed_out_def fail_dial_def outcome_err_def Let_def)


text \<open>
  C19: an exchange is released exactly once and never leaks its timer. In every reachable state
  the release ran at most once, and once \<open>dialWithin\<close> returned an error or the body was closed
  it has run, the timer and the watch on the caller's context are disarmed, and the derived
  context is cancelled.
\<close>

theorem dial_released_once:
  assumes "dial_reach (start_dial w) s"
  shows "dl_releases s \<le> 1
         \<and> (dl_closed s \<or> (\<exists>e. dl_main s = Returned (Some e)) \<longrightarrow>
              dl_releases s = 1 \<and> dl_timer s \<noteq> TArmed \<and> dl_watch s \<noteq> WArmed \<and> dl_canceled s)"
  using dial_reach_inv [OF assms start_dial_inv] by (auto simp: dial_inv_def release_inv_def main_inv_def)

theorem dial_released_once_witness: "dl_releases (timed_out 7) = 1 \<and> dl_canceled (timed_out 7)"
  using dial_released_once [OF timed_out_reach [of 7]] timed_out_main [of 7] by blast

text \<open>
  C20: what a handoff guarantees. On a returned response under fewer than
  \<open>maxBodyUnwrapDepth\<close> wrappers \<open>HandoffStream\<close> finds the window. If the timer had not fired,
  no later interleaving lets it fire, and no read of the body is ever relabelled as a timeout.
  If the timer had fired and its callback had not yet claimed the race, \<open>HandoffStream\<close> still
  reports success, and the callback then closes the committed body and turns its failed reads
  into the exchange's timeout.
\<close>

theorem HandoffStream_exact:
  assumes "dial_reach (start_dial w) s" and "dl_main s = Returned None" and "k < maxBodyUnwrapDepth"
    and "HandoffStream s (Some ((Wrapper ^^ k) WindowedBody)) = (s', ok)" and "\<not> dl_handed s"
  shows "ok \<and> (dl_timer s \<in> {TArmed, TStopped} \<longrightarrow>
                  (\<forall>u. dial_reach s' u \<longrightarrow> dl_timer u = TStopped \<and> (\<forall>r. body_Read (dl_race u) r = r)))
            \<and> (dl_timer s = TFired \<and> \<not> dr_done (dl_race s) \<longrightarrow>
                  (\<exists>u. dial_reach s' u \<and> dl_closed u
                       \<and> (\<forall>n x. body_Read (dl_race u) (n, Some x) = (n, Some (ExchangeTimeoutError w)))))"
proof (intro conjI impI allI)
  have s': "s' = handoff s" and ok: "ok" using HandoffStream_found [OF assms(3)] assms(4) by auto
  show "ok" by (fact ok)
  have i: "dial_inv s" using assms(1) by (rule dial_reach_inv) (rule start_dial_inv)
  have h: "dial_step s s'" unfolding s' by (rule dial_step.hands_off) (fact assms(2))
  have i': "dial_inv s'" using h i by (rule dial_step_inv)
  {
    fix u assume "dl_timer s \<in> {TArmed, TStopped}" and u: "dial_reach s' u"
    then have "disarmed s'" using assms(5) by (auto simp: disarmed_def s' handoff_def stop_timer_def)
    then have d: "disarmed u" using u disarmed_reach by blast
    then show "dl_timer u = TStopped" by (simp add: disarmed_def)
    show "body_Read (dl_race u) r = r" for r
      using dial_reach_inv [OF u i'] d by (rule disarmed_reads)
  }
  assume f: "dl_timer s = TFired \<and> \<not> dr_done (dl_race s)"
  have "dl_published s" using i assms(2) by (simp add: dial_inv_def main_inv_def)
  then obtain u where u: "dial_reach s' u" "dl_closed u" "dr_done (dl_race u)"
      "dr_cause (dl_race u) = causeExchangeWindow" "dr_window (dl_race u) = w"
    using fired_closes [of s'] f assms(5) answer_ok_reach [OF assms(1)]
    by (auto simp: s' handoff_def stop_timer_def)
  then show "\<exists>u. dial_reach s' u \<and> dl_closed u
      \<and> (\<forall>n x. body_Read (dl_race u) (n, Some x) = (n, Some (ExchangeTimeoutError w)))"
    by (auto simp: body_Read_def decided_def outcome_err_def)
qed

text \<open>A response returned just as the timer fires, and one returned well before.\<close>

definition returned_at :: "Timer \<Rightarrow> duration \<Rightarrow> Dial" where
  "returned_at t w = (start_dial w)\<lparr>dl_published := True, dl_main := Returned None, dl_timer := t\<rparr>"

lemma returned_at_reach: "dial_reach (start_dial w) (returned_at TArmed w)" "dial_reach (start_dial w) (returned_at TFired w)"
proof -
  define a where "a = (start_dial w)\<lparr>dl_main := Answered\<rparr>"
  have "dial_step (start_dial w) a" unfolding a_def by (rule dial_step.do_answers) (simp add: start_dial_def)
  moreover have "dial_step a (publish a)" by (rule dial_step.publishes) (simp add: a_def)
  moreover have "dial_step (publish a) (returned_at TArmed w)"
  proof -
    have "returned_at TArmed w = check_published (publish a)"
      by (simp add: returned_at_def check_published_def publish_def a_def decided_def start_dial_def)
    then show ?thesis by (simp add: dial_step.checks publish_def)
  qed
  ultimately show r: "dial_reach (start_dial w) (returned_at TArmed w)"
    by (meson rtranclp.rtrancl_refl rtranclp.rtrancl_into_rtrancl)
  have "dial_step (returned_at TArmed w) (returned_at TFired w)"
    by (rule dial_step.timer) (simp add: timer_step_def returned_at_def)
  with r show "dial_reach (start_dial w) (returned_at TFired w)" by (rule rtranclp.rtrancl_into_rtrancl)
qed

theorem HandoffStream_exact_witness:
  "dl_timer (handoff (returned_at TArmed 5)) = TStopped
   \<and> (\<exists>u. dial_reach (handoff (returned_at TFired 5)) u \<and> dl_closed u)"
proof -
  have k: "2 < maxBodyUnwrapDepth" by (simp add: maxBodyUnwrapDepth_def)
  note h = HandoffStream_exact [OF returned_at_reach(1) _ k HandoffStream_found [OF k], of 5]
    HandoffStream_exact [OF returned_at_reach(2) _ k HandoffStream_found [OF k], of 5]
  show ?thesis using h by (auto simp: returned_at_def start_dial_def)
qed

end
