(* ===== verification/Egress_Pool.thy ===== *)
theory Egress_Pool
  imports Transport_Errors Transport_Seam
begin

text \<open>
  The egress pool of \<open>internal/transport\<close> (\<open>pool.go\<close> and the policy types of \<open>transport.go\<close>):
  passive health, concurrency permits, the two schedulers, and \<open>Execute\<close>, the bounded attempt
  loop over the members. Each member is visited at most once by an \<open>Execute\<close>, so what the
  world answers (clock readings, the dial of a member, the state of the caller's context) is
  indexed by the member. The lemmas on permits and selections here carry the theorems of
  \<open>Egress_Execute\<close> and \<open>Egress_Fairness\<close>.
\<close>

section \<open>Policy\<close>

record URL =
  u_Scheme :: string
  u_Host :: string
  u_Text :: string

datatype Kind = Direct | Proxy | EgressPool
datatype Strategy = RoundRobin | WeightedRoundRobin

definition Strategy_String :: "Strategy \<Rightarrow> string" where
  "Strategy_String s = (if s = WeightedRoundRobin then ''weighted_round_robin'' else ''round_robin'')"

datatype 'c Member =
  Member (mb_Endpoint: 'c) (mb_MaxBodyBytes: int) (mb_MaxConcurrency: int) (mb_Streaming: bool) (mb_Weight: int)

record EgressFallback =
  ef_Enabled :: bool
  ef_MaxAttempts :: int

record HealthPolicy =
  hp_Enabled :: bool
  hp_FailureThreshold :: int
  hp_Cooldown :: duration

datatype 'c Pool =
  Pool (pl_Members: "'c Member list") (pl_Strategy: Strategy) (pl_Fallback: EgressFallback)
    (pl_Health: HealthPolicy) (pl_identity: string)

datatype Config = Config (cf_Kind: Kind) (cf_ProxyURL: "URL option") (cf_Pool: "Config Pool option")

type_synonym EgressPolicy = "Config Pool"

text \<open>A panic, or the dereference of a nil URL, is \<open>None\<close>; validation rules both out.\<close>

definition Config_Key :: "Config \<Rightarrow> string option" where
  "Config_Key c =
     (case cf_Kind c of
        Proxy \<Rightarrow> map_option (\<lambda>u. ''proxy '' @ u_Text u) (cf_ProxyURL c)
      | EgressPool \<Rightarrow> map_option (\<lambda>p. ''pool '' @ pl_identity p) (cf_Pool c)
      | Direct \<Rightarrow> Some ''direct'')"

definition kindName :: "Config \<Rightarrow> string option" where
  "kindName c =
     (case cf_Kind c of
        Proxy \<Rightarrow> map_option u_Scheme (cf_ProxyURL c)
      | EgressPool \<Rightarrow> Some ''pool''
      | Direct \<Rightarrow> Some ''direct'')"

definition target :: "Config \<Rightarrow> string option" where
  "target c =
     (if cf_Kind c = Proxy then map_option (\<lambda>u. u_Scheme u @ ''://'' @ u_Host u) (cf_ProxyURL c)
      else Some ''direct'')"

section \<open>Health and permits\<close>

record endpointHealth =
  eh_fails :: int
  eh_until :: time
  eh_threshold :: int
  eh_cooldown :: duration

definition usable :: "endpointHealth \<Rightarrow> time \<Rightarrow> bool" where
  "usable h now \<longleftrightarrow> \<not> now < eh_until h"

definition health_success :: "endpointHealth \<Rightarrow> endpointHealth" where
  "health_success h = h\<lparr>eh_fails := 0, eh_until := 0\<rparr>"

definition strike :: "endpointHealth \<Rightarrow> time \<Rightarrow> endpointHealth" where
  "strike h now =
     (if eh_threshold h \<le> 0 then h
      else let f = eh_fails h + 1
           in if f \<ge> eh_threshold h then h\<lparr>eh_until := now + eh_cooldown h, eh_fails := 0\<rparr>
              else h\<lparr>eh_fails := f\<rparr>)"

record limiter =
  lm_cur :: int
  lm_max :: int

definition tryAcquire :: "limiter \<Rightarrow> limiter option" where
  "tryAcquire l =
     (if lm_max l \<le> 0 then Some l
      else if lm_cur l \<ge> lm_max l then None
      else Some (l\<lparr>lm_cur := lm_cur l + 1\<rparr>))"

definition limiter_release :: "limiter \<Rightarrow> limiter" where
  "limiter_release l =
     (if lm_max l \<le> 0 then l else if lm_cur l > 0 then l\<lparr>lm_cur := lm_cur l - 1\<rparr> else l)"

record memberState =
  ms_health :: endpointHealth
  ms_lim :: limiter

record poolState =
  ps_pool :: EgressPolicy
  ps_members :: "memberState list"
  ps_leases :: int
  ps_retired :: bool
  ps_cursor :: nat
  ps_cw :: "int list"

text \<open>\<open>memberState\<close> updates: a taken permit, a returned permit, a recorded answer, a strike.\<close>

definition upd_member :: "nat \<Rightarrow> (memberState \<Rightarrow> memberState) \<Rightarrow> poolState \<Rightarrow> poolState" where
  "upd_member i f st = st\<lparr>ps_members := (ps_members st)[i := f (ps_members st ! i)]\<rparr>"

definition take_permit :: "nat \<Rightarrow> poolState \<Rightarrow> poolState option" where
  "take_permit i st =
     map_option (\<lambda>l. upd_member i (\<lambda>m. m\<lparr>ms_lim := l\<rparr>) st) (tryAcquire (ms_lim (ps_members st ! i)))"

definition drop_permit :: "nat \<Rightarrow> poolState \<Rightarrow> poolState" where
  "drop_permit i = upd_member i (\<lambda>m. m\<lparr>ms_lim := limiter_release (ms_lim m)\<rparr>)"

definition member_success :: "nat \<Rightarrow> poolState \<Rightarrow> poolState" where
  "member_success i = upd_member i (\<lambda>m. m\<lparr>ms_health := health_success (ms_health m)\<rparr>)"

definition member_strike :: "nat \<Rightarrow> time \<Rightarrow> poolState \<Rightarrow> poolState" where
  "member_strike i now = upd_member i (\<lambda>m. m\<lparr>ms_health := strike (ms_health m) now\<rparr>)"

definition member_usable :: "poolState \<Rightarrow> nat \<Rightarrow> time \<Rightarrow> bool" where
  "member_usable st i now = usable (ms_health (ps_members st ! i)) now"

section \<open>Scheduling\<close>

text \<open>The rotation of \<open>selectInitial\<close> from offset \<open>off\<close>; \<open>clk i\<close> is the clock when member \<open>i\<close> is asked.\<close>

fun rotate_members :: "(nat \<Rightarrow> time) \<Rightarrow> bool list \<Rightarrow> nat list \<Rightarrow> poolState \<Rightarrow> poolState \<times> nat option" where
  "rotate_members clk eligible [] st = (st, None)"
| "rotate_members clk eligible (off # offs) st =
     (let n = length eligible; j = (ps_cursor st + off) mod n
      in if \<not> eligible ! j \<or> \<not> member_usable st j (clk j) then rotate_members clk eligible offs st
         else (case take_permit j st of
                 None \<Rightarrow> rotate_members clk eligible offs st
               | Some st' \<Rightarrow> (st'\<lparr>ps_cursor := (j + 1) mod n\<rparr>, Some j)))"

text \<open>
  One scan of the smooth step: a candidate gains its weight, the weights are summed, and the
  first candidate with the largest credit leads. Credits are 64-bit.
\<close>

definition scan_member ::
  "int list \<Rightarrow> bool list \<Rightarrow> nat \<Rightarrow> int list \<times> int \<times> nat option \<Rightarrow> int list \<times> int \<times> nat option" where
  "scan_member ws cand i s =
     (case s of (cw, tot, best) \<Rightarrow>
        if \<not> cand ! i then s
        else let c = wrap64 (cw ! i + ws ! i); cw' = cw[i := c]; tot' = wrap64 (tot + ws ! i)
             in (cw', tot', (case best of None \<Rightarrow> Some i
                                          | Some b \<Rightarrow> if cw' ! b < c then Some i else Some b)))"

definition smooth_scan :: "int list \<Rightarrow> bool list \<Rightarrow> int list \<Rightarrow> int list \<times> int \<times> nat option" where
  "smooth_scan ws cand cw = fold (scan_member ws cand) [0..<length cand] (cw, 0, None)"

definition undo_member :: "int list \<Rightarrow> bool list \<Rightarrow> nat \<Rightarrow> int list \<Rightarrow> int list" where
  "undo_member ws cand i cw = (if cand ! i then cw[i := wrap64 (cw ! i - ws ! i)] else cw)"

fun weighted_rounds :: "nat \<Rightarrow> bool list \<Rightarrow> poolState \<Rightarrow> poolState \<times> nat option" where
  "weighted_rounds 0 cand st = (st, None)"
| "weighted_rounds (Suc remaining) cand st =
     (let ws = map mb_Weight (pl_Members (ps_pool st))
      in case smooth_scan ws cand (ps_cw st) of
           (cw, tot, None) \<Rightarrow> (st, None)
         | (cw, tot, Some best) \<Rightarrow>
             (let paid = cw[best := wrap64 (cw ! best - tot)]
              in case take_permit best (st\<lparr>ps_cw := paid\<rparr>) of
                   Some st' \<Rightarrow> (st', Some best)
                 | None \<Rightarrow>
                     (let undone = fold (undo_member ws cand) [0..<length cand] paid
                      in weighted_rounds remaining (cand[best := False])
                           (st\<lparr>ps_cw := undone[best := wrap64 (undone ! best + tot)]\<rparr>))))"

definition candidates :: "(nat \<Rightarrow> time) \<Rightarrow> bool list \<Rightarrow> poolState \<Rightarrow> bool list" where
  "candidates clk eligible st =
     map (\<lambda>i. eligible ! i \<and> member_usable st i (clk i)) [0..<length eligible]"

definition selectWeightedLocked :: "(nat \<Rightarrow> time) \<Rightarrow> bool list \<Rightarrow> poolState \<Rightarrow> poolState \<times> nat option" where
  "selectWeightedLocked clk eligible st =
     (let cand = candidates clk eligible st;
          cw = map (\<lambda>i. if cand ! i then ps_cw st ! i else 0) [0..<length eligible]
      in weighted_rounds (length (filter id cand)) cand (st\<lparr>ps_cw := cw\<rparr>))"

definition selectInitial :: "(nat \<Rightarrow> time) \<Rightarrow> bool list \<Rightarrow> poolState \<Rightarrow> poolState \<times> nat option" where
  "selectInitial clk eligible st =
     (if pl_Strategy (ps_pool st) = WeightedRoundRobin then selectWeightedLocked clk eligible st
      else rotate_members clk eligible [0..<length eligible] st)"

section \<open>Leases\<close>

definition begin_lease :: "poolState \<Rightarrow> poolState" where
  "begin_lease st = st\<lparr>ps_leases := ps_leases st + 1\<rparr>"

text \<open>The flag says that this was the last lease of a retired state, so \<open>onRetire\<close> runs.\<close>

definition end_lease :: "poolState \<Rightarrow> poolState \<times> bool" where
  "end_lease st =
     (let st' = st\<lparr>ps_leases := ps_leases st - 1\<rparr> in (st', ps_retired st' \<and> ps_leases st' \<le> 0))"

section \<open>Execute\<close>

record AttemptRequest =
  ar_Body :: string
  ar_Streaming :: bool

record AttemptFailure =
  af_Kind :: string
  af_Target :: string
  af_Class :: string
  af_Cause :: string
  af_SendState :: string

record AttemptInfo =
  ai_Attempts :: int
  ai_Kind :: string
  ai_Target :: string
  ai_Exhausted :: bool
  ai_Failures :: "AttemptFailure list"
  ai_BudgetExhausted :: bool

definition zeroInfo :: AttemptInfo where
  "zeroInfo = \<lparr>ai_Attempts = 0, ai_Kind = [], ai_Target = [], ai_Exhausted = False, ai_Failures = [],
     ai_BudgetExhausted = False\<rparr>"

definition ErrExhausted :: err where
  "ErrExhausted = OtherError [] None False None"

text \<open>
  What one \<open>Execute\<close> meets: the clock at the initial selection, at a fallback gate and at a
  strike of a member, and at the claim before the \<open>k\<close>-th dial; the error of building the
  request for a member; what \<open>DialWithin\<close> returns for a member and a window; and the
  caller's context when that failure is classified.
\<close>

record 'r DialEnv =
  ev_select :: "nat \<Rightarrow> time"
  ev_gate :: "nat \<Rightarrow> time"
  ev_strike :: "nat \<Rightarrow> time"
  ev_claim :: "int \<Rightarrow> time"
  ev_build :: "nat \<Rightarrow> err option"
  ev_dial :: "nat \<Rightarrow> duration \<Rightarrow> err + 'r"
  ev_ctx :: "nat \<Rightarrow> ctx_err"

text \<open>
  The locals of \<open>Execute\<close> with the shared state and the budget; \<open>attempts\<close> is \<open>info.Attempts\<close>.
  \<open>rn_dialed\<close> records the dials made, with their windows.
\<close>

record 'b Run =
  rn_st :: poolState
  rn_budget :: "'b option"
  rn_info :: AttemptInfo
  rn_last :: "err option"
  rn_dialed :: "(nat \<times> duration) list"

text \<open>The answer of \<open>Execute\<close>: a response holding the permit of a member, an error or nil, a panic.\<close>

datatype 'r Answer = Response nat 'r | Failed "err option" | Panicked

datatype ('b, 'r) Flow = Next "'b Run" | Break "'b Run" | Return "'b Run" "'r Answer"

definition eligible_for :: "AttemptRequest \<Rightarrow> 'c Member \<Rightarrow> bool" where
  "eligible_for ar m \<longleftrightarrow>
     \<not> (ar_Streaming ar \<and> \<not> mb_Streaming m)
     \<and> \<not> (mb_MaxBodyBytes m > 0 \<and> int (length (ar_Body ar)) > mb_MaxBodyBytes m)"

definition finish :: "'b Run \<Rightarrow> 'b Run" where
  "finish r = r\<lparr>rn_st := fst (end_lease (rn_st r))\<rparr>"

abbreviation on_st :: "(poolState \<Rightarrow> poolState) \<Rightarrow> 'b Run \<Rightarrow> 'b Run" where
  "on_st f r \<equiv> r\<lparr>rn_st := f (rn_st r)\<rparr>"

abbreviation on_info :: "(AttemptInfo \<Rightarrow> AttemptInfo) \<Rightarrow> 'b Run \<Rightarrow> 'b Run" where
  "on_info f r \<equiv> r\<lparr>rn_info := f (rn_info r)\<rparr>"

text \<open>The dial of a member and what follows it; the permit of \<open>idx\<close> is held.\<close>

definition dial_member :: "'r DialEnv \<Rightarrow> nat \<Rightarrow> duration \<Rightarrow> 'b Run \<Rightarrow> ('b, 'r) Flow" where
  "dial_member env idx window r0 =
     (let c = mb_Endpoint (pl_Members (ps_pool (rn_st r0)) ! idx);
          r1 = on_info (\<lambda>i. i\<lparr>ai_Attempts := ai_Attempts i + 1\<rparr>)
                 (r0\<lparr>rn_dialed := rn_dialed r0 @ [(idx, window)]\<rparr>)
      in case (kindName c, target c) of
           (Some kind, Some tgt) \<Rightarrow>
             (let r = on_info (\<lambda>i. i\<lparr>ai_Kind := kind, ai_Target := tgt\<rparr>) r1
              in case ev_dial env idx window of
                   Inr resp \<Rightarrow> Return (on_st (member_success idx) r) (Response idx resp)
                 | Inl e \<Rightarrow>
                     (let r = on_st (drop_permit idx) r; f = ClassifyAttempt (ev_ctx env idx) (Some e)
                      in if f_CallerTerminated f then Return (finish r) (Failed (Some e))
                         else let failure = \<lparr>af_Kind = kind, af_Target = tgt, af_Class = Class_String (f_Class f),
                                             af_Cause = f_Cause f, af_SendState = SendState_String (f_SendState f)\<rparr>;
                                  noted = on_info (\<lambda>i. i\<lparr>ai_Failures := ai_Failures i @ [failure]\<rparr>)
                              in if f_SendState f = SendStateUnknown
                                 then Return (finish (noted r)) (Failed (Some e))
                                 else Next ((noted (on_st (member_strike idx (ev_strike env idx)) r))\<lparr>rn_last := Some e\<rparr>)))
         | _ \<Rightarrow> Return r1 Panicked)"

text \<open>Building the request, claiming the exchange, and the dial.\<close>

definition attempt_member ::
  "('b \<Rightarrow> time \<Rightarrow> 'b \<times> Exchange) \<Rightarrow> 'r DialEnv \<Rightarrow> nat \<Rightarrow> 'b Run \<Rightarrow> ('b, 'r) Flow" where
  "attempt_member acquire env idx r =
     (case ev_build env idx of
        Some cause \<Rightarrow> Return (finish (on_st (drop_permit idx) r)) (Failed (Some (RequestBuildError cause)))
      | None \<Rightarrow>
          (case rn_budget r of
             None \<Rightarrow> dial_member env idx 0 r
           | Some b \<Rightarrow>
               (let (b', grant) = acquire b (ev_claim env (ai_Attempts (rn_info r)))
                in if \<not> ex_Granted grant
                   then let r' = on_info (\<lambda>i. i\<lparr>ai_BudgetExhausted := True\<rparr>)
                                   (on_st (drop_permit idx) (r\<lparr>rn_budget := Some b'\<rparr>))
                        in if ai_Attempts (rn_info r) = 0 then Return (finish r') (Failed None) else Break r'
                   else dial_member env idx (ex_Window grant) (r\<lparr>rn_budget := Some b'\<rparr>))))"

text \<open>The gate of a step: the initial member holds its permit, a fallback member must be usable and free.\<close>

definition gate_member :: "'r DialEnv \<Rightarrow> nat \<Rightarrow> nat \<Rightarrow> poolState \<Rightarrow> poolState option" where
  "gate_member env off idx st =
     (if off = 0 then Some st
      else if \<not> member_usable st idx (ev_gate env idx) then None
      else take_permit idx st)"

fun attempt_loop ::
  "('b \<Rightarrow> time \<Rightarrow> 'b \<times> Exchange) \<Rightarrow> 'r DialEnv \<Rightarrow> bool list \<Rightarrow> nat \<Rightarrow> int \<Rightarrow> nat list \<Rightarrow> 'b Run \<Rightarrow> ('b, 'r) Flow" where
  "attempt_loop acquire env eligible first maxAttempts [] r = Break r"
| "attempt_loop acquire env eligible first maxAttempts (off # offs) r =
     (let idx = (first + off) mod length eligible
      in if ai_Attempts (rn_info r) \<ge> maxAttempts then Break r
         else if \<not> eligible ! idx then attempt_loop acquire env eligible first maxAttempts offs r
         else (case gate_member env off idx (rn_st r) of
                 None \<Rightarrow> attempt_loop acquire env eligible first maxAttempts offs r
               | Some st \<Rightarrow>
                   (case attempt_member acquire env idx (r\<lparr>rn_st := st\<rparr>) of
                      Next r' \<Rightarrow> attempt_loop acquire env eligible first maxAttempts offs r'
                    | flow \<Rightarrow> flow)))"

definition conclude :: "'b Run \<Rightarrow> 'b Run \<times> 'r Answer" where
  "conclude r =
     (let r' = finish r
      in if ai_Attempts (rn_info r') = 0
         then (on_info (\<lambda>i. i\<lparr>ai_Exhausted := True\<rparr>) r', Failed (Some ErrExhausted))
         else (r', Failed (rn_last r')))"

definition max_attempts :: "'c Pool \<Rightarrow> int" where
  "max_attempts p = (if ef_Enabled (pl_Fallback p) then ef_MaxAttempts (pl_Fallback p) else 1)"

definition start_run :: "poolState \<Rightarrow> 'b option \<Rightarrow> 'b Run" where
  "start_run st b = \<lparr>rn_st = begin_lease st, rn_budget = b, rn_info = zeroInfo, rn_last = None, rn_dialed = []\<rparr>"

definition first_member :: "'r DialEnv \<Rightarrow> bool list \<Rightarrow> poolState \<Rightarrow> poolState \<times> nat option" where
  "first_member env eligible st =
     (if list_ex id eligible then selectInitial (ev_select env) eligible st else (st, None))"

definition run_loop ::
  "('b \<Rightarrow> time \<Rightarrow> 'b \<times> Exchange) \<Rightarrow> 'r DialEnv \<Rightarrow> bool list \<Rightarrow> int \<Rightarrow> nat option \<Rightarrow> 'b Run \<Rightarrow> 'b Run \<times> 'r Answer" where
  "run_loop acquire env eligible maxAttempts first r =
     (case first of
        None \<Rightarrow> conclude r
      | Some f \<Rightarrow>
          (case attempt_loop acquire env eligible f maxAttempts [0..<length eligible] r of
             Return r' ans \<Rightarrow> (r', ans)
           | Next r' \<Rightarrow> conclude r'
           | Break r' \<Rightarrow> conclude r'))"

definition Execute ::
  "('b \<Rightarrow> time \<Rightarrow> 'b \<times> Exchange) \<Rightarrow> 'r DialEnv \<Rightarrow> AttemptRequest \<Rightarrow> poolState \<Rightarrow> 'b option \<Rightarrow> 'b Run \<times> 'r Answer" where
  "Execute acquire env ar st b =
     (let r = start_run st b;
          eligible = map (eligible_for ar) (pl_Members (ps_pool st));
          sel = first_member env eligible (rn_st r)
      in run_loop acquire env eligible (max_attempts (ps_pool st)) (snd sel) (r\<lparr>rn_st := fst sel\<rparr>))"

text \<open>
  The body of a pooled response: its first \<open>Close\<close> returns the permit and the lease, a later
  one does nothing. The flag is the \<open>once\<close> of \<open>releaseBody\<close>.
\<close>

definition releaseBody_Close :: "nat \<Rightarrow> bool \<Rightarrow> poolState \<Rightarrow> poolState \<times> bool" where
  "releaseBody_Close idx done_once st =
     (if done_once then (st, True) else (fst (end_lease (drop_permit idx st)), True))"

section \<open>Permits\<close>

abbreviation lims :: "poolState \<Rightarrow> limiter list" where
  "lims st \<equiv> map ms_lim (ps_members st)"

definition lim_ok :: "limiter \<Rightarrow> bool" where
  "lim_ok l \<longleftrightarrow> 0 \<le> lm_cur l \<and> (0 < lm_max l \<longrightarrow> lm_cur l \<le> lm_max l)"

definition endpoint_ok :: "Config \<Rightarrow> bool" where
  "endpoint_ok c \<longleftrightarrow> kindName c \<noteq> None \<and> target c \<noteq> None"

definition pool_ok :: "poolState \<Rightarrow> bool" where
  "pool_ok st \<longleftrightarrow>
     length (ps_members st) = length (pl_Members (ps_pool st))
     \<and> length (ps_cw st) = length (pl_Members (ps_pool st))
     \<and> (\<forall>c\<in>set (ps_cw st). in_int64 c)
     \<and> (\<forall>l\<in>set (lims st). lim_ok l)
     \<and> (\<forall>m\<in>set (pl_Members (ps_pool st)). endpoint_ok (mb_Endpoint m))"

lemma upd_member_frame [simp]:
  "ps_pool (upd_member i f st) = ps_pool st" "ps_leases (upd_member i f st) = ps_leases st"
  "ps_cursor (upd_member i f st) = ps_cursor st" "ps_cw (upd_member i f st) = ps_cw st"
  "ps_retired (upd_member i f st) = ps_retired st"
  "length (ps_members (upd_member i f st)) = length (ps_members st)"
  by (simp_all add: upd_member_def)

lemma tryAcquire_release: "tryAcquire l = Some l' \<Longrightarrow> lim_ok l \<Longrightarrow> limiter_release l' = l \<and> lim_ok l'"
  by (auto simp: tryAcquire_def limiter_release_def lim_ok_def split: if_splits)

lemma limiter_release_ok: "lim_ok l \<Longrightarrow> lim_ok (limiter_release l)"
  by (auto simp: limiter_release_def lim_ok_def)

lemma take_drop_permit:
  assumes "take_permit i st = Some st'" and "i < length (ps_members st)" and "\<forall>l\<in>set (lims st). lim_ok l"
  shows "drop_permit i st' = st" and "\<forall>l\<in>set (lims st'). lim_ok l"
proof -
  obtain l where l: "tryAcquire (ms_lim (ps_members st ! i)) = Some l"
    and st': "st' = upd_member i (\<lambda>m. m\<lparr>ms_lim := l\<rparr>) st"
    using assms(1) by (auto simp: take_permit_def)
  have "lim_ok (ms_lim (ps_members st ! i))" using assms(2,3) by simp
  with l have r: "limiter_release l = ms_lim (ps_members st ! i)" "lim_ok l" using tryAcquire_release by blast+
  with assms(2) show "drop_permit i st' = st"
    by (simp add: st' drop_permit_def upd_member_def)
  show "\<forall>l\<in>set (lims st'). lim_ok l"
    using assms(2,3) r(2) set_update_subset_insert [of "ps_members st" i "(ps_members st ! i)\<lparr>ms_lim := l\<rparr>"]
    by (auto simp: st' upd_member_def)
qed

lemma take_permit_frame:
  assumes "take_permit i st = Some st'"
  shows "ps_pool st' = ps_pool st" "ps_leases st' = ps_leases st" "ps_cw st' = ps_cw st" "ps_cursor st' = ps_cursor st"
    "length (ps_members st') = length (ps_members st)"
  using assms by (auto simp: take_permit_def)

lemma lims_update:
  "(\<And>m. ms_lim (f m) = ms_lim m) \<Longrightarrow> lims (upd_member i f st) = lims st"
proof (rule nth_equalityI)
  fix j assume "\<And>m. ms_lim (f m) = ms_lim m" and "j < length (lims (upd_member i f st))"
  then show "lims (upd_member i f st) ! j = lims st ! j"
    by (cases "j = i") (simp_all add: upd_member_def)
qed simp

lemma lims_frame [simp]:
  "lims (member_success i st) = lims st" "lims (member_strike i now st) = lims st"
  "lims (fst (end_lease st)) = lims st" "lims (begin_lease st) = lims st"
  by (simp_all add: member_success_def member_strike_def lims_update end_lease_def begin_lease_def Let_def)

lemma drop_permit_commute:
  "lims (drop_permit i st) = (if i < length (lims st) then (lims st)[i := limiter_release (lims st ! i)] else lims st)"
  by (auto simp: drop_permit_def upd_member_def map_update list_update_beyond)

section \<open>Credits\<close>

lemma wrap64_add: "wrap64 (wrap64 x + y) = wrap64 (x + y)"
proof -
  have "(wrap64 x + y + 2 ^ 63) mod 2 ^ 64 = ((x + 2 ^ 63) mod 2 ^ 64 + y) mod 2 ^ 64"
    by (simp add: wrap64_def)
  then show ?thesis by (simp add: wrap64_def mod_simps add_ac)
qed

lemma wrap64_diff: "wrap64 (wrap64 x - y) = wrap64 (x - y)"
  using wrap64_add [of x "- y"] by simp

text \<open>A loop over the indices that changes each entry once.\<close>

lemma fold_pointwise:
  assumes "\<And>i xs. i < length xs \<Longrightarrow> step i xs = xs[i := g i (xs ! i)]" and "k \<le> length xs"
  shows "fold step [0..<k] xs = map (\<lambda>i. if i < k then g i (xs ! i) else xs ! i) [0..<length xs]"
  using assms(2)
proof (induction k)
  case (Suc k)
  then show ?case
    by (auto simp: assms(1) nth_list_update less_Suc_eq intro!: nth_equalityI)
qed (simp add: map_nth)

lemma undo_fold:
  "n \<le> length cw \<Longrightarrow> fold (undo_member ws cand) [0..<n] cw =
     map (\<lambda>i. if i < n then (if cand ! i then wrap64 (cw ! i - ws ! i) else cw ! i) else cw ! i) [0..<length cw]"
  by (rule fold_pointwise) (auto simp: undo_member_def)

text \<open>What a scan of the first \<open>k\<close> members has done.\<close>

definition gained :: "int list \<Rightarrow> bool list \<Rightarrow> int list \<Rightarrow> nat \<Rightarrow> int list" where
  "gained ws cand cw k =
     map (\<lambda>i. if i < k \<and> cand ! i then wrap64 (cw ! i + ws ! i) else cw ! i) [0..<length cw]"

definition leads :: "bool list \<Rightarrow> int list \<Rightarrow> nat \<Rightarrow> nat option \<Rightarrow> bool" where
  "leads cand cw k best \<longleftrightarrow>
     (case best of
        None \<Rightarrow> \<forall>i<k. \<not> cand ! i
      | Some b \<Rightarrow> b < k \<and> cand ! b \<and> (\<forall>i<k. cand ! i \<longrightarrow> cw ! i \<le> cw ! b))"

definition weight_of :: "int list \<Rightarrow> bool list \<Rightarrow> nat \<Rightarrow> int" where
  "weight_of ws cand k = (\<Sum>i<k. if cand ! i then ws ! i else 0)"

lemma scan_member_skip: "\<not> cand ! k \<Longrightarrow> scan_member ws cand k s = s"
  by (cases s) (simp add: scan_member_def)

lemma scan_member_take:
  "cand ! k \<Longrightarrow> scan_member ws cand k (cw, tot, best) =
     (let c = wrap64 (cw ! k + ws ! k); cw' = cw[k := c]
      in (cw', wrap64 (tot + ws ! k),
          (case best of None \<Rightarrow> Some k | Some b \<Rightarrow> if cw' ! b < c then Some k else Some b)))"
  by (simp add: scan_member_def)

lemma scan_prefix:
  assumes "k \<le> length cw"
  shows "\<exists>best. fold (scan_member ws cand) [0..<k] (cw, 0, None) =
           (gained ws cand cw k, wrap64 (weight_of ws cand k), best) \<and> leads cand (gained ws cand cw k) k best"
  using assms
proof (induction k)
  case 0
  have "gained ws cand cw 0 = cw" by (simp add: gained_def map_nth)
  then show ?case by (simp add: weight_of_def leads_def wrap64_def)
next
  case (Suc k)
  then obtain best where b: "fold (scan_member ws cand) [0..<k] (cw, 0, None) =
      (gained ws cand cw k, wrap64 (weight_of ws cand k), best)" "leads cand (gained ws cand cw k) k best"
    by auto
  show ?case
  proof (cases "cand ! k")
    case False
    then have "gained ws cand cw (Suc k) = gained ws cand cw k" "weight_of ws cand (Suc k) = weight_of ws cand k"
      by (auto simp: gained_def weight_of_def less_Suc_eq)
    with b False have "fold (scan_member ws cand) [0..<Suc k] (cw, 0, None) =
        (gained ws cand cw (Suc k), wrap64 (weight_of ws cand (Suc k)), best)"
      by (simp add: scan_member_skip)
    moreover have "leads cand (gained ws cand cw k) (Suc k) best"
      using b(2) False by (auto simp: leads_def less_Suc_eq split: option.splits)
    ultimately show ?thesis using False \<open>gained ws cand cw (Suc k) = _\<close> by auto
  next
    case True
    have g: "(gained ws cand cw k)[k := wrap64 (gained ws cand cw k ! k + ws ! k)] = gained ws cand cw (Suc k)"
      using Suc.prems True by (auto simp: gained_def nth_list_update less_Suc_eq intro!: nth_equalityI)
    have w: "wrap64 (wrap64 (weight_of ws cand k) + ws ! k) = wrap64 (weight_of ws cand (Suc k))"
      using True by (simp add: wrap64_add weight_of_def)
    have old: "gained ws cand cw (Suc k) ! i = gained ws cand cw k ! i" if "i < k" for i
      using that Suc.prems by (simp add: gained_def)
    define c where "c = gained ws cand cw (Suc k) ! k"
    have c: "c = wrap64 (gained ws cand cw k ! k + ws ! k)"
      unfolding c_def g [symmetric] using Suc.prems by (simp add: gained_def)
    define best' where "best' = (case best of None \<Rightarrow> Some k
        | Some b \<Rightarrow> if gained ws cand cw (Suc k) ! b < c then Some k else Some b)"
    have "fold (scan_member ws cand) [0..<Suc k] (cw, 0, None) =
        (gained ws cand cw (Suc k), wrap64 (weight_of ws cand (Suc k)), best')"
      using b(1) True by (simp add: scan_member_take w c [symmetric] g [folded c] best'_def Let_def split: option.split)
    moreover have "leads cand (gained ws cand cw (Suc k)) (Suc k) best'"
      using b(2) True old
      by (fastforce simp: leads_def best'_def c_def less_Suc_eq split: option.splits)
    ultimately show ?thesis by blast
  qed
qed

lemma smooth_scan_spec:
  assumes "length cand = length cw"
  shows "\<exists>best. smooth_scan ws cand cw =
           (gained ws cand cw (length cw), wrap64 (weight_of ws cand (length cw)), best)
           \<and> leads cand (gained ws cand cw (length cw)) (length cw) best"
  using scan_prefix [of "length cw" cw ws cand] assms by (simp add: smooth_scan_def)

lemma undo_exact:
  fixes ws cw :: "int list" and cand :: "bool list" and best :: nat and t :: int
  assumes "length cand = length cw" and "best < length cw" and "cand ! best" and "\<forall>c\<in>set cw. in_int64 c"
  defines "g \<equiv> gained ws cand cw (length cw)"
  defines "u \<equiv> fold (undo_member ws cand) [0..<length cand] (g[best := wrap64 (g ! best - t)])"
  shows "u[best := wrap64 (u ! best + t)] = cw"
proof (rule nth_equalityI)
  have l: "length g = length cw" by (simp add: g_def gained_def)
  have u: "u = map (\<lambda>i. if cand ! i then wrap64 (g[best := wrap64 (g ! best - t)] ! i - ws ! i)
                        else g[best := wrap64 (g ! best - t)] ! i) [0..<length cw]"
    unfolding u_def using assms(1) l by (subst undo_fold) auto
  show "length (u[best := wrap64 (u ! best + t)]) = length cw" by (simp add: u)
  fix i assume "i < length (u[best := wrap64 (u ! best + t)])"
  then have i: "i < length cw" by (simp add: u)
  then have w: "wrap64 (cw ! i) = cw ! i" "wrap64 (cw ! best) = cw ! best" using assms(2,4) by (simp_all add: wrap64_id)
  show "u[best := wrap64 (u ! best + t)] ! i = cw ! i"
  proof (cases "i = best")
    case True
    have "u ! best = wrap64 (cw ! best - t)"
      using assms(2,3) l by (simp add: u g_def gained_def wrap64_diff wrap64_add algebra_simps)
    then show ?thesis using True i by (simp add: u wrap64_add w)
  next
    case False
    then show ?thesis using i l w by (simp add: u g_def gained_def wrap64_diff)
  qed
qed

text \<open>What a selection may change: the credits, the cursor, and one permit.\<close>

definition same_members :: "poolState \<Rightarrow> poolState \<Rightarrow> bool" where
  "same_members st st' \<longleftrightarrow>
     ps_pool st' = ps_pool st \<and> ps_leases st' = ps_leases st \<and> ps_members st' = ps_members st
     \<and> length (ps_cw st') = length (ps_cw st) \<and> (\<forall>c\<in>set (ps_cw st'). in_int64 c)"

definition selected :: "(nat \<Rightarrow> bool) \<Rightarrow> poolState \<Rightarrow> poolState \<times> nat option \<Rightarrow> bool" where
  "selected ok st p \<longleftrightarrow>
     (case p of
        (st', None) \<Rightarrow> same_members st st'
      | (st', Some i) \<Rightarrow> i < length (ps_members st) \<and> ok i \<and> same_members st (drop_permit i st')
                         \<and> (\<forall>l\<in>set (lims st'). lim_ok l))"

lemma drop_permit_frame [simp]:
  "drop_permit i (st\<lparr>ps_cursor := c\<rparr>) = (drop_permit i st)\<lparr>ps_cursor := c\<rparr>"
  "ps_pool (drop_permit i st) = ps_pool st" "ps_leases (drop_permit i st) = ps_leases st"
  "ps_cw (drop_permit i st) = ps_cw st"
  by (simp_all add: drop_permit_def upd_member_def)

lemma same_members_refl: "\<forall>c\<in>set (ps_cw st). in_int64 c \<Longrightarrow> same_members st st"
  by (simp add: same_members_def)

lemma same_members_trans: "same_members a b \<Longrightarrow> same_members b c \<Longrightarrow> same_members a c"
  by (auto simp: same_members_def)

lemma selected_step: "same_members a b \<Longrightarrow> selected ok b p \<Longrightarrow> (\<And>i. ok i \<Longrightarrow> ok' i) \<Longrightarrow> selected ok' a p"
  by (auto simp: selected_def same_members_def split: prod.splits option.splits)

lemma rotate_members_selected:
  assumes "length eligible = length (ps_members st)" and "eligible \<noteq> []"
    and "\<forall>l\<in>set (lims st). lim_ok l" and "\<forall>c\<in>set (ps_cw st). in_int64 c"
  shows "selected (\<lambda>i. eligible ! i \<and> member_usable st i (clk i)) st (rotate_members clk eligible offs st)"
proof (induction offs)
  case Nil
  show ?case using assms(4) by (simp add: selected_def same_members_refl)
next
  case (Cons off offs)
  define j where "j = (ps_cursor st + off) mod length eligible"
  have j: "j < length (ps_members st)" unfolding j_def assms(1) [symmetric] using assms(2) by simp
  show ?case
  proof (cases "\<not> eligible ! j \<or> \<not> member_usable st j (clk j) \<or> take_permit j st = None")
    case True
    then have "rotate_members clk eligible (off # offs) st = rotate_members clk eligible offs st"
      by (auto simp: Let_def j_def)
    with Cons show ?thesis by simp
  next
    case False
    then obtain st' where st': "take_permit j st = Some st'" by auto
    have "rotate_members clk eligible (off # offs) st = (st'\<lparr>ps_cursor := (j + 1) mod length eligible\<rparr>, Some j)"
      using False st' by (simp add: j_def Let_def)
    with take_drop_permit [OF st' j assms(3)] take_permit_frame [OF st'] False j assms(4) show ?thesis
      by (simp add: selected_def same_members_def)
  qed
qed

lemma weighted_rounds_selected:
  assumes "length cand = length (ps_cw st)" and "length (ps_members st) = length (ps_cw st)"
    and "\<forall>l\<in>set (lims st). lim_ok l" and "\<forall>c\<in>set (ps_cw st). in_int64 c"
  shows "selected (\<lambda>i. cand ! i) st (weighted_rounds remaining cand st)"
  using assms
proof (induction remaining arbitrary: cand)
  case 0
  then show ?case by (simp add: selected_def same_members_refl)
next
  case (Suc remaining)
  define ws where "ws = map mb_Weight (pl_Members (ps_pool st))"
  define g where "g = gained ws cand (ps_cw st) (length (ps_cw st))"
  define t where "t = wrap64 (weight_of ws cand (length (ps_cw st)))"
  obtain best where sc: "smooth_scan ws cand (ps_cw st) = (g, t, best)" and ld: "leads cand g (length (ps_cw st)) best"
    using smooth_scan_spec [OF Suc.prems(1)] by (auto simp: g_def t_def)
  show ?case
  proof (cases best)
    case None
    with sc Suc.prems(4) show ?thesis by (simp add: ws_def selected_def same_members_refl)
  next
    case (Some b)
    with ld have b: "b < length (ps_cw st)" "cand ! b" by (simp_all add: leads_def)
    define paid where "paid = g[b := wrap64 (g ! b - t)]"
    have paid: "length paid = length (ps_cw st)" "\<forall>c\<in>set paid. in_int64 c"
    proof -
      show "length paid = length (ps_cw st)" by (simp add: paid_def g_def gained_def)
      have "\<forall>c\<in>set g. in_int64 c" using Suc.prems(4) by (auto simp: g_def gained_def wrap64_in_int64)
      then show "\<forall>c\<in>set paid. in_int64 c"
        using set_update_subset_insert [of g b] wrap64_in_int64 by (fastforce simp: paid_def)
    qed
    show ?thesis
    proof (cases "take_permit b (st\<lparr>ps_cw := paid\<rparr>)")
      case (Some st')
      have bm: "b < length (ps_members (st\<lparr>ps_cw := paid\<rparr>))" using b(1) Suc.prems(2) by simp
      have ok: "\<forall>l\<in>set (lims (st\<lparr>ps_cw := paid\<rparr>)). lim_ok l" using Suc.prems(3) by simp
      note td = take_drop_permit [OF Some bm ok]
      have "weighted_rounds (Suc remaining) cand st = (st', Some b)"
        using sc \<open>best = Some b\<close> Some by (simp add: ws_def paid_def)
      with td(1) td(2) bm b paid show ?thesis
        by (simp only: selected_def same_members_def prod.case option.case) simp
    next
      case None
      have "weighted_rounds (Suc remaining) cand st = weighted_rounds remaining (cand[b := False]) st"
        using sc \<open>best = Some b\<close> None undo_exact [OF Suc.prems(1) b Suc.prems(4), of ws t]
        by (simp add: ws_def paid_def g_def Let_def)
      moreover have "cand[b := False] ! i \<Longrightarrow> cand ! i" for i
        by (metis list_update_beyond not_le_imp_less nth_list_update nth_list_update_neq)
      ultimately show ?thesis
        using Suc.IH [of "cand[b := False]"] Suc.prems
        by (auto intro: selected_step [OF same_members_refl])
    qed
  qed
qed

lemma selectInitial_selected:
  assumes "pool_ok st" and "length eligible = length (ps_members st)" and "eligible \<noteq> []"
  shows "selected (\<lambda>i. eligible ! i) st (selectInitial clk eligible st)"
proof (cases "pl_Strategy (ps_pool st) = WeightedRoundRobin")
  case True
  define cand where "cand = candidates clk eligible st"
  define st1 where "st1 = st\<lparr>ps_cw := map (\<lambda>i. if cand ! i then ps_cw st ! i else 0) [0..<length eligible]\<rparr>"
  have "in_int64 0" by (simp add: in_int64_iff)
  then have s: "same_members st st1"
    using assms by (auto simp: st1_def same_members_def pool_ok_def)
  have "selected (\<lambda>i. cand ! i) st1 (weighted_rounds (length (filter id cand)) cand st1)"
    using s assms by (intro weighted_rounds_selected) (auto simp: st1_def cand_def candidates_def pool_ok_def same_members_def)
  then have "selected (\<lambda>i. i < length (ps_members st) \<and> cand ! i) st1 (weighted_rounds (length (filter id cand)) cand st1)"
    using s by (auto simp: selected_def same_members_def split: prod.splits option.splits)
  then have "selected (\<lambda>i. eligible ! i) st (weighted_rounds (length (filter id cand)) cand st1)"
    using s assms(2) by (elim selected_step [rotated]) (auto simp: cand_def candidates_def)
  with True show ?thesis by (simp add: selectInitial_def selectWeightedLocked_def cand_def st1_def Let_def)
next
  case False
  have "selected (\<lambda>i. eligible ! i \<and> member_usable st i (clk i)) st (rotate_members clk eligible [0..<length eligible] st)"
    using assms by (intro rotate_members_selected) (auto simp: pool_ok_def)
  then have "selected (\<lambda>i. eligible ! i) st (rotate_members clk eligible [0..<length eligible] st)"
    using assms(1) by (elim selected_step [rotated]) (auto simp: pool_ok_def same_members_refl)
  with False show ?thesis by (simp add: selectInitial_def)
qed

end
