(* ===== verification/Egress_Execute.thy ===== *)
theory Egress_Execute
  imports Egress_Pool "HOL-Library.Sublist"
begin

text \<open>
  What one \<open>Execute\<close> of the egress pool does (\<open>internal/transport/pool.go\<close>): permits and leases
  are returned on every path, a request that may have been sent is never dialed again, and
  under an exchange budget every dial was funded, whatever provides the budget.
\<close>

section \<open>The accounts of an Execute\<close>

text \<open>A state that holds what \<open>st0\<close> held, with \<open>k\<close> leases.\<close>

definition rests :: "poolState \<Rightarrow> int \<Rightarrow> poolState \<Rightarrow> bool" where
  "rests st0 k st \<longleftrightarrow> ps_pool st = ps_pool st0 \<and> lims st = lims st0 \<and> ps_leases st = k"

definition settled :: "poolState \<Rightarrow> int \<Rightarrow> ('b, 'r) Flow \<Rightarrow> bool" where
  "settled st0 k flow \<longleftrightarrow>
     (case flow of
        Next r \<Rightarrow> rests st0 k (rn_st r)
      | Break r \<Rightarrow> rests st0 k (rn_st r)
      | Return r (Failed e) \<Rightarrow> rests st0 (k - 1) (rn_st r)
      | Return r (Response i x) \<Rightarrow> i < length (lims st0) \<and> rests st0 k (drop_permit i (rn_st r))
      | Return r Panicked \<Rightarrow> False)"

lemma rests_lease: "rests st0 k st \<Longrightarrow> rests st0 (k - 1) (fst (end_lease st))"
  by (simp add: rests_def end_lease_def Let_def)

lemma rests_strike: "rests st0 k st \<Longrightarrow> rests st0 k (member_strike i now st)"
  by (simp add: rests_def member_strike_def lims_update)

lemma rests_success: "rests st0 k (drop_permit i st) \<Longrightarrow> rests st0 k (drop_permit i (member_success i st))"
  by (auto simp: rests_def drop_permit_commute member_success_def lims_update split: if_splits)

lemma dial_member_settled:
  assumes "rests st0 k (drop_permit idx (rn_st r))" and "idx < length (lims st0)"
    and "endpoint_ok (mb_Endpoint (pl_Members (ps_pool st0) ! idx))"
  shows "settled st0 k (dial_member env idx w r)"
proof -
  have p: "ps_pool (rn_st r) = ps_pool st0" using assms(1) by (simp add: rests_def)
  obtain kd tg where "kindName (mb_Endpoint (pl_Members (ps_pool st0) ! idx)) = Some kd"
      "target (mb_Endpoint (pl_Members (ps_pool st0) ! idx)) = Some tg"
    using assms(3) by (auto simp: endpoint_ok_def)
  with assms(1,2) show ?thesis
    by (cases "ev_dial env idx w")
       (simp_all add: dial_member_def p Let_def settled_def finish_def rests_lease rests_strike rests_success)
qed

lemma attempt_member_settled:
  assumes "rests st0 k (drop_permit idx (rn_st r))" and "idx < length (lims st0)"
    and "endpoint_ok (mb_Endpoint (pl_Members (ps_pool st0) ! idx))"
  shows "settled st0 k (attempt_member acquire env idx r)"
proof (cases "ev_build env idx")
  case (Some e)
  with assms(1) show ?thesis by (simp add: attempt_member_def settled_def finish_def rests_lease)
next
  case None
  show ?thesis
  proof (cases "rn_budget r")
    case None
    with \<open>ev_build env idx = None\<close> dial_member_settled [OF assms] show ?thesis by (simp add: attempt_member_def)
  next
    case (Some b)
    obtain b' g where a: "acquire b (ev_claim env (ai_Attempts (rn_info r))) = (b', g)" by fastforce
    have "settled st0 k (dial_member env idx w (r\<lparr>rn_budget := Some b'\<rparr>))" for w
      using assms by (intro dial_member_settled) simp_all
    with \<open>ev_build env idx = None\<close> Some a assms(1) show ?thesis
      by (simp add: attempt_member_def Let_def settled_def finish_def rests_lease)
  qed
qed

lemma gate_member_held:
  assumes "gate_member env off idx st = Some st'" and "off \<noteq> 0" and "rests st0 k st"
    and "idx < length (lims st0)" and "\<forall>l\<in>set (lims st0). lim_ok l"
  shows "drop_permit idx st' = st"
proof -
  have l: "lims st = lims st0" using assms(3) by (simp add: rests_def)
  then have "idx < length (ps_members st)" using assms(4) map_eq_imp_length_eq [OF l] by simp
  with assms l show ?thesis
    using take_drop_permit(1) [of idx st st'] by (simp add: gate_member_def split: if_splits)
qed

lemma attempt_loop_settled:
  assumes "pool_ok st0" and "length eligible = length (lims st0)" and "eligible \<noteq> []"
  shows "0 \<notin> set offs \<Longrightarrow> rests st0 k (rn_st r) \<Longrightarrow>
         settled st0 k (attempt_loop acquire env eligible first mx offs r)"
proof (induction offs arbitrary: r)
  case Nil
  then show ?case by (simp add: settled_def)
next
  case (Cons off offs)
  define idx where "idx = (first + off) mod length eligible"
  have i: "idx < length (lims st0)" unfolding idx_def assms(2) [symmetric] using assms(3) by simp
  have e: "endpoint_ok (mb_Endpoint (pl_Members (ps_pool st0) ! idx))" using assms(1) i by (simp add: pool_ok_def)
  show ?case
  proof (cases "ai_Attempts (rn_info r) \<ge> mx \<or> \<not> eligible ! idx \<or> gate_member env off idx (rn_st r) = None")
    case True
    with Cons show ?thesis by (auto simp: settled_def idx_def Let_def)
  next
    case False
    then obtain st where g: "gate_member env off idx (rn_st r) = Some st" by auto
    have "drop_permit idx st = rn_st r"
      using gate_member_held [OF g _ _ i, of k] Cons.prems assms(1) by (simp add: pool_ok_def)
    then have s: "settled st0 k (attempt_member acquire env idx (r\<lparr>rn_st := st\<rparr>))"
      using Cons.prems(2) attempt_member_settled [OF _ i e, of k "r\<lparr>rn_st := st\<rparr>"] by simp
    show ?thesis
    proof (cases "attempt_member acquire env idx (r\<lparr>rn_st := st\<rparr>)")
      case (Next r')
      with s have "rests st0 k (rn_st r')" by (simp add: settled_def)
      with Cons Next False g show ?thesis by (simp add: idx_def [symmetric] Let_def)
    qed (use False g s in \<open>simp_all add: idx_def [symmetric] Let_def\<close>)
  qed
qed

lemma attempt_loop_first_settled:
  assumes "pool_ok st0" and "length eligible = length (lims st0)" and "first < length eligible"
    and "eligible ! first" and "ai_Attempts (rn_info r) < mx" and "0 < n"
    and "rests st0 k (drop_permit first (rn_st r))"
  shows "settled st0 k (attempt_loop acquire env eligible first mx [0..<n] r)"
proof -
  have e: "endpoint_ok (mb_Endpoint (pl_Members (ps_pool st0) ! first))"
    using assms(1,2,3) by (simp add: pool_ok_def)
  have ne: "eligible \<noteq> []" using assms(3) by auto
  have s: "settled st0 k (attempt_member acquire env first r)"
    using assms(2,3,7) e by (intro attempt_member_settled) simp_all
  have offs: "[0..<n] = 0 # [1..<n]" using assms(6) by (simp add: upt_conv_Cons)
  show ?thesis
  proof (cases "attempt_member acquire env first r")
    case (Next r')
    with s have "rests st0 k (rn_st r')" by (simp add: settled_def)
    with attempt_loop_settled [OF assms(1,2) ne, of "[1..<n]" k r'] Next assms(3,4,5) show ?thesis
      by (simp add: offs gate_member_def)
  qed (use assms(3,4,5) s in \<open>simp_all add: offs gate_member_def\<close>)
qed

text \<open>How an answered or failed \<open>Execute\<close> leaves the shared state.\<close>

definition accounted :: "poolState \<Rightarrow> 'b Run \<times> 'r Answer \<Rightarrow> bool" where
  "accounted st p \<longleftrightarrow>
     (case p of
        (r, Failed e) \<Rightarrow> lims (rn_st r) = lims st \<and> ps_leases (rn_st r) = ps_leases st
      | (r, Response i x) \<Rightarrow>
          i < length (lims st) \<and> ps_leases (rn_st r) = ps_leases st + 1
          \<and> (\<forall>st'. fst (releaseBody_Close i False (rn_st r)) = st' \<longrightarrow>
                lims st' = lims st \<and> ps_leases st' = ps_leases st)
      | (r, Panicked) \<Rightarrow> False)"

lemma conclude_accounted:
  "rests st (ps_leases st + 1) (rn_st r) \<Longrightarrow> accounted st (conclude r :: 'b Run \<times> 'r Answer)"
  using rests_lease [of st "ps_leases st + 1" "rn_st r"]
  by (auto simp: conclude_def finish_def Let_def accounted_def rests_def)

lemma settled_accounted:
  assumes "settled st (ps_leases st + 1) flow"
  shows "accounted st (case flow of Return r' ans \<Rightarrow> (r', ans) | Next r' \<Rightarrow> conclude r' | Break r' \<Rightarrow> conclude r')"
proof (cases flow)
  case (Return r ans)
  with assms show ?thesis
    by (cases ans) (auto simp: settled_def accounted_def rests_def releaseBody_Close_def end_lease_def Let_def)
qed (use assms in \<open>simp_all add: settled_def conclude_accounted\<close>)

lemma Execute_accounted:
  assumes ok: "pool_ok st" and mx: "1 \<le> max_attempts (ps_pool st)"
  shows "accounted st (Execute acquire env ar st b)"
proof -
  define el where "el = map (eligible_for ar) (pl_Members (ps_pool st))"
  define r where "r = start_run st b"
  define sel where "sel = first_member env el (rn_st r)"
  have r0: "rn_st r = begin_lease st" by (simp add: r_def start_run_def)
  have len: "length el = length (lims st)" using ok by (simp add: el_def pool_ok_def)
  have ok': "pool_ok (begin_lease st)" using ok by (simp add: pool_ok_def begin_lease_def)
  have c: "\<forall>c\<in>set (ps_cw (begin_lease st)). in_int64 c" using ok' by (simp add: pool_ok_def)
  have len': "length el = length (ps_members (begin_lease st))" using len by (simp add: begin_lease_def)
  have "selected (\<lambda>i. el ! i) (begin_lease st) sel"
  proof (cases "list_ex id el")
    case True
    then have "el \<noteq> []" by auto
    from selectInitial_selected [OF ok' len' this, of "ev_select env"] True show ?thesis by (simp add: sel_def first_member_def r0)
  next
    case False
    with same_members_refl [OF c] show ?thesis by (simp add: sel_def first_member_def r0 selected_def)
  qed
  then have s: "selected (\<lambda>i. el ! i) (begin_lease st) (fst sel, snd sel)" by simp
  have E: "Execute acquire env ar st b =
      run_loop acquire env el (max_attempts (ps_pool st)) (snd sel) (r\<lparr>rn_st := fst sel\<rparr>)"
    by (simp add: Execute_def Let_def el_def [symmetric] r_def [symmetric] sel_def)
  show ?thesis
  proof (cases "snd sel")
    case None
    with s have "rests st (ps_leases st + 1) (fst sel)"
      by (simp add: selected_def same_members_def rests_def begin_lease_def)
    with E None show ?thesis by (simp add: run_loop_def conclude_accounted)
  next
    case (Some f)
    with s have f: "f < length (lims st)" "el ! f" and h: "rests st (ps_leases st + 1) (drop_permit f (fst sel))"
      by (auto simp: selected_def same_members_def rests_def begin_lease_def)
    have n: "0 < length el" using f(1) len by auto
    have a: "ai_Attempts (rn_info (r\<lparr>rn_st := fst sel\<rparr>)) < max_attempts (ps_pool st)"
      using mx by (simp add: r_def start_run_def zeroInfo_def)
    have fl: "f < length el" using f(1) len by simp
    have "rests st (ps_leases st + 1) (drop_permit f (rn_st (r\<lparr>rn_st := fst sel\<rparr>)))" using h by simp
    from settled_accounted [OF attempt_loop_first_settled [OF ok len fl f(2) a n this, of acquire env]] E Some
    show ?thesis by (simp add: run_loop_def)
  qed
qed

section \<open>The dials of an Execute\<close>

text \<open>A dial that ended, with the caller still there, in a failure proven never to have been sent.\<close>

definition not_sent :: "'r DialEnv \<Rightarrow> nat \<times> duration \<Rightarrow> bool" where
  "not_sent env d \<longleftrightarrow>
     (\<exists>e. ev_dial env (fst d) (snd d) = Inl e \<and> ev_ctx env (fst d) = CtxLive \<and> sendStateOf e = SendStateNotSent)"

fun run_of :: "('b, 'r) Flow \<Rightarrow> 'b Run" where
  "run_of (Next r) = r" | "run_of (Break r) = r" | "run_of (Return r ans) = r"

fun returned :: "('b, 'r) Flow \<Rightarrow> bool" where
  "returned (Return r ans) = True" | "returned flow = False"

definition extends :: "'r DialEnv \<Rightarrow> 'b Run \<Rightarrow> nat list \<Rightarrow> ('b, 'r) Flow \<Rightarrow> bool" where
  "extends env r js flow \<longleftrightarrow>
     (\<exists>ds. rn_dialed (run_of flow) = rn_dialed r @ ds \<and> subseq (map fst ds) js
         \<and> ai_Attempts (rn_info (run_of flow)) = ai_Attempts (rn_info r) + int (length ds)
         \<and> list_all (not_sent env) (if returned flow then butlast ds else ds))"

lemma ClassifyAttempt_not_sent:
  "\<not> f_CallerTerminated (ClassifyAttempt c (Some e)) \<and> f_SendState (ClassifyAttempt c (Some e)) \<noteq> SendStateUnknown
     \<longleftrightarrow> c = CtxLive \<and> sendStateOf e = SendStateNotSent"
  by (cases c; cases "sendStateOf e") (simp_all add: ClassifyAttempt_def caller_failure_def)

lemma dial_member_extends: "extends env r [idx] (dial_member env idx w r)"
proof -
  have shape: "rn_dialed (run_of (dial_member env idx w r)) = rn_dialed r @ [(idx, w)]"
    "ai_Attempts (rn_info (run_of (dial_member env idx w r))) = ai_Attempts (rn_info r) + 1"
    by (auto simp: dial_member_def Let_def finish_def split: option.splits sum.splits)
  have nx: "not_sent env (idx, w)" if "\<not> returned (dial_member env idx w r)"
    using that
    by (auto simp: dial_member_def Let_def not_sent_def ClassifyAttempt_not_sent [symmetric]
        split: option.splits sum.splits if_splits)
  show ?thesis
    unfolding extends_def
    by (rule exI [of _ "[(idx, w)]"]) (use shape nx in auto)
qed

lemma extends_none:
  assumes "rn_dialed (run_of flow) = rn_dialed r" and "ai_Attempts (rn_info (run_of flow)) = ai_Attempts (rn_info r)"
  shows "extends env r js flow"
  unfolding extends_def by (rule exI [of _ "[]"]) (use assms in simp)

lemma extends_base:
  "extends env r' js flow \<Longrightarrow> rn_dialed r' = rn_dialed r \<Longrightarrow> ai_Attempts (rn_info r') = ai_Attempts (rn_info r)
   \<Longrightarrow> extends env r js flow"
  by (simp add: extends_def)

lemma attempt_member_extends: "extends env r [idx] (attempt_member acquire env idx r)"
proof (cases "ev_build env idx")
  case (Some e)
  then show ?thesis by (intro extends_none) (simp_all add: attempt_member_def finish_def)
next
  case build: None
  show ?thesis
  proof (cases "rn_budget r")
    case None
    with build dial_member_extends [of env r idx 0] show ?thesis by (simp add: attempt_member_def)
  next
    case (Some b)
    obtain b' g where a: "acquire b (ev_claim env (ai_Attempts (rn_info r))) = (b', g)" by fastforce
    show ?thesis
    proof (cases "ex_Granted g")
      case True
      have "extends env r [idx] (dial_member env idx (ex_Window g) (r\<lparr>rn_budget := Some b'\<rparr>))"
        by (rule extends_base [OF dial_member_extends]) simp_all
      with build Some a True show ?thesis by (simp add: attempt_member_def)
    next
      case False
      with build Some a show ?thesis by (intro extends_none) (simp_all add: attempt_member_def finish_def Let_def)
    qed
  qed
qed

lemma extends_trans:
  assumes "extends env r js (Next r' :: ('b, 'r) Flow)" and "extends env r' ks flow"
  shows "extends env r (js @ ks) flow"
proof -
  from assms(1) obtain ds where ds: "rn_dialed r' = rn_dialed r @ ds" "subseq (map fst ds) js"
      "ai_Attempts (rn_info r') = ai_Attempts (rn_info r) + int (length ds)" "list_all (not_sent env) ds"
    by (auto simp: extends_def)
  from assms(2) obtain es where es: "rn_dialed (run_of flow) = rn_dialed r' @ es" "subseq (map fst es) ks"
      "ai_Attempts (rn_info (run_of flow)) = ai_Attempts (rn_info r') + int (length es)"
      "list_all (not_sent env) (if returned flow then butlast es else es)"
    by (auto simp: extends_def)
  have "list_all (not_sent env) (butlast ds)" using ds(4) by (auto simp: list_all_iff dest: in_set_butlastD)
  then show ?thesis
    unfolding extends_def using ds es
    by (intro exI [of _ "ds @ es"]) (auto simp: butlast_append list_emb_append_mono)
qed

lemma extends_mono: "extends env r js flow \<Longrightarrow> subseq js ks \<Longrightarrow> extends env r ks flow"
  unfolding extends_def by (meson subseq_order.order_trans)

lemma attempt_loop_extends:
  "extends env r (map (\<lambda>off. (first + off) mod length eligible) offs)
     (attempt_loop acquire env eligible first mx offs r)"
proof (induction offs arbitrary: r)
  case Nil
  show ?case by (rule extends_none) simp_all
next
  case (Cons off offs)
  define idx where "idx = (first + off) mod length eligible"
  let ?js = "map (\<lambda>off. (first + off) mod length eligible) offs"
  have sub: "subseq ?js (idx # ?js)" "subseq [idx] (idx # ?js)" by (simp_all add: list_emb_Cons)
  show ?case
  proof (cases "mx \<le> ai_Attempts (rn_info r)")
    case True
    then show ?thesis by (intro extends_none) simp_all
  next
    case False
    show ?thesis
    proof (cases "\<not> eligible ! idx \<or> gate_member env off idx (rn_st r) = None")
      case True
      with False Cons [of r] sub(1) show ?thesis
        by (auto simp: idx_def [symmetric] Let_def intro: extends_mono)
    next
      case g: False
      then obtain st where st: "gate_member env off idx (rn_st r) = Some st" by auto
      have e: "extends env r [idx] (attempt_member acquire env idx (r\<lparr>rn_st := st\<rparr>))"
        by (rule extends_base [OF attempt_member_extends]) simp_all
      show ?thesis
      proof (cases "attempt_member acquire env idx (r\<lparr>rn_st := st\<rparr>)")
        case (Next r')
        with extends_trans [OF e [unfolded Next] Cons [of r']] False g st show ?thesis
          by (simp add: idx_def [symmetric] Let_def)
      qed (use False g st extends_mono [OF e sub(2)] in \<open>simp_all add: idx_def [symmetric] Let_def\<close>)
    qed
  qed
qed

lemma extends_length:
  "extends env r js flow \<Longrightarrow> ai_Attempts (rn_info (run_of flow)) \<le> ai_Attempts (rn_info r) + int (length js)"
  by (auto simp: extends_def dest!: list_emb_length)

lemma attempt_loop_bound:
  "ai_Attempts (rn_info r) \<le> mx \<Longrightarrow>
   ai_Attempts (rn_info (run_of (attempt_loop acquire env eligible first mx offs r))) \<le> mx"
proof (induction offs arbitrary: r)
  case (Cons off offs)
  define idx where "idx = (first + off) mod length eligible"
  have one: "ai_Attempts (rn_info (run_of (attempt_member acquire env idx (r\<lparr>rn_st := st\<rparr>)))) \<le> ai_Attempts (rn_info r) + 1" for st
    using extends_length [OF attempt_member_extends [of env "r\<lparr>rn_st := st\<rparr>" idx acquire]] by simp
  show ?case
  proof (cases "mx \<le> ai_Attempts (rn_info r) \<or> \<not> eligible ! idx \<or> gate_member env off idx (rn_st r) = None")
    case True
    with Cons show ?thesis by (auto simp: idx_def [symmetric] Let_def)
  next
    case False
    then obtain st where st: "gate_member env off idx (rn_st r) = Some st" by auto
    have "ai_Attempts (rn_info (run_of (attempt_member acquire env idx (r\<lparr>rn_st := st\<rparr>)))) \<le> mx"
      using one [of st] False by simp
    with Cons.IH False st show ?thesis
      by (cases "attempt_member acquire env idx (r\<lparr>rn_st := st\<rparr>)") (simp_all add: idx_def [symmetric] Let_def)
  qed
qed simp

lemma dial_member_run:
  "rn_dialed (run_of (dial_member env idx w r)) = rn_dialed r @ [(idx, w)]"
  "rn_budget (run_of (dial_member env idx w r)) = rn_budget r"
  "ai_Attempts (rn_info (run_of (dial_member env idx w r))) = ai_Attempts (rn_info r) + 1"
  by (auto simp: dial_member_def Let_def finish_def split: option.splits sum.splits)

lemma attempt_loop_keeps:
  assumes "\<And>idx r st. P r \<Longrightarrow> P (run_of (attempt_member acquire env idx (r\<lparr>rn_st := st\<rparr>)))" and "P r"
  shows "P (run_of (attempt_loop acquire env eligible first mx offs r))"
  using assms(2)
proof (induction offs arbitrary: r)
  case (Cons off offs)
  define idx where "idx = (first + off) mod length eligible"
  show ?case
  proof (cases "mx \<le> ai_Attempts (rn_info r) \<or> \<not> eligible ! idx \<or> gate_member env off idx (rn_st r) = None")
    case True
    with Cons show ?thesis by (auto simp: idx_def [symmetric] Let_def)
  next
    case False
    then obtain st where st: "gate_member env off idx (rn_st r) = Some st" by auto
    have "P (run_of (attempt_member acquire env idx (r\<lparr>rn_st := st\<rparr>)))" using Cons.prems by (rule assms(1))
    with Cons.IH False st show ?thesis
      by (cases "attempt_member acquire env idx (r\<lparr>rn_st := st\<rparr>)") (simp_all add: idx_def [symmetric] Let_def)
  qed
qed simp

lemma run_loop_keeps:
  fixes env :: "'r DialEnv" and P :: "'b Run \<Rightarrow> bool"
  assumes "\<And>idx r st. P r \<Longrightarrow> P (run_of (attempt_member acquire env idx (r\<lparr>rn_st := st\<rparr>)))" and "P r"
    and "\<And>r. P r \<Longrightarrow> P (fst (conclude r :: 'b Run \<times> 'r Answer))"
  shows "P (fst (run_loop acquire env eligible mx first r))"
proof (cases first)
  case None
  with assms(2,3) show ?thesis by (simp add: run_loop_def)
next
  case (Some f)
  have "P (run_of (attempt_loop acquire env eligible f mx [0..<length eligible] r))"
    by (rule attempt_loop_keeps [of P]) (fact assms(1,2))+
  with Some assms(3) show ?thesis
    by (cases "attempt_loop acquire env eligible f mx [0..<length eligible] r") (simp_all add: run_loop_def)
qed

lemma mod_rotate_distinct: "distinct (map (\<lambda>i. (f + i) mod n) [0..<n])" for f n :: nat
proof -
  have le: "a = b" if "(f + a) mod n = (f + b) mod n" "a \<le> b" "b < n" for a b
  proof -
    have "(f + b) mod n = (f + a) mod n \<longleftrightarrow> n dvd (f + b) - (f + a)"
      using that(2) by (intro mod_eq_dvd_iff_nat) simp
    with that have "n dvd b - a" by simp
    with that(3) have "b - a = 0" by (cases "b - a = 0") (auto dest!: dvd_imp_le)
    with that(2) show ?thesis by simp
  qed
  have "a = b" if "(f + a) mod n = (f + b) mod n" "a < n" "b < n" for a b
    using le [of a b] le [of b a] that by (cases "a \<le> b") auto
  then have "inj_on (\<lambda>i. (f + i) mod n) {0..<n}" by (intro inj_onI) (metis atLeastLessThan_iff)
  then show ?thesis by (simp add: distinct_map)
qed

lemma subseq_distinct: "subseq xs ys \<Longrightarrow> distinct ys \<Longrightarrow> distinct xs"
proof (induction rule: list_emb.induct)
  case (list_emb_Cons2 x y xs ys)
  then show ?case by (auto elim: list_emb_set)
qed auto

text \<open>The dials of a run: at most \<open>mx\<close>, to distinct members, all but the last proven unsent.\<close>

definition dials_ok :: "'r DialEnv \<Rightarrow> int \<Rightarrow> 'b Run \<Rightarrow> bool" where
  "dials_ok env mx r \<longleftrightarrow>
     distinct (map fst (rn_dialed r)) \<and> int (length (rn_dialed r)) \<le> mx
     \<and> ai_Attempts (rn_info r) = int (length (rn_dialed r)) \<and> list_all (not_sent env) (butlast (rn_dialed r))"

lemma conclude_dials: "dials_ok env mx r \<Longrightarrow> dials_ok env mx (fst (conclude r))"
  by (simp add: dials_ok_def conclude_def finish_def Let_def)

lemma run_loop_dials:
  assumes "rn_dialed r = []" and "ai_Attempts (rn_info r) = 0" and "0 \<le> mx"
  shows "dials_ok env mx (fst (run_loop acquire env eligible mx first r :: 'b Run \<times> 'r Answer))"
proof (cases first)
  case None
  from assms have "dials_ok env mx r" by (simp add: dials_ok_def)
  with None show ?thesis by (simp add: run_loop_def conclude_dials)
next
  case (Some f)
  define flow :: "('b, 'r) Flow" where "flow = attempt_loop acquire env eligible f mx [0..<length eligible] r"
  obtain ds where ds: "rn_dialed (run_of flow) = ds"
      "subseq (map fst ds) (map (\<lambda>off. (f + off) mod length eligible) [0..<length eligible])"
      "ai_Attempts (rn_info (run_of flow)) = int (length ds)"
      "list_all (not_sent env) (if returned flow then butlast ds else ds)"
    using attempt_loop_extends [of env r f eligible "[0..<length eligible]" acquire mx] assms(1,2)
    unfolding flow_def extends_def by auto
  have "list_all (not_sent env) (butlast ds)"
    using ds(4) by (auto simp: list_all_iff split: if_splits dest: in_set_butlastD)
  moreover have "int (length ds) \<le> mx"
    using attempt_loop_bound [of r mx acquire env eligible f "[0..<length eligible]"] assms(2,3) ds(3)
    by (simp add: flow_def)
  moreover have "distinct (map fst ds)"
    using ds(2) mod_rotate_distinct subseq_distinct by metis
  ultimately have "dials_ok env mx (run_of flow)" using ds by (simp add: dials_ok_def)
  with Some show ?thesis
    by (cases flow) (simp_all add: run_loop_def flow_def [symmetric] conclude_dials)
qed

section \<open>The pool under an exchange budget\<close>

text \<open>The pool as a client of the seam: whatever provides an exchange budget can meter it.\<close>

locale metered_pool = exchange_budget acquire used cap inv
  for acquire :: "'b \<Rightarrow> time \<Rightarrow> 'b \<times> Exchange" and used cap :: "'b \<Rightarrow> int" and inv :: "'b \<Rightarrow> time \<Rightarrow> bool"
begin

definition funded :: "'r DialEnv \<Rightarrow> 'b \<Rightarrow> 'b Run \<Rightarrow> bool" where
  "funded env b0 r \<longleftrightarrow>
     (\<exists>b. rn_budget r = Some b \<and> used b = used b0 + int (length (rn_dialed r)) \<and> cap b = cap b0
        \<and> ai_Attempts (rn_info r) = int (length (rn_dialed r)) \<and> inv b (ev_claim env (ai_Attempts (rn_info r)))
        \<and> (\<forall>d\<in>set (rn_dialed r). 0 < snd d))"

lemma funded_frame:
  "funded env b0 r \<Longrightarrow> rn_budget r' = rn_budget r \<Longrightarrow> rn_dialed r' = rn_dialed r
   \<Longrightarrow> ai_Attempts (rn_info r') = ai_Attempts (rn_info r) \<Longrightarrow> funded env b0 r'"
  by (simp add: funded_def)

lemma attempt_member_funded:
  assumes "\<And>k. ev_claim env k \<le> ev_claim env (k + 1)" and "funded env b0 r"
  shows "funded env b0 (run_of (attempt_member acquire env idx (r\<lparr>rn_st := st\<rparr>)))"
proof (cases "ev_build env idx")
  case (Some e)
  with assms(2) show ?thesis by (elim funded_frame) (simp_all add: attempt_member_def finish_def)
next
  case None
  from assms(2) obtain b where b: "rn_budget r = Some b" "used b = used b0 + int (length (rn_dialed r))"
      "cap b = cap b0" "ai_Attempts (rn_info r) = int (length (rn_dialed r))"
      "inv b (ev_claim env (ai_Attempts (rn_info r)))" "\<forall>d\<in>set (rn_dialed r). 0 < snd d"
    by (auto simp: funded_def)
  obtain b' g where a: "acquire b (ev_claim env (ai_Attempts (rn_info r))) = (b', g)" by fastforce
  show ?thesis
  proof (cases "ex_Granted g")
    case True
    let ?r = "r\<lparr>rn_st := st, rn_budget := Some b'\<rparr>"
    have "attempt_member acquire env idx (r\<lparr>rn_st := st\<rparr>) = dial_member env idx (ex_Window g) ?r"
      using None b(1) a True by (simp add: attempt_member_def)
    moreover have "inv b' (ev_claim env (ai_Attempts (rn_info r) + 1))"
      using inv_later [OF inv_acquire [OF a b(5)] assms(1)] .
    ultimately show ?thesis
      using b True granted_counts [OF a b(5) True] granted_window [OF a b(5) True] cap_fixed [OF a]
      by (simp add: funded_def dial_member_run add_ac)
  next
    case False
    have "b' = b" using refused_keeps [OF a False] .
    with assms(2) None b(1) a False show ?thesis
      by (elim funded_frame) (simp_all add: attempt_member_def finish_def Let_def)
  qed
qed

lemma Execute_funded:
  assumes "\<And>k. ev_claim env k \<le> ev_claim env (k + 1)" and "inv b (ev_claim env 0)"
  shows "funded env b (fst (Execute acquire env ar st (Some b)))"
proof -
  have "funded env b (start_run st (Some b))"
    using assms(2) by (simp add: funded_def start_run_def zeroInfo_def)
  then have "funded env b ((start_run st (Some b))\<lparr>rn_st := s\<rparr>)" for s
    by (elim funded_frame) simp_all
  then show ?thesis
    unfolding Execute_def Let_def
    by (intro run_loop_keeps [where P = "funded env b"] attempt_member_funded assms(1))
       (auto elim!: funded_frame simp: conclude_def finish_def Let_def)
qed

end

section \<open>Theorems\<close>

text \<open>
  C22: an \<open>Execute\<close> returns what it took on every path. After an error or a refusal every
  concurrency permit and the lease are back as they were before; after a response exactly the
  answering member's permit and one lease are still held, and the first \<open>Close\<close> of the
  response's body returns both.
\<close>

theorem Execute_returns_permits:
  assumes "pool_ok st" and "1 \<le> max_attempts (ps_pool st)" and "Execute acquire env ar st b = (r, ans)"
  shows "ans \<noteq> Panicked
         \<and> (\<forall>e. ans = Failed e \<longrightarrow> lims (rn_st r) = lims st \<and> ps_leases (rn_st r) = ps_leases st)
         \<and> (\<forall>i x. ans = Response i x \<longrightarrow>
              i < length (lims st) \<and> ps_leases (rn_st r) = ps_leases st + 1
              \<and> lims (fst (releaseBody_Close i False (rn_st r))) = lims st
              \<and> ps_leases (fst (releaseBody_Close i False (rn_st r))) = ps_leases st)"
  using Execute_accounted [OF assms(1,2), of acquire env ar b] assms(3)
  by (cases ans) (simp_all add: accounted_def)

text \<open>
  A pool of two members: the first is capped at one request and its proxy refuses the
  connection, the second answers.
\<close>

definition ex_pool_state :: poolState where
  "ex_pool_state =
     \<lparr>ps_pool = Pool [Member (Config Proxy (Some \<lparr>u_Scheme = ''socks5'', u_Host = ''h'', u_Text = ''socks5://h''\<rparr>) None)
                        0 1 True 1,
                      Member (Config Direct None None) 10 0 True 1]
                  RoundRobin \<lparr>ef_Enabled = True, ef_MaxAttempts = 2\<rparr>
                  \<lparr>hp_Enabled = True, hp_FailureThreshold = 1, hp_Cooldown = Second\<rparr> ''id'',
      ps_members = [\<lparr>ms_health = \<lparr>eh_fails = 0, eh_until = 0, eh_threshold = 1, eh_cooldown = Second\<rparr>,
                      ms_lim = \<lparr>lm_cur = 0, lm_max = 1\<rparr>\<rparr>,
                     \<lparr>ms_health = \<lparr>eh_fails = 0, eh_until = 0, eh_threshold = 1, eh_cooldown = Second\<rparr>,
                      ms_lim = \<lparr>lm_cur = 0, lm_max = 0\<rparr>\<rparr>],
      ps_leases = 0, ps_retired = False, ps_cursor = 0, ps_cw = [0, 0]\<rparr>"

definition ex_dial_env :: "int DialEnv" where
  "ex_dial_env =
     \<lparr>ev_select = (\<lambda>_. 1), ev_gate = (\<lambda>_. 1), ev_strike = (\<lambda>_. 1), ev_claim = (\<lambda>k. k + 1), ev_build = (\<lambda>_. None),
      ev_dial = (\<lambda>i w. if i = 0 then Inl (ProxyConnectError None) else Inr 200), ev_ctx = (\<lambda>_. CtxLive)\<rparr>"

definition ex_request :: AttemptRequest where
  "ex_request = \<lparr>ar_Body = ''body'', ar_Streaming = True\<rparr>"

lemma ex_pool_state_ok: "pool_ok ex_pool_state" "1 \<le> max_attempts (ps_pool ex_pool_state)"
  by (simp_all add: ex_pool_state_def pool_ok_def lim_ok_def endpoint_ok_def kindName_def target_def
      in_int64_iff max_attempts_def)

lemma ex_Execute:
  "\<exists>r. Execute (\<lambda>b t. (b, zeroExchange)) ex_dial_env ex_request ex_pool_state (None :: unit option) = (r, Response 1 200)
      \<and> rn_dialed r = [(0, 0), (1, 0)]"
  by (simp add: Execute_def run_loop_def first_member_def start_run_def ex_dial_env_def ex_request_def ex_pool_state_def
      eligible_for_def selectInitial_def upt_rec member_usable_def usable_def take_permit_def tryAcquire_def
      begin_lease_def upd_member_def max_attempts_def zeroInfo_def gate_member_def attempt_member_def dial_member_def
      kindName_def target_def ClassifyAttempt_def sendStateOf_def errors_As_def drop_permit_def limiter_release_def
      member_strike_def strike_def member_success_def health_success_def Let_def)

theorem Execute_returns_permits_witness:
  "\<exists>r. Execute (\<lambda>b t. (b, zeroExchange)) ex_dial_env ex_request ex_pool_state (None :: unit option) = (r, Response 1 200)
      \<and> lims (fst (releaseBody_Close 1 False (rn_st r))) = lims ex_pool_state
      \<and> ps_leases (fst (releaseBody_Close 1 False (rn_st r))) = 0"
proof -
  obtain r where r: "Execute (\<lambda>b t. (b, zeroExchange)) ex_dial_env ex_request ex_pool_state (None :: unit option)
      = (r, Response 1 200)"
    using ex_Execute by blast
  moreover have "ps_leases ex_pool_state = 0" by (simp add: ex_pool_state_def)
  ultimately show ?thesis using Execute_returns_permits [OF ex_pool_state_ok r] by auto
qed

text \<open>
  C21: the pool never repeats a request that may have been sent. The members an \<open>Execute\<close>
  dials are distinct and at most \<open>max-attempts\<close>, the reported attempts are the dials, and
  every dial but the last failed, with the caller still there, before a byte of the request
  could have left.
\<close>

theorem Execute_no_replay:
  assumes "0 \<le> max_attempts (ps_pool st)" and "Execute acquire env ar st b = (r, ans)"
  shows "distinct (map fst (rn_dialed r)) \<and> int (length (rn_dialed r)) \<le> max_attempts (ps_pool st)
         \<and> ai_Attempts (rn_info r) = int (length (rn_dialed r))
         \<and> (\<forall>(i, w)\<in>set (butlast (rn_dialed r)).
              \<exists>e. ev_dial env i w = Inl e \<and> ev_ctx env i = CtxLive \<and> sendStateOf e = SendStateNotSent)"
proof -
  define el where "el = map (eligible_for ar) (pl_Members (ps_pool st))"
  define sel where "sel = first_member env el (rn_st (start_run st b))"
  have "dials_ok env (max_attempts (ps_pool st))
      (fst (run_loop acquire env el (max_attempts (ps_pool st)) (snd sel) ((start_run st b)\<lparr>rn_st := fst sel\<rparr>)))"
    using assms(1) by (intro run_loop_dials) (simp_all add: start_run_def zeroInfo_def)
  then have "dials_ok env (max_attempts (ps_pool st)) (fst (Execute acquire env ar st b))"
    by (simp add: Execute_def Let_def el_def [symmetric] sel_def)
  then show ?thesis
    using assms(2) by (auto simp: dials_ok_def list_all_iff not_sent_def)
qed

theorem Execute_no_replay_witness:
  "\<exists>r. Execute (\<lambda>b t. (b, zeroExchange)) ex_dial_env ex_request ex_pool_state (None :: unit option) = (r, Response 1 200)
      \<and> ai_Attempts (rn_info r) = 2 \<and> sendStateOf (ProxyConnectError None) = SendStateNotSent"
proof -
  obtain r where r: "Execute (\<lambda>b t. (b, zeroExchange)) ex_dial_env ex_request ex_pool_state (None :: unit option)
      = (r, Response 1 200)" "rn_dialed r = [(0, 0), (1, 0)]"
    using ex_Execute by blast
  have "0 \<le> max_attempts (ps_pool ex_pool_state)" using ex_pool_state_ok(2) by simp
  from Execute_no_replay [OF this r(1)] r show ?thesis by (simp add: ex_dial_env_def)
qed

end
