(* ===== verification/Egress_Fairness.thy ===== *)
theory Egress_Fairness
  imports Egress_Pool
begin

text \<open>
  The smooth weighted round robin of \<open>selectWeightedLocked\<close> (\<open>internal/transport/pool.go\<close>): with
  all members available the selections are proportional to the weights, exactly, over every
  period of the total weight, and the 64-bit credits cannot overflow.
\<close>

section \<open>Weighted scheduling\<close>

text \<open>Successive initial selections, each request returning its permit before the next.\<close>

fun picks :: "bool list \<Rightarrow> (nat \<Rightarrow> time) list \<Rightarrow> poolState \<Rightarrow> poolState \<times> nat option list" where
  "picks eligible [] st = (st, [])"
| "picks eligible (clk # clks) st =
     (let (st', i) = selectInitial clk eligible st;
          (st'', is) = picks eligible clks (case i of None \<Rightarrow> st' | Some j \<Rightarrow> drop_permit j st')
      in (st'', i # is))"

definition free :: "limiter \<Rightarrow> bool" where
  "free l \<longleftrightarrow> lm_max l \<le> 0 \<or> lm_cur l < lm_max l"

definition member_weights :: "poolState \<Rightarrow> int list" where
  "member_weights st = map mb_Weight (pl_Members (ps_pool st))"

text \<open>The credits after the picks \<open>is\<close>: each pick gave every member its weight and cost the picked one the total.\<close>

definition credit :: "int list \<Rightarrow> nat list \<Rightarrow> int list \<Rightarrow> bool" where
  "credit ws is cw \<longleftrightarrow>
     length cw = length ws \<and> (\<forall>i\<in>set is. i < length ws)
     \<and> (\<forall>i<length ws. cw ! i = int (length is) * ws ! i - sum_list ws * int (count_list is i))
     \<and> (\<forall>i<length ws. - sum_list ws < cw ! i)"

lemma sum_list_index: "sum_list xs = (\<Sum>i<length xs. xs ! i)" for xs :: "int list"
  by (simp add: sum_list_sum_nth atLeast0LessThan)

lemma credit_sum:
  assumes "credit ws is cw"
  shows "(\<Sum>i<length ws. cw ! i) = 0"
proof -
  have "(\<Sum>i<length ws. cw ! i) =
      (\<Sum>i<length ws. int (length is) * ws ! i - sum_list ws * int (count_list is i))"
    using assms by (intro sum.cong) (auto simp: credit_def)
  also have "\<dots> = int (length is) * sum_list ws - sum_list ws * (\<Sum>i<length ws. int (count_list is i))"
    by (simp add: sum_subtractf sum_distrib_left sum_list_index)
  also have "(\<Sum>i<length ws. int (count_list is i)) = int (length is)"
    using sum_count_set [of "is" "{..<length ws}"] assms by (auto simp: credit_def simp flip: of_nat_sum)
  finally show ?thesis by simp
qed

lemma credit_upper:
  assumes "credit ws is cw" and "i < length ws"
  shows "cw ! i \<le> (int (length ws) - 1) * sum_list ws"
proof -
  have "cw ! i = - (\<Sum>j\<in>{..<length ws} - {i}. cw ! j)"
    using credit_sum [OF assms(1)] assms(2) sum.remove [of "{..<length ws}" i "\<lambda>j. cw ! j"] by simp
  also have "\<dots> = (\<Sum>j\<in>{..<length ws} - {i}. - (cw ! j))" by (simp add: sum_negf)
  also have "\<dots> \<le> (\<Sum>j\<in>{..<length ws} - {i}. sum_list ws)"
    using assms(1) by (intro sum_mono) (auto simp: credit_def)
  also have "\<dots> = (int (length ws) - 1) * sum_list ws"
    using assms(2) by (simp add: card_Diff_singleton of_nat_diff)
  finally show ?thesis .
qed

text \<open>A smooth step on credits that cannot overflow.\<close>

definition in_range :: "int list \<Rightarrow> bool" where
  "in_range ws \<longleftrightarrow> (\<forall>w\<in>set ws. 1 \<le> w) \<and> int (length ws) * sum_list ws < 2 ^ 63"

lemma weights_total:
  assumes "in_range ws" and "i < length ws"
  shows "1 \<le> ws ! i" and "ws ! i \<le> sum_list ws"
proof -
  show "1 \<le> ws ! i" using assms by (simp add: in_range_def)
  show "ws ! i \<le> sum_list ws"
    using assms by (intro member_le_sum_list) (auto simp: in_range_def intro: order_trans [of 0 1])
qed

lemma total_range:
  assumes "in_range ws" and "ws \<noteq> []"
  shows "1 \<le> sum_list ws" and "sum_list ws < 2 ^ 63"
proof -
  have l: "0 < length ws" using assms(2) by simp
  show w: "1 \<le> sum_list ws" using weights_total [OF assms(1) l] by linarith
  have "1 * sum_list ws \<le> int (length ws) * sum_list ws" using w l by (intro mult_right_mono) (simp_all add: Suc_le_eq)
  with assms(1) show "sum_list ws < 2 ^ 63" by (simp add: in_range_def)
qed

lemma credit_bounds:
  assumes "credit ws is cw" and "in_range ws" and "i < length ws"
  shows "in_int64 (cw ! i)" and "in_int64 (cw ! i + ws ! i)" 
    and "0 \<le> cw ! i + ws ! i \<Longrightarrow> in_int64 (cw ! i + ws ! i - sum_list ws)"
proof -
  have w: "1 \<le> ws ! i" "ws ! i \<le> sum_list ws" using weights_total assms(2,3) by blast+
  have l: "- sum_list ws < cw ! i" using assms(1,3) unfolding credit_def by blast
  have u: "cw ! i \<le> int (length ws) * sum_list ws - sum_list ws"
    using credit_upper [OF assms(1,3)] by (simp add: algebra_simps)
  have nW: "int (length ws) * sum_list ws < 2 ^ 63" using assms(2) by (simp add: in_range_def)
  have W: "sum_list ws < 2 ^ 63" using assms(2,3) by (intro total_range) auto
  show "in_int64 (cw ! i)" and "in_int64 (cw ! i + ws ! i)"
    and "0 \<le> cw ! i + ws ! i \<Longrightarrow> in_int64 (cw ! i + ws ! i - sum_list ws)"
    unfolding in_int64_iff using w l u nW W by linarith+
qed

lemma smooth_step_credit:
  assumes c: "credit ws is cw" and r: "in_range ws" and b: "b < length ws"
    and mx: "\<forall>i<length ws. cw ! i + ws ! i \<le> cw ! b + ws ! b"
  shows "1 \<le> cw ! b + ws ! b"
    and "credit ws (is @ [b]) ((map (\<lambda>i. cw ! i + ws ! i) [0..<length ws])[b := cw ! b + ws ! b - sum_list ws])"
proof -
  have W: "1 \<le> sum_list ws" using weights_total [OF r b] by linarith
  have "sum_list ws = (\<Sum>i<length ws. cw ! i + ws ! i)"
    using credit_sum [OF c] by (simp add: sum.distrib sum_list_index)
  also have "\<dots> \<le> (\<Sum>i<length ws. cw ! b + ws ! b)" using mx by (intro sum_mono) simp
  finally have "1 \<le> int (length ws) * (cw ! b + ws ! b)" using W by simp
  then have "0 < int (length ws) * (cw ! b + ws ! b)" by simp
  then show g: "1 \<le> cw ! b + ws ! b" by (simp add: zero_less_mult_iff)
  have low: "- sum_list ws < cw ! i + ws ! i" if "i < length ws" for i
    using c weights_total(1) [OF r that] that unfolding credit_def by fastforce
  let ?cw' = "(map (\<lambda>i. cw ! i + ws ! i) [0..<length ws])[b := cw ! b + ws ! b - sum_list ws]"
  have val: "?cw' ! i = cw ! i + ws ! i - (if i = b then sum_list ws else 0)" if "i < length ws" for i
    using that b by (simp add: nth_list_update)
  have eq: "cw ! i = int (length is) * ws ! i - sum_list ws * int (count_list is i)" if "i < length ws" for i
    using c that unfolding credit_def by blast
  show "credit ws (is @ [b]) ?cw'"
    unfolding credit_def
  proof (intro conjI allI impI ballI)
    show "length ?cw' = length ws" by simp
    show "i < length ws" if "i \<in> set (is @ [b])" for i using that b c by (auto simp: credit_def)
    fix i assume i: "i < length ws"
    show "?cw' ! i = int (length (is @ [b])) * ws ! i - sum_list ws * int (count_list (is @ [b]) i)"
      unfolding val [OF i] eq [OF i] by (simp add: algebra_simps)
    show "- sum_list ws < ?cw' ! i"
      unfolding val [OF i] using low [OF i] g by auto
  qed
qed

lemma credit_period:
  assumes c: "credit ws is cw" and r: "in_range ws" and n: "int (length is) = sum_list ws"
  shows "\<forall>i<length ws. int (count_list is i) = ws ! i" and "cw = replicate (length ws) 0"
proof -
  have W: "0 < sum_list ws \<or> length ws = 0"
    using weights_total [OF r, of 0] by (cases "length ws") auto
  have eq: "cw ! i = sum_list ws * (ws ! i - int (count_list is i))" if "i < length ws" for i
    using c that n unfolding credit_def by (simp add: algebra_simps)
  have nn: "0 \<le> cw ! i" if i: "i < length ws" for i
  proof -
    have "- sum_list ws < sum_list ws * (ws ! i - int (count_list is i))"
      using c i eq [OF i] unfolding credit_def by metis
    then have "sum_list ws * (- 1) < sum_list ws * (ws ! i - int (count_list is i))" by simp
    moreover have "0 < sum_list ws" using W i by auto
    ultimately have "- 1 < ws ! i - int (count_list is i)" by (simp only: mult_less_cancel_left_pos)
    with W i show ?thesis unfolding eq [OF i] by auto
  qed
  have z: "cw ! i = 0" if "i < length ws" for i
    using credit_sum [OF c] nn that sum_nonneg_eq_0_iff [of "{..<length ws}" "\<lambda>i. cw ! i"] by auto
  then show "cw = replicate (length ws) 0" using c by (auto simp: credit_def intro!: nth_equalityI)
  show "\<forall>i<length ws. int (count_list is i) = ws ! i" using z eq W by fastforce
qed

definition all_ready :: "poolState \<Rightarrow> (nat \<Rightarrow> time) \<Rightarrow> bool" where
  "all_ready st clk \<longleftrightarrow> (\<forall>i<length (ps_members st). member_usable st i (clk i))"

lemma free_permit: "free (ms_lim (ps_members st ! i)) \<Longrightarrow> \<exists>st'. take_permit i st = Some st'"
  by (auto simp: take_permit_def tryAcquire_def free_def)

lemma select_weighted_step:
  assumes ok: "pool_ok st" and str: "pl_Strategy (ps_pool st) = WeightedRoundRobin"
    and c: "credit (member_weights st) is (ps_cw st)" and r: "in_range (member_weights st)"
    and ne: "ps_members st \<noteq> []" and fr: "\<forall>l\<in>set (lims st). free l" and us: "all_ready st clk"
  shows "\<exists>st' b cw'. selectInitial clk (replicate (length (ps_members st)) True) st = (st', Some b)
           \<and> drop_permit b st' = st\<lparr>ps_cw := cw'\<rparr> \<and> credit (member_weights st) (is @ [b]) cw'"
proof -
  define n where "n = length (ps_members st)"
  define ws where "ws = member_weights st"
  have len: "length ws = n" "length (ps_cw st) = n" "0 < n"
    using ok ne by (auto simp: n_def ws_def member_weights_def pool_ok_def)
  have cand: "candidates clk (replicate n True) st = replicate n True"
    using us by (auto simp: candidates_def all_ready_def n_def intro!: nth_equalityI)
  have cw: "map (\<lambda>i. if replicate n True ! i then ps_cw st ! i else 0) [0..<length (replicate n True)] = ps_cw st"
    using len by (auto intro!: nth_equalityI)
  define g where "g = map (\<lambda>i. ps_cw st ! i + ws ! i) [0..<n]"
  note b64 = credit_bounds [OF c r, folded ws_def]
  have gained: "gained ws (replicate n True) (ps_cw st) n = g"
    using len b64(2) by (auto simp: gained_def g_def wrap64_id intro!: nth_equalityI)
  have "in_int64 (sum_list ws)"
    using total_range [OF r] len by (auto simp: in_int64_iff ws_def)
  then have W: "wrap64 (weight_of ws (replicate n True) n) = sum_list ws"
    using len by (simp add: weight_of_def sum_list_index wrap64_id)
  obtain best where sc: "smooth_scan ws (replicate n True) (ps_cw st) = (g, sum_list ws, best)"
    and ld: "leads (replicate n True) g n best"
    using smooth_scan_spec [of "replicate n True" "ps_cw st" ws] len gained W by auto
  then obtain b where b: "best = Some b" "b < n" "\<forall>i<n. g ! i \<le> g ! b"
    using len(3) by (cases best) (auto simp: leads_def)
  have mx: "\<forall>i<length ws. ps_cw st ! i + ws ! i \<le> ps_cw st ! b + ws ! b" using b len by (simp add: g_def)
  have bl: "b < length ws" using b len by simp
  note step = smooth_step_credit [OF c [folded ws_def] r [folded ws_def] bl mx]
  have pay: "wrap64 (g ! b - sum_list ws) = ps_cw st ! b + ws ! b - sum_list ws"
    using b64(3) [of b] step(1) b len by (simp add: g_def wrap64_id)
  define cw' where "cw' = g[b := ps_cw st ! b + ws ! b - sum_list ws]"
  have "free (ms_lim (ps_members (st\<lparr>ps_cw := cw'\<rparr>) ! b))" using fr b by (simp add: n_def)
  then obtain st' where t: "take_permit b (st\<lparr>ps_cw := cw'\<rparr>) = Some st'" using free_permit by blast
  have "drop_permit b st' = st\<lparr>ps_cw := cw'\<rparr>"
    using take_drop_permit(1) [OF t] b ok by (simp add: n_def pool_ok_def)
  moreover have "credit ws (is @ [b]) cw'" using step(2) len by (simp add: cw'_def g_def)
  moreover have "selectInitial clk (replicate n True) st = (st', Some b)"
  proof -
    obtain m where m: "length (filter id (replicate n True)) = Suc m" using len(3) by (cases n) auto
    have "weighted_rounds (Suc m) (replicate n True) st = (st', Some b)"
      using sc b t by (simp add: member_weights_def [symmetric] ws_def [symmetric] pay cw'_def)
    then show ?thesis
      by (simp only: selectInitial_def str if_True refl selectWeightedLocked_def Let_def cand cw m) simp
  qed
  ultimately show ?thesis by (auto simp: n_def ws_def)
qed

lemma picks_credit:
  assumes "pool_ok st" and "pl_Strategy (ps_pool st) = WeightedRoundRobin"
    and "in_range (member_weights st)" and "ps_members st \<noteq> []" and "\<forall>l\<in>set (lims st). free l"
    and "\<forall>clk\<in>set clks. all_ready st clk" and "credit (member_weights st) is (ps_cw st)"
  shows "\<exists>cw' js. picks (replicate (length (ps_members st)) True) clks st = (st\<lparr>ps_cw := cw'\<rparr>, map Some js)
           \<and> length js = length clks \<and> credit (member_weights st) (is @ js) cw'"
  using assms
proof (induction clks arbitrary: st "is")
  case Nil
  then show ?case by (intro exI [of _ "ps_cw st"] exI [of _ "[]"]) simp
next
  case (Cons clk clks)
  have rdy: "all_ready st clk" using Cons.prems(6) by simp
  obtain st' b cw1 where s: "selectInitial clk (replicate (length (ps_members st)) True) st = (st', Some b)"
      "drop_permit b st' = st\<lparr>ps_cw := cw1\<rparr>" "credit (member_weights st) (is @ [b]) cw1"
    using select_weighted_step [OF Cons.prems(1,2,7,3,4,5) rdy] by blast
  let ?st = "st\<lparr>ps_cw := cw1\<rparr>"
  have w: "member_weights ?st = member_weights st" by (simp add: member_weights_def)
  have "\<forall>c\<in>set cw1. in_int64 c"
    using credit_bounds(1) [OF s(3) Cons.prems(3)] s(3) by (auto simp: in_set_conv_nth credit_def)
  moreover have "length cw1 = length (ps_members st)"
    using s(3) Cons.prems(1) by (simp add: credit_def member_weights_def pool_ok_def)
  ultimately have ok: "pool_ok ?st" using Cons.prems(1) by (simp add: pool_ok_def)
  have "\<forall>clk\<in>set clks. all_ready ?st clk"
    using Cons.prems(6) by (simp add: all_ready_def member_usable_def)
  then obtain cw' js where p: "picks (replicate (length (ps_members st)) True) clks ?st = (?st\<lparr>ps_cw := cw'\<rparr>, map Some js)"
      "length js = length clks" "credit (member_weights st) ((is @ [b]) @ js) cw'"
    using Cons.IH [OF ok, of "is @ [b]"] Cons.prems w s(3) by auto
  then show ?case
    using s(1,2) by (intro exI [of _ cw'] exI [of _ "b # js"]) simp
qed

section \<open>Theorems\<close>

text \<open>
  C23: weighted scheduling is exactly proportional. Starting from zero credits, with every
  member eligible, usable and below its concurrency cap, as many selections as the total
  weight pick each member exactly as often as its weight and leave the pool as it was, so the
  schedule repeats. The 64-bit credits do not overflow while the number of members times the
  total weight is below \<open>2 ^ 63\<close>.
\<close>

theorem weighted_round_robin_fair:
  assumes ok: "pool_ok st" and s: "pl_Strategy (ps_pool st) = WeightedRoundRobin"
    and r: "in_range (member_weights st)" and ne: "ps_members st \<noteq> []"
    and f: "\<forall>l\<in>set (lims st). free l" and u: "\<forall>clk\<in>set clks. all_ready st clk"
    and z: "\<forall>c\<in>set (ps_cw st). c = 0" and n: "int (length clks) = sum_list (member_weights st)"
  shows "\<exists>js. picks (replicate (length (ps_members st)) True) clks st = (st, map Some js)
             \<and> (\<forall>i<length (ps_members st). int (count_list js i) = mb_Weight (pl_Members (ps_pool st) ! i))"
proof -
  have len: "length (member_weights st) = length (ps_members st)" "length (ps_cw st) = length (ps_members st)"
    using ok by (simp_all add: member_weights_def pool_ok_def)
  have "1 \<le> sum_list (member_weights st)" using total_range [OF r] ne len by fastforce
  moreover have "ps_cw st ! i = 0" if "i < length (ps_members st)" for i
    using z len(2) that nth_mem [of i "ps_cw st"] by auto
  ultimately have c: "credit (member_weights st) [] (ps_cw st)" using len by (simp add: credit_def)
  obtain cw' js where p: "picks (replicate (length (ps_members st)) True) clks st = (st\<lparr>ps_cw := cw'\<rparr>, map Some js)"
      "length js = length clks" "credit (member_weights st) js cw'"
    using picks_credit [OF ok s r ne f u c] by auto
  have per: "\<forall>i<length (member_weights st). int (count_list js i) = member_weights st ! i"
    "cw' = replicate (length (member_weights st)) 0"
    using credit_period [OF p(3) r] p(2) n by simp_all
  have "ps_cw st = cw'" using z len per(2) by (auto intro!: nth_equalityI)
  then have "st\<lparr>ps_cw := cw'\<rparr> = st" by simp
  with p(1) per(1) ok len show ?thesis by (auto simp: member_weights_def pool_ok_def)
qed

text \<open>Two direct members with weights 2 and 1, the second capped at one request.\<close>

definition ex_weighted :: poolState where
  "ex_weighted =
     \<lparr>ps_pool = Pool [Member (Config Direct None None) 0 0 True 2, Member (Config Direct None None) 0 1 True 1]
                  WeightedRoundRobin \<lparr>ef_Enabled = True, ef_MaxAttempts = 2\<rparr>
                  \<lparr>hp_Enabled = True, hp_FailureThreshold = 1, hp_Cooldown = Second\<rparr> ''id'',
      ps_members = [\<lparr>ms_health = \<lparr>eh_fails = 0, eh_until = 0, eh_threshold = 1, eh_cooldown = Second\<rparr>,
                      ms_lim = \<lparr>lm_cur = 0, lm_max = 0\<rparr>\<rparr>,
                     \<lparr>ms_health = \<lparr>eh_fails = 0, eh_until = 0, eh_threshold = 1, eh_cooldown = Second\<rparr>,
                      ms_lim = \<lparr>lm_cur = 0, lm_max = 1\<rparr>\<rparr>],
      ps_leases = 0, ps_retired = False, ps_cursor = 0, ps_cw = [0, 0]\<rparr>"

lemma ex_weighted_ok: "pool_ok ex_weighted"
  by (simp add: ex_weighted_def pool_ok_def lim_ok_def endpoint_ok_def kindName_def target_def in_int64_iff)

theorem weighted_round_robin_fair_witness:
  "\<exists>js. picks [True, True] [\<lambda>_. 1, \<lambda>_. 2, \<lambda>_. 3] ex_weighted = (ex_weighted, map Some js)
       \<and> count_list js 0 = 2 \<and> count_list js 1 = 1"
proof -
  have "\<exists>js. picks (replicate (length (ps_members ex_weighted)) True) [\<lambda>_. 1, \<lambda>_. 2, \<lambda>_. 3] ex_weighted =
               (ex_weighted, map Some js)
             \<and> (\<forall>i<length (ps_members ex_weighted).
                  int (count_list js i) = mb_Weight (pl_Members (ps_pool ex_weighted) ! i))"
    by (rule weighted_round_robin_fair)
       (simp_all add: ex_weighted_ok, simp_all add: ex_weighted_def in_range_def member_weights_def free_def
          all_ready_def member_usable_def usable_def less_Suc_eq)
  then show ?thesis by (force simp: ex_weighted_def less_Suc_eq)
qed

end
