(* ===== verification/Egress_Registry.thy ===== *)
theory Egress_Registry
  imports Egress_Pool "HOL-Library.AList"
begin

text \<open>
  \<open>internal/transport/registry.go\<close>: the process's long-lived transport clients and pool states,
  their reuse across configuration reloads, and the deferred retirement of a pool that is
  still leased. Pool states live in an explicit store, so that a generation is the address of
  its state and \<open>cur != st\<close> of the source is a comparison of addresses. The registry's mutex
  makes each operation one step.
\<close>

section \<open>The registry\<close>

text \<open>A client, by the number of its construction, or the doer of the pool state at an address.\<close>

datatype Doer = ClientDoer nat | PoolDoer nat

record PoolCell =
  pc_state :: poolState
  pc_key :: string
  pc_clients :: "Doer list"

text \<open>\<open>tr_drained\<close> logs the doers whose idle connections were closed.\<close>

record TransportRegistry =
  tr_doers :: "(string \<times> Doer) list"
  tr_pools :: "(string \<times> nat) list"
  tr_cells :: "PoolCell list"
  tr_built :: nat
  tr_drained :: "Doer list"

definition NewTransportRegistry :: TransportRegistry where
  "NewTransportRegistry = \<lparr>tr_doers = [], tr_pools = [], tr_cells = [], tr_built = 0, tr_drained = []\<rparr>"

definition cell_retired :: "TransportRegistry \<Rightarrow> nat \<Rightarrow> bool" where
  "cell_retired r l = ps_retired (pc_state (tr_cells r ! l))"

definition cell_leases :: "TransportRegistry \<Rightarrow> nat \<Rightarrow> int" where
  "cell_leases r l = ps_leases (pc_state (tr_cells r ! l))"

definition set_doer :: "string \<Rightarrow> Doer \<Rightarrow> TransportRegistry \<Rightarrow> TransportRegistry" where
  "set_doer k d r = r\<lparr>tr_doers := AList.update k d (tr_doers r)\<rparr>"

definition upd_cell :: "nat \<Rightarrow> (poolState \<Rightarrow> poolState) \<Rightarrow> TransportRegistry \<Rightarrow> TransportRegistry" where
  "upd_cell l f r =
     r\<lparr>tr_cells := (tr_cells r)[l := (tr_cells r ! l)\<lparr>pc_state := f (pc_state (tr_cells r ! l))\<rparr>]\<rparr>"

text \<open>The fresh state of \<open>newPoolStateLocked\<close>.\<close>

definition fresh_member :: "EgressPolicy \<Rightarrow> Config Member \<Rightarrow> memberState" where
  "fresh_member p m =
     \<lparr>ms_health = \<lparr>eh_fails = 0, eh_until = 0,
                   eh_threshold = (if hp_Enabled (pl_Health p) then hp_FailureThreshold (pl_Health p) else 0),
                   eh_cooldown = hp_Cooldown (pl_Health p)\<rparr>,
      ms_lim = \<lparr>lm_cur = 0, lm_max = mb_MaxConcurrency m\<rparr>\<rparr>"

definition fresh_state :: "EgressPolicy \<Rightarrow> poolState" where
  "fresh_state p =
     \<lparr>ps_pool = p, ps_members = map (fresh_member p) (pl_Members p), ps_leases = 0, ps_retired = False,
      ps_cursor = 0, ps_cw = replicate (length (pl_Members p)) 0\<rparr>"

definition add_cell :: "EgressPolicy \<Rightarrow> Doer list \<Rightarrow> TransportRegistry \<Rightarrow> TransportRegistry" where
  "add_cell p clients r =
     (let cell = \<lparr>pc_state = fresh_state p, pc_key = ''pool '' @ pl_identity p, pc_clients = clients\<rparr>;
          l = length (tr_cells r)
      in r\<lparr>tr_cells := tr_cells r @ [cell], tr_pools := AList.update (pl_identity p) l (tr_pools r)\<rparr>)"

text \<open>
  The doer of a plain endpoint, and the doers of a list of endpoints in order; \<open>None\<close> is a
  panic. Pools do not nest, so a member endpoint of kind \<open>EgressPool\<close> is outside the model and
  reported as a panic.
\<close>

definition plain_doer :: "Config \<Rightarrow> TransportRegistry \<Rightarrow> (TransportRegistry \<times> Doer) option" where
  "plain_doer c r =
     (case Config_Key c of
        None \<Rightarrow> None
      | Some k \<Rightarrow>
          if cf_Kind c = EgressPool then None
          else (case map_of (tr_doers r) k of
                  Some d \<Rightarrow> Some (r, d)
                | None \<Rightarrow>
                    let d = ClientDoer (tr_built r)
                    in Some (set_doer k d (r\<lparr>tr_built := tr_built r + 1\<rparr>), d)))"

fun member_doers :: "Config list \<Rightarrow> TransportRegistry \<Rightarrow> (TransportRegistry \<times> Doer list) option" where
  "member_doers [] r = Some (r, [])"
| "member_doers (c # cs) r =
     (case plain_doer c r of
        None \<Rightarrow> None
      | Some (r', d) \<Rightarrow>
          (case member_doers cs r' of None \<Rightarrow> None | Some (r'', ds) \<Rightarrow> Some (r'', d # ds)))"

definition newPoolStateLocked :: "EgressPolicy \<Rightarrow> TransportRegistry \<Rightarrow> TransportRegistry option" where
  "newPoolStateLocked p r =
     (case member_doers (map mb_Endpoint (pl_Members p)) r of
        None \<Rightarrow> None
      | Some (r', ds) \<Rightarrow> Some (add_cell p ds r'))"

definition newPoolDoerLocked :: "EgressPolicy \<Rightarrow> string \<Rightarrow> TransportRegistry \<Rightarrow> (TransportRegistry \<times> Doer) option" where
  "newPoolDoerLocked p k r =
     (case map_of (tr_pools r) (pl_identity p) of
        Some l \<Rightarrow>
          if \<not> cell_retired r l
          then (if map_of (tr_doers r) k = Some (PoolDoer l) then Some (r, PoolDoer l)
                else Some (set_doer k (PoolDoer l) r, PoolDoer l))
          else map_option (\<lambda>r'. (set_doer k (PoolDoer (length (tr_cells r))) r', PoolDoer (length (tr_cells r))))
                 (newPoolStateLocked p r)
      | None \<Rightarrow>
          map_option (\<lambda>r'. (set_doer k (PoolDoer (length (tr_cells r))) r', PoolDoer (length (tr_cells r))))
            (newPoolStateLocked p r))"

definition Registry_Doer :: "Config \<Rightarrow> TransportRegistry \<Rightarrow> (TransportRegistry \<times> Doer) option" where
  "Registry_Doer c r =
     (case Config_Key c of
        None \<Rightarrow> None
      | Some k \<Rightarrow>
          (case cf_Kind c of
             EgressPool \<Rightarrow>
               (case cf_Pool c of
                  None \<Rightarrow> None
                | Some p \<Rightarrow> map_option (\<lambda>(r', d). (set_doer k d r', d)) (newPoolDoerLocked p k r))
           | _ \<Rightarrow> plain_doer c r))"

section \<open>Retirement\<close>

definition closeIdle :: "Doer \<Rightarrow> TransportRegistry \<Rightarrow> TransportRegistry" where
  "closeIdle d r =
     (case d of
        ClientDoer n \<Rightarrow> r\<lparr>tr_drained := tr_drained r @ [d]\<rparr>
      | PoolDoer l \<Rightarrow> r\<lparr>tr_drained := tr_drained r @ pc_clients (tr_cells r ! l)\<rparr>)"

definition finishRetireLocked :: "string \<Rightarrow> nat \<Rightarrow> TransportRegistry \<Rightarrow> TransportRegistry" where
  "finishRetireLocked ident l r =
     (if (case map_of (tr_pools r) ident of Some cur \<Rightarrow> cur \<noteq> l | None \<Rightarrow> False) then r
      else let key = pc_key (tr_cells r ! l);
               r1 = (case map_of (tr_doers r) key of
                       Some d \<Rightarrow>
                         if (case d of PoolDoer l' \<Rightarrow> l' = l | _ \<Rightarrow> True)
                         then (closeIdle d r)\<lparr>tr_doers := AList.delete key (tr_doers r)\<rparr>
                         else r
                     | None \<Rightarrow> r)
           in fold closeIdle (pc_clients (tr_cells r ! l)) (r1\<lparr>tr_pools := AList.delete ident (tr_pools r1)\<rparr>))"

definition retirePoolLocked :: "string \<Rightarrow> nat \<Rightarrow> TransportRegistry \<Rightarrow> TransportRegistry" where
  "retirePoolLocked ident l r =
     (if cell_leases r l > 0
      then (if cell_retired r l then r else upd_cell l (\<lambda>st. st\<lparr>ps_retired := True\<rparr>) r)
      else finishRetireLocked ident l r)"

definition Transport_Retain :: "Config list \<Rightarrow> TransportRegistry \<Rightarrow> TransportRegistry option" where
  "Transport_Retain active r =
     (if list_ex (\<lambda>c. Config_Key c = None) active then None
      else let keys = map (\<lambda>c. the (Config_Key c)) active;
               ids = map (\<lambda>c. pl_identity (the (cf_Pool c))) (filter (\<lambda>c. cf_Kind c = EgressPool) active);
               r1 = fold (\<lambda>(k, d) r. if k \<in> set keys then r
                                     else (closeIdle d r)\<lparr>tr_doers := AList.delete k (tr_doers r)\<rparr>)
                         (tr_doers r) r
           in Some (fold (\<lambda>(ident, l) r. if ident \<in> set ids then r else retirePoolLocked ident l r)
                         (tr_pools r1) r1))"

text \<open>
  Leases of a pool state: \<open>begin\<close>, and \<open>end\<close> with the deferred teardown \<open>retirePool\<close> when it
  releases the last lease of a retired state. The identity the callback closed over is the
  identity of the state's pool.
\<close>

definition lease_begin :: "nat \<Rightarrow> TransportRegistry \<Rightarrow> TransportRegistry" where
  "lease_begin l = upd_cell l begin_lease"

definition lease_end :: "nat \<Rightarrow> TransportRegistry \<Rightarrow> TransportRegistry" where
  "lease_end l r =
     (let st = pc_state (tr_cells r ! l); (st', fire) = end_lease st; r' = upd_cell l (\<lambda>_. st') r
      in if fire then finishRetireLocked (pl_identity (ps_pool st)) l r' else r')"

section \<open>The registry's invariant\<close>

abbreviation ident_of :: "TransportRegistry \<Rightarrow> nat \<Rightarrow> string" where
  "ident_of r l \<equiv> pl_identity (ps_pool (pc_state (tr_cells r ! l)))"

abbreviation pool_at :: "TransportRegistry \<Rightarrow> string \<Rightarrow> nat option" where
  "pool_at r \<equiv> map_of (tr_pools r)"

abbreviation doer_at :: "TransportRegistry \<Rightarrow> string \<Rightarrow> Doer option" where
  "doer_at r \<equiv> map_of (tr_doers r)"

definition live :: "TransportRegistry \<Rightarrow> string \<Rightarrow> nat \<Rightarrow> bool" where
  "live r ident l \<longleftrightarrow> pool_at r ident = Some l \<and> \<not> cell_retired r l"

text \<open>Every entry is under its own identity, and a live state and its doer are registered as a pair.\<close>

definition cells_ok :: "TransportRegistry \<Rightarrow> bool" where
  "cells_ok r \<longleftrightarrow>
     (\<forall>l<length (tr_cells r). pc_key (tr_cells r ! l) = ''pool '' @ ident_of r l)
     \<and> (\<forall>(ident, l)\<in>set (tr_pools r). l < length (tr_cells r) \<and> ident_of r l = ident)"

definition paired :: "TransportRegistry \<Rightarrow> bool" where
  "paired r \<longleftrightarrow> (\<forall>ident l. live r ident l \<longrightarrow> doer_at r (''pool '' @ ident) = Some (PoolDoer l))"

definition reg_ok :: "TransportRegistry \<Rightarrow> bool" where
  "reg_ok r \<longleftrightarrow> distinct (map fst (tr_pools r)) \<and> cells_ok r \<and> paired r"

text \<open>A change that keeps the identities and keys of the cells.\<close>

definition same_cells :: "TransportRegistry \<Rightarrow> TransportRegistry \<Rightarrow> bool" where
  "same_cells r r' \<longleftrightarrow>
     length (tr_cells r') = length (tr_cells r)
     \<and> (\<forall>l<length (tr_cells r). pc_key (tr_cells r' ! l) = pc_key (tr_cells r ! l) \<and> ident_of r' l = ident_of r l
          \<and> (cell_retired r l \<longrightarrow> cell_retired r' l))"

lemma same_cells_refl: "same_cells r r"
  by (simp add: same_cells_def)

lemma same_cells_trans: "same_cells a b \<Longrightarrow> same_cells b c \<Longrightarrow> same_cells a c"
  by (simp add: same_cells_def)

lemma same_cells_eq: "tr_cells r' = tr_cells r \<Longrightarrow> same_cells r r'"
  by (simp add: same_cells_def cell_retired_def)

lemma cells_ok_same:
  assumes "same_cells r r'" and "set (tr_pools r') \<subseteq> set (tr_pools r)" and "cells_ok r"
  shows "cells_ok r'"
proof -
  have "l < length (tr_cells r') \<and> ident_of r' l = ident" if "(ident, l) \<in> set (tr_pools r')" for ident l
  proof -
    have "(ident, l) \<in> set (tr_pools r)" using assms(2) that by blast
    then have "l < length (tr_cells r)" "ident_of r l = ident" using assms(3) unfolding cells_ok_def by auto
    with assms(1) show ?thesis by (simp add: same_cells_def)
  qed
  with assms(1,3) show ?thesis by (auto simp: cells_ok_def same_cells_def)
qed

lemma cells_okD: "cells_ok r \<Longrightarrow> pool_at r ident = Some l \<Longrightarrow> l < length (tr_cells r) \<and> ident_of r l = ident"
  by (auto simp: cells_ok_def dest!: map_of_SomeD)

lemma upd_cell_nth:
  "j < length (tr_cells r) \<Longrightarrow> tr_cells (upd_cell l f r) ! j =
     (if j = l then (tr_cells r ! l)\<lparr>pc_state := f (pc_state (tr_cells r ! l))\<rparr> else tr_cells r ! j)"
  by (cases "j = l") (simp_all add: upd_cell_def)

lemma upd_cell_same:
  assumes "\<And>st. ps_pool (f st) = ps_pool st" and "\<And>st. ps_retired st \<longrightarrow> ps_retired (f st)"
  shows "same_cells r (upd_cell l f r)"
  using assms by (auto simp: same_cells_def cell_retired_def upd_cell_nth) (simp_all add: upd_cell_def)

lemma upd_cell_frame [simp]:
  "tr_pools (upd_cell l f r) = tr_pools r" "tr_doers (upd_cell l f r) = tr_doers r"
  "length (tr_cells (upd_cell l f r)) = length (tr_cells r)"
  by (simp_all add: upd_cell_def)

lemma closeIdle_frame [simp]:
  "tr_pools (closeIdle d r) = tr_pools r" "tr_doers (closeIdle d r) = tr_doers r" "tr_cells (closeIdle d r) = tr_cells r"
  by (simp_all add: closeIdle_def split: Doer.splits)

lemma fold_closeIdle_frame [simp]:
  "tr_pools (fold closeIdle ds r) = tr_pools r" "tr_doers (fold closeIdle ds r) = tr_doers r"
  "tr_cells (fold closeIdle ds r) = tr_cells r"
  by (induction ds arbitrary: r) simp_all

section \<open>Retirement touches one generation\<close>

lemma finishRetire_cells [simp]: "tr_cells (finishRetireLocked ident l r) = tr_cells r"
  by (auto simp: finishRetireLocked_def Let_def split: option.splits Doer.splits)

lemma finishRetire_pools:
  "tr_pools (finishRetireLocked ident l r) =
     (if (case pool_at r ident of Some cur \<Rightarrow> cur \<noteq> l | None \<Rightarrow> False) then tr_pools r
      else AList.delete ident (tr_pools r))"
  by (auto simp: finishRetireLocked_def Let_def split: option.splits Doer.splits)

lemma finishRetire_doers:
  "k \<noteq> pc_key (tr_cells r ! l) \<Longrightarrow> doer_at (finishRetireLocked ident l r) k = doer_at r k"
  by (auto simp: finishRetireLocked_def Let_def delete_conv' split: option.splits Doer.splits)

text \<open>What the retirement of \<open>(ident, l)\<close> does to the entry of another identity: nothing.\<close>

definition keeps :: "string \<Rightarrow> TransportRegistry \<Rightarrow> TransportRegistry \<Rightarrow> bool" where
  "keeps ident r r' \<longleftrightarrow>
     pool_at r' ident = pool_at r ident \<and> doer_at r' (''pool '' @ ident) = doer_at r (''pool '' @ ident)
     \<and> (\<forall>l. pool_at r ident = Some l \<longrightarrow> tr_cells r' ! l = tr_cells r ! l)"

lemma keeps_trans: "keeps ident a b \<Longrightarrow> keeps ident b c \<Longrightarrow> keeps ident a c"
  by (simp add: keeps_def)

lemma keeps_live: "keeps ident r r' \<Longrightarrow> live r ident l \<Longrightarrow> live r' ident l"
  by (simp add: keeps_def live_def cell_retired_def)

lemma finishRetire_keeps:
  assumes "cells_ok r" and "l < length (tr_cells r)" and "ident_of r l = ident" and "ident' \<noteq> ident"
  shows "keeps ident' r (finishRetireLocked ident l r)"
proof -
  have "pc_key (tr_cells r ! l) = ''pool '' @ ident" using assms by (simp add: cells_ok_def)
  with assms(4) show ?thesis
    by (auto simp: keeps_def finishRetire_pools finishRetire_doers delete_conv')
qed

lemma retirePool_keeps:
  assumes "cells_ok r" and "l < length (tr_cells r)" and "ident_of r l = ident" and "ident' \<noteq> ident"
  shows "keeps ident' r (retirePoolLocked ident l r)"
proof -
  have "tr_cells (upd_cell l f r) ! l' = tr_cells r ! l'" if "pool_at r ident' = Some l'" for l' f
    using cells_okD [OF assms(1) that] assms(3,4) by (auto simp: upd_cell_nth)
  with finishRetire_keeps [OF assms] show ?thesis
    by (auto simp: retirePoolLocked_def keeps_def)
qed

lemma retirePool_distinct:
  "distinct (map fst (tr_pools r)) \<Longrightarrow> distinct (map fst (tr_pools (retirePoolLocked ident l r)))"
  by (simp add: retirePoolLocked_def finishRetire_pools distinct_delete)

lemma retirePool_same:
  "same_cells r (retirePoolLocked ident l r)"
  "set (tr_pools (retirePoolLocked ident l r)) \<subseteq> set (tr_pools r)"
  using upd_cell_same [of "\<lambda>st. st\<lparr>ps_retired := True\<rparr>" r l]
  by (auto simp: retirePoolLocked_def finishRetire_pools same_cells_eq AList.delete_eq
      split: option.splits)

lemma retirePool_ends:
  assumes "cells_ok r" and "l < length (tr_cells r)"
  shows "\<not> live (retirePoolLocked ident l r) ident l"
  using assms
  by (auto simp: live_def retirePoolLocked_def finishRetire_pools delete_conv' upd_cell_nth cell_retired_def
      split: option.splits)

section \<open>A reload\<close>

definition retained_keys :: "Config list \<Rightarrow> string set" where
  "retained_keys active = (\<lambda>c. the (Config_Key c)) ` set active"

definition retained_ids :: "Config list \<Rightarrow> string set" where
  "retained_ids active = (\<lambda>c. pl_identity (the (cf_Pool c))) ` {c \<in> set active. cf_Kind c = EgressPool}"

definition drop_doers :: "string set \<Rightarrow> (string \<times> Doer) list \<Rightarrow> TransportRegistry \<Rightarrow> TransportRegistry" where
  "drop_doers keys = fold (\<lambda>(k, d) r. if k \<in> keys then r
                             else (closeIdle d r)\<lparr>tr_doers := AList.delete k (tr_doers r)\<rparr>)"

definition drop_pools :: "string set \<Rightarrow> (string \<times> nat) list \<Rightarrow> TransportRegistry \<Rightarrow> TransportRegistry" where
  "drop_pools ids = fold (\<lambda>(ident, l) r. if ident \<in> ids then r else retirePoolLocked ident l r)"

lemma Retain_alt:
  "Transport_Retain active r =
     (if list_ex (\<lambda>c. Config_Key c = None) active then None
      else Some (drop_pools (retained_ids active) (tr_pools r)
                   (drop_doers (retained_keys active) (tr_doers r) r)))"
proof -
  have "tr_pools (drop_doers keys xs r) = tr_pools r" for keys xs r
    by (induction xs arbitrary: r) (auto simp: drop_doers_def)
  then show ?thesis
    by (simp add: Transport_Retain_def Let_def drop_pools_def drop_doers_def retained_keys_def retained_ids_def)
qed

lemma drop_doers_frame:
  "tr_pools (drop_doers keys xs r) = tr_pools r" "tr_cells (drop_doers keys xs r) = tr_cells r"
  "k \<in> keys \<Longrightarrow> doer_at (drop_doers keys xs r) k = doer_at r k"
  by (induction xs arbitrary: r) (auto simp: drop_doers_def delete_conv')

lemma drop_pools_Cons:
  "drop_pools ids ((ident, l) # xs) r =
     drop_pools ids xs (if ident \<in> ids then r else retirePoolLocked ident l r)"
  by (simp add: drop_pools_def)

definition entries_ok :: "(string \<times> nat) list \<Rightarrow> TransportRegistry \<Rightarrow> bool" where
  "entries_ok xs r \<longleftrightarrow>
     cells_ok r \<and> distinct (map fst (tr_pools r))
     \<and> (\<forall>(ident, l)\<in>set xs. l < length (tr_cells r) \<and> ident_of r l = ident)"

definition shrinks :: "TransportRegistry \<Rightarrow> TransportRegistry \<Rightarrow> bool" where
  "shrinks r r' \<longleftrightarrow>
     same_cells r r' \<and> set (tr_pools r') \<subseteq> set (tr_pools r)
     \<and> (distinct (map fst (tr_pools r)) \<longrightarrow> distinct (map fst (tr_pools r')))"

lemma shrinks_trans: "shrinks a b \<Longrightarrow> shrinks b c \<Longrightarrow> shrinks a c"
  unfolding shrinks_def using same_cells_trans by blast

lemma shrinks_entries: "shrinks r r' \<Longrightarrow> entries_ok xs r \<Longrightarrow> entries_ok xs r'"
  using cells_ok_same [of r r'] by (auto simp: shrinks_def entries_ok_def same_cells_def)

lemma shrinks_live:
  assumes "shrinks r r'" and "distinct (map fst (tr_pools r))" and "cells_ok r" and "live r' ident l"
  shows "live r ident l"
proof -
  have m: "(ident, l) \<in> set (tr_pools r)"
    using assms(1,4) by (auto simp: shrinks_def live_def dest!: map_of_SomeD)
  then have "pool_at r ident = Some l" using assms(2) by simp
  moreover from this have "l < length (tr_cells r)" using cells_okD [OF assms(3)] by blast
  ultimately show ?thesis using assms(1,4) by (auto simp: shrinks_def live_def same_cells_def)
qed

lemma retirePool_shrinks: "shrinks r (retirePoolLocked ident l r)"
  by (simp add: shrinks_def retirePool_same retirePool_distinct)

lemma drop_pools_shrinks: "shrinks r (drop_pools ids xs r)"
proof (induction xs arbitrary: r)
  case Nil
  show ?case by (simp add: drop_pools_def shrinks_def same_cells_refl)
next
  case (Cons x xs)
  then show ?case
    by (cases x) (auto simp: drop_pools_Cons intro: shrinks_trans [OF retirePool_shrinks])
qed

lemma drop_pools_keeps: "entries_ok xs r \<Longrightarrow> ident \<in> ids \<Longrightarrow> keeps ident r (drop_pools ids xs r)"
proof (induction xs arbitrary: r)
  case Nil
  show ?case by (simp add: drop_pools_def keeps_def)
next
  case (Cons x xs)
  obtain j l where x: "x = (j, l)" by (cases x)
  define r' where "r' = (if j \<in> ids then r else retirePoolLocked j l r)"
  have "shrinks r r'" using retirePool_shrinks [of r j l] by (simp add: r'_def shrinks_def same_cells_refl)
  moreover have "entries_ok xs r" using Cons.prems(1) by (simp add: entries_ok_def)
  ultimately have e: "entries_ok xs r'" by (rule shrinks_entries)
  have "keeps ident r r'"
    using retirePool_keeps [of r l j ident] Cons.prems x by (auto simp: r'_def keeps_def entries_ok_def)
  from keeps_trans [OF this Cons.IH [OF e Cons.prems(2)]] show ?case by (simp add: x drop_pools_Cons r'_def)
qed

lemma drop_pools_ends:
  "entries_ok xs r \<Longrightarrow> (ident, l) \<in> set xs \<Longrightarrow> ident \<notin> ids \<Longrightarrow> \<not> live (drop_pools ids xs r) ident l"
proof (induction xs arbitrary: r)
  case (Cons x xs)
  obtain j m where x: "x = (j, m)" by (cases x)
  define r' where "r' = (if j \<in> ids then r else retirePoolLocked j m r)"
  have s: "shrinks r r'" using retirePool_shrinks [of r j m] by (simp add: r'_def shrinks_def same_cells_refl)
  moreover have "entries_ok xs r" using Cons.prems(1) by (simp add: entries_ok_def)
  ultimately have e: "entries_ok xs r'" by (rule shrinks_entries)
  show ?case
  proof (cases "(ident, l) \<in> set xs")
    case True
    with Cons.IH [OF e] Cons.prems(3) show ?thesis by (simp add: x drop_pools_Cons r'_def)
  next
    case False
    then have "x = (ident, l)" using Cons.prems(2) by auto
    then have "\<not> live r' ident l"
      using retirePool_ends [of r l ident] Cons.prems(1,3) x by (simp add: r'_def entries_ok_def)
    moreover have "live r' ident l" if "live (drop_pools ids xs r') ident l"
      using shrinks_live [OF drop_pools_shrinks _ _ that] e by (simp add: entries_ok_def)
    ultimately show ?thesis by (auto simp: x drop_pools_Cons r'_def)
  qed
qed simp

section \<open>The operations keep the invariant\<close>

datatype RegOp = OpDoer Config | OpRetain "Config list" | OpBegin nat | OpEnd nat

definition reg_apply :: "RegOp \<Rightarrow> TransportRegistry \<Rightarrow> TransportRegistry option" where
  "reg_apply op r =
     (case op of
        OpDoer c \<Rightarrow> map_option fst (Registry_Doer c r)
      | OpRetain active \<Rightarrow> Transport_Retain active r
      | OpBegin l \<Rightarrow> (if l < length (tr_cells r) then Some (lease_begin l r) else None)
      | OpEnd l \<Rightarrow> (if l < length (tr_cells r) then Some (lease_end l r) else None))"

fun reg_run :: "RegOp list \<Rightarrow> TransportRegistry \<Rightarrow> TransportRegistry option" where
  "reg_run [] r = Some r"
| "reg_run (op # ops) r = (case reg_apply op r of None \<Rightarrow> None | Some r' \<Rightarrow> reg_run ops r')"

lemma reg_ok_shrink:
  assumes "reg_ok r" and "shrinks r r'"
    and "\<And>ident l. live r' ident l \<Longrightarrow> keeps ident r r'"
  shows "reg_ok r'"
proof -
  have c: "cells_ok r" "distinct (map fst (tr_pools r))" "paired r" using assms(1) by (simp_all add: reg_ok_def)
  have "paired r'"
    unfolding paired_def
  proof (intro allI impI)
    fix ident l assume l: "live r' ident l"
    then have "live r ident l" using shrinks_live [OF assms(2) c(2,1)] by blast
    with c(3) assms(3) [OF l] show "doer_at r' (''pool '' @ ident) = Some (PoolDoer l)"
      by (simp add: paired_def keeps_def)
  qed
  with c assms(2) cells_ok_same [of r r'] show ?thesis by (simp add: reg_ok_def shrinks_def)
qed

lemma pool_key: "cf_Kind c = EgressPool \<Longrightarrow> Config_Key c \<noteq> None \<Longrightarrow>
    \<exists>p. cf_Pool c = Some p \<and> Config_Key c = Some (''pool '' @ pl_identity p)"
  by (auto simp: Config_Key_def)

lemma retained_pool_key:
  "\<not> list_ex (\<lambda>c. Config_Key c = None) active \<Longrightarrow> ident \<in> retained_ids active \<Longrightarrow>
   ''pool '' @ ident \<in> retained_keys active"
  by (force simp: retained_ids_def retained_keys_def list_ex_iff dest!: pool_key)

lemma Retain_effect:
  assumes "reg_ok r" and "Transport_Retain active r = Some r'"
  shows "shrinks r r'" and "ident \<in> retained_ids active \<Longrightarrow> keeps ident r r'"
    and "ident \<notin> retained_ids active \<Longrightarrow> \<not> live r' ident l"
proof -
  define m where "m = drop_doers (retained_keys active) (tr_doers r) r"
  have nk: "\<not> list_ex (\<lambda>c. Config_Key c = None) active"
    and r': "r' = drop_pools (retained_ids active) (tr_pools r) m"
    using assms(2) by (auto simp: Retain_alt m_def split: if_splits)
  have sm: "shrinks r m" by (simp add: shrinks_def m_def drop_doers_frame same_cells_eq)
  have "entries_ok (tr_pools r) r" using assms(1) by (auto simp: entries_ok_def reg_ok_def cells_ok_def)
  then have e: "entries_ok (tr_pools r) m" by (rule shrinks_entries [OF sm])
  show s: "shrinks r r'" unfolding r' using shrinks_trans [OF sm drop_pools_shrinks] .
  show "keeps ident r r'" if "ident \<in> retained_ids active"
  proof -
    have "keeps ident r m"
      using drop_doers_frame(3) [OF retained_pool_key [OF nk that]] by (simp add: keeps_def m_def drop_doers_frame)
    then show ?thesis unfolding r' using keeps_trans drop_pools_keeps [OF e that] by blast
  qed
  show "\<not> live r' ident l" if "ident \<notin> retained_ids active"
  proof
    assume l: "live r' ident l"
    then have "(ident, l) \<in> set (tr_pools r)"
      using s by (auto simp: shrinks_def live_def dest!: map_of_SomeD)
    with drop_pools_ends [OF e _ that] l show False by (simp add: r')
  qed
qed

lemma cell_op_shrinks:
  assumes "\<And>st. ps_pool (f st) = ps_pool st" and "\<And>st. ps_retired (f st) = ps_retired st"
  shows "shrinks r (upd_cell l f r)" and "cells_ok r \<Longrightarrow> live (upd_cell l f r) ident l' = live r ident l'"
proof -
  show "shrinks r (upd_cell l f r)" using assms upd_cell_same [of f r l] by (simp add: shrinks_def)
  show "live (upd_cell l f r) ident l' = live r ident l'" if "cells_ok r"
    using assms cells_okD [OF that] by (auto simp: live_def cell_retired_def upd_cell_nth split: if_splits)
qed

lemma cell_op_ok:
  assumes "\<And>st. ps_pool (f st) = ps_pool st" and "\<And>st. ps_retired (f st) = ps_retired st" and "reg_ok r"
  shows "reg_ok (upd_cell l f r)"
  using cell_op_shrinks [of f, OF assms(1,2)] assms(3) cells_ok_same [of r "upd_cell l f r"]
  by (simp add: reg_ok_def shrinks_def paired_def)

text \<open>The end of a lease: a deferred teardown touches only a retired state's own entry.\<close>

lemma lease_end_cases:
  fixes l r
  defines "u \<equiv> upd_cell l (\<lambda>st. fst (end_lease st)) r"
  shows "lease_end l r =
     (if cell_retired r l \<and> cell_leases r l \<le> 1 then finishRetireLocked (ident_of r l) l u else u)"
  by (simp add: lease_end_def end_lease_def Let_def u_def cell_retired_def cell_leases_def upd_cell_def)

lemma end_lease_frame: "ps_pool (fst (end_lease st)) = ps_pool st" "ps_retired (fst (end_lease st)) = ps_retired st"
  by (simp_all add: end_lease_def Let_def)

lemma finishRetire_shrinks: "shrinks r (finishRetireLocked ident l r)"
  by (auto simp: shrinks_def same_cells_eq finishRetire_pools AList.delete_eq distinct_map_filter
      split: option.splits)

lemma finishRetire_live:
  assumes "cells_ok r" and "l < length (tr_cells r)" and "cell_retired r l" and "live r ident l'"
  shows "keeps ident r (finishRetireLocked (ident_of r l) l r)"
proof (cases "ident = ident_of r l")
  case True
  have "l' \<noteq> l" using assms(3,4) by (auto simp: live_def)
  with True assms(4) show ?thesis by (simp add: keeps_def finishRetireLocked_def live_def)
next
  case False
  with finishRetire_keeps [OF assms(1,2)] show ?thesis by blast
qed

lemma lease_end_effect:
  assumes "reg_ok r" and "l < length (tr_cells r)"
  shows "reg_ok (lease_end l r)" and "live r ident l' \<Longrightarrow> live (lease_end l r) ident l'"
proof -
  define u where "u = upd_cell l (\<lambda>st. fst (end_lease st)) r"
  have u: "reg_ok u" unfolding u_def using assms(1) end_lease_frame by (intro cell_op_ok)
  have lu: "live u ident l' = live r ident l'" for ident l'
    unfolding u_def using cell_op_shrinks(2) end_lease_frame assms(1) by (simp add: reg_ok_def)
  have cu: "cells_ok u" "l < length (tr_cells u)" "ident_of u l = ident_of r l" "cell_retired u l = cell_retired r l"
    using u assms(2) end_lease_frame by (simp_all add: reg_ok_def u_def upd_cell_nth cell_retired_def)
  have k: "keeps ident u (finishRetireLocked (ident_of r l) l u)" if "cell_retired r l" "live u ident l'" for ident l'
    using finishRetire_live [OF cu(1,2) _ that(2)] cu(3,4) that(1) by simp
  have "reg_ok (finishRetireLocked (ident_of r l) l u)" if "cell_retired r l"
  proof (rule reg_ok_shrink [OF u finishRetire_shrinks])
    fix ident la assume "live (finishRetireLocked (ident_of r l) l u) ident la"
    then have "live u ident la" using shrinks_live [OF finishRetire_shrinks] u by (auto simp: reg_ok_def)
    then show "keeps ident u (finishRetireLocked (ident_of r l) l u)" by (rule k [OF that])
  qed
  with u show "reg_ok (lease_end l r)" by (simp add: lease_end_cases u_def [symmetric])
  show "live (lease_end l r) ident l'" if "live r ident l'"
    using that lu [of ident l'] keeps_live [OF k [of ident l']] by (simp add: lease_end_cases u_def [symmetric])
qed

section \<open>Resolving a doer\<close>

lemma set_doer_frame [simp]:
  "tr_pools (set_doer k d r) = tr_pools r" "tr_cells (set_doer k d r) = tr_cells r"
  "doer_at (set_doer k d r) = (doer_at r)(k \<mapsto> d)"
  by (simp_all add: set_doer_def update_conv')

text \<open>A plain doer only adds entries under keys that are not pool keys.\<close>

definition adds_plain :: "TransportRegistry \<Rightarrow> TransportRegistry \<Rightarrow> bool" where
  "adds_plain r r' \<longleftrightarrow>
     tr_pools r' = tr_pools r \<and> tr_cells r' = tr_cells r
     \<and> (\<forall>ident. doer_at r' (''pool '' @ ident) = doer_at r (''pool '' @ ident))"

lemma plain_key: "Config_Key c = Some k \<Longrightarrow> cf_Kind c \<noteq> EgressPool \<Longrightarrow> k \<noteq> ''pool '' @ ident"
  by (auto simp: Config_Key_def split: Kind.splits)

lemma plain_doer_adds: "plain_doer c r = Some (r', d) \<Longrightarrow> adds_plain r r'"
  by (auto simp: plain_doer_def adds_plain_def Let_def dest: plain_key split: option.splits if_splits)

lemma member_doers_adds: "member_doers cs r = Some (r', ds) \<Longrightarrow> adds_plain r r'"
proof (induction cs arbitrary: r ds)
  case Nil
  then show ?case by (simp add: adds_plain_def)
next
  case (Cons c cs)
  then obtain r1 d ds' where "plain_doer c r = Some (r1, d)" "member_doers cs r1 = Some (r', ds')"
    by (auto split: option.splits)
  with Cons.IH plain_doer_adds show ?case by (fastforce simp: adds_plain_def)
qed

lemma adds_plain_ok: "adds_plain r r' \<Longrightarrow> reg_ok r \<Longrightarrow> reg_ok r' \<and> (\<forall>ident l. live r' ident l = live r ident l)"
  by (simp add: adds_plain_def reg_ok_def cells_ok_def paired_def live_def cell_retired_def)

lemma add_cell_ok:
  fixes r ds p k
  assumes ok: "reg_ok r" and k: "k = ''pool '' @ pl_identity p"
  defines "r' \<equiv> set_doer k (PoolDoer (length (tr_cells r))) (add_cell p ds r)"
  shows "reg_ok r'" and "live r' (pl_identity p) (length (tr_cells r))"
    and "ident \<noteq> pl_identity p \<Longrightarrow> live r' ident l = live r ident l"
proof -
  let ?n = "length (tr_cells r)"
  have pools: "pool_at r' = (pool_at r)(pl_identity p \<mapsto> ?n)" "tr_pools r' = AList.update (pl_identity p) ?n (tr_pools r)"
    by (simp_all add: r'_def add_cell_def Let_def update_conv')
  have old: "tr_cells r' ! l = tr_cells r ! l" if "l < ?n" for l using that by (simp add: r'_def add_cell_def Let_def nth_append)
  have new: "tr_cells r' ! ?n = \<lparr>pc_state = fresh_state p, pc_key = ''pool '' @ pl_identity p, pc_clients = ds\<rparr>"
    and len: "length (tr_cells r') = Suc ?n"
    by (simp_all add: r'_def add_cell_def Let_def)
  have c: "cells_ok r" "distinct (map fst (tr_pools r))" "paired r" using ok by (simp_all add: reg_ok_def)
  have in_range: "l < ?n" if "pool_at r ident = Some l" for ident l using cells_okD [OF c(1) that] by simp
  show lp: "live r' (pl_identity p) ?n" unfolding live_def pools(1) by (simp add: cell_retired_def new fresh_state_def)
  show lo: "live r' ident l = live r ident l" if "ident \<noteq> pl_identity p" for ident l
    using that in_range old unfolding live_def pools(1) by (auto simp: cell_retired_def)
  have d: "distinct (map fst (tr_pools r'))" unfolding pools(2) using c(2) by (rule distinct_update)
  have "cells_ok r'"
    unfolding cells_ok_def
  proof (intro conjI allI impI ballI)
    fix l assume "l < length (tr_cells r')"
    then show "pc_key (tr_cells r' ! l) = ''pool '' @ ident_of r' l"
      using c(1) old new len by (cases "l = ?n") (auto simp: cells_ok_def fresh_state_def)
  next
    fix x assume m: "x \<in> set (tr_pools r')"
    obtain ident l where x: "x = (ident, l)" by (cases x)
    with m d have "pool_at r' ident = Some l" by simp
    with x show "case x of (ident, l) \<Rightarrow> l < length (tr_cells r') \<and> ident_of r' l = ident"
      using cells_okD [OF c(1), of ident l] old new len
      by (cases "ident = pl_identity p") (auto simp: pools(1) fresh_state_def)
  qed
  moreover have "paired r'"
    unfolding paired_def
  proof (intro allI impI)
    fix ident l assume l: "live r' ident l"
    show "doer_at r' (''pool '' @ ident) = Some (PoolDoer l)"
    proof (cases "ident = pl_identity p")
      case True
      with l show ?thesis unfolding live_def pools(1) by (simp add: r'_def k)
    next
      case False
      with l lo c(3) have "doer_at r (''pool '' @ ident) = Some (PoolDoer l)" by (simp add: paired_def)
      with False show ?thesis by (simp add: r'_def k add_cell_def Let_def)
    qed
  qed
  ultimately show "reg_ok r'" using d by (simp add: reg_ok_def)
qed

lemma newPoolDoer_effect:
  assumes ok: "reg_ok r" and k: "k = ''pool '' @ pl_identity p"
    and n: "newPoolDoerLocked p k r = Some (r', d)"
  shows "reg_ok (set_doer k d r')"
    and "\<exists>l. d = PoolDoer l \<and> live (set_doer k d r') (pl_identity p) l"
    and "live r ident l \<Longrightarrow> live (set_doer k d r') ident l"
proof -
  have paired: "paired r" and cells: "cells_ok r" using ok by (simp_all add: reg_ok_def)
  show "reg_ok (set_doer k d r')"
    and "\<exists>l. d = PoolDoer l \<and> live (set_doer k d r') (pl_identity p) l"
    and "live r ident l \<Longrightarrow> live (set_doer k d r') ident l"
  proof (atomize (full), cases "\<exists>m. live r (pl_identity p) m")
    case True
    then obtain m where m: "live r (pl_identity p) m" by blast
    have dm: "doer_at r k = Some (PoolDoer m)" using paired m k by (simp add: paired_def)
    with n m have r': "r' = r" "d = PoolDoer m" by (auto simp: newPoolDoerLocked_def live_def)
    have "adds_plain r (set_doer k d r)"
      using dm r'(2) by (simp add: adds_plain_def)
    with adds_plain_ok ok m r' show "reg_ok (set_doer k d r') \<and> (\<exists>l. d = PoolDoer l \<and> live (set_doer k d r') (pl_identity p) l)
        \<and> (live r ident l \<longrightarrow> live (set_doer k d r') ident l)" by auto
  next
    case False
    then obtain r1 ds where md: "member_doers (map mb_Endpoint (pl_Members p)) r = Some (r1, ds)"
      and r': "r' = set_doer k d (add_cell p ds r1)" and d: "d = PoolDoer (length (tr_cells r))"
      using n by (auto simp: newPoolDoerLocked_def newPoolStateLocked_def live_def split: option.splits if_splits)
    note a = member_doers_adds [OF md]
    have ok1: "reg_ok r1" and lv: "\<And>ident l. live r1 ident l = live r ident l" using adds_plain_ok [OF a ok] by auto
    have len: "length (tr_cells r1) = length (tr_cells r)" using a by (simp add: adds_plain_def)
    note c = add_cell_ok [OF ok1 k, where ds = ds, unfolded len, folded d, folded r']
    have "adds_plain r' (set_doer k d r')" by (simp add: adds_plain_def r')
    note s = adds_plain_ok [OF this c(1)]
    have "live r' ident l" if "live r ident l"
      using that c(3) [of ident l] lv False by auto
    with s c(2) d show "reg_ok (set_doer k d r') \<and> (\<exists>l. d = PoolDoer l \<and> live (set_doer k d r') (pl_identity p) l)
        \<and> (live r ident l \<longrightarrow> live (set_doer k d r') ident l)" by auto
  qed
qed

lemma Registry_Doer_effect:
  assumes ok: "reg_ok r" and n: "Registry_Doer c r = Some (r', d)"
  shows "reg_ok r'" and "live r ident l \<Longrightarrow> live r' ident l"
    and "cf_Kind c = EgressPool \<Longrightarrow> \<exists>l. d = PoolDoer l \<and> live r' (pl_identity (the (cf_Pool c))) l"
proof -
  have "reg_ok r' \<and> (live r ident l \<longrightarrow> live r' ident l)
      \<and> (cf_Kind c = EgressPool \<longrightarrow> (\<exists>l. d = PoolDoer l \<and> live r' (pl_identity (the (cf_Pool c))) l))"
  proof (cases "cf_Kind c = EgressPool")
    case True
    then obtain p r1 where p: "cf_Pool c = Some p" and k: "Config_Key c = Some (''pool '' @ pl_identity p)"
      and d: "newPoolDoerLocked p (''pool '' @ pl_identity p) r = Some (r1, d)"
      and r': "r' = set_doer (''pool '' @ pl_identity p) d r1"
      using n by (auto simp: Registry_Doer_def Config_Key_def split: option.splits)
    with newPoolDoer_effect [OF ok refl d] show ?thesis by simp
  next
    case False
    with n have "plain_doer c r = Some (r', d)"
      by (auto simp: Registry_Doer_def split: option.splits Kind.splits)
    from adds_plain_ok [OF plain_doer_adds [OF this] ok] False show ?thesis by simp
  qed
  then show "reg_ok r'" and "live r ident l \<Longrightarrow> live r' ident l"
    and "cf_Kind c = EgressPool \<Longrightarrow> \<exists>l. d = PoolDoer l \<and> live r' (pl_identity (the (cf_Pool c))) l" by simp_all
qed

lemma reg_apply_ok: "reg_apply op r = Some r' \<Longrightarrow> reg_ok r \<Longrightarrow> reg_ok r'"
proof (cases op)
  case (OpRetain active)
  assume a: "reg_apply op r = Some r'" and ok: "reg_ok r"
  have R: "Transport_Retain active r = Some r'" using a OpRetain by (simp add: reg_apply_def)
  show "reg_ok r'" using Retain_effect [OF ok R] by (intro reg_ok_shrink [OF ok]) blast+
qed (auto simp: reg_apply_def lease_begin_def begin_lease_def intro: Registry_Doer_effect(1) lease_end_effect(1) cell_op_ok
       split: if_splits)

lemma NewTransportRegistry_ok: "reg_ok NewTransportRegistry"
  by (simp add: reg_ok_def cells_ok_def paired_def live_def NewTransportRegistry_def)

lemma reg_run_ok: "reg_run ops r = Some r' \<Longrightarrow> reg_ok r \<Longrightarrow> reg_ok r'"
  by (induction ops arbitrary: r) (auto split: option.splits dest: reg_apply_ok)

lemma reg_apply_live:
  assumes "reg_apply op r = Some r'" and "reg_ok r" and "live r ident l"
    and "\<And>active. op = OpRetain active \<Longrightarrow> ident \<in> retained_ids active"
  shows "live r' ident l"
proof (cases op)
  case (OpDoer c)
  with assms show ?thesis by (auto simp: reg_apply_def dest: Registry_Doer_effect(2))
next
  case (OpRetain active)
  have R: "Transport_Retain active r = Some r'" using assms(1) OpRetain by (simp add: reg_apply_def)
  from keeps_live [OF Retain_effect(2) [OF assms(2) R assms(4) [OF OpRetain]] assms(3)] show ?thesis .
next
  case (OpBegin m)
  with assms show ?thesis
    using cell_op_shrinks(2) [where f = begin_lease and r = r and ident = ident and l = m and l' = l]
    by (auto simp: reg_apply_def lease_begin_def begin_lease_def reg_ok_def split: if_splits)
next
  case (OpEnd m)
  with assms show ?thesis by (auto simp: reg_apply_def lease_end_effect(2) split: if_splits)
qed

lemma reg_run_live:
  "reg_run ops r = Some r' \<Longrightarrow> reg_ok r \<Longrightarrow> live r ident l \<Longrightarrow>
   (\<forall>active. OpRetain active \<in> set ops \<longrightarrow> ident \<in> retained_ids active) \<Longrightarrow> live r' ident l"
proof (induction ops arbitrary: r)
  case (Cons op ops)
  then obtain m where m: "reg_apply op r = Some m" "reg_run ops m = Some r'" by (auto split: option.splits)
  from reg_apply_live [OF m(1) Cons.prems(2,3)] reg_apply_ok [OF m(1) Cons.prems(2)] Cons.IH [OF m(2)] Cons.prems(4)
  show ?case by auto
qed simp

lemma live_resolves:
  assumes "reg_ok r" and "live r (pl_identity p) l" and "cf_Kind c = EgressPool" and "cf_Pool c = Some p"
  shows "\<exists>r'. Registry_Doer c r = Some (r', PoolDoer l)"
proof -
  have "doer_at r (''pool '' @ pl_identity p) = Some (PoolDoer l)" using assms(1,2) by (simp add: reg_ok_def paired_def)
  with assms(2,3,4) show ?thesis
    by (simp add: Registry_Doer_def Config_Key_def newPoolDoerLocked_def live_def)
qed

text \<open>A leased state keeps its entry and its leases through a reload.\<close>

lemma retirePool_leased:
  assumes "cells_ok r" and "j < length (tr_cells r)" and "ident_of r j = ident'"
    and "pool_at r ident = Some l" and "0 < cell_leases r l"
  shows "pool_at (retirePoolLocked ident' j r) ident = Some l"
    and "cell_leases (retirePoolLocked ident' j r) l = cell_leases r l"
proof -
  have l: "l < length (tr_cells r)" "ident_of r l = ident" using cells_okD [OF assms(1,4)] by simp_all
  have "pool_at (retirePoolLocked ident' j r) ident = Some l \<and> cell_leases (retirePoolLocked ident' j r) l = cell_leases r l"
  proof (cases "0 < cell_leases r j")
    case True
    with assms(4) l show ?thesis by (auto simp: retirePoolLocked_def cell_leases_def upd_cell_nth)
  next
    case False
    with assms(4,5) have "j \<noteq> l" by auto
    with False assms l show ?thesis
      by (auto simp: retirePoolLocked_def finishRetire_pools delete_conv' cell_leases_def)
  qed
  then show "pool_at (retirePoolLocked ident' j r) ident = Some l"
    and "cell_leases (retirePoolLocked ident' j r) l = cell_leases r l" by simp_all
qed

lemma drop_pools_leased:
  "entries_ok xs r \<Longrightarrow> pool_at r ident = Some l \<Longrightarrow> 0 < cell_leases r l \<Longrightarrow>
   pool_at (drop_pools ids xs r) ident = Some l \<and> cell_leases (drop_pools ids xs r) l = cell_leases r l"
proof (induction xs arbitrary: r)
  case (Cons x xs)
  obtain j m where x: "x = (j, m)" by (cases x)
  define r' where "r' = (if j \<in> ids then r else retirePoolLocked j m r)"
  have "shrinks r r'" using retirePool_shrinks [of r j m] by (simp add: r'_def shrinks_def same_cells_refl)
  moreover have "entries_ok xs r" using Cons.prems(1) by (simp add: entries_ok_def)
  ultimately have e: "entries_ok xs r'" by (rule shrinks_entries)
  have "pool_at r' ident = Some l \<and> cell_leases r' l = cell_leases r l"
    using retirePool_leased [of r m j ident l] Cons.prems x by (auto simp: r'_def entries_ok_def)
  with Cons.IH [OF e] Cons.prems(3) show ?case by (simp add: x drop_pools_Cons r'_def)
qed (simp add: drop_pools_def)

lemma Retain_leased:
  assumes "reg_ok r" and "Transport_Retain active r = Some r'" and "pool_at r ident = Some l" and "0 < cell_leases r l"
  shows "pool_at r' ident = Some l \<and> cell_leases r' l = cell_leases r l"
proof -
  define m where "m = drop_doers (retained_keys active) (tr_doers r) r"
  have r': "r' = drop_pools (retained_ids active) (tr_pools r) m"
    using assms(2) by (auto simp: Retain_alt m_def split: if_splits)
  have "entries_ok (tr_pools r) m"
    using assms(1) by (auto simp: entries_ok_def reg_ok_def cells_ok_def m_def drop_doers_frame)
  from drop_pools_leased [OF this, of ident l] assms(3,4) show ?thesis
    by (simp add: r' m_def drop_doers_frame cell_leases_def)
qed

lemma Registry_Doer_cells:
  assumes "Registry_Doer c r = Some (r', d)" and "l < length (tr_cells r)"
  shows "l < length (tr_cells r')" and "cell_retired r' l = cell_retired r l"
proof -
  have "\<exists>xs. tr_cells r' = tr_cells r @ xs"
    using assms(1) plain_doer_adds [of c r r' d] member_doers_adds
    by (fastforce simp: Registry_Doer_def newPoolDoerLocked_def newPoolStateLocked_def adds_plain_def add_cell_def Let_def
        split: option.splits Kind.splits if_splits)
  then show "l < length (tr_cells r')" and "cell_retired r' l = cell_retired r l"
    using assms(2) by (auto simp: cell_retired_def nth_append)
qed

section \<open>Theorems\<close>

text \<open>
  A warm pool survives everything but a reload that drops it. In every reachable registry,
  a live pool state stays the registered state of its identity, at the same address, through
  any further resolutions, leases, ends of leases of any generation and reloads that still
  list the pool; its doer stays registered with it, and resolving the pool returns it.
\<close>

theorem warm_pool_survives:
  assumes "reg_run ops NewTransportRegistry = Some r" and "live r (pl_identity p) l"
    and "reg_run later r = Some r'"
    and "\<forall>active. OpRetain active \<in> set later \<longrightarrow> pl_identity p \<in> retained_ids active"
  shows "live r' (pl_identity p) l \<and> doer_at r' (''pool '' @ pl_identity p) = Some (PoolDoer l)
         \<and> (\<exists>r''. Registry_Doer (Config EgressPool u (Some p)) r' = Some (r'', PoolDoer l))"
proof -
  have ok: "reg_ok r" using reg_run_ok [OF assms(1) NewTransportRegistry_ok] .
  have ok': "reg_ok r'" using reg_run_ok [OF assms(3) ok] .
  have lv: "live r' (pl_identity p) l" using reg_run_live [OF assms(3) ok assms(2,4)] .
  with ok' live_resolves [OF ok' lv] show ?thesis by (simp add: reg_ok_def paired_def)
qed


text \<open>A pool with one direct member, resolved and leased once.\<close>

definition ex_policy :: EgressPolicy where
  "ex_policy = Pool [Member (Config Direct None None) 0 0 True 1] RoundRobin
     \<lparr>ef_Enabled = False, ef_MaxAttempts = 1\<rparr> \<lparr>hp_Enabled = False, hp_FailureThreshold = 0, hp_Cooldown = 0\<rparr> ''p''"

definition ex_leased :: TransportRegistry where
  "ex_leased = lease_begin 0 (set_doer ''pool p'' (PoolDoer 0) (add_cell ex_policy [ClientDoer 0]
     (set_doer ''direct'' (ClientDoer 0) (NewTransportRegistry\<lparr>tr_built := 1\<rparr>))))"

lemma ex_leased_run:
  "reg_run [OpDoer (Config EgressPool None (Some ex_policy)), OpBegin 0] NewTransportRegistry = Some ex_leased"
  by (simp add: reg_apply_def Registry_Doer_def Config_Key_def ex_policy_def newPoolDoerLocked_def newPoolStateLocked_def
      NewTransportRegistry_def plain_doer_def ex_leased_def set_doer_def add_cell_def Let_def lease_begin_def)

lemma ex_leased_facts:
  "live ex_leased (pl_identity ex_policy) 0" "pool_at ex_leased (pl_identity ex_policy) = Some 0" "cell_leases ex_leased 0 = 1"
  by (simp_all add: ex_leased_def live_def lease_begin_def upd_cell_def set_doer_def add_cell_def Let_def ex_policy_def
      NewTransportRegistry_def cell_retired_def cell_leases_def fresh_state_def begin_lease_def)

theorem warm_pool_survives_witness:
  "\<exists>r'. reg_run [OpRetain [Config EgressPool None (Some ex_policy)], OpEnd 0] ex_leased = Some r'
       \<and> live r' (pl_identity ex_policy) 0"
proof -
  have ids: "retained_ids [Config EgressPool None (Some ex_policy)] = {pl_identity ex_policy}"
    by (simp add: retained_ids_def conj_commute cong: conj_cong)
  obtain m where m: "Transport_Retain [Config EgressPool None (Some ex_policy)] ex_leased = Some m"
    by (simp add: Retain_alt Config_Key_def)
  have "length (tr_cells m) = length (tr_cells ex_leased)"
    using Retain_effect(1) [OF reg_run_ok [OF ex_leased_run NewTransportRegistry_ok] m]
    by (simp add: shrinks_def same_cells_def)
  then have "0 < length (tr_cells m)" by (simp add: ex_leased_def lease_begin_def upd_cell_def set_doer_def add_cell_def Let_def)
  with m have "\<exists>r'. reg_run [OpRetain [Config EgressPool None (Some ex_policy)], OpEnd 0] ex_leased = Some r'"
    by (simp add: reg_apply_def)
  then obtain r' where r': "reg_run [OpRetain [Config EgressPool None (Some ex_policy)], OpEnd 0] ex_leased = Some r'"
    by blast
  from warm_pool_survives [OF ex_leased_run ex_leased_facts(1) r'] ids r' show ?thesis by auto
qed


end
