(* ===== verification/SSE_Line.thy ===== *)
theory SSE_Line
  imports Prelude
begin

text \<open>
  The line level of \<open>internal/proxy/sse.go\<close>: terminators, data and event lines, the rewrite of one
  line, and the bounded line reader over a buffered source. Bytes are characters. The lemmas
  show that the reader frames the same bytes the same way however the transport split them,
  and that a rewritten line keeps everything but its payload.
\<close>

section \<open>Lines\<close>

abbreviation CR :: char where "CR \<equiv> CHR 0x0D"
abbreviation LF :: char where "LF \<equiv> CHR 0x0A"

definition MaxLineBytes :: nat where "MaxLineBytes = 1048576"
definition MaxEventBytes :: nat where "MaxEventBytes = 2097152"

definition splitSSELineTerminator :: "string \<Rightarrow> string \<times> string" where
  "splitSSELineTerminator line =
     (let n = length line
      in if n \<ge> 2 \<and> line ! (n - 2) = CR \<and> line ! (n - 1) = LF then (take (n - 2) line, drop (n - 2) line)
         else if n \<ge> 1 \<and> (line ! (n - 1) = LF \<or> line ! (n - 1) = CR) then (take (n - 1) line, drop (n - 1) line)
         else (line, []))"

text \<open>\<open>bytes.CutPrefix\<close>, and the one optional space after it.\<close>

definition cut_prefix :: "string \<Rightarrow> string \<Rightarrow> string option" where
  "cut_prefix p s = (if take (length p) s = p then Some (drop (length p) s) else None)"

definition skip_space :: "string \<Rightarrow> string" where
  "skip_space s = (case s of c # cs \<Rightarrow> if c = CHR '' '' then cs else s | [] \<Rightarrow> [])"

definition sseDataPayload :: "string \<Rightarrow> string option" where
  "sseDataPayload line = map_option skip_space (cut_prefix ''data:'' (fst (splitSSELineTerminator line)))"

definition sseEventName :: "string \<Rightarrow> string option" where
  "sseEventName line = map_option skip_space (cut_prefix ''event:'' (fst (splitSSELineTerminator line)))"

definition isEventBoundary :: "string \<Rightarrow> bool" where
  "isEventBoundary line \<longleftrightarrow> line = [LF] \<or> line = [CR] \<or> line = [CR, LF]"

definition isTerminalSSELine :: "string \<Rightarrow> bool" where
  "isTerminalSSELine b \<longleftrightarrow>
     fst (splitSSELineTerminator b) \<in> {''data: [DONE]'', ''event: response.completed'', ''event: message_stop''}"

fun contains :: "string \<Rightarrow> string \<Rightarrow> bool" where
  "contains k [] = (k = [])"
| "contains k (c # cs) = (take (length k) (c # cs) = k \<or> contains k cs)"

definition mentionsAnyKey :: "string \<Rightarrow> string list \<Rightarrow> bool" where
  "mentionsAnyKey payload keys = list_ex (\<lambda>k. contains k payload) keys"

definition sseModelKey :: string where "sseModelKey = [CHR 0x22] @ ''model'' @ [CHR 0x22]"
definition sseUsageKey :: string where "sseUsageKey = [CHR 0x22] @ ''usage'' @ [CHR 0x22]"

text \<open>
  The rewrite of one line. The source returns the line itself when the rewriter returned its
  input slice; by value that is the rebuilt line, since the payload is unchanged.
\<close>

definition rewriteSSELine :: "string \<Rightarrow> (string \<Rightarrow> string) \<Rightarrow> string list \<Rightarrow> string" where
  "rewriteSSELine line rewrite stripKeys =
     (case sseDataPayload line of
        None \<Rightarrow> line
      | Some payload \<Rightarrow>
          if \<not> contains sseModelKey payload \<and> \<not> contains sseUsageKey payload \<and> \<not> mentionsAnyKey payload stripKeys
          then line
          else let out = rewrite payload; (content, term) = splitSSELineTerminator line;
                   head = take (length content - length payload) content
               in if out = payload then line else head @ out @ term)"

section \<open>The bounded line reader\<close>

text \<open>
  A \<open>bufio.Reader\<close> over a source: the buffered bytes, the chunks the source's reads will return,
  and how the source ends. \<open>fill\<close> is the read behind a \<open>Peek\<close> of an empty buffer; empty reads are
  retried.
\<close>

datatype SourceEnd = SrcEOF | SrcFailed
datatype ReadErr = RSource SourceEnd | RBufferFull | RLineTooLong nat

record LineReader =
  lr_buf :: string
  lr_src :: "string list"
  lr_end :: SourceEnd

fun next_chunk :: "string list \<Rightarrow> string \<times> string list" where
  "next_chunk [] = ([], [])"
| "next_chunk (c # cs) = (if c = [] then next_chunk cs else (c, cs))"

definition fill :: "LineReader \<Rightarrow> LineReader" where
  "fill r = r\<lparr>lr_buf := fst (next_chunk (lr_src r)), lr_src := snd (next_chunk (lr_src r))\<rparr>"

definition index_byte :: "char \<Rightarrow> string \<Rightarrow> nat option" where
  "index_byte c bs = (if c \<in> set bs then Some (length (takeWhile (\<lambda>x. x \<noteq> c) bs)) else None)"

definition readToLineEnd :: "LineReader \<Rightarrow> string \<times> ReadErr option \<times> LineReader" where
  "readToLineEnd r0 =
     (let r = (if lr_buf r0 = [] then fill r0 else r0); b = lr_buf r
      in if b = [] then ([], Some (RSource (lr_end r)), r)
         else let lf = index_byte LF b;
                  scan = (case lf of Some i \<Rightarrow> take i b | None \<Rightarrow> b)
              in case index_byte CR scan of
                   Some cr \<Rightarrow> (take (cr + 1) b, None, r\<lparr>lr_buf := drop (cr + 1) b\<rparr>)
                 | None \<Rightarrow>
                     (case lf of
                        Some i \<Rightarrow> (take (i + 1) b, None, r\<lparr>lr_buf := drop (i + 1) b\<rparr>)
                      | None \<Rightarrow> (b, Some RBufferFull, r\<lparr>lr_buf := []\<rparr>)))"

text \<open>The bytes the reader has not returned yet.\<close>

definition unread :: "LineReader \<Rightarrow> string" where
  "unread r = lr_buf r @ concat (lr_src r)"

lemma next_chunk_concat:
  "fst (next_chunk cs) @ concat (snd (next_chunk cs)) = concat cs" "fst (next_chunk cs) = [] \<longleftrightarrow> concat cs = []"
  by (induction cs) auto

lemma fill_unread: "lr_buf r = [] \<Longrightarrow> unread (fill r) = unread r"
  by (simp add: fill_def unread_def next_chunk_concat)

lemma fill_end [simp]: "lr_end (fill r) = lr_end r"
  by (simp add: fill_def)

lemma fill_empty: "lr_buf r = [] \<Longrightarrow> lr_buf (fill r) = [] \<longleftrightarrow> unread r = []"
  by (simp add: fill_def unread_def next_chunk_concat)

text \<open>A line of a byte sequence: up to and including its first CR or LF.\<close>

definition is_eol :: "char \<Rightarrow> bool" where "is_eol c \<longleftrightarrow> c = CR \<or> c = LF"

definition first_line :: "string \<Rightarrow> string" where
  "first_line bs = takeWhile (\<lambda>c. \<not> is_eol c) bs @ take 1 (dropWhile (\<lambda>c. \<not> is_eol c) bs)"

definition after_line :: "string \<Rightarrow> string" where
  "after_line bs = drop 1 (dropWhile (\<lambda>c. \<not> is_eol c) bs)"

definition has_eol :: "string \<Rightarrow> bool" where
  "has_eol bs \<longleftrightarrow> list_ex is_eol bs"

lemma index_byte_Cons:
  "index_byte c (x # xs) = (if x = c then Some 0 else map_option Suc (index_byte c xs))"
  by (auto simp: index_byte_def)

lemma index_byte_Nil [simp]: "index_byte c [] = None"
  by (simp add: index_byte_def)

definition line_cut :: "string \<Rightarrow> nat option" where
  "line_cut b =
     (let lf = index_byte LF b; scan = (case lf of Some i \<Rightarrow> take i b | None \<Rightarrow> b)
      in case index_byte CR scan of Some cr \<Rightarrow> Some cr | None \<Rightarrow> lf)"

lemma line_cut_Cons:
  "line_cut (x # xs) = (if is_eol x then Some 0 else map_option Suc (line_cut xs))"
  by (cases "index_byte LF xs") (auto simp: line_cut_def index_byte_Cons is_eol_def Let_def split: option.splits)

lemma line_cut_spec:
  "line_cut b = (if has_eol b then Some (length (takeWhile (\<lambda>c. \<not> is_eol c) b)) else None)"
  by (induction b) (simp_all add: line_cut_Cons has_eol_def, simp add: line_cut_def)

lemma first_line_cut:
  assumes "has_eol b" and "k = length (takeWhile (\<lambda>c. \<not> is_eol c) b)"
  shows "first_line b = take (Suc k) b" and "after_line b = drop (Suc k) b"
proof -
  have t: "takeWhile (\<lambda>c. \<not> is_eol c) b = take k b" unfolding assms(2) by (rule takeWhile_eq_take)
  have d: "dropWhile (\<lambda>c. \<not> is_eol c) b = drop k b" unfolding assms(2) by (rule dropWhile_eq_drop)
  have "take k b @ take 1 (drop k b) = take (Suc k) b" by (metis Suc_eq_plus1 take_add)
  with t d show "first_line b = take (Suc k) b" by (simp add: first_line_def)
  from d show "after_line b = drop (Suc k) b" by (simp add: after_line_def)
qed

lemma readToLineEnd_alt:
  "readToLineEnd r0 =
     (let r = (if lr_buf r0 = [] then fill r0 else r0); b = lr_buf r
      in if b = [] then ([], Some (RSource (lr_end r)), r)
         else (case line_cut b of
                 Some k \<Rightarrow> (take (k + 1) b, None, r\<lparr>lr_buf := drop (k + 1) b\<rparr>)
               | None \<Rightarrow> (b, Some RBufferFull, r\<lparr>lr_buf := []\<rparr>)))"
  by (simp add: readToLineEnd_def line_cut_def Let_def split: option.splits)

lemma first_line_append: "has_eol a \<Longrightarrow> first_line (a @ b) = first_line a \<and> after_line (a @ b) = after_line a @ b"
proof (induction a)
  case (Cons x a)
  then show ?case by (cases "is_eol x") (auto simp: first_line_def after_line_def has_eol_def)
qed (simp add: has_eol_def)

lemma readToLineEnd_cases:
  obtains (ended) r' where "unread r = []" "readToLineEnd r = ([], Some (RSource (lr_end r)), r')" "unread r' = []" "lr_end r' = lr_end r"
  | (line) r' where "has_eol (unread r)" "readToLineEnd r = (first_line (unread r), None, r')"
      "unread r' = after_line (unread r)" "lr_end r' = lr_end r"
  | (part) b r' where "b \<noteq> []" "\<not> has_eol b" "readToLineEnd r = (b, Some RBufferFull, r')"
      "unread r = b @ unread r'" "lr_end r' = lr_end r"
proof -
  define q where "q = (if lr_buf r = [] then fill r else r)"
  define b where "b = lr_buf q"
  have q: "unread q = unread r" "lr_end q = lr_end r" by (simp_all add: q_def fill_unread)
  have rd: "readToLineEnd r =
      (if b = [] then ([], Some (RSource (lr_end q)), q)
       else (case line_cut b of
               Some k \<Rightarrow> (take (k + 1) b, None, q\<lparr>lr_buf := drop (k + 1) b\<rparr>)
             | None \<Rightarrow> (b, Some RBufferFull, q\<lparr>lr_buf := []\<rparr>)))"
    unfolding readToLineEnd_alt Let_def q_def [symmetric] b_def [symmetric] ..
  have u: "unread r = b @ concat (lr_src q)" using q(1) by (simp add: unread_def b_def)
  show thesis
  proof (cases "b = []")
    case True
    then have "unread r = []" using fill_empty [of r] by (cases "lr_buf r = []") (simp_all add: b_def q_def)
    with True rd q that(1) [of q] show ?thesis by simp
  next
    case ne: False
    show ?thesis
    proof (cases "has_eol b")
      case True
      define k where "k = length (takeWhile (\<lambda>c. \<not> is_eol c) b)"
      have f: "first_line (unread r) = take (Suc k) b" "after_line (unread r) = drop (Suc k) b @ concat (lr_src q)"
        using first_line_append [OF True, of "concat (lr_src q)"] first_line_cut [OF True k_def] u by simp_all
      have "has_eol (unread r)" using True by (simp add: u has_eol_def)
      with f rd ne True q(2) that(2) [of "q\<lparr>lr_buf := drop (k + 1) b\<rparr>"] show ?thesis
        by (simp add: line_cut_spec k_def [symmetric] unread_def)
    next
      case False
      with rd ne q(2) u that(3) [of b "q\<lparr>lr_buf := []\<rparr>"] show ?thesis by (simp add: line_cut_spec unread_def)
    qed
  qed
qed

lemma readToLineEnd_shrinks:
  assumes "readToLineEnd r = (chunk, Some RBufferFull, r')"
  shows "length (unread r') < length (unread r)"
  using assms by (cases r rule: readToLineEnd_cases) auto

text \<open>The loop of \<open>readBoundedLine\<close>; \<open>acc\<close> is its accumulator.\<close>

function read_line :: "string \<Rightarrow> LineReader \<Rightarrow> string \<times> ReadErr option \<times> LineReader" where
  "read_line acc r =
     (case readToLineEnd r of
        (chunk, err, r') \<Rightarrow>
          let n = length acc + length chunk
          in if err = Some RBufferFull \<and> chunk \<noteq> []
             then (if n > MaxLineBytes then ([], Some (RLineTooLong n), r') else read_line (acc @ chunk) r')
             else if err = None \<or> n > 0
             then (if n > MaxLineBytes then ([], Some (RLineTooLong n), r') else (acc @ chunk, err, r'))
             else ([], err, r'))"
  by pat_completeness auto
termination
  by (relation "measure (\<lambda>(acc, r). length (unread r))") (auto dest!: sym [of _ "readToLineEnd _"] readToLineEnd_shrinks)

declare read_line.simps [simp del]

definition readBoundedLine :: "LineReader \<Rightarrow> string \<times> ReadErr option \<times> LineReader" where
  "readBoundedLine r = read_line [] r"

text \<open>What the reader returns depends only on the bytes that are left.\<close>

lemma first_line_skip:
  "\<not> has_eol b \<Longrightarrow> first_line (b @ c) = b @ first_line c \<and> after_line (b @ c) = after_line c \<and> (has_eol (b @ c) \<longleftrightarrow> has_eol c)"
  by (induction b) (auto simp: first_line_def after_line_def has_eol_def)

lemma first_line_no_eol: "\<not> has_eol b \<Longrightarrow> first_line b = b \<and> after_line b = []"
  using first_line_skip [of b "[]"] by (simp add: first_line_def after_line_def)

lemma read_line_spec:
  "\<exists>n r'. read_line acc r =
           (let l = acc @ first_line (unread r)
            in if length l > MaxLineBytes then ([], Some (RLineTooLong n), r')
               else (l, if has_eol (unread r) then None else Some (RSource (lr_end r)), r'))
         \<and> (length (acc @ first_line (unread r)) \<le> MaxLineBytes \<longrightarrow>
              unread r' = after_line (unread r) \<and> lr_end r' = lr_end r)"
proof (induction "length (unread r)" arbitrary: acc r rule: less_induct)
  case less
  show ?case
  proof (cases r rule: readToLineEnd_cases)
    case (ended r')
    then show ?thesis
      by (subst read_line.simps) (auto simp: Let_def has_eol_def first_line_def after_line_def)
  next
    case (line r')
    have "first_line (unread r) \<noteq> []"
      using line(1) by (auto simp: first_line_def has_eol_def list_ex_iff dropWhile_eq_Nil_conv)
    with line show ?thesis by (subst read_line.simps) (auto simp: Let_def)
  next
    case (part b r')
    have fl: "first_line (unread r) = b @ first_line (unread r')" "after_line (unread r) = after_line (unread r')"
        "has_eol (unread r) = has_eol (unread r')"
      using first_line_skip [OF part(2), of "unread r'"] part(4) by simp_all
    show ?thesis
    proof (cases "length acc + length b > MaxLineBytes")
      case True
      with part fl show ?thesis by (subst read_line.simps) (auto simp: Let_def)
    next
      case False
      then have eq: "read_line acc r = read_line (acc @ b) r'" using part by (subst read_line.simps) simp
      obtain n r'' where h: "read_line (acc @ b) r' =
           (let l = (acc @ b) @ first_line (unread r')
            in if length l > MaxLineBytes then ([], Some (RLineTooLong n), r'')
               else (l, if has_eol (unread r') then None else Some (RSource (lr_end r')), r''))"
         "length ((acc @ b) @ first_line (unread r')) \<le> MaxLineBytes \<longrightarrow>
              unread r'' = after_line (unread r') \<and> lr_end r'' = lr_end r'"
        using less [of r' "acc @ b"] part(1,4) by auto
      show ?thesis
        by (rule exI [of _ n], rule exI [of _ r'']) (use eq h fl part(5) in \<open>simp add: Let_def\<close>)
    qed
  qed
qed

lemma first_after: "first_line bs @ after_line bs = bs"
proof -
  have "first_line bs @ after_line bs =
      takeWhile (\<lambda>c. \<not> is_eol c) bs @ (take 1 (dropWhile (\<lambda>c. \<not> is_eol c) bs) @ drop 1 (dropWhile (\<lambda>c. \<not> is_eol c) bs))"
    by (simp only: first_line_def after_line_def append_assoc)
  then show ?thesis by (simp only: append_take_drop_id takeWhile_dropWhile_id)
qed

lemma first_line_nonempty: "bs \<noteq> [] \<Longrightarrow> first_line bs \<noteq> []"
  by (cases bs) (auto simp: first_line_def)

lemma readBoundedLine_cases:
  obtains (too_long) n r' where "length (first_line (unread r)) > MaxLineBytes" "readBoundedLine r = ([], Some (RLineTooLong n), r')"
  | (line) r' where "length (first_line (unread r)) \<le> MaxLineBytes" "has_eol (unread r)"
      "readBoundedLine r = (first_line (unread r), None, r')" "unread r' = after_line (unread r)" "lr_end r' = lr_end r"
  | (last_line) r' where "length (unread r) \<le> MaxLineBytes" "\<not> has_eol (unread r)"
      "readBoundedLine r = (unread r, Some (RSource (lr_end r)), r')"
proof -
  obtain n r'' where h: "read_line [] r =
           (let l = [] @ first_line (unread r)
            in if length l > MaxLineBytes then ([], Some (RLineTooLong n), r'')
               else (l, if has_eol (unread r) then None else Some (RSource (lr_end r)), r''))"
      "length ([] @ first_line (unread r)) \<le> MaxLineBytes \<longrightarrow> unread r'' = after_line (unread r) \<and> lr_end r'' = lr_end r"
    using read_line_spec by blast
  show thesis
  proof (cases "length (first_line (unread r)) > MaxLineBytes")
    case True
    with h that(1) show ?thesis by (simp add: readBoundedLine_def)
  next
    case False
    with h that(2) that(3) first_line_no_eol [of "unread r"] show ?thesis
      by (cases "has_eol (unread r)") (simp_all add: readBoundedLine_def)
  qed
qed

lemma readBoundedLine_shrinks:
  assumes "readBoundedLine r = (line, None, r')"
  shows "length (unread r') < length (unread r)"
proof (cases r rule: readBoundedLine_cases)
  case (line q)
  have "unread r \<noteq> []" using line(2) by (auto simp: has_eol_def)
  then have "0 < length (first_line (unread r))" using first_line_nonempty by simp
  moreover have "length (first_line (unread r)) + length (after_line (unread r)) = length (unread r)"
    by (metis first_after length_append)
  ultimately have "length (after_line (unread r)) < length (unread r)" by linarith
  then show ?thesis using line assms by simp
qed (use assms in auto)

text \<open>
  The lines of a byte stream, with no reference to how it arrives. A CR and an LF each end a
  line, so that a CRLF pair is a line followed by a lone LF.
\<close>

fun split_lines :: "string \<Rightarrow> string list" where
  "split_lines [] = []"
| "split_lines (c # cs) =
     (if is_eol c then [c] # split_lines cs
      else (case split_lines cs of [] \<Rightarrow> [[c]] | l # ls \<Rightarrow> (c # l) # ls))"

lemma split_lines_concat [simp]: "concat (split_lines bs) = bs"
  by (induction bs rule: split_lines.induct) (auto split: list.split)

lemma split_lines_unfold: "bs \<noteq> [] \<Longrightarrow> split_lines bs = first_line bs # split_lines (after_line bs)"
proof (induction bs)
  case (Cons c cs)
  then show ?case by (cases "cs = []") (auto simp: first_line_def after_line_def)
qed simp

lemma split_lines_nonempty: "l \<in> set (split_lines bs) \<Longrightarrow> l \<noteq> []"
  by (induction bs arbitrary: l rule: split_lines.induct) (auto split: if_splits list.splits)

end
