(* ===== verification/SSE_Relay.thy ===== *)
theory SSE_Relay
  imports SSE_Line "HOL-Library.Sublist"
begin

text \<open>
  The streaming relay: the read loop shared by \<open>CopySSE\<close> (\<open>internal/proxy/sse.go\<close>) and
  \<open>CopyMessagesSSE\<close> (\<open>internal/proxy/sse_messages.go\<close>), and what each does with a line. The
  outside world (the client's writer, the flush and the observer) is a state \<open>'w\<close> with three
  operations. The lemmas reduce the loop over the buffered reader to a walk over the lines of
  the byte stream, and give the bytes a client receives.
\<close>

section \<open>The read loop\<close>

datatype CopyErr = CopyReadFailed | CopyLineTooLong | CopyEventTooLarge | CopyWriteFailed | CopyShortWrite

text \<open>
  The \<open>for\<close> loop of both relays: one line, its handling, then the reader's error. Errors carry
  their sentinel only, which is what callers test with \<open>errors.Is\<close>; \<open>finish\<close> is what is owed at a
  clean end of input.
\<close>

function line_loop ::
  "(string \<Rightarrow> 's \<Rightarrow> CopyErr option \<times> 's) \<Rightarrow> ('s \<Rightarrow> CopyErr option \<times> 's) \<Rightarrow> LineReader \<Rightarrow> 's \<Rightarrow> CopyErr option \<times> 's"
where
  "line_loop handle finish r s =
     (case readBoundedLine r of
        (line, rerr, r') \<Rightarrow>
          (case rerr of
             Some (RLineTooLong n) \<Rightarrow> (Some CopyLineTooLong, s)
           | _ \<Rightarrow>
               (case (if line = [] then (None, s) else handle line s) of
                  (Some e, s') \<Rightarrow> (Some e, s')
                | (None, s') \<Rightarrow>
                    (case rerr of
                       None \<Rightarrow> line_loop handle finish r' s'
                     | Some (RSource SrcEOF) \<Rightarrow> finish s'
                     | Some _ \<Rightarrow> (Some CopyReadFailed, s')))))"
  by pat_completeness auto
termination
  by (relation "measure (\<lambda>(h, f, r, s). length (unread r))")
    (auto dest!: sym [of _ "readBoundedLine _"] readBoundedLine_shrinks)

declare line_loop.simps [simp del]

text \<open>The same walk over a list of lines, and how it ends.\<close>

fun line_walk ::
  "(string \<Rightarrow> 's \<Rightarrow> CopyErr option \<times> 's) \<Rightarrow> ('s \<Rightarrow> CopyErr option \<times> 's) \<Rightarrow> string list \<Rightarrow> 's \<Rightarrow> CopyErr option \<times> 's"
where
  "line_walk handle finish [] s = finish s"
| "line_walk handle finish (l # ls) s =
     (if length l > MaxLineBytes then (Some CopyLineTooLong, s)
      else (case handle l s of
              (Some e, s') \<Rightarrow> (Some e, s')
            | (None, s') \<Rightarrow> line_walk handle finish ls s'))"

definition at_end :: "SourceEnd \<Rightarrow> ('s \<Rightarrow> CopyErr option \<times> 's) \<Rightarrow> 's \<Rightarrow> CopyErr option \<times> 's" where
  "at_end e finish s = (case e of SrcEOF \<Rightarrow> finish s | SrcFailed \<Rightarrow> (Some CopyReadFailed, s))"

lemma line_loop_walk:
  "line_loop handle finish r s = line_walk handle (at_end (lr_end r) finish) (split_lines (unread r)) s"
proof (induction "length (unread r)" arbitrary: r s rule: less_induct)
  case less
  show ?case
  proof (cases r rule: readBoundedLine_cases)
    case (too_long n r')
    then have "unread r \<noteq> []" by (auto simp: first_line_def)
    with too_long show ?thesis by (subst line_loop.simps) (simp add: split_lines_unfold)
  next
    case (line r')
    then have ne: "unread r \<noteq> []" by (auto simp: has_eol_def)
    from readBoundedLine_shrinks [OF line(3)] have "length (unread r') < length (unread r)" .
    from less [OF this] line ne first_line_nonempty [OF ne] show ?thesis
      by (subst line_loop.simps) (simp add: split_lines_unfold split: prod.split option.split)
  next
    case (last_line r')
    show ?thesis
    proof (cases "unread r = []")
      case True
      with last_line show ?thesis by (subst line_loop.simps) (simp add: at_end_def split: SourceEnd.split)
    next
      case False
      with last_line first_line_no_eol [OF last_line(2)] show ?thesis
        by (subst line_loop.simps)
          (simp add: split_lines_unfold at_end_def split: prod.split option.split SourceEnd.split)
    qed
  qed
qed

section \<open>CopySSE\<close>

record StreamStats =
  ss_Bytes :: nat
  ss_Events :: nat
  ss_Terminal :: bool

text \<open>
  What the relay calls: the client's writer, which reports how many bytes it accepted and
  whether it failed, the optional flush and the optional observer.
\<close>

record 'w Sink =
  sk_write :: "string \<Rightarrow> 'w \<Rightarrow> nat \<times> bool \<times> 'w"
  sk_flush :: "('w \<Rightarrow> 'w) option"
  sk_observe :: "(string option \<Rightarrow> string \<Rightarrow> 'w \<Rightarrow> 'w) option"

record 'w Relay =
  rl_stats :: StreamStats
  rl_pending :: nat
  rl_crlf :: bool
  rl_event :: "string option"
  rl_world :: 'w

definition relay_start :: "'w \<Rightarrow> 'w Relay" where
  "relay_start w = \<lparr>rl_stats = \<lparr>ss_Bytes = 0, ss_Events = 0, ss_Terminal = False\<rparr>, rl_pending = 0, rl_crlf = False,
     rl_event = None, rl_world = w\<rparr>"

text \<open>A write to the client, its accounting, and its two failure modes.\<close>

definition deliver :: "'w Sink \<Rightarrow> string \<Rightarrow> 'w Relay \<Rightarrow> CopyErr option \<times> 'w Relay" where
  "deliver sk b s =
     (case sk_write sk b (rl_world s) of
        (n, failed, w) \<Rightarrow>
          (if failed then Some CopyWriteFailed else if n < length b then Some CopyShortWrite else None,
           s\<lparr>rl_world := w, rl_stats := (rl_stats s)\<lparr>ss_Bytes := ss_Bytes (rl_stats s) + n\<rparr>\<rparr>))"

text \<open>The frame accounting before a line is relayed: the event's budget and its name.\<close>

definition frame_line :: "string \<Rightarrow> 'w Relay \<Rightarrow> CopyErr option \<times> 'w Relay" where
  "frame_line line s =
     (if isEventBoundary line then (None, s\<lparr>rl_event := None\<rparr>)
      else let s' = s\<lparr>rl_pending := rl_pending s + length line\<rparr>
           in if rl_pending s' > MaxEventBytes then (Some CopyEventTooLarge, s')
              else (None, case sseEventName line of None \<Rightarrow> s' | Some name \<Rightarrow> s'\<lparr>rl_event := Some name\<rparr>))"

definition observe_line :: "'w Sink \<Rightarrow> string \<Rightarrow> 'w Relay \<Rightarrow> 'w Relay" where
  "observe_line sk line s =
     (case sk_observe sk of
        None \<Rightarrow> s
      | Some observe \<Rightarrow>
          (case sseDataPayload line of
             None \<Rightarrow> s
           | Some payload \<Rightarrow> s\<lparr>rl_world := observe (rl_event s) payload (rl_world s)\<rparr>))"

text \<open>What follows a delivered line: the terminal marker, the dispatched event, the CR latch.\<close>

definition mark_terminal :: "string \<Rightarrow> 'w Relay \<Rightarrow> 'w Relay" where
  "mark_terminal out s =
     (if isTerminalSSELine out then s\<lparr>rl_stats := (rl_stats s)\<lparr>ss_Terminal := True\<rparr>\<rparr> else s)"

definition dispatch_event :: "'w Sink \<Rightarrow> 'w Relay \<Rightarrow> 'w Relay" where
  "dispatch_event sk s =
     s\<lparr>rl_world := (case sk_flush sk of None \<Rightarrow> rl_world s | Some flush \<Rightarrow> flush (rl_world s)),
       rl_stats := (rl_stats s)\<lparr>ss_Events := ss_Events (rl_stats s) + 1\<rparr>\<rparr>"

definition close_line :: "'w Sink \<Rightarrow> string \<Rightarrow> string \<Rightarrow> 'w Relay \<Rightarrow> 'w Relay" where
  "close_line sk line out s =
     (let s1 = mark_terminal out s;
          s2 = (if isEventBoundary line then (dispatch_event sk s1)\<lparr>rl_pending := 0\<rparr> else s1)
      in s2\<lparr>rl_crlf := (line \<noteq> [] \<and> last line = CR)\<rparr>)"

definition relay_line ::
  "'w Sink \<Rightarrow> (string \<Rightarrow> string) \<Rightarrow> string list \<Rightarrow> string \<Rightarrow> 'w Relay \<Rightarrow> CopyErr option \<times> 'w Relay"
where
  "relay_line sk rewrite stripKeys line s =
     (if rl_crlf s \<and> line = [LF]
      then (case deliver sk line s of
              (Some e, s') \<Rightarrow> (Some e, s')
            | (None, s') \<Rightarrow> (None, s'\<lparr>rl_crlf := False\<rparr>))
      else (case frame_line line s of
              (Some e, s1) \<Rightarrow> (Some e, s1)
            | (None, s1) \<Rightarrow>
                let out = rewriteSSELine line rewrite stripKeys
                in case deliver sk out (observe_line sk line s1) of
                     (Some e, s2) \<Rightarrow> (Some e, s2)
                   | (None, s2) \<Rightarrow> (None, close_line sk line out s2)))"

definition CopySSE ::
  "'w Sink \<Rightarrow> (string \<Rightarrow> string) \<Rightarrow> string list \<Rightarrow> string list \<Rightarrow> SourceEnd \<Rightarrow> 'w \<Rightarrow> CopyErr option \<times> 'w Relay"
where
  "CopySSE sk rewrite stripKeys src e w =
     line_loop (relay_line sk rewrite stripKeys) (\<lambda>s. (None, s)) \<lparr>lr_buf = [], lr_src = src, lr_end = e\<rparr> (relay_start w)"

section \<open>CopyMessagesSSE\<close>

text \<open>
  The translating relay. The translator's \<open>Frame\<close> and \<open>Finish\<close> are arguments: a payload and a
  state to the bytes owed and the next state.
\<close>

record 't Translator =
  tr_Frame :: "string \<Rightarrow> 't \<Rightarrow> string \<times> 't"
  tr_Finish :: "'t \<Rightarrow> string \<times> 't"

text \<open>\<open>writeFrames\<close>: one write per line of the buffer, cut after each LF.\<close>

definition next_frame_line :: "string \<Rightarrow> string \<times> string" where
  "next_frame_line frames =
     (case index_byte LF frames of
        Some i \<Rightarrow> (take (i + 1) frames, drop (i + 1) frames)
      | None \<Rightarrow> (frames, []))"

lemma next_frame_line_shrinks:
  "frames \<noteq> [] \<Longrightarrow> length (snd (next_frame_line frames)) < length frames"
  by (cases frames) (auto simp: next_frame_line_def split: option.split)

function writeFrames :: "'w Sink \<Rightarrow> string \<Rightarrow> 'w Relay \<Rightarrow> CopyErr option \<times> 'w Relay" where
  "writeFrames sk frames s =
     (if frames = [] then (None, s)
      else let line = fst (next_frame_line frames); rest = snd (next_frame_line frames)
           in case deliver sk line s of
                (Some e, s') \<Rightarrow> (Some e, s')
              | (None, s') \<Rightarrow>
                  let s1 = mark_terminal line s';
                      s2 = (if isEventBoundary line then dispatch_event sk s1 else s1)
                  in writeFrames sk rest s2)"
  by pat_completeness auto
termination
  by (relation "measure (\<lambda>(sk, frames, s). length frames)")
    (auto dest: next_frame_line_shrinks)

declare writeFrames.simps [simp del]

definition messages_line ::
  "'w Sink \<Rightarrow> (string \<Rightarrow> string) \<Rightarrow> 't Translator \<Rightarrow> string \<Rightarrow> 't \<times> 'w Relay \<Rightarrow> CopyErr option \<times> 't \<times> 'w Relay"
where
  "messages_line sk rewrite tr line ts =
     (case frame_line line (snd ts) of
        (Some e, s1) \<Rightarrow> (Some e, fst ts, s1)
      | (None, s1) \<Rightarrow>
          let s2 = observe_line sk line (if isEventBoundary line then s1\<lparr>rl_pending := 0\<rparr> else s1)
          in case sseDataPayload line of
               None \<Rightarrow> (None, fst ts, s2)
             | Some payload \<Rightarrow>
                 let (frames, t') = tr_Frame tr (rewrite payload) (fst ts); (err, s3) = writeFrames sk frames s2
                 in (err, t', s3))"

definition CopyMessagesSSE ::
  "'w Sink \<Rightarrow> (string \<Rightarrow> string) \<Rightarrow> 't Translator \<Rightarrow> 't \<Rightarrow> string list \<Rightarrow> SourceEnd \<Rightarrow> 'w \<Rightarrow> CopyErr option \<times> 't \<times> 'w Relay"
where
  "CopyMessagesSSE sk rewrite tr t src e w =
     line_loop (messages_line sk rewrite tr)
       (\<lambda>ts. let (frames, t') = tr_Finish tr (fst ts); (err, s) = writeFrames sk frames (snd ts) in (err, t', s))
       \<lparr>lr_buf = [], lr_src = src, lr_end = e\<rparr> (t, relay_start w)"

section \<open>The bytes a client receives\<close>

lemma rewriteSSELine_LF [simp]: "rewriteSSELine [LF] rewrite keys = [LF]"
  by (simp add: rewriteSSELine_def sseDataPayload_def splitSSELineTerminator_def cut_prefix_def)

lemma frame_line_keeps:
  assumes "frame_line line s = (err, s')"
  shows "rl_stats s' = rl_stats s" "rl_world s' = rl_world s" "rl_crlf s' = rl_crlf s" "err \<in> {None, Some CopyEventTooLarge}"
  using assms by (auto simp: frame_line_def Let_def split: if_splits option.splits)

lemma observe_line_keeps [simp]:
  "rl_stats (observe_line sk line s) = rl_stats s" "rl_pending (observe_line sk line s) = rl_pending s"
  "rl_crlf (observe_line sk line s) = rl_crlf s"
  by (simp_all add: observe_line_def split: option.split)

lemma mark_terminal_keeps [simp]:
  "rl_world (mark_terminal out s) = rl_world s" "rl_pending (mark_terminal out s) = rl_pending s"
  "ss_Bytes (rl_stats (mark_terminal out s)) = ss_Bytes (rl_stats s)"
  "ss_Events (rl_stats (mark_terminal out s)) = ss_Events (rl_stats s)"
  by (simp_all add: mark_terminal_def)

lemma dispatch_event_keeps [simp]:
  "ss_Bytes (rl_stats (dispatch_event sk s)) = ss_Bytes (rl_stats s)" "rl_pending (dispatch_event sk s) = rl_pending s"
  "ss_Terminal (rl_stats (dispatch_event sk s)) = ss_Terminal (rl_stats s)"
  by (simp_all add: dispatch_event_def)

text \<open>
  The \<open>io.Writer\<close> contract: a write accepts a prefix and says how long it is. Flushing and
  observing write nothing. \<open>sent\<close> is what the client has received from the relay.
\<close>

locale byte_sink =
  fixes sk :: "'w Sink" and sent :: "'w \<Rightarrow> string"
  assumes write_sent: "sk_write sk b w = (n, failed, w') \<Longrightarrow> n \<le> length b \<and> sent w' = sent w @ take n b"
    and flush_sent: "sk_flush sk = Some f \<Longrightarrow> sent (f w) = sent w"
    and observe_sent: "sk_observe sk = Some g \<Longrightarrow> sent (g name payload w) = sent w"
begin

definition grew :: "string \<Rightarrow> bool \<Rightarrow> 'w Relay \<Rightarrow> 'w Relay \<Rightarrow> bool" where
  "grew out full s s' \<longleftrightarrow>
     (\<exists>p. sent (rl_world s') = sent (rl_world s) @ p \<and> ss_Bytes (rl_stats s') = ss_Bytes (rl_stats s) + length p
          \<and> prefix p out \<and> (full \<longrightarrow> p = out))"

lemma grew_refl: "\<not> full \<or> out = [] \<Longrightarrow> grew out full s s"
  by (auto simp: grew_def)

lemma grew_cong:
  assumes "grew out full s s'" and "sent (rl_world t) = sent (rl_world s)" "sent (rl_world t') = sent (rl_world s')"
    and "ss_Bytes (rl_stats t) = ss_Bytes (rl_stats s)" "ss_Bytes (rl_stats t') = ss_Bytes (rl_stats s')"
  shows "grew out full t t'"
  using assms by (simp add: grew_def)

lemma grew_trans:
  assumes "grew a True s s'" and "grew b full s' s''"
  shows "grew (a @ b) full s s''"
proof -
  from assms obtain p q where "sent (rl_world s') = sent (rl_world s) @ a" "sent (rl_world s'') = sent (rl_world s') @ q"
      "ss_Bytes (rl_stats s') = ss_Bytes (rl_stats s) + length a" "ss_Bytes (rl_stats s'') = ss_Bytes (rl_stats s') + length q"
      "prefix q b" "full \<longrightarrow> q = b"
    by (auto simp: grew_def)
  then show ?thesis by (auto simp: grew_def)
qed

lemma grew_stop: "grew a False s s' \<Longrightarrow> grew (a @ b) False s s'"
  by (auto simp: grew_def)

lemma grew_weaken: "grew a True s s' \<Longrightarrow> grew a c s s'"
  by (auto simp: grew_def)

lemma deliver_grew:
  assumes "deliver sk b s = (err, s')"
  shows "grew b (err = None) s s'"
proof -
  obtain n failed w where w: "sk_write sk b (rl_world s) = (n, failed, w)" by (metis surj_pair)
  from write_sent [OF w] assms w show ?thesis
    by (auto simp: grew_def deliver_def take_is_prefix split: if_splits)
qed

lemma observe_line_sent [simp]: "sent (rl_world (observe_line sk line s)) = sent (rl_world s)"
  using observe_sent by (simp add: observe_line_def split: option.split)

lemma dispatch_event_sent [simp]: "sent (rl_world (dispatch_event sk s)) = sent (rl_world s)"
  using flush_sent by (simp add: dispatch_event_def split: option.split)

lemma close_line_sent [simp]:
  "sent (rl_world (close_line sk line out s)) = sent (rl_world s)"
  "ss_Bytes (rl_stats (close_line sk line out s)) = ss_Bytes (rl_stats s)"
  by (simp_all add: close_line_def Let_def)

lemma relay_line_grew:
  assumes "relay_line sk rewrite keys line s = (err, s')"
  shows "grew (rewriteSSELine line rewrite keys) (err = None) s s'"
proof (cases "rl_crlf s \<and> line = [LF]")
  case True
  obtain e t where d: "deliver sk line s = (e, t)" by (metis surj_pair)
  from deliver_grew [OF d] have "grew line (e = None) s t" .
  with True assms d show ?thesis by (cases e) (auto simp: relay_line_def grew_def)
next
  case False
  obtain e1 s1 where f: "frame_line line s = (e1, s1)" by (metis surj_pair)
  show ?thesis
  proof (cases e1)
    case (Some e)
    with assms f False have "err = Some e" "s' = s1" by (simp_all add: relay_line_def)
    with frame_line_keeps [OF f] show ?thesis by (simp add: grew_def)
  next
    case None
    let ?out = "rewriteSSELine line rewrite keys"
    obtain e2 s2 where d: "deliver sk ?out (observe_line sk line s1) = (e2, s2)" by (metis surj_pair)
    have "grew ?out (e2 = None) s s2"
      by (rule grew_cong [OF deliver_grew [OF d]]) (simp_all add: frame_line_keeps [OF f])
    moreover have "err = e2 \<and> (s' = s2 \<or> s' = close_line sk line ?out s2)"
      using assms f None False d by (cases e2) (auto simp: relay_line_def)
    ultimately show ?thesis by (auto simp: grew_def)
  qed
qed

definition whole :: "CopyErr option \<Rightarrow> bool" where
  "whole err \<longleftrightarrow> err \<in> {None, Some CopyReadFailed}"

lemma relay_line_errors:
  assumes "relay_line sk rewrite keys line s = (Some e, s')"
  shows "e \<in> {CopyEventTooLarge, CopyWriteFailed, CopyShortWrite}"
proof -
  have "\<And>b t t'. deliver sk b t = (Some e, t') \<Longrightarrow> e \<in> {CopyWriteFailed, CopyShortWrite}"
    by (auto simp: deliver_def split: prod.splits if_splits)
  moreover have "\<And>t t'. frame_line line t = (Some e, t') \<Longrightarrow> e = CopyEventTooLarge"
    by (auto simp: frame_line_def Let_def split: if_splits)
  ultimately show ?thesis using assms by (fastforce simp: relay_line_def Let_def split: if_splits prod.splits option.splits)
qed

lemma walk_grew:
  assumes "line_walk (relay_line sk rewrite keys) (at_end e (\<lambda>s. (None, s))) ls s = (err, s')"
  shows "grew (concat (map (\<lambda>l. rewriteSSELine l rewrite keys) ls)) (whole err) s s'"
  using assms
proof (induction ls arbitrary: s)
  case Nil
  then have "s' = s" by (auto simp: at_end_def split: SourceEnd.splits)
  then show ?case by (simp add: grew_refl)
next
  case (Cons l ls)
  show ?case
  proof (cases "length l > MaxLineBytes")
    case True
    with Cons.prems show ?thesis by (auto simp: grew_def whole_def)
  next
    case False
    obtain e1 t where r: "relay_line sk rewrite keys l s = (e1, t)" by (metis surj_pair)
    from relay_line_grew [OF r] have g: "grew (rewriteSSELine l rewrite keys) (e1 = None) s t" .
    show ?thesis
    proof (cases e1)
      case None
      with Cons.prems False r have "line_walk (relay_line sk rewrite keys) (at_end e (\<lambda>s. (None, s))) ls t = (err, s')" by simp
      from grew_trans [OF _ Cons.IH [OF this]] g None show ?thesis by simp
    next
      case (Some x)
      with Cons.prems False r have "err = Some x" "s' = t" by simp_all
      with g Some relay_line_errors [of rewrite keys l s x t] r grew_stop show ?thesis by (auto simp: whole_def)
    qed
  qed
qed

lemma CopySSE_grew:
  assumes "CopySSE sk rewrite keys src e w = (err, s')"
  shows "grew (concat (map (\<lambda>l. rewriteSSELine l rewrite keys) (split_lines (concat src)))) (whole err) (relay_start w) s'"
  using assms walk_grew unfolding CopySSE_def line_loop_walk by (simp add: unread_def)

end

lemma CopySSE_walk:
  "CopySSE sk rewrite keys src e w =
     line_walk (relay_line sk rewrite keys) (at_end e (\<lambda>s. (None, s))) (split_lines (concat src)) (relay_start w)"
  by (simp add: CopySSE_def line_loop_walk unread_def)

text \<open>
  C25: both relays frame a stream by its bytes alone. However the transport split its reads, a
  pass over the buffered, bounded reader (with its 1 MiB line accumulator) is the walk over the
  lines of the concatenated bytes: same writes, flushes and observations in the same order, same
  stats, same error.
\<close>

theorem relay_framing_refines:
  "CopySSE sk rewrite keys src e w =
     line_walk (relay_line sk rewrite keys) (at_end e (\<lambda>s. (None, s))) (split_lines (concat src)) (relay_start w)
   \<and> CopyMessagesSSE sk rewrite tr t src e w =
     line_walk (messages_line sk rewrite tr)
       (at_end e (\<lambda>ts. let (frames, t') = tr_Finish tr (fst ts); (err, s) = writeFrames sk frames (snd ts) in (err, t', s)))
       (split_lines (concat src)) (t, relay_start w)"
  by (simp add: CopySSE_walk CopyMessagesSSE_def line_loop_walk unread_def)

section \<open>The rewritten line\<close>

text \<open>
  A line is its content and its terminator, and a data line is \<open>data:\<close>, at most one space, and
  the payload.
\<close>

lemma terminator_split: "fst (splitSSELineTerminator line) @ snd (splitSSELineTerminator line) = line"
  by (simp add: splitSSELineTerminator_def Let_def)

lemma skip_space_split: "\<exists>sp. sp \<in> {[], '' ''} \<and> s = sp @ skip_space s"
  by (cases s) (auto simp: skip_space_def)

lemma cut_prefix_Some: "cut_prefix p s = Some r \<Longrightarrow> s = p @ r"
  by (metis append_take_drop_id cut_prefix_def option.distinct(1) option.inject)

lemma data_line_split:
  assumes "sseDataPayload line = Some payload"
  obtains sp where "sp \<in> {[], '' ''}" "fst (splitSSELineTerminator line) = ''data:'' @ sp @ payload"
proof -
  from assms obtain r where r: "cut_prefix ''data:'' (fst (splitSSELineTerminator line)) = Some r" "payload = skip_space r"
    by (auto simp: sseDataPayload_def)
  from skip_space_split [of r] obtain sp where "sp \<in> {[], '' ''}" "r = sp @ skip_space r" by blast
  with r cut_prefix_Some [OF r(1)] that [of sp] show ?thesis by simp
qed

lemma rewriteSSELine_data:
  assumes "sseDataPayload line = Some payload" "sp \<in> {[], '' ''}" "fst (splitSSELineTerminator line) = ''data:'' @ sp @ payload"
  shows "rewriteSSELine line rewrite keys =
     ''data:'' @ sp @ (if contains sseModelKey payload \<or> contains sseUsageKey payload \<or> mentionsAnyKey payload keys
                       then rewrite payload else payload) @ snd (splitSSELineTerminator line)"
proof -
  have h: "take (length (fst (splitSSELineTerminator line)) - length payload) (fst (splitSSELineTerminator line)) = ''data:'' @ sp"
    using assms(3) by (metis append_assoc append_eq_conv_conj diff_add_inverse2 length_append)
  obtain c t where ct: "splitSSELineTerminator line = (c, t)" by (metis surj_pair)
  have l: "''data:'' @ sp @ payload @ t = line"
    using terminator_split [of line] assms(3) ct by simp
  show ?thesis
  proof (cases "contains sseModelKey payload \<or> contains sseUsageKey payload \<or> mentionsAnyKey payload keys")
    case True
    then have "rewriteSSELine line rewrite keys =
        (if rewrite payload = payload then line else ''data:'' @ sp @ rewrite payload @ t)"
      using assms(1) h ct by (auto simp: rewriteSSELine_def)
    with True l ct show ?thesis by simp
  next
    case False
    then have "rewriteSSELine line rewrite keys = line" using assms(1) by (simp add: rewriteSSELine_def)
    with False l ct show ?thesis by simp
  qed
qed

lemma rewriteSSELine_noop:
  assumes "\<And>p. sseDataPayload line = Some p \<Longrightarrow> rewrite p = p"
  shows "rewriteSSELine line rewrite keys = line"
  using assms by (simp add: rewriteSSELine_def Let_def split: option.split prod.split)

end
