(* ===== verification/SSE_Keepalive.thy ===== *)
theory SSE_Keepalive
  imports SSE_Relay
begin

text \<open>
  The two writers a stream is relayed through: \<open>statusWriter\<close> (\<open>internal/proxy/handler.go\<close>) and
  the heartbeat's \<open>pingWriter\<close> (\<open>internal/proxy/keepalive.go\<close>). The client is an oracle that says
  how much of a write it accepts; its log records every write, whose it was, and every flush.
  The heartbeat goroutine and the relay share one mutex, so their interleavings are the ticks
  that run before each of the relay's calls: a schedule gives them. The lemmas say where a ping
  can land.
\<close>

section \<open>The client and the status writer\<close>

datatype WroteBy = ByRelay | ByPing
datatype ClientEvent = CWrote WroteBy string | CFlushed

type_synonym ClientOracle = "ClientEvent list \<Rightarrow> string \<Rightarrow> nat \<times> bool"

record StatusWriter =
  sw_status :: int
  sw_bytes :: nat
  sw_log :: "ClientEvent list"

definition StatusWriter_WriteHeader :: "int \<Rightarrow> StatusWriter \<Rightarrow> StatusWriter" where
  "StatusWriter_WriteHeader code w = (if sw_status w = 0 then w\<lparr>sw_status := code\<rparr> else w)"

text \<open>
  A write reports at most the bytes it was given, as \<open>io.Writer\<close> requires; \<open>who\<close> is recorded in the
  log only.
\<close>

definition StatusWriter_Write :: "ClientOracle \<Rightarrow> WroteBy \<Rightarrow> string \<Rightarrow> StatusWriter \<Rightarrow> nat \<times> bool \<times> StatusWriter" where
  "StatusWriter_Write cw who b w =
     (let w1 = (if sw_status w = 0 then w\<lparr>sw_status := 200\<rparr> else w);
          (k, failed) = cw (sw_log w) b; n = min k (length b)
      in (n, failed, w1\<lparr>sw_bytes := sw_bytes w1 + n, sw_log := sw_log w1 @ [CWrote who (take n b)]\<rparr>))"

definition StatusWriter_Flush :: "StatusWriter \<Rightarrow> StatusWriter" where
  "StatusWriter_Flush w = w\<lparr>sw_log := sw_log w @ [CFlushed]\<rparr>"

definition status_sink :: "ClientOracle \<Rightarrow> StatusWriter Sink" where
  "status_sink cw = \<lparr>sk_write = StatusWriter_Write cw ByRelay, sk_flush = Some StatusWriter_Flush, sk_observe = None\<rparr>"

text \<open>The bytes of the log that came from the relay, and from a ping or the relay.\<close>

fun relayed :: "ClientEvent list \<Rightarrow> string" where
  "relayed [] = []"
| "relayed (CWrote ByRelay b # es) = b @ relayed es"
| "relayed (CWrote ByPing b # es) = relayed es"
| "relayed (CFlushed # es) = relayed es"

fun wire :: "ClientEvent list \<Rightarrow> string" where
  "wire [] = []"
| "wire (CWrote who b # es) = b @ wire es"
| "wire (CFlushed # es) = wire es"

section \<open>The heartbeat\<close>

definition ssePing :: string where "ssePing = '': ping'' @ [LF, LF]"

record PingWriter =
  pw_dst :: StatusWriter
  pw_interval :: int
  pw_last :: int
  pw_boundary :: bool
  pw_finished :: bool
  pw_pings :: nat
  pw_running :: bool
  pw_sched :: "(int list \<times> int) list"

definition newPingWriter :: "StatusWriter \<Rightarrow> int \<Rightarrow> int \<Rightarrow> (int list \<times> int) list \<Rightarrow> PingWriter" where
  "newPingWriter dst interval now sched =
     \<lparr>pw_dst = dst, pw_interval = interval, pw_last = now, pw_boundary = True, pw_finished = False, pw_pings = 0,
      pw_running = True, pw_sched = sched\<rparr>"

definition last_index_byte :: "char \<Rightarrow> string \<Rightarrow> nat option" where
  "last_index_byte c bs = map_option (\<lambda>i. length bs - 1 - i) (index_byte c (rev bs))"

definition endsWithBlankLine :: "string \<Rightarrow> bool" where
  "endsWithBlankLine b =
     (case last_index_byte LF b of
        None \<Rightarrow> False
      | Some i \<Rightarrow>
          let from = (case last_index_byte LF (take i b) of None \<Rightarrow> 0 | Some j \<Rightarrow> j + 1);
              tail = drop from (take i b)
          in tail = [] \<or> tail = [CR])"

definition PingWriter_Write :: "ClientOracle \<Rightarrow> int \<Rightarrow> string \<Rightarrow> PingWriter \<Rightarrow> nat \<times> bool \<times> PingWriter" where
  "PingWriter_Write cw now b p =
     (case StatusWriter_Write cw ByRelay b (pw_dst p) of
        (n, failed, d) \<Rightarrow>
          (n, failed,
           if n > 0
           then p\<lparr>pw_dst := d, pw_last := now, pw_boundary := endsWithBlankLine (take n b),
                  pw_finished := (pw_finished p \<or> isTerminalSSELine (take n b))\<rparr>
           else p\<lparr>pw_dst := d\<rparr>))"

definition PingWriter_Flush :: "PingWriter \<Rightarrow> PingWriter" where
  "PingWriter_Flush p = p\<lparr>pw_dst := StatusWriter_Flush (pw_dst p)\<rparr>"

definition maybePing :: "ClientOracle \<Rightarrow> int \<Rightarrow> PingWriter \<Rightarrow> bool \<times> PingWriter" where
  "maybePing cw now p =
     (if pw_finished p \<or> \<not> pw_boundary p \<or> now - pw_last p < pw_interval p then (True, p)
      else (case StatusWriter_Write cw ByPing ssePing (pw_dst p) of
              (n, failed, d) \<Rightarrow>
                if failed then (False, p\<lparr>pw_dst := d\<rparr>)
                else (True, p\<lparr>pw_dst := StatusWriter_Flush d, pw_pings := pw_pings p + 1, pw_last := now\<rparr>)))"

text \<open>One turn of \<open>runKeepAlive\<close>; the goroutine is gone after a failed ping or the stop.\<close>

definition tick :: "ClientOracle \<Rightarrow> int \<Rightarrow> PingWriter \<Rightarrow> PingWriter" where
  "tick cw now p =
     (if pw_running p then (case maybePing cw now p of (go, p') \<Rightarrow> p'\<lparr>pw_running := go\<rparr>) else p)"

definition stopAndWait :: "PingWriter \<Rightarrow> PingWriter" where
  "stopAndWait p = p\<lparr>pw_finished := True, pw_running := False\<rparr>"

text \<open>The ticks that ran before the relay got the mutex, and the clock it then reads.\<close>

definition take_turn :: "ClientOracle \<Rightarrow> PingWriter \<Rightarrow> int \<times> PingWriter" where
  "take_turn cw p =
     (case pw_sched p of
        [] \<Rightarrow> (pw_last p, p)
      | (ts, now) # rest \<Rightarrow> (now, fold (tick cw) ts (p\<lparr>pw_sched := rest\<rparr>)))"

definition ping_sink :: "ClientOracle \<Rightarrow> PingWriter Sink" where
  "ping_sink cw =
     \<lparr>sk_write = (\<lambda>b p. case take_turn cw p of (now, p1) \<Rightarrow> PingWriter_Write cw now b p1),
      sk_flush = Some (\<lambda>p. PingWriter_Flush (snd (take_turn cw p))), sk_observe = None\<rparr>"

text \<open>A whole heartbeat stream: the relay, the ticks after its last call, and the join.\<close>

definition heartbeat_stream ::
  "ClientOracle \<Rightarrow> (string \<Rightarrow> string) \<Rightarrow> string list \<Rightarrow> string list \<Rightarrow> SourceEnd \<Rightarrow> int list \<Rightarrow> PingWriter
     \<Rightarrow> CopyErr option \<times> PingWriter"
where
  "heartbeat_stream cw rewrite keys src e late p =
     (case CopySSE (ping_sink cw) rewrite keys src e p of
        (err, s) \<Rightarrow> (err, stopAndWait (fold (tick cw) late (rl_world s))))"

section \<open>Both writers keep the writer contract\<close>

lemma relayed_append [simp]: "relayed (a @ b) = relayed a @ relayed b"
  by (induction a rule: relayed.induct) simp_all

lemma wire_append [simp]: "wire (a @ b) = wire a @ wire b"
  by (induction a rule: wire.induct) simp_all

lemma StatusWriter_Write_log:
  assumes "StatusWriter_Write cw who b w = (n, failed, w')"
  shows "n \<le> length b" "sw_log w' = sw_log w @ [CWrote who (take n b)]" "sw_bytes w' = sw_bytes w + n"
    "n = min (fst (cw (sw_log w) b)) (length b)" "failed = snd (cw (sw_log w) b)"
  using assms by (auto simp: StatusWriter_Write_def Let_def split: prod.splits if_splits)

lemma StatusWriter_Flush_log [simp]:
  "sw_log (StatusWriter_Flush w) = sw_log w @ [CFlushed]" "sw_bytes (StatusWriter_Flush w) = sw_bytes w"
  by (simp_all add: StatusWriter_Flush_def)

interpretation direct: byte_sink "status_sink cw" "\<lambda>w. relayed (sw_log w)" for cw
  by unfold_locales (auto simp: status_sink_def dest: StatusWriter_Write_log)

abbreviation pw_log :: "PingWriter \<Rightarrow> ClientEvent list" where "pw_log p \<equiv> sw_log (pw_dst p)"

lemma maybePing_cases:
  obtains (quiet) "maybePing cw now p = (True, p)"
  | (ping) n failed d where "StatusWriter_Write cw ByPing ssePing (pw_dst p) = (n, failed, d)"
      "maybePing cw now p =
         (if failed then (False, p\<lparr>pw_dst := d\<rparr>)
          else (True, p\<lparr>pw_dst := StatusWriter_Flush d, pw_pings := pw_pings p + 1, pw_last := now\<rparr>))"
      "\<not> pw_finished p" "pw_boundary p" "pw_interval p \<le> now - pw_last p"
proof -
  obtain n failed d where w: "StatusWriter_Write cw ByPing ssePing (pw_dst p) = (n, failed, d)" by (metis surj_pair)
  show thesis
  proof (cases "pw_finished p \<or> \<not> pw_boundary p \<or> now - pw_last p < pw_interval p")
    case True
    then show ?thesis using that(1) by (simp add: maybePing_def)
  next
    case False
    then show ?thesis using that(2) [OF w] w by (simp add: maybePing_def)
  qed
qed

lemma maybePing_relayed: "maybePing cw now p = (go, p') \<Longrightarrow> relayed (pw_log p') = relayed (pw_log p)"
  by (cases cw now p rule: maybePing_cases) (auto dest: StatusWriter_Write_log(2) split: if_splits)

text \<open>A predicate that every ping keeps is kept by any number of ticks.\<close>

lemma ticks_keep:
  assumes ping: "\<And>now p go p'. maybePing cw now p = (go, p') \<Longrightarrow> P p \<Longrightarrow> P p'"
    and stop: "\<And>p go. P p \<Longrightarrow> P (p\<lparr>pw_running := go\<rparr>)" and p: "P p"
  shows "P (fold (tick cw) ts p)"
  using p
proof (induction ts arbitrary: p)
  case (Cons t ts)
  have "P (tick cw t p)" using Cons.prems ping stop by (auto simp: tick_def split: prod.split)
  then show ?case using Cons.IH by simp
qed simp

lemma take_turn_keeps:
  assumes ping: "\<And>now p go p'. maybePing cw now p = (go, p') \<Longrightarrow> P p \<Longrightarrow> P p'"
    and stop: "\<And>p go. P p \<Longrightarrow> P (p\<lparr>pw_running := go\<rparr>)" and sched: "\<And>p r. P p \<Longrightarrow> P (p\<lparr>pw_sched := r\<rparr>)" and p: "P p"
  shows "P (snd (take_turn cw p))"
  using ticks_keep [of cw P, OF ping stop] sched p by (simp add: take_turn_def split: list.split prod.split)

lemma take_turn_relayed: "relayed (pw_log (snd (take_turn cw p))) = relayed (pw_log p)"
  by (rule take_turn_keeps [of cw "\<lambda>q. relayed (pw_log q) = relayed (pw_log p)"])
    (auto dest: maybePing_relayed)

lemma PingWriter_Write_log:
  assumes "PingWriter_Write cw now b p = (n, failed, p')"
  shows "n \<le> length b" "pw_log p' = pw_log p @ [CWrote ByRelay (take n b)]"
    "pw_boundary p' = (if n > 0 then endsWithBlankLine (take n b) else pw_boundary p)"
    "pw_finished p' = (pw_finished p \<or> n > 0 \<and> isTerminalSSELine (take n b))"
    "n = min (fst (cw (pw_log p) b)) (length b)" "failed = snd (cw (pw_log p) b)"
proof -
  obtain m f d where w: "StatusWriter_Write cw ByRelay b (pw_dst p) = (m, f, d)" by (metis surj_pair)
  from assms w have eq: "n = m" "failed = f"
      "p' = (if n > 0
             then p\<lparr>pw_dst := d, pw_last := now, pw_boundary := endsWithBlankLine (take n b),
                    pw_finished := (pw_finished p \<or> isTerminalSSELine (take n b))\<rparr>
             else p\<lparr>pw_dst := d\<rparr>)"
    unfolding PingWriter_Write_def by (simp_all only: prod.case prod.inject simp_thms, metis+)
  note l = StatusWriter_Write_log [OF w, folded eq(1,2)]
  from l show "n \<le> length b" "n = min (fst (cw (pw_log p) b)) (length b)" "failed = snd (cw (pw_log p) b)" by simp_all
  show "pw_log p' = pw_log p @ [CWrote ByRelay (take n b)]"
    "pw_boundary p' = (if n > 0 then endsWithBlankLine (take n b) else pw_boundary p)"
    "pw_finished p' = (pw_finished p \<or> n > 0 \<and> isTerminalSSELine (take n b))"
    unfolding eq(3) using l(2) by (cases "n > 0"; simp)+
qed

interpretation pinged: byte_sink "ping_sink cw" "\<lambda>p. relayed (pw_log p)" for cw
proof unfold_locales
  fix b p n failed p'
  assume "sk_write (ping_sink cw) b p = (n, failed, p')"
  then obtain now p1 where t: "take_turn cw p = (now, p1)" "PingWriter_Write cw now b p1 = (n, failed, p')"
    by (auto simp: ping_sink_def split: prod.splits)
  with PingWriter_Write_log [OF t(2)] take_turn_relayed [of cw p]
  show "n \<le> length b \<and> relayed (pw_log p') = relayed (pw_log p) @ take n b" by simp
qed (auto simp: ping_sink_def PingWriter_Flush_def take_turn_relayed)

section \<open>What a client receives\<close>

text \<open>
  A stream relayed under the heartbeat reaches the client as the rewritten stream, whatever
  the client accepts and whenever the ticks fall. What the relay wrote is a prefix of the
  rewritten lines, \<open>stats.Bytes\<close> is exactly its length, and only a limit or a failed write can
  leave it short.
\<close>

theorem relay_bytes_exact:
  assumes "CopySSE (ping_sink cw) rewrite keys src e p = (err, s)"
    and "out = concat (map (\<lambda>l. rewriteSSELine l rewrite keys) (split_lines (concat src)))"
  shows "\<exists>q. relayed (pw_log (rl_world s)) = relayed (pw_log p) @ q
           \<and> ss_Bytes (rl_stats s) = length q \<and> prefix q out
           \<and> (err \<in> {None, Some CopyReadFailed} \<longrightarrow> q = out)"
  using pinged.CopySSE_grew [OF assms(1)] assms(2)
  by (simp add: pinged.grew_def pinged.whole_def relay_start_def)

text \<open>The budget of each event over the lines of a stream, with the LF of a CRLF pair skipped.\<close>

fun events_fit :: "nat \<Rightarrow> bool \<Rightarrow> string list \<Rightarrow> bool" where
  "events_fit pending crlf [] = True"
| "events_fit pending crlf (l # ls) =
     (if crlf \<and> l = [LF] then events_fit pending False ls
      else if isEventBoundary l then events_fit 0 (last l = CR) ls
      else pending + length l \<le> MaxEventBytes \<and> events_fit (pending + length l) (last l = CR) ls)"

definition accepting :: "'w Sink \<Rightarrow> bool" where
  "accepting sk \<longleftrightarrow> (\<forall>b w. fst (sk_write sk b w) = length b \<and> \<not> fst (snd (sk_write sk b w)))"

lemma deliver_accepting:
  assumes "accepting sk"
  obtains s' where "deliver sk b s = (None, s')" "rl_pending s' = rl_pending s" "rl_crlf s' = rl_crlf s"
proof -
  obtain n failed w where w: "sk_write sk b (rl_world s) = (n, failed, w)" by (metis surj_pair)
  have "fst (sk_write sk b (rl_world s)) = length b \<and> \<not> fst (snd (sk_write sk b (rl_world s)))"
    using assms unfolding accepting_def by blast
  with w have "n = length b" "\<not> failed" by simp_all
  with w that show ?thesis by (simp add: deliver_def)
qed

lemma close_line_accounts:
  "rl_pending (close_line sk line out s) = (if isEventBoundary line then 0 else rl_pending s)"
  "line \<noteq> [] \<Longrightarrow> rl_crlf (close_line sk line out s) = (last line = CR)"
  by (simp_all add: close_line_def Let_def)

lemma frame_line_pending:
  assumes "isEventBoundary line \<or> rl_pending s + length line \<le> MaxEventBytes"
  obtains s' where "frame_line line s = (None, s')"
    "rl_pending s' = (if isEventBoundary line then rl_pending s else rl_pending s + length line)"
proof -
  have "fst (frame_line line s) = None" using assms by (auto simp: frame_line_def Let_def)
  moreover have "rl_pending (snd (frame_line line s)) = (if isEventBoundary line then rl_pending s else rl_pending s + length line)"
    by (simp add: frame_line_def Let_def split: option.split)
  ultimately show ?thesis using that [of "snd (frame_line line s)"] by (metis prod.collapse)
qed

lemma relay_line_accepting:
  assumes acc: "accepting sk" and ne: "l \<noteq> []" and fit: "events_fit (rl_pending s) (rl_crlf s) (l # ls)"
  obtains s' where "relay_line sk rewrite keys l s = (None, s')" "events_fit (rl_pending s') (rl_crlf s') ls"
proof (cases "rl_crlf s \<and> l = [LF]")
  case True
  obtain t where t: "deliver sk l s = (None, t)" "rl_pending t = rl_pending s" by (rule deliver_accepting [OF acc])
  with True fit that [of "t\<lparr>rl_crlf := False\<rparr>"] show ?thesis by (simp add: relay_line_def)
next
  case False
  with fit have "isEventBoundary l \<or> rl_pending s + length l \<le> MaxEventBytes" by (auto split: if_splits)
  then obtain s1 where s1: "frame_line l s = (None, s1)"
      "rl_pending s1 = (if isEventBoundary l then rl_pending s else rl_pending s + length l)"
    by (rule frame_line_pending)
  let ?out = "rewriteSSELine l rewrite keys"
  obtain t where t: "deliver sk ?out (observe_line sk l s1) = (None, t)" "rl_pending t = rl_pending (observe_line sk l s1)"
    by (rule deliver_accepting [OF acc])
  let ?s = "close_line sk l ?out t"
  have "rl_pending ?s = (if isEventBoundary l then 0 else rl_pending s + length l)" "rl_crlf ?s = (last l = CR)"
    using t(2) s1(2) ne by (simp_all add: close_line_accounts)
  with False fit have "events_fit (rl_pending ?s) (rl_crlf ?s) ls" by (auto split: if_splits)
  moreover have "relay_line sk rewrite keys l s = (None, ?s)" using False s1 t by (auto simp: relay_line_def)
  ultimately show ?thesis using that by blast
qed

lemma walk_accepting:
  assumes "accepting sk" and "\<And>l. l \<in> set ls \<Longrightarrow> l \<noteq> [] \<and> length l \<le> MaxLineBytes"
    and "events_fit (rl_pending s) (rl_crlf s) ls"
  shows "fst (line_walk (relay_line sk rewrite keys) (at_end e (\<lambda>s. (None, s))) ls s) =
     (if e = SrcEOF then None else Some CopyReadFailed)"
  using assms(2,3)
proof (induction ls arbitrary: s)
  case Nil
  then show ?case by (simp add: at_end_def split: SourceEnd.split)
next
  case (Cons l ls)
  obtain s' where "relay_line sk rewrite keys l s = (None, s')" "events_fit (rl_pending s') (rl_crlf s') ls"
    using relay_line_accepting [OF assms(1) _ Cons.prems(2)] Cons.prems(1) [of l] by (metis list.set_intros(1))
  moreover from this(2) have "fst (line_walk (relay_line sk rewrite keys) (at_end e (\<lambda>s. (None, s))) ls s') =
      (if e = SrcEOF then None else Some CopyReadFailed)"
    using Cons.IH [of s'] Cons.prems(1) by (metis list.set_intros(2))
  moreover have "\<not> MaxLineBytes < length l" using Cons.prems(1) [of l] by simp
  ultimately show ?case by simp
qed

lemma accepting_status_sink:
  "(\<And>h b. cw h b = (length b, False)) \<Longrightarrow> accepting (status_sink cw)"
  by (simp add: accepting_def status_sink_def StatusWriter_Write_def Let_def)

text \<open>
  C26: an untouched stream round-trips. When the rewriter has nothing in scope and the client
  accepts its writes, every stream whose lines and events stay within the caps reaches the
  client byte for byte, whatever its terminators and however it was chunked, and the relay ends
  exactly as the source does.
\<close>

theorem relay_roundtrip:
  assumes "\<And>payload. rewrite payload = payload" and "\<And>h b. cw h b = (length b, False)"
    and "\<And>l. l \<in> set (split_lines (concat src)) \<Longrightarrow> length l \<le> MaxLineBytes"
    and "events_fit 0 False (split_lines (concat src))"
    and "CopySSE (status_sink cw) rewrite keys src e w = (err, s)"
  shows "err = (if e = SrcEOF then None else Some CopyReadFailed)
      \<and> relayed (sw_log (rl_world s)) = relayed (sw_log w) @ concat src
      \<and> ss_Bytes (rl_stats s) = length (concat src)"
proof -
  have "fst (CopySSE (status_sink cw) rewrite keys src e w) = (if e = SrcEOF then None else Some CopyReadFailed)"
    unfolding CopySSE_walk
    by (rule walk_accepting)
      (use assms split_lines_nonempty in \<open>auto simp: accepting_status_sink relay_start_def\<close>)
  then have err: "err = (if e = SrcEOF then None else Some CopyReadFailed)" using assms(5) by simp
  have "map (\<lambda>l. rewriteSSELine l rewrite keys) ls = ls" for ls
    by (simp add: rewriteSSELine_noop assms(1) map_idI)
  then have "direct.grew (concat src) True (relay_start w) s"
    using direct.CopySSE_grew [OF assms(5)] err by (simp add: direct.whole_def split: if_splits)
  with err show ?thesis by (auto simp: direct.grew_def relay_start_def)
qed

section \<open>Where a ping can land\<close>

text \<open>
  The client's stream sits between events: nothing sent yet, or a blank line last, under any of
  the three line endings.
\<close>

definition at_boundary :: "string \<Rightarrow> bool" where
  "at_boundary bs \<longleftrightarrow>
     bs = [] \<or> snd (splitSSELineTerminator bs) \<noteq> [] \<and>
       (fst (splitSSELineTerminator bs) = [] \<or> is_eol (last (fst (splitSSELineTerminator bs))))"

text \<open>Over a log: every ping comes at such a point, and none follows a terminal marker.\<close>

fun pings_between :: "string \<Rightarrow> ClientEvent list \<Rightarrow> bool" where
  "pings_between acc [] = True"
| "pings_between acc (CWrote ByRelay b # es) = pings_between (acc @ b) es"
| "pings_between acc (CWrote ByPing b # es) = (at_boundary acc \<and> pings_between acc es)"
| "pings_between acc (CFlushed # es) = pings_between acc es"

fun pings_before_terminal :: "bool \<Rightarrow> ClientEvent list \<Rightarrow> bool" where
  "pings_before_terminal ended [] = True"
| "pings_before_terminal ended (CWrote ByRelay b # es) = pings_before_terminal (ended \<or> isTerminalSSELine b) es"
| "pings_before_terminal ended (CWrote ByPing b # es) = (\<not> ended \<and> pings_before_terminal ended es)"
| "pings_before_terminal ended (CFlushed # es) = pings_before_terminal ended es"

fun terminal_relayed :: "ClientEvent list \<Rightarrow> bool" where
  "terminal_relayed [] = False"
| "terminal_relayed (CWrote ByRelay b # es) = (isTerminalSSELine b \<or> terminal_relayed es)"
| "terminal_relayed (_ # es) = terminal_relayed es"

lemma pings_between_append:
  "pings_between acc (a @ b) \<longleftrightarrow> pings_between acc a \<and> pings_between (acc @ relayed a) b"
  by (induction acc a rule: pings_between.induct) auto

lemma terminal_relayed_append [simp]: "terminal_relayed (a @ b) \<longleftrightarrow> terminal_relayed a \<or> terminal_relayed b"
  by (induction a rule: terminal_relayed.induct) auto

lemma pings_before_terminal_append:
  "pings_before_terminal ended (a @ b) \<longleftrightarrow>
     pings_before_terminal ended a \<and> pings_before_terminal (ended \<or> terminal_relayed a) b"
  by (induction ended a rule: pings_before_terminal.induct) (auto simp: disj_assoc)

lemma isTerminalSSELine_Nil [simp]: "\<not> isTerminalSSELine []"
  by (simp add: isTerminalSSELine_def splitSSELineTerminator_def)

text \<open>The finished flag is set from the terminal marker on, so no tick pings after it.\<close>

definition latched :: "PingWriter \<Rightarrow> bool" where
  "latched p \<longleftrightarrow> pings_before_terminal False (pw_log p) \<and> (terminal_relayed (pw_log p) \<longrightarrow> pw_finished p)"

lemma latched_fields [simp]:
  "latched (p\<lparr>pw_running := go\<rparr>) = latched p" "latched (p\<lparr>pw_sched := r\<rparr>) = latched p"
  by (simp_all add: latched_def)

lemma maybePing_latched: "maybePing cw now p = (go, p') \<Longrightarrow> latched p \<Longrightarrow> latched p'"
  by (cases cw now p rule: maybePing_cases)
    (auto simp: latched_def pings_before_terminal_append dest!: StatusWriter_Write_log(2) split: if_splits)

lemma take_turn_latched: "latched p \<Longrightarrow> latched (snd (take_turn cw p))"
  by (rule take_turn_keeps [of cw latched]) (auto intro: maybePing_latched)

text \<open>A predicate on the writer that every call of the relay keeps holds through the relay.\<close>

lemma deliver_world: "rl_world (snd (deliver sk b s)) = snd (snd (sk_write sk b (rl_world s)))"
  by (simp add: deliver_def split: prod.split)

lemma relay_line_world:
  assumes w: "\<And>b w. P w \<Longrightarrow> P (snd (snd (sk_write sk b w)))" and f: "\<And>f w. sk_flush sk = Some f \<Longrightarrow> P w \<Longrightarrow> P (f w)"
    and ob: "sk_observe sk = None" and P: "P (rl_world s)"
  shows "P (rl_world (snd (relay_line sk rewrite keys l s)))"
proof -
  obtain e1 s1 where fr: "frame_line l s = (e1, s1)" by (metis surj_pair)
  have d: "P (rl_world t')" if "deliver sk b t = (x, t')" "rl_world t = rl_world s" for b t x t'
    using deliver_world [of sk b t] that w [OF P] by (metis snd_conv)
  have c: "P (rl_world (close_line sk l out t))" if "P (rl_world t)" for out t
    using that f by (simp add: close_line_def Let_def dispatch_event_def split: option.split)
  have "observe_line sk l s1 = s1" using ob by (simp add: observe_line_def)
  then show ?thesis using fr d c P frame_line_keeps(2) [OF fr]
    by (auto simp: relay_line_def Let_def split: prod.split option.split)
qed

lemma walk_world:
  assumes w: "\<And>b w. P w \<Longrightarrow> P (snd (snd (sk_write sk b w)))" and f: "\<And>f w. sk_flush sk = Some f \<Longrightarrow> P w \<Longrightarrow> P (f w)"
    and ob: "sk_observe sk = None" and P: "P (rl_world s)"
  shows "P (rl_world (snd (line_walk (relay_line sk rewrite keys) (at_end e (\<lambda>s. (None, s))) ls s)))"
  using P
proof (induction ls arbitrary: s)
  case Nil
  then show ?case by (simp add: at_end_def split: SourceEnd.split)
next
  case (Cons l ls)
  have "P (rl_world (snd (relay_line sk rewrite keys l s)))"
    using relay_line_world [where P = P and sk = sk and s = s] w f ob Cons.prems by blast
  then show ?case using Cons by (auto split: prod.split option.split)
qed

lemma ping_sink_latched:
  assumes "latched p"
  shows "latched (snd (snd (sk_write (ping_sink cw) b p)))"
proof -
  obtain now p1 where t: "take_turn cw p = (now, p1)" by (metis surj_pair)
  obtain n failed p' where w: "PingWriter_Write cw now b p1 = (n, failed, p')" by (metis surj_pair)
  have "latched p1" using take_turn_latched [OF assms, of cw] t by simp
  with PingWriter_Write_log [OF w] have "latched p'"
    by (cases "n = 0") (auto simp: latched_def pings_before_terminal_append)
  with t w show ?thesis by (simp add: ping_sink_def)
qed

lemma ping_flush_latched: "sk_flush (ping_sink cw) = Some f \<Longrightarrow> latched p \<Longrightarrow> latched (f p)"
  using take_turn_latched [of p cw] by (auto simp: ping_sink_def latched_def PingWriter_Flush_def pings_before_terminal_append)

text \<open>
  No keep-alive comment follows a terminal marker. In a whole stream through the heartbeat
  writer, with any client, any schedule of ticks and any ticks after the relay's last call, no
  ping is written after a write that carried \<open>[DONE]\<close>, \<open>response.completed\<close> or \<open>message_stop\<close>.
\<close>

theorem no_ping_after_terminal:
  "pings_before_terminal False (pw_log (snd (heartbeat_stream cw rewrite keys src e late
     (newPingWriter \<lparr>sw_status = status, sw_bytes = 0, sw_log = []\<rparr> interval now sched))))"
proof -
  let ?p = "newPingWriter \<lparr>sw_status = status, sw_bytes = 0, sw_log = []\<rparr> interval now sched"
  have "latched ?p" by (simp add: latched_def newPingWriter_def)
  then have "latched (rl_world (snd (CopySSE (ping_sink cw) rewrite keys src e ?p)))"
    unfolding CopySSE_walk
    by (intro walk_world [where P = latched]) (auto simp: relay_start_def ping_sink_latched intro: ping_flush_latched, simp add: ping_sink_def)
  then have "latched (fold (tick cw) late (rl_world (snd (CopySSE (ping_sink cw) rewrite keys src e ?p))))"
    by (intro ticks_keep [of cw latched]) (auto intro: maybePing_latched)
  then show ?thesis by (simp add: heartbeat_stream_def stopAndWait_def latched_def case_prod_beta)
qed

text \<open>
  For LF-framed streams the writer's \<open>boundary\<close> is right. \<open>anchored\<close> says so of the writer, and
  \<open>line_start\<close> that a new line begins.
\<close>

definition anchored :: "PingWriter \<Rightarrow> bool" where
  "anchored p \<longleftrightarrow> pings_between [] (pw_log p) \<and> (pw_boundary p \<longrightarrow> at_boundary (relayed (pw_log p)))"

definition line_start :: "string \<Rightarrow> bool" where
  "line_start bs \<longleftrightarrow> bs = [] \<or> last bs = LF"

lemma anchored_fields [simp]:
  "anchored (p\<lparr>pw_running := go\<rparr>) = anchored p" "anchored (p\<lparr>pw_sched := r\<rparr>) = anchored p"
  by (simp_all add: anchored_def)

lemma maybePing_anchored: "maybePing cw now p = (go, p') \<Longrightarrow> anchored p \<Longrightarrow> anchored p'"
  by (cases cw now p rule: maybePing_cases)
    (auto simp: anchored_def pings_between_append dest!: StatusWriter_Write_log(2) split: if_splits)

lemma take_turn_anchored: "anchored p \<Longrightarrow> anchored (snd (take_turn cw p))"
  by (rule take_turn_keeps [of cw anchored]) (auto intro: maybePing_anchored)

lemma no_LF_blank: "LF \<notin> set b \<Longrightarrow> \<not> endsWithBlankLine b"
  by (simp add: endsWithBlankLine_def last_index_byte_def index_byte_def)

lemma one_LF_blank:
  assumes "LF \<notin> set c"
  shows "endsWithBlankLine (c @ [LF]) \<longleftrightarrow> c = [] \<or> c = [CR]"
proof -
  have "last_index_byte LF (c @ [LF]) = Some (length c)" by (simp add: last_index_byte_def index_byte_def)
  moreover have "last_index_byte LF c = None" using assms by (simp add: last_index_byte_def index_byte_def)
  ultimately show ?thesis by (simp add: endsWithBlankLine_def)
qed

lemma line_start_blank: "line_start bs \<Longrightarrow> at_boundary (bs @ [LF])"
  by (cases bs rule: rev_cases)
    (auto simp: line_start_def at_boundary_def splitSSELineTerminator_def Let_def is_eol_def nth_append)

text \<open>One relayed line without CR: what the writer does with any part of it.\<close>

lemma ping_write_anchored:
  assumes out: "out = c @ t" "t \<in> {[], [LF]}" "CR \<notin> set c" "LF \<notin> set c"
    and p: "anchored p" "line_start (relayed (pw_log p))"
    and w: "sk_write (ping_sink cw) out p = (n, failed, p')"
  shows "anchored p'" and "n = length out \<Longrightarrow> t = [LF] \<Longrightarrow> line_start (relayed (pw_log p'))"
proof -
  obtain now p1 where t: "take_turn cw p = (now, p1)" "PingWriter_Write cw now out p1 = (n, failed, p')"
    using w by (auto simp: ping_sink_def split: prod.splits)
  note l = PingWriter_Write_log [OF t(2)]
  have p1: "anchored p1" "line_start (relayed (pw_log p1))"
    using take_turn_anchored [OF p(1), of cw] take_turn_relayed [of cw p] p(2) t(1) by simp_all
  show "line_start (relayed (pw_log p'))" if "n = length out" "t = [LF]"
    using l(2) that out(1) by (simp add: line_start_def)
  have bd: "at_boundary (relayed (pw_log p1) @ take n out)" if "n > 0" "endsWithBlankLine (take n out)"
  proof (cases "n = length out \<and> t = [LF]")
    case True
    with that out have "c = []" using one_LF_blank [OF out(4)] by auto
    with True out line_start_blank [OF p1(2)] show ?thesis by simp
  next
    case False
    then have "take n out = take n c" using out(1,2) l(1) by auto
    then have "LF \<notin> set (take n out)" using out(4) by (metis in_set_takeD)
    with no_LF_blank that show ?thesis by blast
  qed
  show "anchored p'"
  proof (cases "n = 0")
    case True
    with l(2,3) p1 show ?thesis by (simp add: anchored_def pings_between_append)
  next
    case False
    with l(2,3) p1 bd show ?thesis by (simp add: anchored_def pings_between_append)
  qed
qed


definition eol_free :: "string \<Rightarrow> bool" where
  "eol_free c \<longleftrightarrow> CR \<notin> set c \<and> LF \<notin> set c"

definition lf_line :: "string \<Rightarrow> string \<Rightarrow> bool" where
  "lf_line c t \<longleftrightarrow> eol_free c \<and> t \<in> {[], [LF]}"

fun lf_stream :: "string list \<Rightarrow> bool" where
  "lf_stream [] = True"
| "lf_stream (l # ls) = ((\<exists>c. eol_free c \<and> l = c @ [LF]) \<and> lf_stream ls \<or> ls = [] \<and> eol_free l)"

lemma split_lines_Nil [simp]: "split_lines bs = [] \<longleftrightarrow> bs = []"
  by (cases bs) (auto split: list.split)

lemma lf_stream_split: "CR \<notin> set bs \<Longrightarrow> lf_stream (split_lines bs)"
proof (induction bs)
  case (Cons b bs)
  show ?case
  proof (cases "b = LF")
    case True
    with Cons show ?thesis by (auto simp: is_eol_def eol_free_def)
  next
    case b: False
    with Cons.prems have "\<not> is_eol b" by (auto simp: is_eol_def)
    show ?thesis
    proof (cases "split_lines bs")
      case Nil
      with Cons.prems b show ?thesis by (auto simp: is_eol_def eol_free_def)
    next
      case (Cons l ls)
      have ext: "\<exists>c'. eol_free c' \<and> b # c @ [LF] = c' @ [LF]" if "eol_free c" for c
        using that b \<open>CR \<notin> set (b # bs)\<close> by (intro exI [of _ "b # c"]) (auto simp: eol_free_def)
      have "lf_stream (l # ls)" using Cons.IH \<open>CR \<notin> set (b # bs)\<close> Cons by simp
      with Cons ext \<open>\<not> is_eol b\<close> b \<open>CR \<notin> set (b # bs)\<close> show ?thesis by (auto simp: eol_free_def)
    qed
  qed
qed simp

lemma terminator_lf_line:
  assumes "lf_line c t"
  shows "splitSSELineTerminator (c @ t) = (c, t)"
proof (cases "c = []")
  case True
  with assms show ?thesis by (auto simp: lf_line_def splitSSELineTerminator_def)
next
  case False
  then have "c ! (length c - Suc 0) \<in> set c" by simp
  with assms have "c ! (length c - Suc 0) \<noteq> CR" "c ! (length c - Suc 0) \<noteq> LF" by (auto simp: lf_line_def eol_free_def)
  with assms False show ?thesis by (auto simp: lf_line_def splitSSELineTerminator_def Let_def nth_append Suc_le_eq)
qed

lemma rewriteSSELine_lf:
  assumes rw: "\<And>p. eol_free p \<Longrightarrow> eol_free (rewrite p)" and l: "lf_line c t"
  shows "\<exists>c'. rewriteSSELine (c @ t) rewrite keys = c' @ t \<and> lf_line c' t"
proof (cases "sseDataPayload (c @ t)")
  case None
  then show ?thesis using l by (auto simp: rewriteSSELine_def)
next
  case (Some payload)
  obtain sp where sp: "sp \<in> {[], '' ''}" "fst (splitSSELineTerminator (c @ t)) = ''data:'' @ sp @ payload"
    by (rule data_line_split [OF Some])
  then have "c = ''data:'' @ sp @ payload" by (simp add: terminator_lf_line [OF l])
  with l have "eol_free payload" by (auto simp: lf_line_def eol_free_def)
  with rw have "eol_free (if contains sseModelKey payload \<or> contains sseUsageKey payload \<or> mentionsAnyKey payload keys
                       then rewrite payload else payload)" by simp
  with sp(1) l have "lf_line (''data:'' @ sp @ (if contains sseModelKey payload \<or> contains sseUsageKey payload
      \<or> mentionsAnyKey payload keys then rewrite payload else payload)) t"
    by (auto simp: lf_line_def eol_free_def)
  then show ?thesis using rewriteSSELine_data [OF Some sp] by (metis append_assoc snd_conv terminator_lf_line [OF l])
qed

lemma ping_sink_simps [simp]: "sk_observe (ping_sink cw) = None"
  "sk_flush (ping_sink cw) = Some (\<lambda>p. PingWriter_Flush (snd (take_turn cw p)))"
  by (simp_all add: ping_sink_def)

lemma ping_flush_anchored:
  "anchored p \<Longrightarrow> anchored (PingWriter_Flush (snd (take_turn cw p)))"
  "relayed (pw_log (PingWriter_Flush (snd (take_turn cw p)))) = relayed (pw_log p)"
  using take_turn_anchored [of p cw] take_turn_relayed [of cw p]
  by (simp_all add: PingWriter_Flush_def anchored_def pings_between_append)

lemma relay_line_anchored:
  assumes rw: "\<And>p. eol_free p \<Longrightarrow> eol_free (rewrite p)" and l: "lf_line c t" "c @ t \<noteq> []"
    and s: "anchored (rl_world s)" "line_start (relayed (pw_log (rl_world s)))" "\<not> rl_crlf s"
    and r: "relay_line (ping_sink cw) rewrite keys (c @ t) s = (err, s')"
  shows "anchored (rl_world s')"
    and "err = None \<Longrightarrow> t = [LF] \<Longrightarrow> line_start (relayed (pw_log (rl_world s'))) \<and> \<not> rl_crlf s'"
proof -
  obtain c' where out: "rewriteSSELine (c @ t) rewrite keys = c' @ t" "lf_line c' t"
    using rewriteSSELine_lf [where rewrite = rewrite, OF _ l(1)] rw by blast
  obtain e1 s1 where f: "frame_line (c @ t) s = (e1, s1)" by (metis surj_pair)
  have ob: "observe_line (ping_sink cw) (c @ t) s1 = s1" by (simp add: observe_line_def)
  have s1: "rl_world s1 = rl_world s" using frame_line_keeps(2) [OF f] .
  obtain n failed p' where w: "sk_write (ping_sink cw) (c' @ t) (rl_world s1) = (n, failed, p')" by (metis surj_pair)
  have p': "anchored p'" "n = length (c' @ t) \<Longrightarrow> t = [LF] \<Longrightarrow> line_start (relayed (pw_log p'))"
    using ping_write_anchored [OF refl _ _ _ s(1,2), of t c' cw n failed p'] w s1 out(2)
    by (auto simp: lf_line_def eol_free_def)
  obtain e2 s2 where d: "deliver (ping_sink cw) (c' @ t) s1 = (e2, s2)" by (metis surj_pair)
  have s2: "rl_world s2 = p'" "e2 = None \<Longrightarrow> n = length (c' @ t)"
    using d w pinged.write_sent [OF w] by (auto simp: deliver_def split: if_splits)
  let ?s = "close_line (ping_sink cw) (c @ t) (c' @ t) s2"
  have c: "anchored (rl_world ?s)" "relayed (pw_log (rl_world ?s)) = relayed (pw_log p')"
    using s2(1) p'(1) ping_flush_anchored [where p = p' and cw = cw] by (simp_all add: close_line_def Let_def dispatch_event_def)
  have cr: "rl_crlf ?s = False" if "t = [LF]" using that by (simp add: close_line_def Let_def)
  have rr: "relay_line (ping_sink cw) rewrite keys (c @ t) s =
      (case e1 of Some x \<Rightarrow> (Some x, s1) | None \<Rightarrow> (case e2 of Some x \<Rightarrow> (Some x, s2) | None \<Rightarrow> (None, ?s)))"
    by (simp add: relay_line_def s(3) f out(1) ob d split: option.split)
  consider (frame) x where "e1 = Some x" "s' = s1" "err = Some x"
    | (fail) x where "e1 = None" "e2 = Some x" "s' = s2" "err = Some x"
    | (ok) "e1 = None" "e2 = None" "s' = ?s" "err = None"
    using r [unfolded rr] by (cases e1; cases e2) auto
  then show "anchored (rl_world s')" using s(1) s1 s2(1) p'(1) c(1) by cases simp_all
  assume e: "err = None" "t = [LF]"
  then have "s' = ?s" "e2 = None" using r [unfolded rr] by (auto split: option.splits)
  with e p'(2) s2(2) c(2) cr show "line_start (relayed (pw_log (rl_world s'))) \<and> \<not> rl_crlf s'" by simp
qed

lemma walk_anchored:
  assumes rw: "\<And>p. eol_free p \<Longrightarrow> eol_free (rewrite p)"
    and "anchored (rl_world s)" "line_start (relayed (pw_log (rl_world s)))" "\<not> rl_crlf s"
    and "lf_stream ls" "[] \<notin> set ls"
  shows "anchored (rl_world (snd (line_walk (relay_line (ping_sink cw) rewrite keys) (at_end e (\<lambda>s. (None, s))) ls s)))"
  using assms(2-)
proof (induction ls arbitrary: s)
  case Nil
  then show ?case by (simp add: at_end_def split: SourceEnd.split)
next
  case (Cons l ls)
  then obtain c t where l: "l = c @ t" "lf_line c t" "c @ t \<noteq> []" "t = [LF] \<and> lf_stream ls \<or> ls = []"
    by (auto simp: lf_line_def)
  obtain err s' where r: "relay_line (ping_sink cw) rewrite keys (c @ t) s = (err, s')" by (metis surj_pair)
  note a = relay_line_anchored [where rewrite = rewrite, OF rw l(2,3) Cons.prems(1-3) r]
  show ?case
  proof (cases "err = None \<and> ls \<noteq> []")
    case True
    with l have "t = [LF]" "lf_stream ls" by auto
    with Cons.IH [of s'] a True r l(1) Cons.prems(1,5) show ?thesis by simp
  next
    case False
    with a(1) r l(1) Cons.prems(1) show ?thesis
      by (cases err) (auto simp: at_end_def split: SourceEnd.split)
  qed
qed

text \<open>
  C27: on a stream framed with LF, a keep-alive comment is only ever written between events. With
  a rewriter that adds no line break, any client and any interleaving of ticks with the relay's
  calls, every ping in the client's log comes where the relayed bytes so far are empty or end
  with a blank line.
\<close>

theorem pings_only_between_events:
  assumes "\<And>p. eol_free p \<Longrightarrow> eol_free (rewrite p)" and "CR \<notin> set (concat src)"
  shows "pings_between [] (pw_log (snd (heartbeat_stream cw rewrite keys src e late
     (newPingWriter \<lparr>sw_status = status, sw_bytes = 0, sw_log = []\<rparr> interval now sched))))"
proof -
  let ?p = "newPingWriter \<lparr>sw_status = status, sw_bytes = 0, sw_log = []\<rparr> interval now sched"
  have "anchored (rl_world (snd (CopySSE (ping_sink cw) rewrite keys src e ?p)))"
    unfolding CopySSE_walk
    by (rule walk_anchored [where rewrite = rewrite, OF assms(1)])
      (use lf_stream_split [OF assms(2)] split_lines_nonempty in
        \<open>auto simp: relay_start_def newPingWriter_def anchored_def at_boundary_def line_start_def\<close>)
  then have "anchored (fold (tick cw) late (rl_world (snd (CopySSE (ping_sink cw) rewrite keys src e ?p))))"
    by (intro ticks_keep [of cw anchored]) (auto intro: maybePing_anchored)
  then show ?thesis by (simp add: heartbeat_stream_def stopAndWait_def anchored_def case_prod_beta)
qed

text \<open>A client that accepts everything, a writer for it, and a rewriter with nothing in scope.\<close>

definition ex_client :: ClientOracle where "ex_client h b = (length b, False)"

definition ex_writer :: "(int list \<times> int) list \<Rightarrow> PingWriter" where
  "ex_writer sched = newPingWriter \<lparr>sw_status = 200, sw_bytes = 0, sw_log = []\<rparr> 10 0 sched"

definition ex_crlf_event :: string where
  "ex_crlf_event = ''data: a'' @ [CR, LF] @ ''data: b'' @ [CR, LF] @ [CR, LF]"

text \<open>
  On a CRLF stream a keep-alive comment can split an event. The relay writes the LF of a CRLF
  pair on its own, and the writer takes it for a blank line: a tick that falls after the first
  line of a two-line event puts a comment, and with it a blank line, in the middle of the event.
\<close>

theorem crlf_ping_splits_event:
  "pw_log (snd (heartbeat_stream ex_client id [] [ex_crlf_event] SrcEOF []
       (ex_writer [([], 1), ([], 1), ([11], 12)]))) =
     [CWrote ByRelay (''data: a'' @ [CR]), CWrote ByRelay [LF], CWrote ByPing ssePing, CFlushed,
      CWrote ByRelay (''data: b'' @ [CR]), CWrote ByRelay [LF], CWrote ByRelay [CR], CFlushed, CWrote ByRelay [LF]]"
  by (simp add: heartbeat_stream_def CopySSE_walk ex_crlf_event_def is_eol_def ex_writer_def newPingWriter_def relay_start_def
      MaxLineBytes_def MaxEventBytes_def relay_line_def frame_line_def isEventBoundary_def observe_line_def
      rewriteSSELine_noop deliver_def ping_sink_def take_turn_def PingWriter_Write_def StatusWriter_Write_def
      ex_client_def sseEventName_def splitSSELineTerminator_def cut_prefix_def skip_space_def close_line_def mark_terminal_def
      isTerminalSSELine_def dispatch_event_def PingWriter_Flush_def StatusWriter_Flush_def endsWithBlankLine_def
      last_index_byte_def index_byte_def tick_def maybePing_def at_end_def stopAndWait_def ssePing_def Let_def)

theorem relay_bytes_exact_witness:
  "\<exists>err s q. CopySSE (ping_sink ex_client) id [] [''data: a'', [LF, LF]] SrcEOF (ex_writer []) = (err, s)
      \<and> relayed (pw_log (rl_world s)) = q \<and> ss_Bytes (rl_stats s) = length q \<and> prefix q (''data: a'' @ [LF, LF])"
proof -
  obtain err s where r: "CopySSE (ping_sink ex_client) id [] [''data: a'', [LF, LF]] SrcEOF (ex_writer []) = (err, s)"
    by (metis surj_pair)
  have m: "concat (map (\<lambda>l. rewriteSSELine l id []) (split_lines (concat [''data: a'', [LF, LF]]))) = ''data: a'' @ [LF, LF]"
    by (subst map_idI) (simp_all add: rewriteSSELine_noop)
  from relay_bytes_exact [OF r refl] r m show ?thesis by (auto simp: ex_writer_def newPingWriter_def)
qed

theorem relay_roundtrip_witness:
  "\<exists>s. CopySSE (status_sink ex_client) id [] [''data: a'' @ [CR], [LF, CR, LF]] SrcEOF \<lparr>sw_status = 0, sw_bytes = 0, sw_log = []\<rparr>
        = (None, s)
      \<and> relayed (sw_log (rl_world s)) = ''data: a'' @ [CR, LF, CR, LF] \<and> ss_Bytes (rl_stats s) = 11"
proof -
  let ?src = "[''data: a'' @ [CR], [LF, CR, LF]]" and ?w = "\<lparr>sw_status = 0, sw_bytes = 0, sw_log = []\<rparr>"
  obtain err s where r: "CopySSE (status_sink ex_client) id [] ?src SrcEOF ?w = (err, s)" by (metis surj_pair)
  have "l \<in> set (split_lines (concat ?src)) \<Longrightarrow> length l \<le> MaxLineBytes" for l
    by (auto simp: is_eol_def MaxLineBytes_def)
  moreover have "events_fit 0 False (split_lines (concat ?src))"
    by (simp add: is_eol_def MaxEventBytes_def isEventBoundary_def)
  ultimately have "err = None \<and> relayed (sw_log (rl_world s)) = relayed (sw_log ?w) @ concat ?src
      \<and> ss_Bytes (rl_stats s) = length (concat ?src)"
    using relay_roundtrip [OF _ _ _ _ r] by (simp add: ex_client_def)
  with r show ?thesis by auto
qed

theorem pings_only_between_events_witness:
  "CR \<notin> set (concat [''data: a'', [LF, LF], ''data: [DONE]'', [LF, LF]])
   \<and> pings_between [] (pw_log (snd (heartbeat_stream ex_client id [] [''data: a'', [LF, LF], ''data: [DONE]'', [LF, LF]] SrcEOF [40]
       (ex_writer [([], 1), ([], 2), ([13], 14), ([15], 16)]))))"
  using pings_only_between_events [of id "[''data: a'', [LF, LF], ''data: [DONE]'', [LF, LF]]"]
  by (simp add: ex_writer_def)

end
