(* ===== verification/Mem_Admission.thy ===== *)
theory Mem_Admission
  imports SSE_Line
begin

text \<open>
  The process-wide buffering budget (\<open>internal/memlimit/memlimit.go\<close>) and the buffers that grow
  under it (\<open>internal/proxy/admission.go\<close>). Reads of many requests interleave block by block over
  one budget. The lemmas show that the bytes the process buffers never exceed the limit, that
  the clamp in \<open>Release\<close> is never reached by these callers, and that an admitted read returns the
  whole input.
\<close>

section \<open>The budget\<close>

record MemBudget =
  mb_limit :: int
  mb_used :: int
  mb_peak :: int

definition mem_New :: "int \<Rightarrow> MemBudget" where
  "mem_New limit = \<lparr>mb_limit = limit, mb_used = 0, mb_peak = 0\<rparr>"

text \<open>
  A successful compare-and-swap makes the load, the test and the update one step; the raise of
  the high-water mark follows it.
\<close>

definition observePeak :: "int \<Rightarrow> MemBudget \<Rightarrow> MemBudget" where
  "observePeak now b = (if now \<le> mb_peak b then b else b\<lparr>mb_peak := now\<rparr>)"

definition mem_Acquire :: "int \<Rightarrow> MemBudget \<Rightarrow> bool \<times> MemBudget" where
  "mem_Acquire n b =
     (if n \<le> 0 then (True, b)
      else if n > wrap64 (mb_limit b - mb_used b) then (False, b)
      else let u = wrap64 (mb_used b + n) in (True, observePeak u (b\<lparr>mb_used := u\<rparr>)))"

definition mem_Release :: "int \<Rightarrow> MemBudget \<Rightarrow> MemBudget" where
  "mem_Release n b =
     (if n \<le> 0 then b
      else let u = wrap64 (mb_used b - n) in b\<lparr>mb_used := (if u < 0 then 0 else u)\<rparr>)"

section \<open>Admitted reads\<close>

definition admissionBlockStart :: int where "admissionBlockStart = 65536"
definition admissionBlockMax :: int where "admissionBlockMax = 1048576"

datatype ReadOutcome = ReadDone string | ReadRefused | ReadFailed

text \<open>
  One buffer being filled: the loop's variables, what the source still holds, how it ends, the
  reservation, and whether it was given back.
\<close>

record Reader =
  rd_buf :: string
  rd_block :: int
  rd_rest :: string
  rd_end :: SourceEnd
  rd_held :: int
  rd_out :: "ReadOutcome option"
  rd_released :: bool

definition newReader :: "string \<Rightarrow> SourceEnd \<Rightarrow> Reader" where
  "newReader src e = \<lparr>rd_buf = [], rd_block = admissionBlockStart, rd_rest = src, rd_end = e, rd_held = 0, rd_out = None,
     rd_released = False\<rparr>"

definition reserve :: "int \<Rightarrow> Reader \<Rightarrow> MemBudget \<Rightarrow> bool \<times> Reader \<times> MemBudget" where
  "reserve n r b =
     (if n \<le> 0 then (True, r, b)
      else (case mem_Acquire n b of
              (False, b') \<Rightarrow> (False, r, b')
            | (True, b') \<Rightarrow> (True, r\<lparr>rd_held := rd_held r + n\<rparr>, b')))"

definition adm_release :: "Reader \<Rightarrow> MemBudget \<Rightarrow> Reader \<times> MemBudget" where
  "adm_release r b =
     (if rd_held r = 0 then (r\<lparr>rd_released := True\<rparr>, b)
      else (r\<lparr>rd_held := 0, rd_released := True\<rparr>, mem_Release (rd_held r) b))"

definition next_block :: "int \<Rightarrow> int" where
  "next_block block = (if block < admissionBlockMax then min (block * 2) admissionBlockMax else block)"

text \<open>One turn of the loop of \<open>readAllAdmitted\<close>; \<open>io.ReadFull\<close> stops short only at the end of the source.\<close>

definition read_block :: "Reader \<Rightarrow> MemBudget \<Rightarrow> Reader \<times> MemBudget" where
  "read_block r b =
     (case reserve (rd_block r) r b of
        (False, r1, b') \<Rightarrow> (r1\<lparr>rd_out := Some ReadRefused\<rparr>, b')
      | (True, r1, b') \<Rightarrow>
          let got = take (nat (rd_block r)) (rd_rest r1);
              r2 = r1\<lparr>rd_buf := rd_buf r1 @ got, rd_rest := drop (nat (rd_block r)) (rd_rest r1)\<rparr>
          in if int (length got) < rd_block r
             then (r2\<lparr>rd_out := Some (case rd_end r2 of SrcEOF \<Rightarrow> ReadDone (rd_buf r2) | SrcFailed \<Rightarrow> ReadFailed)\<rparr>, b')
             else (r2\<lparr>rd_block := next_block (rd_block r)\<rparr>, b'))"

text \<open>The whole read by one request with the budget to itself.\<close>

fun read_loop :: "nat \<Rightarrow> Reader \<Rightarrow> MemBudget \<Rightarrow> Reader \<times> MemBudget" where
  "read_loop 0 r b = (r, b)"
| "read_loop (Suc k) r b =
     (if rd_out r \<noteq> None then (r, b) else (case read_block r b of (r', b') \<Rightarrow> read_loop k r' b'))"

definition readAllAdmitted :: "string \<Rightarrow> SourceEnd \<Rightarrow> MemBudget \<Rightarrow> Reader \<times> MemBudget" where
  "readAllAdmitted src e b = read_loop (length src + 1) (newReader src e) b"

text \<open>All the requests of a process over its one budget.\<close>

record MemSystem =
  ms_budget :: MemBudget
  ms_readers :: "Reader list"

datatype MemOp = MOpen string SourceEnd | MBlock nat | MRelease nat

definition mem_step :: "MemOp \<Rightarrow> MemSystem \<Rightarrow> MemSystem" where
  "mem_step op s =
     (case op of
        MOpen src e \<Rightarrow> s\<lparr>ms_readers := ms_readers s @ [newReader src e]\<rparr>
      | MBlock i \<Rightarrow>
          if i < length (ms_readers s) \<and> rd_out (ms_readers s ! i) = None \<and> \<not> rd_released (ms_readers s ! i)
          then (case read_block (ms_readers s ! i) (ms_budget s) of
                  (r, b) \<Rightarrow> s\<lparr>ms_budget := b, ms_readers := (ms_readers s)[i := r]\<rparr>)
          else s
      | MRelease i \<Rightarrow>
          if i < length (ms_readers s)
          then (case adm_release (ms_readers s ! i) (ms_budget s) of
                  (r, b) \<Rightarrow> s\<lparr>ms_budget := b, ms_readers := (ms_readers s)[i := r]\<rparr>)
          else s)"

definition mem_run :: "MemOp list \<Rightarrow> MemSystem \<Rightarrow> MemSystem" where
  "mem_run ops s = fold mem_step ops s"

text \<open>The bytes the process holds in buffers that have not been given back.\<close>

definition buffered :: "MemSystem \<Rightarrow> int" where
  "buffered s = (\<Sum>r\<leftarrow>ms_readers s. if rd_released r then 0 else int (length (rd_buf r)))"

section \<open>The ceiling\<close>

definition reserved :: "MemSystem \<Rightarrow> int" where
  "reserved s = (\<Sum>r\<leftarrow>ms_readers s. rd_held r)"

definition reader_ok :: "Reader \<Rightarrow> bool" where
  "reader_ok r \<longleftrightarrow> 0 \<le> rd_held r \<and> 0 < rd_block r \<and> rd_block r \<le> admissionBlockMax
     \<and> (\<not> rd_released r \<longrightarrow> int (length (rd_buf r)) \<le> rd_held r
          \<and> rd_held r \<le> int (length (rd_buf r)) + (if rd_out r = None then 0 else admissionBlockMax))"

definition budget_ok :: "MemBudget \<Rightarrow> bool" where
  "budget_ok b \<longleftrightarrow> 0 \<le> mb_used b \<and> mb_used b \<le> mb_limit b \<and> mb_limit b \<le> int64_max \<and> mb_used b \<le> mb_peak b \<and> mb_peak b \<le> mb_limit b"

definition system_ok :: "MemSystem \<Rightarrow> bool" where
  "system_ok s \<longleftrightarrow> budget_ok (ms_budget s) \<and> mb_used (ms_budget s) = reserved s \<and> (\<forall>r\<in>set (ms_readers s). reader_ok r)"

lemma mem_Acquire_ok:
  assumes "budget_ok b" and "0 < n" and "mem_Acquire n b = (ok, b')"
  shows "budget_ok b'" and "mb_used b' = mb_used b + (if ok then n else 0)" and "mb_limit b' = mb_limit b"
    and "ok \<longleftrightarrow> n \<le> mb_limit b - mb_used b"
proof -
  have "in_int64 (mb_limit b - mb_used b)" using assms(1) by (auto simp: budget_ok_def in_int64_iff int64_max_def)
  moreover have "in_int64 (mb_used b + n)" if "n \<le> mb_limit b - mb_used b"
    using assms(1,2) that by (auto simp: budget_ok_def in_int64_iff int64_max_def)
  ultimately show "budget_ok b'" "mb_used b' = mb_used b + (if ok then n else 0)" "mb_limit b' = mb_limit b"
      "ok \<longleftrightarrow> n \<le> mb_limit b - mb_used b"
    using assms by (auto simp: mem_Acquire_def wrap64_id observePeak_def Let_def budget_ok_def split: if_splits)
qed

lemma mem_Release_ok:
  assumes "budget_ok b" and "0 \<le> n" and "n \<le> mb_used b"
  shows "budget_ok (mem_Release n b)" and "mb_used (mem_Release n b) = mb_used b - n" and "mb_limit (mem_Release n b) = mb_limit b"
proof -
  have "in_int64 (mb_used b - n)" using assms by (auto simp: budget_ok_def in_int64_iff int64_max_def)
  then show "budget_ok (mem_Release n b)" "mb_used (mem_Release n b) = mb_used b - n" "mb_limit (mem_Release n b) = mb_limit b"
    using assms by (auto simp: mem_Release_def wrap64_id budget_ok_def Let_def)
qed

lemma next_block_ok: "0 < k \<Longrightarrow> k \<le> admissionBlockMax \<Longrightarrow> 0 < next_block k \<and> next_block k \<le> admissionBlockMax"
  by (auto simp: next_block_def admissionBlockMax_def)

lemma read_block_ok:
  assumes r: "reader_ok r" "rd_out r = None" "\<not> rd_released r" and b: "budget_ok b" and rb: "read_block r b = (r', b')"
  shows "reader_ok r'" and "budget_ok b'" and "mb_used b' - mb_used b = rd_held r' - rd_held r" and "mb_limit b' = mb_limit b"
proof -
  have k: "0 < rd_block r" using r by (simp add: reader_ok_def)
  obtain ok b1 where a: "mem_Acquire (rd_block r) b = (ok, b1)" by (metis surj_pair)
  note ao = mem_Acquire_ok [OF b k a]
  have "reader_ok r' \<and> budget_ok b' \<and> mb_used b' - mb_used b = rd_held r' - rd_held r \<and> mb_limit b' = mb_limit b"
  proof (cases ok)
    case False
    then have "r' = r\<lparr>rd_out := Some ReadRefused\<rparr>" "b' = b1" using rb a k by (auto simp: read_block_def reserve_def)
    with False ao r show ?thesis by (auto simp: reader_ok_def admissionBlockMax_def)
  next
    case True
    let ?got = "take (nat (rd_block r)) (rd_rest r)"
    have g: "int (length ?got) \<le> rd_block r" using k by auto
    have held: "rd_held r' = rd_held r + rd_block r" "b' = b1" "rd_buf r' = rd_buf r @ ?got" "\<not> rd_released r'"
        "rd_out r' = None \<longleftrightarrow> \<not> int (length ?got) < rd_block r" "rd_block r' \<in> {rd_block r, next_block (rd_block r)}"
      using rb a True k r by (auto simp: read_block_def reserve_def Let_def split: if_splits)
    have blk: "0 < rd_block r' \<and> rd_block r' \<le> admissionBlockMax" "rd_block r \<le> admissionBlockMax"
      using held(6) k r(1) next_block_ok [of "rd_block r"] by (auto simp: reader_ok_def)
    have len: "int (length (rd_buf r')) = int (length (rd_buf r)) + int (length ?got)"
      unfolding held(3) by (simp only: length_append of_nat_add)
    have "reader_ok r'"
      unfolding reader_ok_def using held(1,4,5) blk len g r k by (simp add: reader_ok_def)
    with held ao True show ?thesis by simp
  qed
  then show "reader_ok r'" "budget_ok b'" "mb_used b' - mb_used b = rd_held r' - rd_held r" "mb_limit b' = mb_limit b" by simp_all
qed

lemma sum_list_update:
  "i < length xs \<Longrightarrow> (\<Sum>x\<leftarrow>xs[i := y]. f x) = (\<Sum>x\<leftarrow>xs. f x) - f (xs ! i) + (f y :: int)"
  by (induction xs arbitrary: i) (auto split: nat.split)

lemma held_le_reserved:
  assumes "\<forall>r\<in>set rs. 0 \<le> rd_held r" and "r \<in> set rs"
  shows "rd_held r \<le> (\<Sum>r\<leftarrow>rs. rd_held r)"
  using assms by (intro member_le_sum_list) auto

lemma adm_release_ok:
  assumes r: "reader_ok r" and b: "budget_ok b" "rd_held r \<le> mb_used b" and ab: "adm_release r b = (r', b')"
  shows "reader_ok r'" and "budget_ok b'" and "mb_used b' - mb_used b = rd_held r' - rd_held r" and "mb_limit b' = mb_limit b"
  using assms mem_Release_ok [OF b(1), of "rd_held r"] by (auto simp: adm_release_def reader_ok_def split: if_splits)

text \<open>A step on one reader that moves the budget by what the reader holds keeps the whole system.\<close>

lemma reader_step_ok:
  assumes s: "system_ok s" and i: "i < length (ms_readers s)" and r: "reader_ok r" and b: "budget_ok b"
    and eq: "mb_used b - mb_used (ms_budget s) = rd_held r - rd_held (ms_readers s ! i)"
  shows "system_ok (s\<lparr>ms_budget := b, ms_readers := (ms_readers s)[i := r]\<rparr>)"
  using s i r b eq sum_list_update [OF i, of rd_held r]
  by (auto simp: system_ok_def reserved_def dest!: set_update_subset_insert [THEN subsetD])

lemma mem_step_ok:
  assumes s: "system_ok s"
  shows "system_ok (mem_step op s) \<and> mb_limit (ms_budget (mem_step op s)) = mb_limit (ms_budget s)"
proof (cases op)
  case (MOpen src e)
  with s show ?thesis
    by (auto simp: mem_step_def system_ok_def reserved_def newReader_def reader_ok_def admissionBlockStart_def admissionBlockMax_def)
next
  case (MBlock i)
  let ?r = "ms_readers s ! i"
  show ?thesis
  proof (cases "i < length (ms_readers s) \<and> rd_out ?r = None \<and> \<not> rd_released ?r")
    case True
    obtain r' b' where rb: "read_block ?r (ms_budget s) = (r', b')" by (metis surj_pair)
    have "reader_ok ?r" "budget_ok (ms_budget s)" using s True by (auto simp: system_ok_def)
    then have k: "reader_ok r'" "budget_ok b'" "mb_used b' - mb_used (ms_budget s) = rd_held r' - rd_held ?r"
        "mb_limit b' = mb_limit (ms_budget s)"
      using read_block_ok [OF _ _ _ _ rb] True by auto
    have "system_ok (s\<lparr>ms_budget := b', ms_readers := (ms_readers s)[i := r']\<rparr>)"
      by (rule reader_step_ok [OF s _ k(1-3)]) (use True in simp)
    with True rb k(4) show ?thesis by (simp add: mem_step_def MBlock)
  next
    case False
    with s MBlock show ?thesis by (auto simp: mem_step_def)
  qed
next
  case (MRelease i)
  let ?r = "ms_readers s ! i"
  show ?thesis
  proof (cases "i < length (ms_readers s)")
    case True
    obtain r' b' where rb: "adm_release ?r (ms_budget s) = (r', b')" by (metis surj_pair)
    have ok: "reader_ok ?r" "budget_ok (ms_budget s)" using s True by (auto simp: system_ok_def)
    have "rd_held ?r \<le> mb_used (ms_budget s)"
      using held_le_reserved [of "ms_readers s" ?r] s True by (auto simp: system_ok_def reserved_def reader_ok_def)
    note k = adm_release_ok [OF ok this rb]
    have "system_ok (s\<lparr>ms_budget := b', ms_readers := (ms_readers s)[i := r']\<rparr>)"
      by (rule reader_step_ok [OF s True k(1-3)])
    with True rb k(4) show ?thesis by (simp add: mem_step_def MRelease)
  next
    case False
    with s MRelease show ?thesis by (simp add: mem_step_def)
  qed
qed

lemma mem_run_ok:
  "system_ok s \<Longrightarrow> system_ok (mem_run ops s) \<and> mb_limit (ms_budget (mem_run ops s)) = mb_limit (ms_budget s)"
proof (induction ops arbitrary: s)
  case (Cons op ops)
  then show ?case using mem_step_ok [of s op] Cons.IH [of "mem_step op s"] by (simp add: mem_run_def)
qed (simp add: mem_run_def)

text \<open>
  C39: the process never buffers more than its budget. Over every interleaving of opens, reads
  and releases of any number of requests, the bytes held in buffers are covered by
  reservations, the counter is exactly the sum of the reservations and stays between zero and
  the limit, the high-water mark bounds it, and a buffer's reservation exceeds its bytes by at
  most one maximal block.
\<close>

theorem buffering_bounded:
  assumes "0 \<le> limit" and "limit \<le> int64_max"
    and "s = mem_run ops \<lparr>ms_budget = mem_New limit, ms_readers = []\<rparr>"
  shows "buffered s \<le> mb_used (ms_budget s) \<and> mb_used (ms_budget s) = (\<Sum>r\<leftarrow>ms_readers s. rd_held r)
       \<and> 0 \<le> mb_used (ms_budget s) \<and> mb_used (ms_budget s) \<le> mb_peak (ms_budget s) \<and> mb_peak (ms_budget s) \<le> limit
       \<and> (\<forall>r\<in>set (ms_readers s). \<not> rd_released r \<longrightarrow> rd_held r \<le> int (length (rd_buf r)) + admissionBlockMax)"
proof -
  let ?s0 = "\<lparr>ms_budget = mem_New limit, ms_readers = []\<rparr>"
  have "system_ok ?s0" using assms(1,2) by (simp add: system_ok_def budget_ok_def mem_New_def reserved_def)
  then have s: "system_ok s" "mb_limit (ms_budget s) = limit"
    using mem_run_ok [of ?s0 ops] assms(3) by (simp_all add: mem_New_def)
  have "buffered s \<le> reserved s"
    unfolding buffered_def reserved_def using s(1) by (intro sum_list_mono) (auto simp: system_ok_def reader_ok_def)
  with s show ?thesis
    by (auto simp: system_ok_def budget_ok_def reserved_def reader_ok_def admissionBlockMax_def split: if_splits)
qed

section \<open>One read\<close>

lemma read_block_granted:
  assumes "reader_ok r" "rd_out r = None" "budget_ok b" "rd_block r \<le> mb_limit b - mb_used b"
  shows "\<exists>b'. read_block r b =
     (let got = take (nat (rd_block r)) (rd_rest r);
          r2 = r\<lparr>rd_held := rd_held r + rd_block r, rd_buf := rd_buf r @ got, rd_rest := drop (nat (rd_block r)) (rd_rest r)\<rparr>
      in if int (length got) < rd_block r
         then r2\<lparr>rd_out := Some (case rd_end r of SrcEOF \<Rightarrow> ReadDone (rd_buf r2) | SrcFailed \<Rightarrow> ReadFailed)\<rparr>
         else r2\<lparr>rd_block := next_block (rd_block r)\<rparr>, b')"
proof -
  have k: "0 < rd_block r" using assms(1) by (simp add: reader_ok_def)
  obtain ok b1 where a: "mem_Acquire (rd_block r) b = (ok, b1)" by (metis surj_pair)
  then have "ok" using mem_Acquire_ok(4) [OF assms(3) k a] assms(4) by simp
  with a k show ?thesis by (simp add: read_block_def reserve_def Let_def split: SourceEnd.split)
qed

lemma read_loop_complete:
  assumes "reader_ok r" "rd_out r = None" "\<not> rd_released r" "budget_ok b"
    and "length (rd_rest r) < k" and "int (length (rd_rest r)) + admissionBlockMax \<le> mb_limit b - mb_used b"
  shows "rd_out (fst (read_loop k r b)) =
     Some (case rd_end r of SrcEOF \<Rightarrow> ReadDone (rd_buf r @ rd_rest r) | SrcFailed \<Rightarrow> ReadFailed)"
  using assms
proof (induction k arbitrary: r b)
  case (Suc k)
  have blk: "0 < rd_block r" "rd_block r \<le> admissionBlockMax" using Suc.prems(1) by (simp_all add: reader_ok_def)
  obtain r' b' where rb: "read_block r b = (r', b')" by (metis surj_pair)
  note ok = read_block_ok [OF Suc.prems(1-4) rb]
  have "rd_block r \<le> mb_limit b - mb_used b" using blk Suc.prems(6) by linarith
  from read_block_granted [OF Suc.prems(1,2,4) this] rb
  have r': "r' = (let got = take (nat (rd_block r)) (rd_rest r);
          r2 = r\<lparr>rd_held := rd_held r + rd_block r, rd_buf := rd_buf r @ got, rd_rest := drop (nat (rd_block r)) (rd_rest r)\<rparr>
      in if int (length got) < rd_block r
         then r2\<lparr>rd_out := Some (case rd_end r of SrcEOF \<Rightarrow> ReadDone (rd_buf r2) | SrcFailed \<Rightarrow> ReadFailed)\<rparr>
         else r2\<lparr>rd_block := next_block (rd_block r)\<rparr>)" by auto
  show ?case
  proof (cases "int (length (rd_rest r)) < rd_block r")
    case True
    then have t: "take (nat (rd_block r)) (rd_rest r) = rd_rest r" "rd_out r' \<noteq> None" by (auto simp: r' Let_def)
    from t(1) True have "rd_out r' = Some (case rd_end r of SrcEOF \<Rightarrow> ReadDone (rd_buf r @ rd_rest r) | SrcFailed \<Rightarrow> ReadFailed)"
      by (simp add: r' split: SourceEnd.split)
    then show ?thesis using Suc.prems(2) rb by (cases k) simp_all
  next
    case False
    then have l: "int (length (take (nat (rd_block r)) (rd_rest r))) = rd_block r" using blk by auto
    then have n: "rd_out r' = None" "\<not> rd_released r'" "rd_buf r' = rd_buf r @ take (nat (rd_block r)) (rd_rest r)"
        "rd_rest r' = drop (nat (rd_block r)) (rd_rest r)" "rd_end r' = rd_end r" "rd_held r' = rd_held r + rd_block r"
      using Suc.prems(2,3) by (simp_all add: r' Let_def)
    have d: "int (length (rd_rest r')) = int (length (rd_rest r)) - rd_block r" using n(4) False blk by auto
    have "length (rd_rest r') < k" using d blk Suc.prems(5) by linarith
    moreover have "int (length (rd_rest r')) + admissionBlockMax \<le> mb_limit b' - mb_used b'"
      using d ok(3,4) n(6) Suc.prems(6) by linarith
    ultimately have "rd_out (fst (read_loop k r' b')) =
        Some (case rd_end r' of SrcEOF \<Rightarrow> ReadDone (rd_buf r' @ rd_rest r') | SrcFailed \<Rightarrow> ReadFailed)"
      using Suc.IH [OF ok(1) n(1,2) ok(2)] by blast
    moreover have "rd_buf r' @ rd_rest r' = rd_buf r @ rd_rest r" using n(3,4) by simp
    ultimately show ?thesis using n(5) rb Suc.prems(2) by (cases "rd_end r") simp_all
  qed
qed simp

text \<open>
  An admitted read is \<open>io.ReadAll\<close>. When the budget has room for the input and one more
  block, the read ends with exactly the bytes of the source (or its failure), whatever the
  length and block boundaries, and every byte it reserved can be given back.
\<close>

theorem readAllAdmitted_complete:
  assumes "budget_ok b" and "int (length src) + admissionBlockMax \<le> mb_limit b - mb_used b"
    and "readAllAdmitted src e b = (r, b')"
  shows "rd_out r = Some (case e of SrcEOF \<Rightarrow> ReadDone src | SrcFailed \<Rightarrow> ReadFailed)"
proof -
  have "reader_ok (newReader src e)"
    by (simp add: newReader_def reader_ok_def admissionBlockStart_def admissionBlockMax_def)
  moreover have "rd_out (newReader src e) = None" "\<not> rd_released (newReader src e)" "rd_buf (newReader src e) = []"
      "rd_rest (newReader src e) = src" "rd_end (newReader src e) = e"
    by (simp_all add: newReader_def)
  ultimately show ?thesis
    using read_loop_complete [of "newReader src e" b "length src + 1"] assms unfolding readAllAdmitted_def
    by (cases e) (simp_all del: read_loop.simps)
qed

theorem readAllAdmitted_complete_witness:
  "rd_out (fst (readAllAdmitted ''hello'' SrcEOF (mem_New 2000000))) = Some (ReadDone ''hello'')"
proof -
  obtain r b' where r: "readAllAdmitted ''hello'' SrcEOF (mem_New 2000000) = (r, b')" by (metis surj_pair)
  have "budget_ok (mem_New 2000000)" by (simp add: budget_ok_def mem_New_def int64_max_def)
  from readAllAdmitted_complete [OF this _ r] r show ?thesis by (simp add: mem_New_def admissionBlockMax_def)
qed

theorem buffering_bounded_witness:
  "buffered (mem_run [MOpen ''abc'' SrcEOF, MBlock 0, MOpen ''d'' SrcEOF, MBlock 1, MRelease 0]
      \<lparr>ms_budget = mem_New 100000, ms_readers = []\<rparr>) \<le> 100000"
  using buffering_bounded [of 100000 _ "[MOpen ''abc'' SrcEOF, MBlock 0, MOpen ''d'' SrcEOF, MBlock 1, MRelease 0]", OF _ _ refl]
  by (simp add: int64_max_def)

text \<open>
  A release that matches no reservation leaves the counter below what is outstanding: with two
  reservations of ten bytes, giving the first back twice lets a third caller take twenty of the
  twenty-byte limit.
\<close>

lemma over_release_undercounts:
  "mem_Acquire 20 (mem_Release 10 (mem_Release 10 (snd (mem_Acquire 10 (snd (mem_Acquire 10 (mem_New 20)))))))
     = (True, \<lparr>mb_limit = 20, mb_used = 20, mb_peak = 20\<rparr>)"
  by (simp add: mem_Acquire_def mem_Release_def mem_New_def wrap64_def observePeak_def)

end
