(* ===== verification/Stream_Window.thy ===== *)
theory Stream_Window
  imports Prelude
begin

text \<open>
  The moving idle window of a stream (\<open>recoveryWindow\<close> and \<open>hopBounds\<close> of
  \<open>internal/proxy/streamrecovery.go\<close>). Every method runs under the window's mutex, so a history
  is a sequence of method calls with the clock each one read. Timer callbacks are calls too: any
  guard ever armed may call \<open>fire\<close>, late, early or after its timer was stopped. The lemmas show
  that an operation is cut only after a full interval of upstream silence, and never after it
  was released.
\<close>

section \<open>State\<close>

text \<open>What a guard does when it trips: it closes a body or cancels a request context.\<close>

datatype Trip = CloseBody nat | CancelCtx nat

record Guard =
  g_id :: nat
  g_lease :: nat
  g_trip :: Trip

text \<open>
  Guards and leases are compared by pointer in the source: fresh numbers here. \<open>rw_timers\<close> are
  the timers that were started and not stopped, with the instant each is due, \<open>rw_armed\<close> every
  guard whose callback may still run, and \<open>rw_cuts\<close> the operations ended so far. \<open>rw_active\<close> is
  the last upstream activity; the source keeps only the deadline derived from it.
\<close>

record Window =
  rw_idle :: int
  rw_deadline :: int
  rw_closed :: bool
  rw_guard :: "Guard option"
  rw_fresh :: nat
  rw_timers :: "(nat \<times> int) list"
  rw_armed :: "Guard list"
  rw_cuts :: "(int \<times> nat \<times> Trip) list"
  rw_active :: int

definition newRecoveryWindow :: "int \<Rightarrow> int \<Rightarrow> Window" where
  "newRecoveryWindow now maxIdle =
     \<lparr>rw_idle = maxIdle, rw_deadline = now + maxIdle, rw_closed = False, rw_guard = None, rw_fresh = 0, rw_timers = [],
      rw_armed = [], rw_cuts = [], rw_active = now\<rparr>"

section \<open>Methods\<close>

definition stop_timer_of :: "Guard option \<Rightarrow> Window \<Rightarrow> Window" where
  "stop_timer_of g w = (case g of None \<Rightarrow> w | Some g \<Rightarrow> w\<lparr>rw_timers := filter (\<lambda>(i, due). i \<noteq> g_id g) (rw_timers w)\<rparr>)"

definition run_trip :: "int \<Rightarrow> Guard option \<Rightarrow> Window \<Rightarrow> Window" where
  "run_trip now g w = (case g of None \<Rightarrow> w | Some g \<Rightarrow> w\<lparr>rw_cuts := rw_cuts w @ [(now, g_lease g, g_trip g)]\<rparr>)"

definition expireLocked :: "int \<Rightarrow> Window \<Rightarrow> Guard option \<times> Window" where
  "expireLocked now w =
     (if rw_closed w \<or> now < rw_deadline w then (None, w)
      else (rw_guard w, w\<lparr>rw_closed := True, rw_guard := None\<rparr>))"

text \<open>What every caller of \<open>expireLocked\<close> does with its result once the mutex is free.\<close>

definition settle_expiry :: "int \<Rightarrow> Window \<Rightarrow> Window" where
  "settle_expiry now w = (case expireLocked now w of (g, w') \<Rightarrow> run_trip now g (stop_timer_of g w'))"

definition armLocked :: "nat \<Rightarrow> Trip \<Rightarrow> Window \<Rightarrow> Window" where
  "armLocked lease trip w =
     (let g = \<lparr>g_id = rw_fresh w, g_lease = lease, g_trip = trip\<rparr>
      in w\<lparr>rw_guard := Some g, rw_fresh := rw_fresh w + 1, rw_timers := (g_id g, rw_deadline w) # rw_timers w,
           rw_armed := g # rw_armed w\<rparr>)"

definition fire :: "Guard \<Rightarrow> int \<Rightarrow> Window \<Rightarrow> Window" where
  "fire g now w =
     (if rw_guard w \<noteq> Some g \<or> rw_closed w then w
      else if now < rw_deadline w then armLocked (g_lease g) (g_trip g) (w\<lparr>rw_guard := None\<rparr>)
      else run_trip now (Some g) (w\<lparr>rw_closed := True, rw_guard := None\<rparr>))"

definition disarm :: "nat \<Rightarrow> Window \<Rightarrow> Window" where
  "disarm lease w =
     (case rw_guard w of
        None \<Rightarrow> w
      | Some g \<Rightarrow> if g_lease g = lease then stop_timer_of (Some g) (w\<lparr>rw_guard := None\<rparr>) else w)"

definition spent :: "int \<Rightarrow> Window \<Rightarrow> bool" where
  "spent now w \<longleftrightarrow> rw_closed w \<or> rw_deadline w \<le> now"

definition progress :: "int \<Rightarrow> Window \<Rightarrow> bool \<times> Window" where
  "progress now w =
     (if spent now w then (False, settle_expiry now w)
      else let w1 = w\<lparr>rw_deadline := now + rw_idle w, rw_active := now\<rparr>
           in (True, case rw_guard w of
                       None \<Rightarrow> w1
                     | Some old \<Rightarrow> stop_timer_of (Some old) (armLocked (g_lease old) (g_trip old) (w1\<lparr>rw_guard := None\<rparr>))))"

definition expired :: "int \<Rightarrow> Window \<Rightarrow> bool \<times> Window" where
  "expired now w = (let w' = settle_expiry now w in (rw_closed w', w'))"

definition shut :: "Window \<Rightarrow> bool" where
  "shut w = rw_closed w"

text \<open>A spent window trips the guard it still had, or closes the body it was asked to watch.\<close>

definition armBody :: "int \<Rightarrow> nat \<Rightarrow> Window \<Rightarrow> nat option \<times> Window" where
  "armBody now body w =
     (if spent now w
      then (None, case fst (expireLocked now w) of
                    None \<Rightarrow> (let w' = settle_expiry now w in w'\<lparr>rw_cuts := rw_cuts w' @ [(now, rw_fresh w, CloseBody body)],
                              rw_fresh := rw_fresh w + 1\<rparr>)
                  | Some g \<Rightarrow> settle_expiry now w)
      else (Some (rw_fresh w), armLocked (rw_fresh w) (CloseBody body) (w\<lparr>rw_fresh := rw_fresh w + 1\<rparr>)))"

definition dialable :: "int \<Rightarrow> Window \<Rightarrow> bool \<times> Window" where
  "dialable now w = (case expired now w of (e, w') \<Rightarrow> (\<not> e, w'))"

definition bind_hop :: "int \<Rightarrow> nat \<Rightarrow> Window \<Rightarrow> nat option \<times> Window" where
  "bind_hop now ctx w =
     (if spent now w then (None, settle_expiry now w)
      else (Some (rw_fresh w), armLocked (rw_fresh w) (CancelCtx ctx) (w\<lparr>rw_fresh := rw_fresh w + 1\<rparr>)))"

definition promote :: "int \<Rightarrow> nat \<Rightarrow> nat \<Rightarrow> Window \<Rightarrow> bool \<times> Window" where
  "promote now lease body w =
     (case rw_guard w of
        None \<Rightarrow> (False, w)
      | Some g \<Rightarrow>
          if g_lease g \<noteq> lease \<or> rw_closed w then (False, w)
          else if spent now w then (False, settle_expiry now w)
          else (True, stop_timer_of (Some g)
                        (armLocked lease (CloseBody body)
                          (w\<lparr>rw_deadline := now + rw_idle w, rw_active := now, rw_guard := None\<rparr>))))"

section \<open>Histories\<close>

datatype WinOp = WFire nat | WDisarm nat | WProgress | WExpired | WArmBody nat | WBind nat | WPromote nat nat

definition win_step :: "int \<times> WinOp \<Rightarrow> Window \<Rightarrow> Window" where
  "win_step c w =
     (case c of (now, op) \<Rightarrow>
        (case op of
           WFire i \<Rightarrow> if i < length (rw_armed w) then fire (rw_armed w ! i) now w else w
         | WDisarm l \<Rightarrow> disarm l w
         | WProgress \<Rightarrow> snd (progress now w)
         | WExpired \<Rightarrow> snd (expired now w)
         | WArmBody b \<Rightarrow> snd (armBody now b w)
         | WBind c \<Rightarrow> snd (bind_hop now c w)
         | WPromote l b \<Rightarrow> snd (promote now l b w)))"

definition win_run :: "(int \<times> WinOp) list \<Rightarrow> Window \<Rightarrow> Window" where
  "win_run ops w = fold win_step ops w"

section \<open>The invariant\<close>

text \<open>
  The deadline is one interval after the last activity; an open window has cut nothing; every cut
  came at least one interval after the last activity; a guard is current, watched by a running
  timer that is due at the deadline.
\<close>

definition window_ok :: "Window \<Rightarrow> bool" where
  "window_ok w \<longleftrightarrow>
     rw_deadline w = rw_active w + rw_idle w
     \<and> (\<not> rw_closed w \<longrightarrow> rw_cuts w = [])
     \<and> (\<forall>(t, l, a)\<in>set (rw_cuts w). rw_deadline w \<le> t)
     \<and> (\<forall>g\<in>set (rw_armed w). g_id g < rw_fresh w \<and> g_lease g < rw_fresh w)
     \<and> (case rw_guard w of
          None \<Rightarrow> True
        | Some g \<Rightarrow> \<not> rw_closed w \<and> g \<in> set (rw_armed w) \<and> (g_id g, rw_deadline w) \<in> set (rw_timers w))"

named_theorems window_methods \<open>unfolding rules of the window's methods\<close>

lemmas [window_methods] = fire_def disarm_def progress_def expired_def armBody_def bind_hop_def promote_def
  settle_expiry_def expireLocked_def armLocked_def run_trip_def stop_timer_of_def spent_def Let_def

lemma newRecoveryWindow_ok: "window_ok (newRecoveryWindow now idle)"
  by (simp add: window_ok_def newRecoveryWindow_def)

lemma settle_expiry_ok: "window_ok w \<Longrightarrow> window_ok (settle_expiry now w)"
  by (auto simp: window_ok_def settle_expiry_def expireLocked_def run_trip_def stop_timer_of_def split: option.splits)

lemma arm_ok:
  assumes "window_ok w" "\<not> rw_closed w" "lease < rw_fresh w + 1"
  shows "window_ok (armLocked lease trip (w\<lparr>rw_guard := None\<rparr>))" "window_ok (armLocked lease trip w)"
  using assms by (auto simp: window_ok_def armLocked_def Let_def less_Suc_eq split: option.splits)

definition window_at :: "int \<Rightarrow> Window \<Rightarrow> bool" where
  "window_at t w \<longleftrightarrow> window_ok w \<and> (rw_closed w \<longrightarrow> rw_deadline w \<le> t)"

lemma stop_timer_frame [simp]:
  "rw_idle (stop_timer_of g w) = rw_idle w" "rw_deadline (stop_timer_of g w) = rw_deadline w"
  "rw_closed (stop_timer_of g w) = rw_closed w" "rw_guard (stop_timer_of g w) = rw_guard w"
  "rw_fresh (stop_timer_of g w) = rw_fresh w" "rw_armed (stop_timer_of g w) = rw_armed w"
  "rw_cuts (stop_timer_of g w) = rw_cuts w" "rw_active (stop_timer_of g w) = rw_active w"
  by (simp_all add: stop_timer_of_def split: option.split)

text \<open>Stopping the timer of a guard that is not the current one.\<close>

lemma stop_timer_ok:
  assumes "window_ok w" and "\<And>h. rw_guard w = Some h \<Longrightarrow> g_id h \<noteq> g_id g"
  shows "window_ok (stop_timer_of (Some g) w)"
  using assms by (auto simp: window_ok_def stop_timer_of_def split: option.splits)

lemma settle_expiry_at:
  assumes "window_at t w" "t \<le> now" "spent now w"
  shows "window_at now (settle_expiry now w)" "rw_closed (settle_expiry now w)"
  using assms settle_expiry_ok [of w now]
  by (auto simp: window_at_def settle_expiry_def expireLocked_def run_trip_def stop_timer_of_def spent_def split: option.splits)

lemma rearm_ok:
  assumes w: "window_ok w" "\<not> rw_closed w" and g: "rw_guard w = Some g"
    and w1: "w1 = w\<lparr>rw_deadline := now + rw_idle w, rw_active := now, rw_guard := None\<rparr>"
  shows "window_at now (stop_timer_of (Some g) (armLocked (g_lease g) trip w1))"
proof -
  have old: "g_id g < rw_fresh w" "g_lease g < rw_fresh w" using w(1) g by (auto simp: window_ok_def)
  have "window_ok w1" "\<not> rw_closed w1" using w by (auto simp: w1 window_ok_def)
  then have "window_ok (armLocked (g_lease g) trip w1)" using arm_ok(2) [of w1 "g_lease g"] old(2) by (simp add: w1)
  then have "window_ok (stop_timer_of (Some g) (armLocked (g_lease g) trip w1))"
    using old(1) by (intro stop_timer_ok) (auto simp: armLocked_def Let_def w1)
  then show ?thesis using w(2) by (simp add: window_at_def armLocked_def Let_def w1)
qed

lemma fresh_arm_ok:
  assumes "window_at t w" "\<not> rw_closed w"
  shows "window_at now (armLocked (rw_fresh w) trip (w\<lparr>rw_fresh := rw_fresh w + 1\<rparr>))"
proof -
  have "window_ok (w\<lparr>rw_fresh := rw_fresh w + 1\<rparr>)"
    using assms(1) by (auto simp: window_at_def window_ok_def less_Suc_eq split: option.splits)
  then show ?thesis using arm_ok(2) [of "w\<lparr>rw_fresh := rw_fresh w + 1\<rparr>" "rw_fresh w" trip] assms(2)
    by (simp add: window_at_def armLocked_def Let_def)
qed

lemma fire_at:
  assumes "window_at t w" "t \<le> now"
  shows "window_at now (fire g now w)"
proof -
  have ok: "window_ok w" using assms(1) by (simp add: window_at_def)
  consider (stale) "rw_guard w \<noteq> Some g \<or> rw_closed w" | (early) "rw_guard w = Some g" "\<not> rw_closed w" "now < rw_deadline w"
    | (due) "rw_guard w = Some g" "\<not> rw_closed w" "rw_deadline w \<le> now" by linarith
  then show ?thesis
  proof cases
    case stale
    with assms show ?thesis by (auto simp: fire_def window_at_def)
  next
    case early
    then have "g_lease g < rw_fresh w + 1" using ok by (auto simp: window_ok_def less_Suc_eq)
    from arm_ok(1) [OF ok early(2) this] early show ?thesis by (simp add: fire_def window_at_def armLocked_def Let_def)
  next
    case due
    with ok show ?thesis by (auto simp: fire_def window_at_def window_ok_def run_trip_def)
  qed
qed

lemma drop_guard_ok: "window_ok w \<Longrightarrow> window_ok (w\<lparr>rw_guard := None\<rparr>)"
  by (auto simp: window_ok_def)

lemma advance_ok:
  "window_ok w \<Longrightarrow> \<not> rw_closed w \<Longrightarrow> rw_guard w = None \<Longrightarrow>
     window_at now (w\<lparr>rw_deadline := now + rw_idle w, rw_active := now\<rparr>)"
  by (simp add: window_at_def window_ok_def)

lemma disarm_at: "window_at t w \<Longrightarrow> window_at t (disarm l w)"
  using drop_guard_ok [of w] stop_timer_ok [of "w\<lparr>rw_guard := None\<rparr>"]
  by (simp add: disarm_def window_at_def split: option.split)

lemma late_body_ok:
  assumes "window_at now w" "rw_closed w" "rw_fresh v = rw_fresh w"
  shows "window_at now (w\<lparr>rw_cuts := rw_cuts w @ [(now, rw_fresh v, a)], rw_fresh := rw_fresh v + 1\<rparr>)"
  using assms by (auto simp: window_at_def window_ok_def less_Suc_eq split: option.splits)

lemma settle_expiry_fresh [simp]: "rw_fresh (settle_expiry now w) = rw_fresh w"
  by (simp add: settle_expiry_def expireLocked_def run_trip_def split: option.split)

lemma not_spent_settle: "\<not> spent now w \<Longrightarrow> settle_expiry now w = w"
  by (simp add: spent_def settle_expiry_def expireLocked_def run_trip_def stop_timer_of_def)

lemma win_step_at:
  assumes w: "window_at t w" and t: "t \<le> now"
  shows "window_at now (win_step (now, op) w)"
proof -
  have ok: "window_ok w" and cl: "rw_closed w \<longrightarrow> rw_deadline w \<le> now" using w t by (auto simp: window_at_def)
  have same: "window_at now w" using ok cl by (simp add: window_at_def)
  show ?thesis
  proof (cases op)
    case (WFire i)
    then show ?thesis using fire_at [OF w t] same by (simp add: win_step_def)
  next
    case (WDisarm l)
    then show ?thesis using disarm_at [OF same] by (simp add: win_step_def)
  next
    case WProgress
    show ?thesis
    proof (cases "spent now w")
      case True
      then show ?thesis using settle_expiry_at(1) [OF w t] by (simp add: WProgress win_step_def progress_def)
    next
      case False
      then have open_w: "\<not> rw_closed w" by (simp add: spent_def)
      show ?thesis
      proof (cases "rw_guard w")
        case None
        with False advance_ok [OF ok open_w None] show ?thesis by (simp add: WProgress win_step_def progress_def)
      next
        case (Some g)
        with False rearm_ok [OF ok open_w Some refl, of now "g_trip g"] show ?thesis
          by (simp add: WProgress win_step_def progress_def Let_def)
      qed
    qed
  next
    case WExpired
    show ?thesis using settle_expiry_at(1) [OF w t] same not_spent_settle [of now w]
      by (cases "spent now w") (simp_all add: WExpired win_step_def expired_def Let_def)
  next
    case (WArmBody b)
    show ?thesis
    proof (cases "spent now w")
      case True
      note s = settle_expiry_at [OF w t True]
      show ?thesis
      proof (cases "fst (expireLocked now w)")
        case None
        with True late_body_ok [OF s, of w "CloseBody b"] show ?thesis
          by (simp add: WArmBody win_step_def armBody_def Let_def)
      next
        case (Some g)
        with True s show ?thesis by (simp add: WArmBody win_step_def armBody_def)
      qed
    next
      case False
      then show ?thesis using fresh_arm_ok [OF w] by (simp add: WArmBody win_step_def armBody_def spent_def)
    qed
  next
    case (WBind c)
    then show ?thesis using fresh_arm_ok [OF w] settle_expiry_at(1) [OF w t]
      by (auto simp: win_step_def bind_hop_def spent_def)
  next
    case (WPromote l b)
    show ?thesis
    proof (cases "rw_guard w")
      case None
      then show ?thesis using same by (simp add: WPromote win_step_def promote_def)
    next
      case (Some g)
      then show ?thesis
        using same settle_expiry_at(1) [OF w t] rearm_ok [OF ok _ Some refl, of now "CloseBody b"]
        by (auto simp: WPromote win_step_def promote_def spent_def)
    qed
  qed
qed

fun in_order :: "int \<Rightarrow> (int \<times> WinOp) list \<Rightarrow> bool" where
  "in_order t [] = True"
| "in_order t ((now, op) # ops) = (t \<le> now \<and> in_order now ops)"

lemma win_run_at: "window_at t w \<Longrightarrow> in_order t ops \<Longrightarrow> \<exists>u. window_at u (win_run ops w)"
proof (induction t ops arbitrary: w rule: in_order.induct)
  case (2 t now op ops)
  then show ?case using win_step_at [of t w now op] by (simp add: win_run_def)
qed (auto simp: win_run_def)

lemma win_step_idle [simp]: "rw_idle (win_step c w) = rw_idle w"
  by (simp add: win_step_def window_methods split: prod.split WinOp.split option.split)

lemma win_run_idle [simp]: "rw_idle (win_run ops w) = rw_idle w"
  unfolding win_run_def by (induction ops arbitrary: w) simp_all

text \<open>A lease without a guard: it was issued, and no guard carries it any more.\<close>

definition retired :: "nat \<Rightarrow> Window \<Rightarrow> bool" where
  "retired l w \<longleftrightarrow> l < rw_fresh w \<and> (\<forall>g. rw_guard w = Some g \<longrightarrow> g_lease g \<noteq> l)"

definition lease_cuts :: "nat \<Rightarrow> Window \<Rightarrow> (int \<times> nat \<times> Trip) list" where
  "lease_cuts l w = filter (\<lambda>(t, l', a). l' = l) (rw_cuts w)"

lemma retired_settle:
  "retired l w \<Longrightarrow> retired l (settle_expiry now w) \<and> lease_cuts l (settle_expiry now w) = lease_cuts l w"
  by (auto simp: retired_def lease_cuts_def settle_expiry_def expireLocked_def run_trip_def split: option.split)

lemma retired_fire: "retired l w \<Longrightarrow> retired l (fire g now w) \<and> lease_cuts l (fire g now w) = lease_cuts l w"
  by (auto simp: retired_def lease_cuts_def fire_def armLocked_def run_trip_def Let_def)

lemma retired_progress:
  "retired l w \<Longrightarrow> retired l (snd (progress now w)) \<and> lease_cuts l (snd (progress now w)) = lease_cuts l w"
  using retired_settle [of l w now]
  by (auto simp: progress_def retired_def lease_cuts_def armLocked_def Let_def split: option.split)

lemma retired_fresh_arm:
  "retired l w \<Longrightarrow> retired l (armLocked (rw_fresh w) a (w\<lparr>rw_fresh := rw_fresh w + 1\<rparr>))
     \<and> lease_cuts l (armLocked (rw_fresh w) a (w\<lparr>rw_fresh := rw_fresh w + 1\<rparr>)) = lease_cuts l w"
  by (auto simp: retired_def lease_cuts_def armLocked_def Let_def)

lemma retired_armBody:
  "retired l w \<Longrightarrow> retired l (snd (armBody now b w)) \<and> lease_cuts l (snd (armBody now b w)) = lease_cuts l w"
  using retired_settle [of l w now] retired_fresh_arm [of l w "CloseBody b"]
  by (auto simp: armBody_def Let_def retired_def lease_cuts_def split: option.split)

lemma retired_promote:
  "retired l w \<Longrightarrow> retired l (snd (promote now k b w)) \<and> lease_cuts l (snd (promote now k b w)) = lease_cuts l w"
  using retired_settle [of l w now]
  by (auto simp: promote_def retired_def lease_cuts_def armLocked_def Let_def split: option.split)

lemma retired_step: "retired l w \<Longrightarrow> retired l (win_step (now, op) w) \<and> lease_cuts l (win_step (now, op) w) = lease_cuts l w"
proof (cases op)
  case (WDisarm k)
  assume "retired l w"
  with WDisarm show ?thesis by (auto simp: win_step_def disarm_def retired_def lease_cuts_def split: option.split)
qed (auto simp: win_step_def expired_def Let_def bind_hop_def retired_settle retired_fire retired_progress retired_armBody
    retired_promote retired_fresh_arm [simplified])

lemma retired_run: "retired l w \<Longrightarrow> lease_cuts l (win_run ops w) = lease_cuts l w"
proof (induction ops arbitrary: w)
  case (Cons c ops)
  obtain now op where "c = (now, op)" by (cases c)
  with Cons retired_step [of l w now op] show ?case by (simp add: win_run_def)
qed (simp add: win_run_def)

text \<open>
  C30: the window cuts silence and nothing else. Over every history of calls with a clock that
  does not go back, including callbacks that run late, early or after their timer was stopped,
  an operation is ended only when a whole idle interval has passed since the last accepted
  upstream activity, an open window has ended nothing, and a read at or after the deadline is
  never accepted as progress.
\<close>

theorem window_cuts_only_silence:
  assumes "in_order start ops" and "w = win_run ops (newRecoveryWindow start idle)"
  shows "(\<forall>(t, l, a)\<in>set (rw_cuts w). rw_active w + idle \<le> t) \<and> (\<not> shut w \<longrightarrow> rw_cuts w = [])
       \<and> (fst (progress now w) \<longleftrightarrow> \<not> shut w \<and> now < rw_active w + idle)"
proof -
  have "window_at start (newRecoveryWindow start idle)"
    using newRecoveryWindow_ok [of start idle] by (simp add: window_at_def newRecoveryWindow_def)
  then obtain u where "window_at u w" using win_run_at assms by blast
  moreover have "rw_idle w = idle" using assms(2) by (simp add: newRecoveryWindow_def)
  ultimately show ?thesis by (auto simp: window_at_def window_ok_def shut_def progress_def spent_def Let_def)
qed

text \<open>
  A released operation is never cut. Once a lease has been disarmed, no later history of
  calls, stale callbacks included, ends the operation it stood for.
\<close>

theorem disarmed_never_cut:
  assumes "l < rw_fresh w" and "lease_cuts l w = []"
  shows "lease_cuts l (win_run ops (disarm l w)) = []"
proof -
  have "retired l (disarm l w)" using assms(1) by (auto simp: retired_def disarm_def split: option.split)
  then have "lease_cuts l (win_run ops (disarm l w)) = lease_cuts l (disarm l w)" by (rule retired_run)
  also have "lease_cuts l (disarm l w) = lease_cuts l w" by (simp add: lease_cuts_def disarm_def split: option.split)
  finally show ?thesis using assms(2) by simp
qed

text \<open>
  C31: silence is cut. In every reachable window that guards an operation a timer is running that
  is due exactly at the deadline, and its callback at or after the deadline ends exactly that
  operation and shuts the window for good.
\<close>

theorem silence_is_cut:
  assumes "in_order start ops" and "w = win_run ops (newRecoveryWindow start idle)" and "rw_guard w = Some g"
  shows "(g_id g, rw_active w + idle) \<in> set (rw_timers w)
       \<and> (rw_active w + idle \<le> now \<longrightarrow> shut (fire g now w) \<and> rw_cuts (fire g now w) = [(now, g_lease g, g_trip g)])"
proof -
  have "window_at start (newRecoveryWindow start idle)"
    using newRecoveryWindow_ok [of start idle] by (simp add: window_at_def newRecoveryWindow_def)
  then obtain u where "window_at u w" using win_run_at assms by blast
  moreover have "rw_idle w = idle" using assms(2) by (simp add: newRecoveryWindow_def)
  ultimately show ?thesis using assms(3) by (auto simp: window_at_def window_ok_def shut_def fire_def run_trip_def)
qed

text \<open>A hop bound at 3, promoted at 7, read from at 9 and never again, under an interval of 10.\<close>

definition ex_history :: "(int \<times> WinOp) list" where
  "ex_history = [(3, WBind 1), (7, WPromote 0 2), (9, WProgress), (12, WFire 2), (20, WFire 0)]"

lemma ex_history_run:
  "win_run (take 3 ex_history) (newRecoveryWindow 0 10) =
     \<lparr>rw_idle = 10, rw_deadline = 19, rw_closed = False,
      rw_guard = Some \<lparr>g_id = 3, g_lease = 0, g_trip = CloseBody 2\<rparr>, rw_fresh = 4, rw_timers = [(3, 19)],
      rw_armed = [\<lparr>g_id = 3, g_lease = 0, g_trip = CloseBody 2\<rparr>, \<lparr>g_id = 2, g_lease = 0, g_trip = CloseBody 2\<rparr>,
                  \<lparr>g_id = 1, g_lease = 0, g_trip = CancelCtx 1\<rparr>], rw_cuts = [], rw_active = 9\<rparr>"
  by (simp add: ex_history_def win_run_def win_step_def newRecoveryWindow_def window_methods)

theorem window_cuts_only_silence_witness:
  "\<exists>w. w = win_run ex_history (newRecoveryWindow 0 10) \<and> shut w \<and> rw_cuts w = [(20, 0, CloseBody 2)]
      \<and> \<not> fst (progress 21 w) \<and> rw_active w + 10 \<le> 20"
proof -
  let ?w = "win_run ex_history (newRecoveryWindow 0 10)"
  have w: "shut ?w" "rw_cuts ?w = [(20, 0, CloseBody 2)]"
    by (simp_all add: ex_history_def win_run_def win_step_def newRecoveryWindow_def window_methods shut_def)
  from window_cuts_only_silence [of 0 ex_history ?w 10 21] w show ?thesis by (auto simp: ex_history_def)
qed

theorem disarmed_never_cut_witness:
  "lease_cuts 0 (win_run [(25, WFire 0), (26, WExpired)] (disarm 0 (win_run (take 3 ex_history) (newRecoveryWindow 0 10)))) = []"
  by (rule disarmed_never_cut) (simp_all add: ex_history_run lease_cuts_def)

theorem silence_is_cut_witness:
  "\<exists>w g. w = win_run (take 3 ex_history) (newRecoveryWindow 0 10) \<and> rw_guard w = Some g
      \<and> (g_id g, 19) \<in> set (rw_timers w) \<and> rw_cuts (fire g 20 w) = [(20, 0, CloseBody 2)]"
  using silence_is_cut [of 0 "take 3 ex_history" _ 10 "\<lparr>g_id = 3, g_lease = 0, g_trip = CloseBody 2\<rparr>" 20, OF _ refl]
  by (simp add: ex_history_run) (simp add: ex_history_def)

end
