(* ===== verification/Partial_Text.thy ===== *)
theory Partial_Text
  imports Prelude
begin

text \<open>
  The safety gate of a continuation: \<open>partialText\<close> of \<open>internal/proxy/continuation.go\<close>, which
  accumulates the assistant text of a committed stream and refuses every stream it cannot prove
  to be one plain answer. JSON values are a datatype; the syntax of JSON is the decoder's
  (\<open>encoding/json\<close>), an argument of \<open>Observe_payload\<close>. The lemmas give the gate's verdict on a
  stream of chunks exactly, and show that a refusal or a declared end is never taken back.
\<close>

section \<open>JSON values\<close>

text \<open>
  A number is kept as an integer when its literal is one: that is what decoding into an \<open>int\<close>
  accepts. Objects keep their members in order; decoding into a map keeps the last of a
  repeated key.
\<close>

datatype Json = JNull | JBool bool | JInt int | JReal string | JStr string | JArr "Json list" | JObj "(string \<times> Json) list"

type_synonym members = "(string \<times> Json) list"

definition jget :: "members \<Rightarrow> string \<Rightarrow> Json option" where
  "jget obj k = map_of (rev obj) k"

text \<open>A member that is present and not null.\<close>

definition jmember :: "members \<Rightarrow> string \<Rightarrow> Json option" where
  "jmember obj k = (case jget obj k of Some v \<Rightarrow> if v = JNull then None else Some v | None \<Rightarrow> None)"

text \<open>Decoding into a map, a string, an \<open>int\<close>, and a slice of maps; null leaves the zero value.\<close>

definition as_object :: "Json \<Rightarrow> members option" where
  "as_object v = (case v of JObj kvs \<Rightarrow> Some kvs | JNull \<Rightarrow> Some [] | _ \<Rightarrow> None)"

definition as_string :: "Json \<Rightarrow> string option" where
  "as_string v = (case v of JStr s \<Rightarrow> Some s | JNull \<Rightarrow> Some [] | _ \<Rightarrow> None)"

definition as_int :: "Json \<Rightarrow> int option" where
  "as_int v = (case v of JInt n \<Rightarrow> if in_int64 n then Some n else None | JNull \<Rightarrow> Some 0 | _ \<Rightarrow> None)"

fun all_some :: "'a option list \<Rightarrow> 'a list option" where
  "all_some [] = Some []"
| "all_some (x # xs) = (case x of None \<Rightarrow> None | Some y \<Rightarrow> map_option (Cons y) (all_some xs))"

definition as_objects :: "Json \<Rightarrow> members list option" where
  "as_objects v = (case v of JArr vs \<Rightarrow> all_some (map as_object vs) | JNull \<Rightarrow> Some [] | _ \<Rightarrow> None)"

section \<open>The accumulator\<close>

definition apiChat :: string where "apiChat = ''chat''"
definition apiResponses :: string where "apiResponses = ''responses''"

definition reasonToolCalls :: string where "reasonToolCalls = ''tool_calls''"
definition reasonRefusal :: string where "reasonRefusal = ''refusal''"
definition reasonUpstreamTerminal :: string where "reasonUpstreamTerminal = ''upstream_terminal''"
definition reasonNotObject :: string where "reasonNotObject = ''not_object''"
definition reasonUnknownShape :: string where "reasonUnknownShape = ''unknown_shape''"
definition reasonMultipleOutputs :: string where "reasonMultipleOutputs = ''multiple_outputs''"
definition reasonOversize :: string where "reasonOversize = ''oversize''"
definition reasonNoPrefix :: string where "reasonNoPrefix = ''no_prefix''"

lemmas reason_defs = reasonToolCalls_def reasonRefusal_def reasonUpstreamTerminal_def reasonNotObject_def
  reasonUnknownShape_def reasonMultipleOutputs_def reasonOversize_def reasonNoPrefix_def

datatype Verdict = VerdictRecoverable string | VerdictTerminal | VerdictUnsafe string

record PartialText =
  pt_api :: string
  pt_limit :: int
  pt_text :: string
  pt_unsafe :: string
  pt_terminal :: bool
  pt_itemSeen :: bool
  pt_itemBound :: bool
  pt_itemID :: string
  pt_outputIndex :: int
  pt_streamBound :: bool
  pt_contentIndex :: int
  pt_streamKind :: string
  pt_choiceBound :: bool
  pt_choiceIndex :: int
  pt_passStart :: nat

definition newPartialText :: "string \<Rightarrow> int \<Rightarrow> PartialText" where
  "newPartialText api limit =
     \<lparr>pt_api = api, pt_limit = limit, pt_text = [], pt_unsafe = [], pt_terminal = False, pt_itemSeen = False,
      pt_itemBound = False, pt_itemID = [], pt_outputIndex = 0, pt_streamBound = False, pt_contentIndex = 0,
      pt_streamKind = [], pt_choiceBound = False, pt_choiceIndex = 0, pt_passStart = 0\<rparr>"

definition beginUpstreamStream :: "PartialText \<Rightarrow> PartialText" where
  "beginUpstreamStream p =
     p\<lparr>pt_passStart := length (pt_text p), pt_itemSeen := False, pt_itemBound := False, pt_itemID := [], pt_outputIndex := 0,
       pt_streamBound := False, pt_contentIndex := 0, pt_streamKind := [], pt_choiceBound := False, pt_choiceIndex := 0\<rparr>"

definition passText :: "PartialText \<Rightarrow> string" where
  "passText p = drop (pt_passStart p) (pt_text p)"

definition Verdict_of :: "PartialText \<Rightarrow> Verdict" where
  "Verdict_of p =
     (if pt_unsafe p \<noteq> [] then VerdictUnsafe (pt_unsafe p)
      else if pt_terminal p then VerdictTerminal
      else if pt_text p = [] then VerdictUnsafe reasonNoPrefix
      else VerdictRecoverable (pt_text p))"

definition partialBytes :: "PartialText \<Rightarrow> nat" where
  "partialBytes p = length (pt_text p)"

definition refuse :: "string \<Rightarrow> PartialText \<Rightarrow> PartialText" where
  "refuse reason p = p\<lparr>pt_unsafe := (if pt_unsafe p = [] then reason else pt_unsafe p), pt_text := [], pt_passStart := 0\<rparr>"

definition finish :: "PartialText \<Rightarrow> PartialText" where
  "finish p = p\<lparr>pt_terminal := True, pt_text := [], pt_passStart := 0\<rparr>"

definition append_text :: "string \<Rightarrow> PartialText \<Rightarrow> PartialText" where
  "append_text s p =
     (if s = [] \<or> pt_unsafe p \<noteq> [] \<or> pt_terminal p then p
      else let p' = p\<lparr>pt_text := pt_text p @ s\<rparr>
           in if int (length (pt_text p')) \<ge> pt_limit p then refuse reasonOversize p' else p')"

section \<open>Members\<close>

definition responsesStringMember :: "members \<Rightarrow> string \<Rightarrow> string option" where
  "responsesStringMember obj k =
     (case jmember obj k of
        None \<Rightarrow> None
      | Some v \<Rightarrow> (case as_string v of None \<Rightarrow> None | Some s \<Rightarrow> if s = [] then None else Some s))"

definition responsesIndexMember :: "members \<Rightarrow> string \<Rightarrow> int option" where
  "responsesIndexMember obj k =
     (case jmember obj k of
        None \<Rightarrow> None
      | Some v \<Rightarrow> (case as_int v of None \<Rightarrow> None | Some n \<Rightarrow> if n < 0 then None else Some n))"

section \<open>Chat chunks\<close>

definition bindChoiceIndex :: "members \<Rightarrow> PartialText \<Rightarrow> bool \<times> PartialText" where
  "bindChoiceIndex choice p =
     (case responsesIndexMember choice ''index'' of
        None \<Rightarrow> (False, refuse reasonUnknownShape p)
      | Some index \<Rightarrow>
          let p1 = (if pt_choiceBound p then p else p\<lparr>pt_choiceBound := True, pt_choiceIndex := index\<rparr>)
          in if pt_choiceIndex p1 \<noteq> index \<or> pt_choiceIndex p1 \<noteq> 0
             then (False, refuse reasonMultipleOutputs p1) else (True, p1))"

text \<open>What a delta says: a refusal, or the content it carries if any.\<close>

definition chat_delta :: "members \<Rightarrow> string + string option" where
  "chat_delta choice =
     (case jmember choice ''delta'' of
        None \<Rightarrow> Inr None
      | Some raw \<Rightarrow>
          (case as_object raw of
             None \<Rightarrow> Inl reasonUnknownShape
           | Some delta \<Rightarrow>
               if jmember delta ''tool_calls'' \<noteq> None then Inl reasonToolCalls
               else if jmember delta ''function_call'' \<noteq> None then Inl reasonToolCalls
               else (case jmember delta ''content'' of
                       None \<Rightarrow> Inr None
                     | Some c \<Rightarrow> (case as_string c of None \<Rightarrow> Inl reasonUnknownShape | Some s \<Rightarrow> Inr (Some s)))))"

definition observe_choice :: "members \<Rightarrow> PartialText \<Rightarrow> PartialText" where
  "observe_choice choice p =
     (case chat_delta choice of
        Inl reason \<Rightarrow> refuse reason p
      | Inr content \<Rightarrow>
          (case bindChoiceIndex choice p of
             (False, p1) \<Rightarrow> p1
           | (True, p1) \<Rightarrow>
               let p2 = (case content of None \<Rightarrow> p1 | Some s \<Rightarrow> append_text s p1)
               in if content \<noteq> None \<and> pt_unsafe p2 \<noteq> [] then p2
                  else if jmember choice ''finish_reason'' \<noteq> None then finish p2
                  else p2))"

definition observeChatChunk :: "members \<Rightarrow> PartialText \<Rightarrow> PartialText" where
  "observeChatChunk obj p =
     (case jmember obj ''choices'' of
        None \<Rightarrow> p
      | Some raw \<Rightarrow>
          (case as_objects raw of
             None \<Rightarrow> refuse reasonUnknownShape p
           | Some choices \<Rightarrow>
               if length choices > 1 then refuse reasonMultipleOutputs p
               else (case choices of [] \<Rightarrow> p | choice # _ \<Rightarrow> observe_choice choice p)))"

section \<open>Responses events\<close>

definition frameNameAgrees :: "members \<Rightarrow> string option \<Rightarrow> bool" where
  "frameNameAgrees obj name =
     (case name of
        None \<Rightarrow> False
      | Some n \<Rightarrow>
          n \<noteq> [] \<and> (case jget obj ''type'' of
                       None \<Rightarrow> False
                     | Some raw \<Rightarrow> (case as_string raw of None \<Rightarrow> False | Some typ \<Rightarrow> n = typ)))"

definition bindItemIdentity :: "string \<Rightarrow> int \<Rightarrow> PartialText \<Rightarrow> bool \<times> PartialText" where
  "bindItemIdentity itemID outputIndex p =
     (if \<not> pt_itemBound p then (True, p\<lparr>pt_itemBound := True, pt_itemID := itemID, pt_outputIndex := outputIndex\<rparr>)
      else if pt_itemID p \<noteq> itemID \<or> pt_outputIndex p \<noteq> outputIndex then (False, refuse reasonMultipleOutputs p)
      else (True, p))"

definition bindTextStream :: "string \<Rightarrow> members \<Rightarrow> PartialText \<Rightarrow> bool \<times> PartialText" where
  "bindTextStream kind obj p =
     (case (responsesStringMember obj ''item_id'', responsesIndexMember obj ''output_index'',
            responsesIndexMember obj ''content_index'') of
        (Some itemID, Some outputIndex, Some contentIndex) \<Rightarrow>
          (case bindItemIdentity itemID outputIndex p of
             (False, p1) \<Rightarrow> (False, p1)
           | (True, p1) \<Rightarrow>
               if \<not> pt_streamBound p1
               then (True, p1\<lparr>pt_streamBound := True, pt_contentIndex := contentIndex, pt_streamKind := kind\<rparr>)
               else if pt_contentIndex p1 \<noteq> contentIndex \<or> pt_streamKind p1 \<noteq> kind
               then (False, refuse reasonMultipleOutputs p1)
               else (True, p1))
      | _ \<Rightarrow> (False, refuse reasonUnknownShape p))"

definition text_delta :: string where "text_delta = ''response.output_text.delta''"

definition appendDelta :: "string \<Rightarrow> members \<Rightarrow> PartialText \<Rightarrow> PartialText" where
  "appendDelta kind obj p =
     (case jmember obj ''delta'' of
        None \<Rightarrow> p
      | Some raw \<Rightarrow>
          (case as_string raw of
             None \<Rightarrow> refuse reasonUnknownShape p
           | Some s \<Rightarrow> (case bindTextStream kind obj p of (False, p1) \<Rightarrow> p1 | (True, p1) \<Rightarrow> append_text s p1)))"

definition observeResponsesTextDone :: "members \<Rightarrow> PartialText \<Rightarrow> PartialText" where
  "observeResponsesTextDone obj p =
     (case bindTextStream text_delta obj p of
        (False, p1) \<Rightarrow> p1
      | (True, p1) \<Rightarrow>
          (case jmember obj ''text'' of
             None \<Rightarrow> refuse reasonUnknownShape p1
           | Some raw \<Rightarrow>
               (case as_string raw of
                  None \<Rightarrow> refuse reasonUnknownShape p1
                | Some txt \<Rightarrow>
                    let p2 = (if passText p1 = [] then append_text txt p1
                              else if passText p1 \<noteq> txt then refuse reasonUnknownShape p1 else p1)
                    in if pt_unsafe p2 = [] then finish p2 else p2)))"

definition observeResponsesRefusalDelta :: "PartialText \<Rightarrow> PartialText" where
  "observeResponsesRefusalDelta p = refuse reasonRefusal p"

definition observeResponsesRefusalDone :: "members \<Rightarrow> PartialText \<Rightarrow> PartialText" where
  "observeResponsesRefusalDone obj p =
     (case jmember obj ''refusal'' of
        None \<Rightarrow> p
      | Some raw \<Rightarrow>
          (case as_string raw of
             None \<Rightarrow> refuse reasonUnknownShape p
           | Some txt \<Rightarrow> if txt = [] then p else refuse reasonRefusal p))"

definition responsesItem :: "members \<Rightarrow> (members \<times> string) option" where
  "responsesItem obj =
     (case jmember obj ''item'' of
        None \<Rightarrow> None
      | Some raw \<Rightarrow>
          (case as_object raw of
             None \<Rightarrow> None
           | Some item \<Rightarrow>
               (case jmember item ''type'' of
                  None \<Rightarrow> None
                | Some traw \<Rightarrow> map_option (\<lambda>typ. (item, typ)) (as_string traw))))"

definition bindMessageItem :: "members \<Rightarrow> members \<Rightarrow> PartialText \<Rightarrow> PartialText" where
  "bindMessageItem item obj p =
     (case (responsesStringMember item ''id'', responsesIndexMember obj ''output_index'') of
        (Some ident, Some index) \<Rightarrow> snd (bindItemIdentity ident index p)
      | _ \<Rightarrow> refuse reasonUnknownShape p)"

definition observeResponseItem :: "members \<Rightarrow> PartialText \<Rightarrow> PartialText" where
  "observeResponseItem obj p =
     (case responsesItem obj of
        None \<Rightarrow> refuse reasonUnknownShape p
      | Some (item, typ) \<Rightarrow>
          if typ = ''message''
          then (if pt_itemSeen p then refuse reasonMultipleOutputs p else bindMessageItem item obj (p\<lparr>pt_itemSeen := True\<rparr>))
          else if typ = ''reasoning'' then p
          else refuse reasonToolCalls p)"

definition observeResponseItemDone :: "members \<Rightarrow> PartialText \<Rightarrow> PartialText" where
  "observeResponseItemDone obj p =
     (case responsesItem obj of
        None \<Rightarrow> refuse reasonUnknownShape p
      | Some (item, typ) \<Rightarrow>
          if typ = ''message'' then bindMessageItem item obj p
          else if typ = ''reasoning'' then p
          else refuse reasonToolCalls p)"

definition verifyPartText :: "members \<Rightarrow> PartialText \<Rightarrow> PartialText" where
  "verifyPartText part p =
     (case jmember part ''text'' of
        None \<Rightarrow> p
      | Some raw \<Rightarrow>
          (case as_string raw of
             None \<Rightarrow> refuse reasonUnknownShape p
           | Some txt \<Rightarrow> if txt = [] then p else if passText p \<noteq> txt then refuse reasonUnknownShape p else p))"

definition observeContentPart :: "members \<Rightarrow> bool \<Rightarrow> PartialText \<Rightarrow> PartialText" where
  "observeContentPart obj closing p =
     (case bindTextStream text_delta obj p of
        (False, p1) \<Rightarrow> p1
      | (True, p1) \<Rightarrow>
          (case jmember obj ''part'' of
             None \<Rightarrow> p1
           | Some raw \<Rightarrow>
               (case as_object raw of
                  None \<Rightarrow> refuse reasonUnknownShape p1
                | Some part \<Rightarrow>
                    (case jmember part ''type'' of
                       None \<Rightarrow> refuse reasonUnknownShape p1
                     | Some traw \<Rightarrow>
                         (case as_string traw of
                            None \<Rightarrow> refuse reasonUnknownShape p1
                          | Some kind \<Rightarrow>
                              if kind = ''output_text'' then (if closing then verifyPartText part p1 else p1)
                              else if kind = ''refusal'' then refuse reasonRefusal p1
                              else refuse reasonUnknownShape p1)))))"

definition observeAnnotation :: "members \<Rightarrow> PartialText \<Rightarrow> PartialText" where
  "observeAnnotation obj p = snd (bindTextStream text_delta obj p)"

definition call_events :: "string list" where
  "call_events = [''response.function_call_arguments.delta'', ''response.function_call_arguments.done'',
     ''response.custom_tool_call_input.delta'', ''response.custom_tool_call_input.done'']"

definition failure_events :: "string list" where
  "failure_events = [''response.failed'', ''response.incomplete'', ''response.error'']"

definition metadata_events :: "string list" where
  "metadata_events = [''response.created'', ''response.queued'', ''response.in_progress'', ''response.completed'',
     ''response.reasoning_summary_part.added'', ''response.reasoning_summary_part.done'',
     ''response.reasoning_summary_text.delta'', ''response.reasoning_summary_text.done'',
     ''response.reasoning_text.delta'', ''response.reasoning_text.done'']"

definition dispatch_typ :: "string \<Rightarrow> members \<Rightarrow> PartialText \<Rightarrow> PartialText" where
  "dispatch_typ typ obj p =
     (if typ = text_delta then appendDelta typ obj p
      else if typ = ''response.output_text.done'' then observeResponsesTextDone obj p
      else if typ = ''response.refusal.delta'' then observeResponsesRefusalDelta p
      else if typ = ''response.refusal.done'' then observeResponsesRefusalDone obj p
      else if typ = ''response.output_item.added'' then observeResponseItem obj p
      else if typ = ''response.output_item.done'' then observeResponseItemDone obj p
      else if typ \<in> set call_events then refuse reasonToolCalls p
      else if typ \<in> set failure_events then refuse reasonUpstreamTerminal p
      else if typ = ''response.content_part.added'' then observeContentPart obj False p
      else if typ = ''response.content_part.done'' then observeContentPart obj True p
      else if typ = ''response.output_text.annotation.added'' then observeAnnotation obj p
      else if typ \<in> set metadata_events then p
      else refuse reasonUnknownShape p)"

definition observeResponsesEvent :: "members \<Rightarrow> PartialText \<Rightarrow> PartialText" where
  "observeResponsesEvent obj p =
     (case jget obj ''type'' of
        None \<Rightarrow> refuse reasonUnknownShape p
      | Some raw \<Rightarrow> (case as_string raw of None \<Rightarrow> refuse reasonUnknownShape p | Some typ \<Rightarrow> dispatch_typ typ obj p))"

section \<open>Observing a payload\<close>

text \<open>The error a Responses envelope carries inside its \<open>response\<close> member, if it can be read.\<close>

definition envelope_error :: "members \<Rightarrow> string option" where
  "envelope_error obj =
     (case jmember obj ''response'' of
        None \<Rightarrow> None
      | Some raw \<Rightarrow>
          (case as_object raw of
             None \<Rightarrow> Some reasonUnknownShape
           | Some response \<Rightarrow> if jmember response ''error'' \<noteq> None then Some reasonUpstreamTerminal else None))"

definition observe_object :: "string option \<Rightarrow> members \<Rightarrow> PartialText \<Rightarrow> PartialText" where
  "observe_object name obj p =
     (if jmember obj ''error'' \<noteq> None then refuse reasonUpstreamTerminal p
      else if pt_api p = apiChat then observeChatChunk obj p
      else if \<not> frameNameAgrees obj name then refuse reasonUnknownShape p
      else (case envelope_error obj of Some reason \<Rightarrow> refuse reason p | None \<Rightarrow> observeResponsesEvent obj p))"

definition Observe_payload :: "(string \<Rightarrow> Json option) \<Rightarrow> string option \<Rightarrow> string \<Rightarrow> PartialText \<Rightarrow> PartialText" where
  "Observe_payload decode name payload p =
     (if pt_unsafe p \<noteq> [] \<or> pt_terminal p then p
      else if pt_api p = apiChat \<and> payload = ''[DONE]'' then p
      else (case Option.bind (decode payload) as_object of
              None \<Rightarrow> refuse reasonNotObject p
            | Some obj \<Rightarrow> observe_object name obj p))"

section \<open>What an observation can do\<close>

text \<open>
  Every observation is made of four moves: it binds identities, refuses, finishes, or appends.
\<close>

inductive evolves :: "PartialText \<Rightarrow> PartialText \<Rightarrow> bool" where
  evolves_ident: "pt_api p' = pt_api p \<Longrightarrow> pt_limit p' = pt_limit p \<Longrightarrow> pt_text p' = pt_text p \<Longrightarrow> pt_unsafe p' = pt_unsafe p
     \<Longrightarrow> pt_terminal p' = pt_terminal p \<Longrightarrow> pt_passStart p' = pt_passStart p \<Longrightarrow> evolves p p'"
| evolves_refuse: "reason \<noteq> [] \<Longrightarrow> evolves p (refuse reason p)"
| evolves_finish: "evolves p (finish p)"
| evolves_append: "evolves p (append_text s p)"
| evolves_trans: "evolves p q \<Longrightarrow> evolves q r \<Longrightarrow> evolves p r"

lemma evolves_refl [simp]: "evolves p p"
  by (rule evolves_ident) simp_all

lemma reasons_nonempty [simp]:
  "reasonToolCalls \<noteq> []" "reasonRefusal \<noteq> []" "reasonUpstreamTerminal \<noteq> []" "reasonNotObject \<noteq> []"
  "reasonUnknownShape \<noteq> []" "reasonMultipleOutputs \<noteq> []" "reasonOversize \<noteq> []" "reasonNoPrefix \<noteq> []"
  by (simp_all add: reason_defs)

lemma evolves_bindChoice: "evolves p (snd (bindChoiceIndex choice p))"
proof -
  have "evolves p (p\<lparr>pt_choiceBound := True, pt_choiceIndex := i\<rparr>)" for i by (rule evolves_ident) simp_all
  then show ?thesis
    by (auto simp: bindChoiceIndex_def Let_def split: option.split intro: evolves_refuse evolves_trans [OF _ evolves_refuse])
qed

lemma chat_delta_reason: "chat_delta choice = Inl reason \<Longrightarrow> reason \<noteq> []"
  by (auto simp: chat_delta_def split: option.splits if_splits)

lemma evolves_choice: "evolves p (observe_choice choice p)"
proof (cases "chat_delta choice")
  case (Inl reason)
  then show ?thesis using chat_delta_reason by (simp add: observe_choice_def evolves_refuse)
next
  case (Inr content)
  obtain ok p1 where b: "bindChoiceIndex choice p = (ok, p1)" by (metis surj_pair)
  have p1: "evolves p p1" using evolves_bindChoice [of p choice] b by simp
  have "evolves p1 (case content of None \<Rightarrow> p1 | Some s \<Rightarrow> append_text s p1)"
    by (cases content) (simp_all add: evolves_append)
  from evolves_trans [OF p1 this] p1 Inr b show ?thesis
    by (cases ok) (auto simp: observe_choice_def Let_def intro: evolves_trans [OF _ evolves_finish])
qed

lemma evolves_chat: "evolves p (observeChatChunk obj p)"
  by (auto simp: observeChatChunk_def evolves_choice evolves_refuse split: option.split list.split)

lemma evolves_bindItem: "evolves p (snd (bindItemIdentity i k p))"
  by (auto simp: bindItemIdentity_def evolves_refuse intro: evolves_ident)

lemma bindTextStream_cases:
  obtains (unreadable) "bindTextStream kind obj p = (False, refuse reasonUnknownShape p)"
  | (item) i k c where "responsesStringMember obj ''item_id'' = Some i" "responsesIndexMember obj ''output_index'' = Some k"
      "responsesIndexMember obj ''content_index'' = Some c"
      "bindTextStream kind obj p =
         (case bindItemIdentity i k p of
             (False, p1) \<Rightarrow> (False, p1)
           | (True, p1) \<Rightarrow>
               if \<not> pt_streamBound p1 then (True, p1\<lparr>pt_streamBound := True, pt_contentIndex := c, pt_streamKind := kind\<rparr>)
               else if pt_contentIndex p1 \<noteq> c \<or> pt_streamKind p1 \<noteq> kind then (False, refuse reasonMultipleOutputs p1)
               else (True, p1))"
  by (cases "responsesStringMember obj ''item_id''"; cases "responsesIndexMember obj ''output_index''";
      cases "responsesIndexMember obj ''content_index''") (simp_all add: bindTextStream_def)

lemma evolves_bindText: "evolves p (snd (bindTextStream kind obj p))"
proof (cases kind obj p rule: bindTextStream_cases)
  case unreadable
  then show ?thesis by (simp add: evolves_refuse)
next
  case (item i k c)
  obtain ok p1 where b: "bindItemIdentity i k p = (ok, p1)" by (metis surj_pair)
  have p1: "evolves p p1" using evolves_bindItem [of p i k] b by simp
  have "evolves p1 (p1\<lparr>pt_streamBound := True, pt_contentIndex := c, pt_streamKind := kind\<rparr>)"
    by (rule evolves_ident) simp_all
  from evolves_trans [OF p1 this] evolves_trans [OF p1 evolves_refuse [of reasonMultipleOutputs]] p1 b item(4)
  show ?thesis by (cases ok) simp_all
qed

lemma evolves_delta: "evolves p (appendDelta kind obj p)"
proof -
  obtain ok p1 where b: "bindTextStream kind obj p = (ok, p1)" by (metis surj_pair)
  have p1: "evolves p p1" using evolves_bindText [of p kind obj] b by simp
  from evolves_trans [OF p1 evolves_append] p1 b show ?thesis
    by (cases ok) (simp_all add: appendDelta_def evolves_refuse split: option.split)
qed

lemma evolves_textDone: "evolves p (observeResponsesTextDone obj p)"
proof -
  obtain ok p1 where b: "bindTextStream text_delta obj p = (ok, p1)" by (metis surj_pair)
  have p1: "evolves p p1" using evolves_bindText [of p text_delta obj] b by simp
  note r = evolves_trans [OF p1 evolves_refuse [of reasonUnknownShape]]
  have f: "evolves p q \<Longrightarrow> evolves p (finish q)" for q using evolves_trans [OF _ evolves_finish] .
  have a: "evolves p (append_text s p1)" for s using evolves_trans [OF p1 evolves_append] .
  from a f [OF a] f [OF r] f [OF p1] r p1 b show ?thesis
    by (cases ok) (simp_all add: observeResponsesTextDone_def Let_def split: option.split)
qed

lemma evolves_item: "evolves p (observeResponseItem obj p)" "evolves p (observeResponseItemDone obj p)"
proof -
  have m: "evolves q (bindMessageItem item obj q)" for q item
    using evolves_bindItem [of q] by (simp add: bindMessageItem_def evolves_refuse split: option.split)
  have "evolves p (p\<lparr>pt_itemSeen := True\<rparr>)" by (rule evolves_ident) simp_all
  from evolves_trans [OF this m] m show "evolves p (observeResponseItem obj p)" "evolves p (observeResponseItemDone obj p)"
    by (simp_all add: observeResponseItem_def observeResponseItemDone_def evolves_refuse split: option.split)
qed

lemma evolves_part: "evolves p (observeContentPart obj closing p)"
proof -
  obtain ok p1 where b: "bindTextStream text_delta obj p = (ok, p1)" by (metis surj_pair)
  have p1: "evolves p p1" using evolves_bindText [of p text_delta obj] b by simp
  have v: "evolves p1 (verifyPartText part p1)" for part
    by (simp add: verifyPartText_def evolves_refuse split: option.split)
  note r = evolves_trans [OF p1 evolves_refuse [of reasonUnknownShape]] evolves_trans [OF p1 evolves_refuse [of reasonRefusal]]
  from evolves_trans [OF p1 v] r p1 b show ?thesis
    by (cases ok) (simp_all add: observeContentPart_def split: option.split)
qed

lemma evolves_typ: "evolves p (dispatch_typ typ obj p)"
  unfolding dispatch_typ_def observeAnnotation_def observeResponsesRefusalDelta_def observeResponsesRefusalDone_def
  by (simp add: evolves_refuse evolves_delta evolves_textDone evolves_item evolves_part evolves_bindText split: option.split)

lemma envelope_error_reason: "envelope_error obj = Some reason \<Longrightarrow> reason \<noteq> []"
  by (auto simp: envelope_error_def split: option.splits if_splits)

lemma evolves_object: "evolves p (observe_object name obj p)"
  using evolves_chat [of p obj] evolves_typ [of p _ obj] envelope_error_reason [of obj]
  by (simp add: observe_object_def observeResponsesEvent_def evolves_refuse split: option.split)

lemma evolves_payload: "evolves p (Observe_payload decode name payload p)"
  using evolves_object by (simp add: Observe_payload_def evolves_refuse split: option.split)

section \<open>Latches and bounds\<close>

datatype PtOp = PtBegin | PtObserve "string option" string

definition pt_step :: "(string \<Rightarrow> Json option) \<Rightarrow> PtOp \<Rightarrow> PartialText \<Rightarrow> PartialText" where
  "pt_step decode op p =
     (case op of PtBegin \<Rightarrow> beginUpstreamStream p | PtObserve name payload \<Rightarrow> Observe_payload decode name payload p)"

definition pt_run :: "(string \<Rightarrow> Json option) \<Rightarrow> PtOp list \<Rightarrow> PartialText \<Rightarrow> PartialText" where
  "pt_run decode ops p = fold (pt_step decode) ops p"

definition settled :: "PartialText \<Rightarrow> bool" where
  "settled p \<longleftrightarrow> pt_unsafe p \<noteq> [] \<or> pt_terminal p"

text \<open>
  A settled accumulator holds no text; an unsettled one holds less than the limit (or nothing),
  and its pass begins inside the text.
\<close>

definition pt_ok :: "PartialText \<Rightarrow> bool" where
  "pt_ok p \<longleftrightarrow> (settled p \<longrightarrow> pt_text p = []) \<and> (pt_text p \<noteq> [] \<longrightarrow> int (length (pt_text p)) < pt_limit p)
     \<and> pt_passStart p \<le> length (pt_text p)"

lemma evolves_ok: "evolves p p' \<Longrightarrow> pt_ok p \<Longrightarrow> pt_ok p' \<and> pt_limit p' = pt_limit p \<and> pt_api p' = pt_api p"
  by (induction rule: evolves.induct)
    (auto simp: pt_ok_def settled_def refuse_def finish_def append_text_def Let_def)

lemma pt_run_ok:
  "pt_ok p \<Longrightarrow> pt_ok (pt_run decode ops p) \<and> pt_limit (pt_run decode ops p) = pt_limit p \<and> pt_api (pt_run decode ops p) = pt_api p"
proof (induction ops arbitrary: p)
  case (Cons op ops)
  have "pt_ok (pt_step decode op p) \<and> pt_limit (pt_step decode op p) = pt_limit p \<and> pt_api (pt_step decode op p) = pt_api p"
  proof (cases op)
    case PtBegin
    then show ?thesis using Cons.prems by (simp add: pt_step_def beginUpstreamStream_def pt_ok_def settled_def)
  next
    case (PtObserve name payload)
    then show ?thesis using evolves_ok [OF evolves_payload Cons.prems] by (simp add: pt_step_def)
  qed
  then show ?case using Cons.IH by (simp add: pt_run_def)
qed (simp add: pt_run_def)

lemma newPartialText_ok: "pt_ok (newPartialText api limit)"
  by (simp add: pt_ok_def newPartialText_def settled_def)

lemma settled_step:
  "settled p \<Longrightarrow> pt_unsafe (pt_step decode op p) = pt_unsafe p \<and> pt_terminal (pt_step decode op p) = pt_terminal p"
  by (cases op) (auto simp: pt_step_def settled_def beginUpstreamStream_def Observe_payload_def)

lemma settled_run:
  "settled p \<Longrightarrow> pt_unsafe (pt_run decode ops p) = pt_unsafe p \<and> pt_terminal (pt_run decode ops p) = pt_terminal p"
proof (induction ops arbitrary: p)
  case (Cons op ops)
  have "settled (pt_step decode op p)" using settled_step [OF Cons.prems, of decode op] Cons.prems by (simp add: settled_def)
  then show ?case using Cons.IH settled_step [OF Cons.prems, of decode op] by (simp add: pt_run_def)
qed (simp add: pt_run_def)

lemma pt_run_append: "pt_run decode (a @ b) p = pt_run decode b (pt_run decode a p)"
  by (simp add: pt_run_def)

text \<open>
  The gate fails closed and stays closed. Whatever a stream and its later hops carry and
  whatever the decoder makes of it, a refusal or a declared end is never taken back by a later
  payload or a later upstream response, from then on no text is kept, and at every moment the
  kept text is shorter than the configured bound.
\<close>

theorem gate_latches:
  "(settled (pt_run decode ops (newPartialText api limit)) \<longrightarrow>
      Verdict_of (pt_run decode (ops @ later) (newPartialText api limit)) = Verdict_of (pt_run decode ops (newPartialText api limit))
      \<and> partialBytes (pt_run decode (ops @ later) (newPartialText api limit)) = 0)
   \<and> int (partialBytes (pt_run decode ops (newPartialText api limit))) < max 1 limit"
proof (intro conjI impI)
  let ?p = "pt_run decode ops (newPartialText api limit)"
  have ok: "pt_ok (pt_run decode xs (newPartialText api limit))" "pt_limit (pt_run decode xs (newPartialText api limit)) = limit" for xs
    using pt_run_ok [OF newPartialText_ok, of decode xs api limit] by (simp_all add: newPartialText_def)
  show "int (partialBytes ?p) < max 1 limit" using ok [of ops] by (auto simp: pt_ok_def partialBytes_def)
  assume s: "settled ?p"
  have e: "pt_unsafe (pt_run decode (ops @ later) (newPartialText api limit)) = pt_unsafe ?p"
      "pt_terminal (pt_run decode (ops @ later) (newPartialText api limit)) = pt_terminal ?p"
    using settled_run [OF s, of decode later] by (simp_all add: pt_run_append)
  then show "Verdict_of (pt_run decode (ops @ later) (newPartialText api limit)) = Verdict_of ?p"
    using s by (auto simp: Verdict_of_def settled_def)
  show "partialBytes (pt_run decode (ops @ later) (newPartialText api limit)) = 0"
    using ok(1) [of "ops @ later"] s e by (simp add: pt_ok_def settled_def partialBytes_def)
qed

section \<open>The chat surface, exactly\<close>

text \<open>The text of one chat payload, when it is a plain chunk of the first choice; \<open>None\<close> otherwise.\<close>

definition plain_choice :: "members \<Rightarrow> string option" where
  "plain_choice choice =
     (case chat_delta choice of
        Inl _ \<Rightarrow> None
      | Inr content \<Rightarrow>
          if responsesIndexMember choice ''index'' = Some 0 \<and> jmember choice ''finish_reason'' = None
          then Some (case content of None \<Rightarrow> [] | Some s \<Rightarrow> s) else None)"

definition plain_chunk :: "members \<Rightarrow> string option" where
  "plain_chunk obj =
     (if jmember obj ''error'' \<noteq> None then None
      else (case jmember obj ''choices'' of
              None \<Rightarrow> Some []
            | Some raw \<Rightarrow>
                (case as_objects raw of
                   Some [] \<Rightarrow> Some []
                 | Some [choice] \<Rightarrow> plain_choice choice
                 | _ \<Rightarrow> None)))"

definition plain_payload :: "(string \<Rightarrow> Json option) \<Rightarrow> string \<Rightarrow> string option" where
  "plain_payload decode payload =
     (if payload = ''[DONE]'' then Some []
      else Option.bind (Option.bind (decode payload) as_object) plain_chunk)"

definition pt_text_of :: "(string \<Rightarrow> Json option) \<Rightarrow> PtOp \<Rightarrow> string option" where
  "pt_text_of decode op = (case op of PtBegin \<Rightarrow> Some [] | PtObserve name payload \<Rightarrow> plain_payload decode payload)"

definition chat_state :: "PartialText \<Rightarrow> bool" where
  "chat_state p \<longleftrightarrow> pt_api p = apiChat \<and> \<not> settled p \<and> (pt_choiceBound p \<longrightarrow> pt_choiceIndex p = 0)
     \<and> (pt_text p \<noteq> [] \<longrightarrow> int (length (pt_text p)) < pt_limit p)"

text \<open>The accumulator after one more piece of plain text.\<close>

definition grown :: "PartialText \<Rightarrow> string \<Rightarrow> PartialText \<Rightarrow> bool" where
  "grown p s p' \<longleftrightarrow>
     (if s = [] \<or> int (length (pt_text p @ s)) < pt_limit p
      then chat_state p' \<and> pt_text p' = pt_text p @ s \<and> pt_limit p' = pt_limit p
      else settled p')"

lemma grown_trans:
  assumes "grown p s q" and "s = [] \<or> int (length (pt_text p @ s)) < pt_limit p" and "grown q t r"
  shows "grown p (s @ t) r"
proof -
  have q: "pt_text q = pt_text p @ s" "pt_limit q = pt_limit p" using assms(1,2) by (simp_all add: grown_def)
  show ?thesis
  proof (cases "t = []")
    case True
    with assms q show ?thesis by (auto simp: grown_def)
  next
    case False
    with assms(3) q show ?thesis by (auto simp: grown_def)
  qed
qed

lemma refuse_settled [simp]: "reason \<noteq> [] \<Longrightarrow> settled (refuse reason p)" "settled (finish p)"
  by (simp_all add: settled_def refuse_def finish_def)

lemma append_grown:
  assumes "chat_state p"
  shows "grown p s (append_text s p)"
  using assms by (auto simp: grown_def append_text_def chat_state_def settled_def Let_def refuse_def)

lemma choice_step:
  assumes p: "chat_state p"
  shows "case plain_choice choice of None \<Rightarrow> settled (observe_choice choice p) | Some s \<Rightarrow> grown p s (observe_choice choice p)"
proof (cases "chat_delta choice")
  case (Inl reason)
  then show ?thesis using chat_delta_reason [OF Inl] by (simp add: plain_choice_def observe_choice_def)
next
  case (Inr content)
  show ?thesis
  proof (cases "responsesIndexMember choice ''index'' = Some 0")
    case False
    then have "fst (bindChoiceIndex choice p) = False" "settled (snd (bindChoiceIndex choice p))"
      using p by (auto simp: bindChoiceIndex_def Let_def chat_state_def split: option.split)
    then show ?thesis using Inr False
      by (auto simp: plain_choice_def observe_choice_def split: prod.split)
  next
    case True
    define p1 where "p1 = (if pt_choiceBound p then p else p\<lparr>pt_choiceBound := True, pt_choiceIndex := 0\<rparr>)"
    have b: "bindChoiceIndex choice p = (True, p1)" using True p by (auto simp: bindChoiceIndex_def p1_def chat_state_def)
    have p1: "chat_state p1" "pt_text p1 = pt_text p" "pt_limit p1 = pt_limit p"
      using p by (auto simp: p1_def chat_state_def settled_def)
    define s where "s = (case content of None \<Rightarrow> [] | Some s \<Rightarrow> s)"
    define p2 where "p2 = (case content of None \<Rightarrow> p1 | Some s \<Rightarrow> append_text s p1)"
    have g: "grown p s p2" using append_grown [OF p1(1), of s] p1
      by (cases content) (auto simp: grown_def s_def p2_def append_text_def)
    show ?thesis
    proof (cases "jmember choice ''finish_reason'' = None")
      case fin: True
      then have "observe_choice choice p = p2" using Inr b by (auto simp: observe_choice_def p2_def Let_def)
      with g fin True Inr show ?thesis by (simp add: plain_choice_def s_def)
    next
      case False
      then have "settled (observe_choice choice p)"
        using Inr b by (auto simp: observe_choice_def Let_def settled_def finish_def)
      with False Inr show ?thesis by (auto simp: plain_choice_def)
    qed
  qed
qed

lemma chunk_step:
  assumes p: "chat_state p"
  shows "case plain_payload decode payload of
           None \<Rightarrow> settled (Observe_payload decode name payload p)
         | Some s \<Rightarrow> grown p s (Observe_payload decode name payload p)"
proof -
  have same: "grown p [] p" using p by (simp add: grown_def)
  have c: "plain_choice choice = None \<Longrightarrow> settled (observe_choice choice p)"
      "plain_choice choice = Some s \<Longrightarrow> grown p s (observe_choice choice p)" for choice s
    using choice_step [OF p, of choice] by (simp_all split: option.splits)
  have open_p: "\<not> (pt_unsafe p \<noteq> [] \<or> pt_terminal p)" "pt_api p = apiChat" using p by (simp_all add: chat_state_def settled_def)
  show ?thesis
  proof (cases "payload = ''[DONE]''")
    case True
    then show ?thesis using same open_p by (simp add: plain_payload_def Observe_payload_def)
  next
    case nd: False
    show ?thesis
    proof (cases "Option.bind (decode payload) as_object")
      case None
      then show ?thesis using nd open_p by (simp add: plain_payload_def Observe_payload_def)
    next
      case (Some obj)
      have "case plain_chunk obj of None \<Rightarrow> settled (observe_object name obj p) | Some s \<Rightarrow> grown p s (observe_object name obj p)"
        using c same open_p(2)
        by (auto simp: plain_chunk_def observe_object_def observeChatChunk_def split: option.split list.split)
      moreover have "Observe_payload decode name payload p = observe_object name obj p" "plain_payload decode payload = plain_chunk obj"
        using Some nd open_p by (simp_all add: plain_payload_def Observe_payload_def)
      ultimately show ?thesis by (simp split: option.splits)
    qed
  qed
qed


lemma settled_run_settled: "settled p \<Longrightarrow> settled (pt_run decode ops p)"
  using settled_run [of p decode ops] by (simp add: settled_def)

lemma chat_op_step:
  assumes p: "chat_state p"
  shows "case pt_text_of decode op of None \<Rightarrow> settled (pt_step decode op p) | Some s \<Rightarrow> grown p s (pt_step decode op p)"
proof (cases op)
  case PtBegin
  then show ?thesis using p
    by (simp add: pt_text_of_def pt_step_def grown_def beginUpstreamStream_def chat_state_def settled_def)
next
  case (PtObserve name payload)
  then show ?thesis using chunk_step [OF p, where decode = decode and payload = payload and name = name] by (simp add: pt_text_of_def pt_step_def split: option.splits)
qed

lemma chat_run:
  assumes "chat_state p"
  shows "case all_some (map (pt_text_of decode) ops) of
           None \<Rightarrow> settled (pt_run decode ops p)
         | Some cs \<Rightarrow> grown p (concat cs) (pt_run decode ops p)"
  using assms
proof (induction ops arbitrary: p)
  case Nil
  then show ?case by (simp add: pt_run_def grown_def)
next
  case (Cons op ops)
  let ?q = "pt_step decode op p"
  have run: "pt_run decode (op # ops) p = pt_run decode ops ?q" by (simp add: pt_run_def)
  note st = chat_op_step [OF Cons.prems, of decode op]
  show ?case
  proof (cases "pt_text_of decode op")
    case None
    with st settled_run_settled run show ?thesis by simp
  next
    case (Some s)
    with st have g: "grown p s ?q" by simp
    show ?thesis
    proof (cases "s = [] \<or> int (length (pt_text p @ s)) < pt_limit p")
      case True
      with g have q: "chat_state ?q" "pt_text ?q = pt_text p @ s" "pt_limit ?q = pt_limit p" by (simp_all add: grown_def)
      show ?thesis
      proof (cases "all_some (map (pt_text_of decode) ops)")
        case None
        with Cons.IH [OF q(1)] Some run show ?thesis by simp
      next
        case (Some cs)
        with Cons.IH [OF q(1)] have "grown ?q (concat cs) (pt_run decode ops ?q)" by simp
        from grown_trans [OF g True this] Some \<open>pt_text_of decode op = Some s\<close> run show ?thesis by simp
      qed
    next
      case False
      with g have "settled (pt_run decode ops ?q)" by (intro settled_run_settled) (auto simp: grown_def)
      with False Some run show ?thesis by (auto simp: grown_def split: option.split)
    qed
  qed
qed

text \<open>
  C28: what the gate hands to a chat continuation is exactly the answer the client has seen. A
  stream, hops included, is recoverable with prefix \<open>t\<close> if and only if every payload was plain
  text of choice 0 (no error, no tool or function call, no finish reason, readable shape), \<open>t\<close>
  is the concatenation of their contents in wire order, and it is not empty and stays under the
  bound.
\<close>

theorem chat_prefix_exact:
  "Verdict_of (pt_run decode ops (newPartialText apiChat limit)) = VerdictRecoverable t \<longleftrightarrow>
     (\<exists>cs. all_some (map (pt_text_of decode) ops) = Some cs \<and> t = concat cs) \<and> t \<noteq> [] \<and> int (length t) < limit"
proof -
  let ?p = "newPartialText apiChat limit" and ?q = "pt_run decode ops (newPartialText apiChat limit)"
  have "chat_state ?p" "pt_text ?p = []" "pt_limit ?p = limit"
    by (simp_all add: newPartialText_def chat_state_def settled_def)
  note r = chat_run [OF this(1), of decode ops] and p = this(2,3)
  have settled_v: "settled ?q \<Longrightarrow> Verdict_of ?q \<noteq> VerdictRecoverable t" by (auto simp: Verdict_of_def settled_def)
  show ?thesis
  proof (cases "all_some (map (pt_text_of decode) ops)")
    case None
    with r settled_v show ?thesis by simp
  next
    case (Some cs)
    with r have g: "grown ?p (concat cs) ?q" by simp
    show ?thesis
    proof (cases "concat cs = [] \<or> int (length (concat cs)) < limit")
      case True
      with g p have "chat_state ?q" "pt_text ?q = concat cs" by (simp_all add: grown_def)
      with Some True show ?thesis by (auto simp: Verdict_of_def chat_state_def settled_def)
    next
      case False
      with g p have "settled ?q" by (simp add: grown_def)
      with settled_v False Some show ?thesis by auto
    qed
  qed
qed

section \<open>The Responses surface\<close>

text \<open>The identity the text of one upstream response is bound to.\<close>

definition stream_id :: "PartialText \<Rightarrow> (string \<times> int \<times> int) option" where
  "stream_id p = (if pt_streamBound p then Some (pt_itemID p, pt_outputIndex p, pt_contentIndex p) else None)"

definition event_id :: "members \<Rightarrow> (string \<times> int \<times> int) option" where
  "event_id obj =
     (case (responsesStringMember obj ''item_id'', responsesIndexMember obj ''output_index'',
            responsesIndexMember obj ''content_index'') of
        (Some i, Some k, Some c) \<Rightarrow> Some (i, k, c) | _ \<Rightarrow> None)"

definition bound_ok :: "PartialText \<Rightarrow> bool" where
  "bound_ok p \<longleftrightarrow> (pt_streamBound p \<longrightarrow> pt_itemBound p \<and> pt_streamKind p = text_delta)"

text \<open>One step that either settles, or appends \<open>s\<close> and keeps the identity.\<close>

definition clean :: "PartialText \<Rightarrow> string \<Rightarrow> PartialText \<Rightarrow> bool" where
  "clean p s p' \<longleftrightarrow>
     settled p' \<or> bound_ok p' \<and> pt_text p' = pt_text p @ s \<and> (stream_id p \<noteq> None \<longrightarrow> stream_id p' = stream_id p) \<and> pt_api p' = pt_api p"

lemma clean_refuse [simp]: "reason \<noteq> [] \<Longrightarrow> clean p s (refuse reason p)"
  by (simp add: clean_def)

lemma clean_settled: "settled p' \<Longrightarrow> clean p s p'"
  by (simp add: clean_def)

lemma clean_same: "bound_ok p \<Longrightarrow> clean p [] p"
  by (simp add: clean_def)

lemma clean_bindItem:
  assumes "bound_ok p"
  shows "clean p [] (snd (bindItemIdentity i k p))"
    and "fst (bindItemIdentity i k p) \<Longrightarrow> \<not> settled p \<Longrightarrow>
       \<not> settled (snd (bindItemIdentity i k p)) \<and> pt_itemBound (snd (bindItemIdentity i k p))
       \<and> pt_itemID (snd (bindItemIdentity i k p)) = i \<and> pt_outputIndex (snd (bindItemIdentity i k p)) = k"
    and "\<not> fst (bindItemIdentity i k p) \<Longrightarrow> settled (snd (bindItemIdentity i k p))"
  using assms by (auto simp: bindItemIdentity_def clean_def bound_ok_def stream_id_def settled_def refuse_def)

lemma bindText_clean:
  assumes p: "bound_ok p" "\<not> settled p" and b: "bindTextStream text_delta obj p = (ok, p')"
  shows "if ok then \<not> settled p' \<and> bound_ok p' \<and> pt_text p' = pt_text p \<and> pt_api p' = pt_api p
              \<and> stream_id p' = event_id obj \<and> event_id obj \<noteq> None \<and> (stream_id p \<noteq> None \<longrightarrow> stream_id p' = stream_id p)
         else settled p'"
proof (cases text_delta obj p rule: bindTextStream_cases)
  case unreadable
  with b show ?thesis by auto
next
  case (item i k c)
  obtain ok1 p1 where i: "bindItemIdentity i k p = (ok1, p1)" by (metis surj_pair)
  note c = clean_bindItem [OF p(1), of i k, unfolded i, simplified]
  have ev: "event_id obj = Some (i, k, c)" using item by (simp add: event_id_def)
  show ?thesis
  proof (cases ok1)
    case False
    with c b item(4) i show ?thesis by auto
  next
    case True
    with c p(2) have p1: "\<not> settled p1" "pt_itemBound p1" "pt_itemID p1 = i" "pt_outputIndex p1 = k"
        "bound_ok p1" "pt_text p1 = pt_text p" "pt_api p1 = pt_api p" "stream_id p \<noteq> None \<longrightarrow> stream_id p1 = stream_id p"
      by (auto simp: clean_def)
    have sb: "pt_streamBound p1 = pt_streamBound p" using i by (auto simp: bindItemIdentity_def refuse_def split: if_splits)
    show ?thesis
    proof (cases "pt_streamBound p1")
      case unbound: False
      with b item(4) i True have "ok" "p' = p1\<lparr>pt_streamBound := True, pt_contentIndex := c, pt_streamKind := text_delta\<rparr>" by auto
      with p1 unbound sb ev show ?thesis by (auto simp: settled_def bound_ok_def stream_id_def)
    next
      case bd: True
      with b item(4) i True p1(5) have "(ok, p') = (if pt_contentIndex p1 \<noteq> c then (False, refuse reasonMultipleOutputs p1) else (True, p1))"
        by (auto simp: bound_ok_def split: if_splits)
      with p1 bd ev show ?thesis by (auto simp: stream_id_def split: if_splits)
    qed
  qed
qed

lemma bindText_split:
  assumes "bound_ok p" "\<not> settled p"
  obtains (no) p' where "bindTextStream text_delta obj p = (False, p')" "settled p'"
  | (yes) p' where "bindTextStream text_delta obj p = (True, p')" "\<not> settled p'" "clean p [] p'" "bound_ok p'"
      "stream_id p' = event_id obj" "event_id obj \<noteq> None" "pt_text p' = pt_text p" "pt_api p' = pt_api p"
      "stream_id p \<noteq> None \<longrightarrow> stream_id p' = stream_id p"
proof -
  obtain ok p' where b: "bindTextStream text_delta obj p = (ok, p')" by (metis surj_pair)
  from bindText_clean [OF assms b] that(1) [of p'] that(2) [of p'] b show ?thesis
    by (cases ok) (auto simp: clean_def)
qed

definition delta_text :: "members \<Rightarrow> string" where
  "delta_text obj = (case jmember obj ''delta'' of Some v \<Rightarrow> (case as_string v of Some s \<Rightarrow> s | None \<Rightarrow> []) | None \<Rightarrow> [])"

lemma clean_append: "bound_ok p \<Longrightarrow> \<not> settled p \<Longrightarrow> clean p s (append_text s p)"
  by (auto simp: clean_def append_text_def Let_def settled_def bound_ok_def stream_id_def refuse_def)

lemma append_ident: "stream_id (append_text s p) = stream_id p"
  by (simp add: append_text_def stream_id_def refuse_def Let_def)

lemma clean_trans: "clean p [] q \<Longrightarrow> \<not> settled q \<Longrightarrow> clean q s r \<Longrightarrow> clean p s r"
  by (auto simp: clean_def)

lemma clean_delta:
  assumes p: "bound_ok p" "\<not> settled p"
  shows "clean p (delta_text obj) (appendDelta text_delta obj p)"
    and "\<not> settled (appendDelta text_delta obj p) \<Longrightarrow> jmember obj ''delta'' \<noteq> None \<Longrightarrow>
      stream_id (appendDelta text_delta obj p) = event_id obj \<and> event_id obj \<noteq> None"
proof -
  have "clean p (delta_text obj) (appendDelta text_delta obj p)
     \<and> (\<not> settled (appendDelta text_delta obj p) \<longrightarrow> jmember obj ''delta'' \<noteq> None \<longrightarrow>
          stream_id (appendDelta text_delta obj p) = event_id obj \<and> event_id obj \<noteq> None)"
  proof (cases "Option.bind (jmember obj ''delta'') as_string")
    case None
    then show ?thesis using p clean_same [OF p(1)]
      by (cases "jmember obj ''delta''") (auto simp: appendDelta_def delta_text_def)
  next
    case (Some s)
    then obtain raw where raw: "jmember obj ''delta'' = Some raw" "as_string raw = Some s" by (cases "jmember obj ''delta''") auto
    show ?thesis
    proof (cases obj rule: bindText_split [OF p, case_names no yes])
      case (no p')
      with raw show ?thesis by (simp add: appendDelta_def clean_settled)
    next
      case (yes p')
      have "clean p s (append_text s p')" by (rule clean_trans [OF yes(3,2) clean_append [OF yes(4,2)]])
      with raw yes show ?thesis by (simp add: appendDelta_def delta_text_def append_ident)
    qed
  qed
  then show "clean p (delta_text obj) (appendDelta text_delta obj p)"
    "\<not> settled (appendDelta text_delta obj p) \<Longrightarrow> jmember obj ''delta'' \<noteq> None \<Longrightarrow>
      stream_id (appendDelta text_delta obj p) = event_id obj \<and> event_id obj \<noteq> None" by auto
qed

lemma textDone_settles: "bound_ok p \<Longrightarrow> \<not> settled p \<Longrightarrow> settled (observeResponsesTextDone obj p)"
  by (erule bindText_split [of p obj]) (auto simp: observeResponsesTextDone_def Let_def settled_def finish_def refuse_def
      split: option.split)

lemma clean_item:
  assumes "bound_ok p" "\<not> settled p"
  shows "clean p [] (observeResponseItem obj p)" "clean p [] (observeResponseItemDone obj p)"
proof -
  have m: "clean q [] (bindMessageItem item obj q)" if "bound_ok q" for q item
    using clean_bindItem(1) [OF that] by (simp add: bindMessageItem_def split: option.split)
  let ?q = "p\<lparr>pt_itemSeen := True\<rparr>"
  have q: "bound_ok ?q" "\<not> settled ?q" "clean p [] ?q" using assms by (auto simp: bound_ok_def settled_def clean_def stream_id_def)
  from clean_trans [OF q(3,2) m [OF q(1)]] m [OF assms(1)] clean_same [OF assms(1)]
  show "clean p [] (observeResponseItem obj p)" "clean p [] (observeResponseItemDone obj p)"
    by (simp_all add: observeResponseItem_def observeResponseItemDone_def split: option.split)
qed

lemma clean_part:
  assumes p: "bound_ok p" "\<not> settled p"
  shows "clean p [] (observeContentPart obj closing p)"
proof (cases obj rule: bindText_split [OF p, case_names no yes])
  case (no p')
  then show ?thesis by (simp add: observeContentPart_def clean_settled)
next
  case (yes p')
  have "clean p [] (verifyPartText part p')" for part
    using yes(3) by (simp add: verifyPartText_def clean_settled split: option.split)
  with yes show ?thesis by (simp add: observeContentPart_def clean_settled split: option.split)
qed

lemma clean_annotation: "bound_ok p \<Longrightarrow> \<not> settled p \<Longrightarrow> clean p [] (observeAnnotation obj p)"
  by (erule bindText_split [of p obj]) (simp_all add: observeAnnotation_def clean_settled)

definition admitted_events :: "string list" where
  "admitted_events = [text_delta, ''response.refusal.done'', ''response.output_item.added'', ''response.output_item.done'',
     ''response.content_part.added'', ''response.content_part.done'', ''response.output_text.annotation.added''] @ metadata_events"

lemma clean_typ:
  assumes p: "bound_ok p" "\<not> settled p"
  shows "clean p (if typ = text_delta then delta_text obj else []) (dispatch_typ typ obj p)"
    and "\<not> settled (dispatch_typ typ obj p) \<Longrightarrow> typ \<in> set admitted_events"
proof -
  note cs = clean_delta(1) [OF p] clean_settled [OF textDone_settles [OF p]] clean_item [OF p] clean_part [OF p]
    clean_annotation [OF p] clean_same [OF p(1)]
  show "clean p (if typ = text_delta then delta_text obj else []) (dispatch_typ typ obj p)"
  proof (cases "typ = text_delta")
    case True
    then show ?thesis using cs(1) by (simp add: dispatch_typ_def)
  next
    case False
    then show ?thesis using cs(2-)
      by (simp add: dispatch_typ_def observeResponsesRefusalDelta_def observeResponsesRefusalDone_def clean_settled split: option.split)
  qed
  assume ns: "\<not> settled (dispatch_typ typ obj p)"
  show "typ \<in> set admitted_events"
  proof (rule ccontr)
    assume "typ \<notin> set admitted_events"
    then have "settled (dispatch_typ typ obj p)"
      using textDone_settles [OF p, of obj]
      by (simp add: dispatch_typ_def admitted_events_def observeResponsesRefusalDelta_def)
    with ns show False by simp
  qed
qed

text \<open>The event a payload names, its text, and whether it is a text delta.\<close>

definition op_event :: "(string \<Rightarrow> Json option) \<Rightarrow> PtOp \<Rightarrow> (string \<times> members) option" where
  "op_event decode op =
     (case op of
        PtBegin \<Rightarrow> None
      | PtObserve name payload \<Rightarrow>
          (case Option.bind (decode payload) as_object of
             None \<Rightarrow> None
           | Some obj \<Rightarrow> map_option (\<lambda>n. (n, obj)) (if frameNameAgrees obj name then name else None)))"

definition resp_text :: "(string \<Rightarrow> Json option) \<Rightarrow> PtOp \<Rightarrow> string" where
  "resp_text decode op = (case op_event decode op of Some (typ, obj) \<Rightarrow> if typ = text_delta then delta_text obj else [] | None \<Rightarrow> [])"

definition text_event :: "(string \<Rightarrow> Json option) \<Rightarrow> PtOp \<Rightarrow> members option" where
  "text_event decode op =
     (case op_event decode op of
        Some (typ, obj) \<Rightarrow> if typ = text_delta \<and> jmember obj ''delta'' \<noteq> None then Some obj else None
      | None \<Rightarrow> None)"

definition admitted :: "(string \<Rightarrow> Json option) \<Rightarrow> PtOp \<Rightarrow> bool" where
  "admitted decode op \<longleftrightarrow>
     op = PtBegin \<or> (case op_event decode op of
                      Some (typ, obj) \<Rightarrow> typ \<in> set admitted_events \<and> jmember obj ''error'' = None \<and> envelope_error obj = None
                    | None \<Rightarrow> False)"

definition resp_state :: "PartialText \<Rightarrow> bool" where
  "resp_state p \<longleftrightarrow> pt_api p \<noteq> apiChat \<and> bound_ok p \<and> \<not> settled p"

lemma frame_name: "frameNameAgrees obj name \<Longrightarrow> \<exists>n raw. name = Some n \<and> jget obj ''type'' = Some raw \<and> as_string raw = Some n"
  by (auto simp: frameNameAgrees_def split: option.splits)

lemma observe_step:
  assumes p: "resp_state p" and ns: "\<not> settled (Observe_payload decode name payload p)"
  shows "\<exists>n obj. op_event decode (PtObserve name payload) = Some (n, obj) \<and> admitted decode (PtObserve name payload)
       \<and> Observe_payload decode name payload p = dispatch_typ n obj p"
proof -
  have open_p: "\<not> (pt_unsafe p \<noteq> [] \<or> pt_terminal p)" "pt_api p \<noteq> apiChat" "bound_ok p" "\<not> settled p"
    using p by (simp_all add: resp_state_def settled_def)
  obtain obj where obj: "Option.bind (decode payload) as_object = Some obj"
    using ns open_p by (cases "Option.bind (decode payload) as_object") (auto simp: Observe_payload_def)
  then have o: "Observe_payload decode name payload p = observe_object name obj p"
    using open_p by (simp add: Observe_payload_def)
  have e: "jmember obj ''error'' = None" by (rule ccontr) (use ns o in \<open>simp add: observe_object_def\<close>)
  have f: "frameNameAgrees obj name" by (rule ccontr) (use ns o e open_p in \<open>simp add: observe_object_def\<close>)
  have ee: "envelope_error obj = None"
    using ns o e f open_p envelope_error_reason [of obj] by (cases "envelope_error obj") (auto simp: observe_object_def)
  from frame_name [OF f] obtain n raw where n: "name = Some n" "jget obj ''type'' = Some raw" "as_string raw = Some n" by blast
  have d: "Observe_payload decode name payload p = dispatch_typ n obj p"
    using o e f ee n open_p by (simp add: observe_object_def observeResponsesEvent_def)
  moreover have ev: "op_event decode (PtObserve name payload) = Some (n, obj)" using obj f n by (simp add: op_event_def)
  moreover have "n \<in> set admitted_events" using clean_typ(2) [OF open_p(3,4)] ns d by simp
  ultimately show ?thesis using e ee by (auto simp: admitted_def)
qed

lemma resp_step:
  assumes p: "resp_state p" and ns: "\<not> settled (pt_step decode op p)"
  shows "resp_state (pt_step decode op p)" and "pt_text (pt_step decode op p) = pt_text p @ resp_text decode op"
    and "admitted decode op"
    and "op \<noteq> PtBegin \<Longrightarrow> stream_id p \<noteq> None \<Longrightarrow> stream_id (pt_step decode op p) = stream_id p"
    and "text_event decode op = Some obj \<Longrightarrow> stream_id (pt_step decode op p) = event_id obj \<and> event_id obj \<noteq> None"
proof -
  let ?q = "pt_step decode op p"
  have open_p: "pt_api p \<noteq> apiChat" "bound_ok p" "\<not> settled p" using p by (simp_all add: resp_state_def)
  have "resp_state ?q \<and> pt_text ?q = pt_text p @ resp_text decode op \<and> admitted decode op
      \<and> (op \<noteq> PtBegin \<longrightarrow> stream_id p \<noteq> None \<longrightarrow> stream_id ?q = stream_id p)
      \<and> (text_event decode op = Some obj \<longrightarrow> stream_id ?q = event_id obj \<and> event_id obj \<noteq> None)"
  proof (cases op)
    case PtBegin
    then show ?thesis using open_p
      by (simp add: pt_step_def resp_state_def beginUpstreamStream_def bound_ok_def settled_def resp_text_def op_event_def
          admitted_def text_event_def)
  next
    case (PtObserve name payload)
    then have q: "?q = Observe_payload decode name payload p" by (simp add: pt_step_def)
    from observe_step [OF p, of decode name payload] ns q PtObserve obtain n ob where
      n: "op_event decode op = Some (n, ob)" "admitted decode op" "?q = dispatch_typ n ob p" by auto
    have c: "clean p (if n = text_delta then delta_text ob else []) ?q" using clean_typ(1) [OF open_p(2,3)] n(3) by simp
    have d: "stream_id ?q = event_id ob \<and> event_id ob \<noteq> None" if "n = text_delta" "jmember ob ''delta'' \<noteq> None"
      using clean_delta(2) [OF open_p(2,3), of ob] ns n(3) that by (simp add: dispatch_typ_def)
    from c ns have "bound_ok ?q \<and> pt_text ?q = pt_text p @ resp_text decode op
        \<and> (stream_id p \<noteq> None \<longrightarrow> stream_id ?q = stream_id p) \<and> pt_api ?q = pt_api p"
      using n(1) by (simp add: clean_def resp_text_def)
    with d n ns open_p show ?thesis by (auto simp: resp_state_def text_event_def split: if_splits)
  qed
  then show "resp_state ?q" "pt_text ?q = pt_text p @ resp_text decode op" "admitted decode op"
    "op \<noteq> PtBegin \<Longrightarrow> stream_id p \<noteq> None \<Longrightarrow> stream_id ?q = stream_id p"
    "text_event decode op = Some obj \<Longrightarrow> stream_id ?q = event_id obj \<and> event_id obj \<noteq> None" by auto
qed

lemma unsettled_prefix:
  assumes "\<not> settled (pt_run decode (op # ops) p)"
  shows "\<not> settled (pt_step decode op p)" "\<not> settled (pt_run decode ops (pt_step decode op p))"
  using assms settled_run_settled [of "pt_step decode op p" decode ops] by (auto simp: pt_run_def)

lemma resp_run:
  assumes "resp_state p" and "\<not> settled (pt_run decode ops p)"
  shows "resp_state (pt_run decode ops p) \<and> pt_text (pt_run decode ops p) = pt_text p @ concat (map (resp_text decode) ops)
       \<and> list_all (admitted decode) ops"
  using assms
proof (induction ops arbitrary: p)
  case (Cons op ops)
  note u = unsettled_prefix [OF Cons.prems(2)]
  have run: "pt_run decode (op # ops) p = pt_run decode ops (pt_step decode op p)" by (simp add: pt_run_def)
  from Cons.IH [OF resp_step(1) [OF Cons.prems(1) u(1)] u(2)] resp_step(2,3) [OF Cons.prems(1) u(1)] run
  show ?case by simp
qed (simp add: pt_run_def)

text \<open>Within one upstream response every text delta carries the identity the response ends with.\<close>

lemma resp_pass:
  assumes "resp_state p" and "\<not> settled (pt_run decode ops p)" and "PtBegin \<notin> set ops"
  shows "(stream_id p \<noteq> None \<longrightarrow> stream_id (pt_run decode ops p) = stream_id p)
       \<and> (\<forall>op\<in>set ops. \<forall>obj. text_event decode op = Some obj \<longrightarrow>
            event_id obj = stream_id (pt_run decode ops p) \<and> event_id obj \<noteq> None)"
  using assms
proof (induction ops arbitrary: p)
  case (Cons op ops)
  note u = unsettled_prefix [OF Cons.prems(2)]
  let ?q = "pt_step decode op p"
  have run: "pt_run decode (op # ops) p = pt_run decode ops ?q" by (simp add: pt_run_def)
  note st = resp_step [OF Cons.prems(1) u(1)]
  have nb: "PtBegin \<notin> set ops" "op \<noteq> PtBegin" using Cons.prems(3) by auto
  note ih = Cons.IH [OF st(1) u(2) nb(1)]
  have a: "stream_id p \<noteq> None \<longrightarrow> stream_id (pt_run decode ops ?q) = stream_id p" using ih st(4) [OF nb(2)] by metis
  have b: "event_id obj = stream_id (pt_run decode ops ?q) \<and> event_id obj \<noteq> None" if "text_event decode op = Some obj" for obj
    using st(5) [OF that] ih by metis
  show ?case unfolding run using a b ih by (metis set_ConsD)
qed (simp add: pt_run_def)


text \<open>A decoder for three payloads: two text deltas of one part, and a call announcement.\<close>

definition ex_delta :: "string \<Rightarrow> Json" where
  "ex_delta s = JObj [(''type'', JStr text_delta), (''item_id'', JStr ''m''), (''output_index'', JInt 0), (''content_index'', JInt 0),
     (''delta'', JStr s)]"

definition ex_decode :: "string \<Rightarrow> Json option" where
  "ex_decode payload =
     (if payload = ''1'' then Some (ex_delta ''Hel'') else if payload = ''2'' then Some (ex_delta ''lo'')
      else if payload = ''c''
      then Some (JObj [(''type'', JStr ''response.output_item.added''), (''item'', JObj [(''type'', JStr ''function_call'')])])
      else None)"

definition ex_pass :: "PtOp list" where
  "ex_pass = [PtObserve (Some text_delta) ''1'', PtObserve (Some text_delta) ''2'']"

lemma ex_pass_verdict:
  "Verdict_of (pt_run ex_decode ([PtBegin] @ ex_pass @ []) (newPartialText apiResponses 100)) = VerdictRecoverable ''Hello''"
  by (simp add: ex_pass_def pt_run_def pt_step_def newPartialText_def beginUpstreamStream_def Observe_payload_def ex_decode_def
      ex_delta_def as_object_def observe_object_def jmember_def jget_def apiResponses_def apiChat_def frameNameAgrees_def
      as_string_def text_delta_def envelope_error_def observeResponsesEvent_def dispatch_typ_def appendDelta_def
      bindTextStream_def responsesStringMember_def responsesIndexMember_def as_int_def in_int64_def int64_min_def int64_max_def
      bindItemIdentity_def append_text_def Verdict_of_def Let_def)


theorem gate_latches_witness:
  "\<exists>p. p = pt_run ex_decode [PtBegin, PtObserve (Some ''response.output_item.added'') ''c''] (newPartialText apiResponses 100)
     \<and> settled p
     \<and> Verdict_of (pt_run ex_decode ([PtBegin, PtObserve (Some ''response.output_item.added'') ''c''] @ [PtBegin] @ ex_pass)
           (newPartialText apiResponses 100)) = Verdict_of p
     \<and> Verdict_of p = VerdictUnsafe reasonToolCalls"
proof -
  let ?ops = "[PtBegin, PtObserve (Some ''response.output_item.added'') ''c'']"
  have "pt_unsafe (pt_run ex_decode ?ops (newPartialText apiResponses 100)) = reasonToolCalls"
    by (simp add: pt_run_def pt_step_def newPartialText_def beginUpstreamStream_def Observe_payload_def ex_decode_def
      as_object_def observe_object_def jmember_def jget_def apiResponses_def apiChat_def frameNameAgrees_def
      as_string_def envelope_error_def observeResponsesEvent_def dispatch_typ_def text_delta_def observeResponseItem_def
      responsesItem_def refuse_def)
  then have s: "settled (pt_run ex_decode ?ops (newPartialText apiResponses 100))"
      "Verdict_of (pt_run ex_decode ?ops (newPartialText apiResponses 100)) = VerdictUnsafe reasonToolCalls"
    by (simp_all add: settled_def Verdict_of_def)
  with gate_latches [of ex_decode ?ops apiResponses 100 "[PtBegin] @ ex_pass"] show ?thesis by blast
qed

text \<open>A payload that is JSON null decodes into an empty map: on the chat surface it is passed over, not refused.\<close>

lemma chat_null_passed_over:
  "chat_state p \<Longrightarrow> Observe_payload (\<lambda>_. Some JNull) name payload p = p"
  by (simp add: Observe_payload_def as_object_def observe_object_def jmember_def jget_def observeChatChunk_def chat_state_def)

end
