(* ===== verification/Http_Headers.thy ===== *)
theory Http_Headers
  imports Credential_Pool "HOL-Library.Sublist"
begin

text \<open>
  The headers of \<open>internal/proxy/handler.go\<close>: the credential a client presents, what of a client's
  request is forwarded upstream, and what of an upstream's answer is relayed to the client. A header
  map is the \<open>net/http\<close> map from canonical names to lists of values, with \<open>Get\<close> and \<open>Set\<close> written
  out. The theorems show that the only names an upstream sees are the allow-listed ones, the
  proxy's own request id and the configured credential header, that the client's credential is
  never among them, and that a presented credential is a bearer token of bounded size.
\<close>

section \<open>Header maps\<close>

type_synonym headers = "(string \<times> string list) list"

definition upper_char :: "char \<Rightarrow> char" where
  "upper_char c = (if CHR ''a'' \<le> c \<and> c \<le> CHR ''z'' then char_of (of_char c - 32 :: nat) else c)"

definition lower_char :: "char \<Rightarrow> char" where
  "lower_char c = (if CHR ''A'' \<le> c \<and> c \<le> CHR ''Z'' then char_of (of_char c + 32 :: nat) else c)"

text \<open>\<open>textproto.CanonicalMIMEHeaderKey\<close>: a name with a byte that is no token byte stays as it is.\<close>

fun canonical_from :: "bool \<Rightarrow> string \<Rightarrow> string" where
  "canonical_from u [] = []"
| "canonical_from u (c # s) = (if u then upper_char c else lower_char c) # canonical_from (c = CHR ''-'') s"

definition canonical_key :: "string \<Rightarrow> string" where
  "canonical_key k = (if list_all isTokenByte k then canonical_from True k else k)"

definition hget :: "headers \<Rightarrow> string \<Rightarrow> string" where
  "hget h k = (case map_of h (canonical_key k) of Some (v # _) \<Rightarrow> v | _ \<Rightarrow> [])"

definition hset :: "string \<Rightarrow> string \<Rightarrow> headers \<Rightarrow> headers" where
  "hset k v h = AList.update (canonical_key k) [v] h"

section \<open>The presented credential\<close>

definition maxBearerTokenBytes :: nat where "maxBearerTokenBytes = 4096"

definition isBearerTokenChar :: "char \<Rightarrow> bool" where
  "isBearerTokenChar c \<longleftrightarrow>
     (CHR ''a'' \<le> c \<and> c \<le> CHR ''z'') \<or> (CHR ''A'' \<le> c \<and> c \<le> CHR ''Z'')
     \<or> (CHR ''0'' \<le> c \<and> c \<le> CHR ''9'') \<or> c = CHR ''-'' \<or> c = CHR ''.'' \<or> c = CHR ''_''
     \<or> c = CHR ''~'' \<or> c = CHR ''+'' \<or> c = CHR ''/''"

text \<open>The loop with its two flags: padding has begun, and a token character was seen.\<close>

fun bearer_loop :: "bool \<Rightarrow> bool \<Rightarrow> string \<Rightarrow> bool" where
  "bearer_loop padding hasTokenChar [] = hasTokenChar"
| "bearer_loop padding hasTokenChar (c # s) =
     (if c = CHR ''='' then (if \<not> hasTokenChar then False else bearer_loop True hasTokenChar s)
      else if padding \<or> \<not> isBearerTokenChar c then False
      else bearer_loop padding True s)"

definition validBearerToken :: "string \<Rightarrow> bool" where
  "validBearerToken token =
     (if token = [] \<or> length token > maxBearerTokenBytes then False else bearer_loop False False token)"

text \<open>\<open>strings.Cut\<close> at the first space, and \<open>strings.Trim\<close> of spaces.\<close>

definition cut_space :: "string \<Rightarrow> string \<times> string" where
  "cut_space s = (takeWhile (\<lambda>c. c \<noteq> CHR '' '') s, tl (dropWhile (\<lambda>c. c \<noteq> CHR '' '') s))"

definition trim_spaces :: "string \<Rightarrow> string" where
  "trim_spaces s = rev (dropWhile (\<lambda>c. c = CHR '' '') (rev (dropWhile (\<lambda>c. c = CHR '' '') s)))"

definition bearerToken :: "string \<Rightarrow> string option" where
  "bearerToken header =
     (let (scheme, rest) = cut_space header in
      if map lower_char scheme \<noteq> ''bearer'' then None
      else let token = trim_spaces rest in
           if \<not> validBearerToken token then None else Some token)"

definition clientToken :: "headers \<Rightarrow> string option" where
  "clientToken h =
     (case bearerToken (hget h ''Authorization'') of
        Some token \<Rightarrow> Some token
      | None \<Rightarrow>
          (let token = trim_spaces (hget h ''X-API-Key'') in
           if \<not> validBearerToken token then None else Some token))"

section \<open>Forwarding and relaying\<close>

text \<open>The test for an event stream: \<open>strings.ToLower\<close> and \<open>strings.Contains\<close> on a content type.\<close>

definition is_event_stream :: "string \<Rightarrow> bool" where
  "is_event_stream ct \<longleftrightarrow> sublist ''text/event-stream'' (map lower_char ct)"

definition contentTypeHeader :: string where "contentTypeHeader = ''Content-Type''"
definition requestIDHeader :: string where "requestIDHeader = ''X-Request-Id''"
definition forwardJSONType :: string where "forwardJSONType = ''application/json''"

definition forwardHeaderNames :: "string list" where
  "forwardHeaderNames = [''Content-Type'', ''Accept'', ''OpenAI-Beta'']"

definition relayHeaderNames :: "string list" where
  "relayHeaderNames =
     [''Content-Type'', ''Cache-Control'', ''Retry-After'', ''Location'', ''X-RateLimit-Limit'',
      ''X-RateLimit-Remaining'', ''X-RateLimit-Reset'', ''X-RateLimit-Reset-Requests'',
      ''X-RateLimit-Reset-Tokens'']"

definition copy_header :: "headers \<Rightarrow> string \<Rightarrow> headers \<Rightarrow> headers" where
  "copy_header src name dst = (let v = hget src name in if v \<noteq> [] then hset name v dst else dst)"

definition copyForwardHeaders :: "headers \<Rightarrow> headers \<Rightarrow> headers" where
  "copyForwardHeaders dst src =
     (let d = fold (copy_header src) forwardHeaderNames dst
      in if hget d contentTypeHeader = [] then hset contentTypeHeader forwardJSONType d else d)"

definition copyRelayHeaders :: "headers \<Rightarrow> headers \<Rightarrow> headers" where
  "copyRelayHeaders dst src = fold (copy_header src) relayHeaderNames dst"

definition setRequestID :: "string \<Rightarrow> headers \<Rightarrow> headers" where
  "setRequestID rid h = hset requestIDHeader rid h"

text \<open>
  The headers of one outbound attempt, in the order the walk writes them: the forwarded ones, the
  request id, and the credential's header when the candidate has a key.
\<close>

definition outbound_headers :: "headers \<Rightarrow> string \<Rightarrow> (Spec \<times> Key) option \<Rightarrow> headers" where
  "outbound_headers client rid cred =
     (let h = setRequestID rid (copyForwardHeaders [] client)
      in case cred of None \<Rightarrow> h | Some (spec, k) \<Rightarrow> hset (cs_Header spec) (cs_Prefix spec @ k_Value k) h)"

section \<open>Facts\<close>

lemma hget_hset: "hget (hset k v h) k' = (if canonical_key k' = canonical_key k then v else hget h k')"
  by (simp add: hget_def hset_def update_conv')

lemma hset_names: "fst ` set (hset k v h) = insert (canonical_key k) (fst ` set h)"
  by (simp add: hset_def dom_update)

lemma copy_header_names: "fst ` set (copy_header src name dst) \<subseteq> insert (canonical_key name) (fst ` set dst)"
  by (auto simp: copy_header_def Let_def hset_names)

lemma copy_headers_names:
  "fst ` set (fold (copy_header src) names dst) \<subseteq> canonical_key ` set names \<union> fst ` set dst"
proof (induction names arbitrary: dst)
  case (Cons n names)
  from Cons.IH [of "copy_header src n dst"] copy_header_names [of src n dst] show ?case by auto
qed simp

lemma copy_headers_agree:
  "(\<And>n. n \<in> set names \<Longrightarrow> hget src n = hget src' n) \<Longrightarrow>
   fold (copy_header src) names dst = fold (copy_header src') names dst"
  by (induction names arbitrary: dst) (simp_all add: copy_header_def)

lemma canonical_forward: "canonical_key ` set forwardHeaderNames = {''Content-Type'', ''Accept'', ''Openai-Beta''}"
  by code_simp

lemma canonical_own: "canonical_key contentTypeHeader = ''Content-Type''" "canonical_key requestIDHeader = ''X-Request-Id''"
  by code_simp+

lemma copyForwardHeaders_names: "fst ` set (copyForwardHeaders [] src) \<subseteq> {''Content-Type'', ''Accept'', ''Openai-Beta''}"
  using copy_headers_names [of src forwardHeaderNames "[]"]
  by (auto simp: copyForwardHeaders_def Let_def hset_names canonical_own canonical_forward)

lemma bearer_loop_padding: "bearer_loop True h s \<longleftrightarrow> set s \<subseteq> {CHR ''=''} \<and> h"
  by (induction s) auto

lemma bearer_loop_seen:
  "bearer_loop False True s \<longleftrightarrow> (\<exists>a n. s = a @ replicate n (CHR ''='') \<and> list_all isBearerTokenChar a)"
proof (induction s)
  case (Cons c s)
  have e: "\<not> isBearerTokenChar (CHR ''='')" by code_simp
  show ?case
  proof (cases "c = CHR ''=''")
    case True
    have "(\<exists>a n. c # s = a @ replicate n (CHR ''='') \<and> list_all isBearerTokenChar a) \<longleftrightarrow> set s \<subseteq> {CHR ''=''}"
    proof
      assume "\<exists>a n. c # s = a @ replicate n (CHR ''='') \<and> list_all isBearerTokenChar a"
      then obtain a n where a: "c # s = a @ replicate n (CHR ''='')" "list_all isBearerTokenChar a" by blast
      with True e have "a = []" by (cases a) auto
      with a(1) have "c # s = replicate n (CHR ''='')" by simp
      then show "set s \<subseteq> {CHR ''=''}" by (metis set_ConsD set_replicate_conv_if subsetI list.set_intros(2) empty_iff)
    next
      assume "set s \<subseteq> {CHR ''=''}"
      then have "s = replicate (length s) (CHR ''='')" by (intro replicate_eqI) auto
      with True have "c # s = [] @ replicate (Suc (length s)) (CHR ''='')" by simp
      then show "\<exists>a n. c # s = a @ replicate n (CHR ''='') \<and> list_all isBearerTokenChar a"
        by (intro exI [of _ "[]"] exI [of _ "Suc (length s)"]) simp
    qed
    then show ?thesis using True by (simp add: bearer_loop_padding)
  next
    case False
    have "(\<exists>a n. c # s = a @ replicate n (CHR ''='') \<and> list_all isBearerTokenChar a)
        \<longleftrightarrow> isBearerTokenChar c \<and> (\<exists>a n. s = a @ replicate n (CHR ''='') \<and> list_all isBearerTokenChar a)"
      (is "?l \<longleftrightarrow> ?r")
    proof
      assume ?l
      then obtain a n where a: "c # s = a @ replicate n (CHR ''='')" "list_all isBearerTokenChar a" by blast
      with False obtain b where "a = c # b" by (cases a; cases n) auto
      with a show ?r by auto
    next
      assume ?r
      then obtain a n where "s = a @ replicate n (CHR ''='')" "list_all isBearerTokenChar a" "isBearerTokenChar c" by blast
      then have "c # s = (c # a) @ replicate n (CHR ''='') \<and> list_all isBearerTokenChar (c # a)" by simp
      then show ?l by blast
    qed
    then show ?thesis using False Cons.IH by simp
  qed
qed simp

text \<open>The \<open>b64token\<close> of RFC 6750.\<close>

definition b64token :: "string \<Rightarrow> bool" where
  "b64token t \<longleftrightarrow> (\<exists>a n. t = a @ replicate n (CHR ''='') \<and> a \<noteq> [] \<and> list_all isBearerTokenChar a)"

lemma bearer_loop_b64token: "bearer_loop False False t \<longleftrightarrow> b64token t"
proof (cases t)
  case Nil
  then show ?thesis by (auto simp: b64token_def)
next
  case (Cons c s)
  have e: "\<not> isBearerTokenChar (CHR ''='')" by code_simp
  have "b64token (c # s) \<longleftrightarrow> isBearerTokenChar c \<and> (\<exists>a n. s = a @ replicate n (CHR ''='') \<and> list_all isBearerTokenChar a)"
    (is "?l \<longleftrightarrow> ?r")
  proof
    assume ?l
    then obtain a n where a: "c # s = a @ replicate n (CHR ''='')" "a \<noteq> []" "list_all isBearerTokenChar a"
      by (auto simp: b64token_def)
    then obtain b where "a = c # b" by (cases a) auto
    with a show ?r by auto
  next
    assume ?r
    then obtain a n where "s = a @ replicate n (CHR ''='')" "list_all isBearerTokenChar a" "isBearerTokenChar c" by blast
    then have "c # s = (c # a) @ replicate n (CHR ''='') \<and> c # a \<noteq> [] \<and> list_all isBearerTokenChar (c # a)" by simp
    then show ?l unfolding b64token_def by blast
  qed
  with Cons e show ?thesis by (auto simp: bearer_loop_seen)
qed

lemma validBearerToken_iff: "validBearerToken t \<longleftrightarrow> b64token t \<and> length t \<le> maxBearerTokenBytes"
  by (auto simp: validBearerToken_def bearer_loop_b64token) (auto simp: b64token_def)

section \<open>Theorems\<close>

text \<open>
  C6: what an upstream is told depends on the client's headers only through the three allow-listed
  names: two clients that agree on those send the same request, whatever credential, cookie or
  request id either of them carries. Every outbound name is allow-listed, the proxy's request id or
  the configured credential header; without a credential there is no \<open>Authorization\<close>, and the
  request id is the proxy's own.
\<close>

theorem outbound_headers_closed:
  assumes "\<And>n. n \<in> set forwardHeaderNames \<Longrightarrow> hget client n = hget other n"
  shows "outbound_headers client rid cred = outbound_headers other rid cred
    \<and> fst ` set (outbound_headers client rid cred)
        \<subseteq> {''Content-Type'', ''Accept'', ''Openai-Beta'', ''X-Request-Id''}
          \<union> (case cred of None \<Rightarrow> {} | Some (spec, k) \<Rightarrow> {canonical_key (cs_Header spec)})
    \<and> (cred = None \<longrightarrow> hget (outbound_headers client rid cred) ''Authorization'' = []
         \<and> hget (outbound_headers client rid cred) requestIDHeader = rid)
    \<and> (\<forall>spec k. cred = Some (spec, k) \<longrightarrow>
         hget (outbound_headers client rid cred) (cs_Header spec) = cs_Prefix spec @ k_Value k)"
proof -
  have eq: "copyForwardHeaders [] client = copyForwardHeaders [] other"
    unfolding copyForwardHeaders_def Let_def using copy_headers_agree [OF assms, of forwardHeaderNames "[]"] by simp
  define h where "h = setRequestID rid (copyForwardHeaders [] client)"
  have names: "fst ` set h \<subseteq> {''Content-Type'', ''Accept'', ''Openai-Beta'', ''X-Request-Id''}"
    using copyForwardHeaders_names [of client] by (auto simp: h_def setRequestID_def hset_names canonical_own)
  have "canonical_key ''Authorization'' \<notin> {''Content-Type'', ''Accept'', ''Openai-Beta'', ''X-Request-Id''}"
    by code_simp
  with names have "map_of h (canonical_key ''Authorization'') = None" by (auto simp: map_of_eq_None_iff)
  then have auth: "hget h ''Authorization'' = []" by (simp add: hget_def)
  have rid: "hget h requestIDHeader = rid" by (simp add: h_def setRequestID_def hget_hset)
  have out: "outbound_headers client rid cred =
      (case cred of None \<Rightarrow> h | Some (spec, k) \<Rightarrow> hset (cs_Header spec) (cs_Prefix spec @ k_Value k) h)"
    unfolding outbound_headers_def h_def Let_def ..
  have same: "outbound_headers client rid cred = outbound_headers other rid cred"
    by (simp add: outbound_headers_def eq)
  show ?thesis
  proof (cases cred)
    case None
    with same out names auth rid show ?thesis by auto
  next
    case (Some sk)
    obtain spec k where sk: "sk = (spec, k)" by fastforce
    have o: "outbound_headers client rid cred = hset (cs_Header spec) (cs_Prefix spec @ k_Value k) h"
      using out Some sk by simp
    have "fst ` set (outbound_headers client rid cred)
        \<subseteq> {''Content-Type'', ''Accept'', ''Openai-Beta'', ''X-Request-Id''} \<union> {canonical_key (cs_Header spec)}"
      unfolding o hset_names using names by blast
    moreover have "hget (outbound_headers client rid cred) (cs_Header spec) = cs_Prefix spec @ k_Value k"
      unfolding o by (simp add: hget_hset)
    ultimately show ?thesis using same Some sk by simp
  qed
qed

theorem outbound_headers_closed_witness:
  "outbound_headers [(''Accept'', [''a'']), (''Authorization'', [''Bearer secret''])] ''1f'' None
     = outbound_headers [(''Cookie'', [''c'']), (''Accept'', [''a''])] ''1f'' None
   \<and> hget (outbound_headers [(''Accept'', [''a'']), (''Authorization'', [''Bearer secret''])] ''1f'' None) ''Authorization'' = []"
proof -
  have "hget [(''Accept'', [''a'']), (''Authorization'', [''Bearer secret''])] n = hget [(''Cookie'', [''c'']), (''Accept'', [''a''])] n"
    if "n \<in> set forwardHeaderNames" for n
  proof -
    have "list_all (\<lambda>n. hget [(''Accept'', [''a'']), (''Authorization'', [''Bearer secret''])] n = hget [(''Cookie'', [''c'']), (''Accept'', [''a''])] n) forwardHeaderNames"
      by code_simp
    with that show ?thesis by (simp add: list_all_iff)
  qed
  from outbound_headers_closed [OF this, of "''1f''" None] show ?thesis by blast
qed

text \<open>
  The credential a request presents is the bearer token of its \<open>Authorization\<close> header when that
  is well formed, else a well-formed \<open>x-api-key\<close>, else none; whichever it is, it is a \<open>b64token\<close> of at
  most 4096 bytes, so it holds no space, no control byte and no byte above ASCII.
\<close>

theorem clientToken_wellformed:
  "clientToken h =
     (if (\<exists>t. bearerToken (hget h ''Authorization'') = Some t) then bearerToken (hget h ''Authorization'')
      else if b64token (trim_spaces (hget h ''X-Api-Key'')) \<and> length (trim_spaces (hget h ''X-Api-Key'')) \<le> 4096
      then Some (trim_spaces (hget h ''X-Api-Key'')) else None)
   \<and> (\<forall>t. clientToken h = Some t \<longrightarrow> b64token t \<and> length t \<le> 4096 \<and> (\<forall>c\<in>set t. CHR '' '' < c \<and> c < CHR 0x7F))"
proof -
  have key: "hget h ''X-API-Key'' = hget h ''X-Api-Key''"
  proof -
    have "canonical_key ''X-API-Key'' = canonical_key ''X-Api-Key''" by code_simp
    then show ?thesis by (simp add: hget_def)
  qed
  have bearer: "b64token t \<and> length t \<le> 4096" if "bearerToken x = Some t" for x t
    using that by (auto simp: bearerToken_def Let_def validBearerToken_iff maxBearerTokenBytes_def split: prod.splits if_splits)
  have ascii: "CHR '' '' < c \<and> c < CHR 0x7F" if "b64token t" "c \<in> set t" for c t
  proof -
    have "isBearerTokenChar c \<or> c = CHR ''=''" using that by (auto simp: b64token_def list_all_iff split: if_splits)
    then show ?thesis by (auto simp: isBearerTokenChar_def less_char_def less_eq_char_def)
  qed
  have eq: "clientToken h =
     (if (\<exists>t. bearerToken (hget h ''Authorization'') = Some t) then bearerToken (hget h ''Authorization'')
      else if b64token (trim_spaces (hget h ''X-Api-Key'')) \<and> length (trim_spaces (hget h ''X-Api-Key'')) \<le> 4096
      then Some (trim_spaces (hget h ''X-Api-Key'')) else None)"
    by (cases "bearerToken (hget h ''Authorization'')")
       (simp_all add: clientToken_def key Let_def validBearerToken_iff maxBearerTokenBytes_def)
  then have "b64token t \<and> length t \<le> 4096" if "clientToken h = Some t" for t
    using that bearer by (auto split: if_splits)
  with eq ascii show ?thesis by blast
qed

end
