(* ===== verification/Stream_Recovery.thy ===== *)
theory Stream_Recovery
  imports Stream_Window Partial_Text Recovery_Budget Recovery_Backoff Credential_Pool SSE_Relay
    Http_Headers
begin

text \<open>
  Stream recovery after commitment: \<open>dialContinuation\<close> and \<open>continuationEligible\<close> of
  \<open>internal/proxy/streamrecovery.go\<close> and the loop of \<open>serve\<close> in \<open>internal/proxy/handler.go\<close> that drives
  them over the idle window, the safety gate, the exchange envelope and the key pool. What the
  network, the client and the clock do is an environment: the readings and answers of each
  iteration. The lemmas show which facts every outgoing continuation rests on, that the loop
  returns within its bound, and how its end is reported.
\<close>

section \<open>Passes\<close>

text \<open>How a relay pass failed, as \<open>errors.As\<close> and \<open>errors.Is\<close> see it.\<close>

datatype PassErr = PassWrite | PassClientSide | PassLineTooLong | PassEventTooLarge | PassRead

fun client_err :: "PassErr \<Rightarrow> bool" where
  "client_err PassWrite = True"
| "client_err PassClientSide = True"
| "client_err _ = False"

fun limit_err :: "PassErr \<Rightarrow> bool" where
  "limit_err PassLineTooLong = True"
| "limit_err PassEventTooLarge = True"
| "limit_err _ = False"

definition continuationEligible :: "StreamStats \<Rightarrow> PassErr option \<Rightarrow> bool" where
  "continuationEligible stats err =
     (if ss_Terminal stats then False
      else case err of
             None \<Rightarrow> True
           | Some e \<Rightarrow> if client_err e then False else if limit_err e then False else True)"

text \<open>
  One pass of the relay over one response: the reads of its body and the payloads they complete,
  the callbacks of the window's timers, and what the pass returned.
\<close>

datatype PassAct = PaRead int | PaFire int nat | PaPayload "string option" string

record Pass =
  ps_arm :: int
  ps_acts :: "PassAct list"
  ps_stats :: StreamStats
  ps_err :: "PassErr option"

text \<open>What the loop shares with the rest of the request, and the continuations handed to the transport: body and key.\<close>

record World =
  wd_window :: Window
  wd_partial :: PartialText
  wd_budget :: Budget
  wd_pool :: "CredPool option"
  wd_sent :: "(string \<times> string) list"

definition pass_act :: "(string \<Rightarrow> Json option) \<Rightarrow> PassAct \<Rightarrow> World \<Rightarrow> World" where
  "pass_act decode a s =
     (case a of
        PaRead now \<Rightarrow> s\<lparr>wd_window := snd (progress now (wd_window s))\<rparr>
      | PaFire now i \<Rightarrow> s\<lparr>wd_window := win_step (now, WFire i) (wd_window s)\<rparr>
      | PaPayload name payload \<Rightarrow> s\<lparr>wd_partial := Observe_payload decode name payload (wd_partial s)\<rparr>)"

definition relay_pass :: "(string \<Rightarrow> Json option) \<Rightarrow> nat \<Rightarrow> Pass \<Rightarrow> World \<Rightarrow> World" where
  "relay_pass decode body ps s =
     (let s1 = s\<lparr>wd_partial := beginUpstreamStream (wd_partial s)\<rparr>;
          (lease, w) = armBody (ps_arm ps) body (wd_window s1);
          s2 = fold (pass_act decode) (ps_acts ps) (s1\<lparr>wd_window := w\<rparr>)
      in case lease of
           None \<Rightarrow> s2
         | Some l \<Rightarrow> s2\<lparr>wd_window := disarm l (wd_window s2)\<rparr>)"

section \<open>One hop\<close>

definition recoveryBudgetSpent :: string where "recoveryBudgetSpent = ''budget_spent''"
definition recoveryMaxRecoveries :: string where "recoveryMaxRecoveries = ''max_recoveries''"
definition recoveryMaxElapsed :: string where "recoveryMaxElapsed = ''max_elapsed''"
definition recoveryLogicalTerminal :: string where "recoveryLogicalTerminal = ''logical_terminal''"
definition recoveryUnsafeContent :: string where "recoveryUnsafeContent = ''unsafe_content''"

lemmas recovery_reasons = recoveryBudgetSpent_def recoveryMaxRecoveries_def recoveryMaxElapsed_def
  recoveryLogicalTerminal_def recoveryUnsafeContent_def

text \<open>
  The request's frozen configuration: the policy, the client's body, the continuation builder of
  its surface with its refusal reason, the candidate's transform, whether its transport is a
  pool, and its cooldown rule.
\<close>

record RecCfg =
  rc_policy :: StreamPolicy
  rc_body :: string
  rc_build :: "string \<Rightarrow> string \<Rightarrow> string + string"
  rc_transform :: "string \<Rightarrow> string + string"
  rc_pooled :: bool
  rc_rateLimit :: RateLimit
  rc_decode :: "string \<Rightarrow> Json option"
  rc_httpDate :: "string \<Rightarrow> time option"

record HopAnswer =
  an_status :: int
  an_contentType :: string
  an_retryAfter :: string
  an_body :: nat

text \<open>What a dial met: the transport's error, no answer and no error, or an answer.\<close>

datatype DialAnswer = DialErr string | DialNone | DialResp HopAnswer

text \<open>
  The environment of one dial: the clocks of the two window checks, whether the request could be
  built, the clocks of the key and of a direct claim, the claims a pool made, the window's timers meanwhile, the
  answer, whether the client was gone, and the clock of the handover to the body.
\<close>

record HopEnv =
  he_dialable :: int
  he_bind :: int
  he_reqErr :: "string option"
  he_now :: "time"
  he_claim :: "time"
  he_claims :: "time list"
  he_fires :: "(int \<times> nat) list"
  he_answer :: DialAnswer
  he_gone :: bool
  he_promote :: int

record HopDial =
  di_resp :: "HopAnswer option"
  di_err :: "string option"
  di_phase :: string
  di_credKey :: string
  di_callerLeft :: bool
  di_lease :: "nat option"

definition refused :: "string \<Rightarrow> string option \<Rightarrow> string \<Rightarrow> HopDial" where
  "refused phase err credKey =
     \<lparr>di_resp = None, di_err = err, di_phase = phase, di_credKey = credKey, di_callerLeft = False, di_lease = None\<rparr>"

definition release_hop :: "nat \<Rightarrow> World \<Rightarrow> World" where
  "release_hop lease s = s\<lparr>wd_window := disarm lease (wd_window s)\<rparr>"

text \<open>The key of the hop: none without a pool, otherwise the pool's choice with the preferred one first.\<close>

definition hop_key :: "time \<Rightarrow> string \<Rightarrow> World \<Rightarrow> string option \<times> World" where
  "hop_key now credKey s =
     (case wd_pool s of
        None \<Rightarrow> (Some credKey, s)
      | Some p \<Rightarrow>
          (case Acquire p now credKey of
             (p', None) \<Rightarrow> (None, s\<lparr>wd_pool := Some p'\<rparr>)
           | (p', Some k) \<Rightarrow> (Some (k_ID k), s\<lparr>wd_pool := Some p'\<rparr>)))"

text \<open>
  The exchange itself. A pool claims its own exchanges; a direct dial claims one and is refused
  without it. The result says whether a request went out.
\<close>

definition hop_exchange :: "bool \<Rightarrow> HopEnv \<Rightarrow> World \<Rightarrow> DialAnswer option \<times> World" where
  "hop_exchange pooled e s =
     (if pooled
      then (Some (he_answer e), s\<lparr>wd_budget := fold (\<lambda>t b. fst (AcquireExchange b t)) (he_claims e) (wd_budget s)\<rparr>)
      else (case AcquireExchange (wd_budget s) (he_claim e) of
              (b, g) \<Rightarrow> (if ex_Granted g then Some (he_answer e) else None, s\<lparr>wd_budget := b\<rparr>)))"

text \<open>The reading of the exchange's answer: whose failure it is, or the handover to the body.\<close>

definition hop_outcome :: "HopEnv \<Rightarrow> string \<Rightarrow> nat \<Rightarrow> DialAnswer \<Rightarrow> World \<Rightarrow> HopDial \<times> World" where
  "hop_outcome e key lease ans s =
     (case ans of
        DialErr err \<Rightarrow>
          (if shut (wd_window s) then (refused recoveryMaxElapsed (Some err) key, release_hop lease s)
           else if he_gone e then ((refused ''client_write'' (Some err) key)\<lparr>di_callerLeft := True\<rparr>, release_hop lease s)
           else (refused ''dial'' (Some err) key, release_hop lease s))
      | DialNone \<Rightarrow> (refused ''budget'' None key, release_hop lease s)
      | DialResp r \<Rightarrow>
          (case promote (he_promote e) lease (an_body r) (wd_window s) of
             (False, w) \<Rightarrow> (refused recoveryMaxElapsed None key, release_hop lease (s\<lparr>wd_window := w\<rparr>))
           | (True, w) \<Rightarrow>
               (\<lparr>di_resp = Some r, di_err = None, di_phase = [], di_credKey = key, di_callerLeft = False, di_lease = Some lease\<rparr>,
                s\<lparr>wd_window := w\<rparr>)))"

definition dialContinuation :: "RecCfg \<Rightarrow> string \<Rightarrow> string \<Rightarrow> HopEnv \<Rightarrow> World \<Rightarrow> HopDial \<times> World" where
  "dialContinuation cfg body credKey e s =
     (case dialable (he_dialable e) (wd_window s) of
        (False, w) \<Rightarrow> (refused recoveryMaxElapsed None credKey, s\<lparr>wd_window := w\<rparr>)
      | (True, w) \<Rightarrow>
     (case bind_hop (he_bind e) 0 w of
        (None, w) \<Rightarrow> (refused recoveryMaxElapsed None credKey, s\<lparr>wd_window := w\<rparr>)
      | (Some lease, w) \<Rightarrow>
          let s1 = s\<lparr>wd_window := w\<rparr> in
          case rc_transform cfg body of
            Inl err \<Rightarrow> (refused ''build'' (Some err) credKey, release_hop lease s1)
          | Inr out \<Rightarrow>
          (case he_reqErr e of
             Some err \<Rightarrow> (refused ''build'' (Some err) credKey, release_hop lease s1)
           | None \<Rightarrow>
          (case hop_key (he_now e) credKey s1 of
             (None, s2) \<Rightarrow> (refused ''credential'' None credKey, release_hop lease s2)
           | (Some key, s2) \<Rightarrow>
          (case hop_exchange (rc_pooled cfg) e s2 of
             (None, s3) \<Rightarrow> (refused ''budget'' None key, release_hop lease s3)
           | (Some ans, s3) \<Rightarrow>
               let s4 = s3\<lparr>wd_sent := wd_sent s3 @ [(out, key)],
                           wd_window := fold (\<lambda>(now, i). win_step (now, WFire i)) (he_fires e) (wd_window s3)\<rparr>
               in hop_outcome e key lease ans s4)))))"

section \<open>The loop\<close>

datatype RecLog =
    stream_recovery_started int nat
  | stream_recovery_failed int string string int \<comment> \<open>index, phase, unsafe\_reason, upstream\_status\<close>
  | stream_recovery_succeeded int nat nat
  | stream_recovery_exhausted int string string

record LoopState =
  lo_world :: World
  lo_stats :: StreamStats
  lo_err :: "PassErr option"
  lo_bytes :: nat
  lo_events :: nat
  lo_recoveries :: int
  lo_attempts :: int
  lo_credKey :: string
  lo_lastCred :: string
  lo_windowShut :: bool
  lo_stop :: string
  lo_unsafe :: string
  lo_gone :: bool
  lo_log :: "RecLog list"

text \<open>One iteration: the client at the gate, the clocks of the gates, the hop, its pass, and the two clocks of a rate limit.\<close>

record IterEnv =
  it_gone :: bool
  it_expired :: int
  it_budget :: "time"
  it_hop :: HopEnv
  it_pass :: Pass
  it_rateNow :: "time"
  it_rateParse :: "time"

definition stop_with :: "string \<Rightarrow> LoopState \<Rightarrow> LoopState" where
  "stop_with reason s = s\<lparr>lo_stop := reason\<rparr>"

text \<open>
  The gates before the hop, in order. \<open>Inl\<close> is a break with the state it leaves; \<open>Inr\<close> is the body
  of the continuation to send.
\<close>

definition gates :: "RecCfg \<Rightarrow> IterEnv \<Rightarrow> LoopState \<Rightarrow> LoopState + string \<times> LoopState" where
  "gates cfg e s =
     (if \<not> continuationEligible (lo_stats s) (lo_err s) then Inl s
      else if lo_recoveries s \<ge> sp_MaxRecoveries (rc_policy cfg) then Inl (stop_with recoveryMaxRecoveries s)
      else if shut (wd_window (lo_world s)) then Inl (stop_with recoveryMaxElapsed (s\<lparr>lo_windowShut := True\<rparr>))
      else if it_gone e then Inl (s\<lparr>lo_gone := True\<rparr>)
      else case Verdict_of (wd_partial (lo_world s)) of
             VerdictTerminal \<Rightarrow> Inl (stop_with recoveryLogicalTerminal s)
           | VerdictUnsafe reason \<Rightarrow> Inl (stop_with recoveryUnsafeContent (s\<lparr>lo_unsafe := reason\<rparr>))
           | VerdictRecoverable text \<Rightarrow>
               (case expired (it_expired e) (wd_window (lo_world s)) of
                  (True, w) \<Rightarrow> Inl (stop_with recoveryMaxElapsed (s\<lparr>lo_world := (lo_world s)\<lparr>wd_window := w\<rparr>\<rparr>))
                | (False, w) \<Rightarrow>
                    let s' = s\<lparr>lo_world := (lo_world s)\<lparr>wd_window := w\<rparr>\<rparr> in
                    if Exhausted (wd_budget (lo_world s')) (it_budget e) \<noteq> ExhaustionNone
                    then Inl (stop_with recoveryBudgetSpent s')
                    else case rc_build cfg (rc_body cfg) text of
                           Inl reason \<Rightarrow>
                             Inl (stop_with recoveryUnsafeContent (s'\<lparr>lo_unsafe := reason,
                                    lo_log := lo_log s' @ [stream_recovery_failed (lo_recoveries s' + 1) ''build'' reason 0]\<rparr>))
                         | Inr body \<Rightarrow> Inr (body, s')))"

definition recoveryFailed :: "string \<Rightarrow> int \<Rightarrow> LoopState \<Rightarrow> LoopState" where
  "recoveryFailed phase status s = s\<lparr>lo_log := lo_log s @ [stream_recovery_failed (lo_recoveries s) phase [] status]\<rparr>"

text \<open>A 429 takes the hop's key out of rotation.\<close>

definition mark_limited :: "RecCfg \<Rightarrow> time \<Rightarrow> time \<Rightarrow> HopAnswer \<Rightarrow> string \<Rightarrow> World \<Rightarrow> World" where
  "mark_limited cfg now parsed r key s =
     (case wd_pool s of
        None \<Rightarrow> s
      | Some p \<Rightarrow>
          if an_status r = 429 \<and> key \<noteq> []
          then s\<lparr>wd_pool := Some (MarkRateLimited p now key
                   (credentialCooldown (parseRetryAfter (rc_httpDate cfg) (an_retryAfter r) parsed) (rc_rateLimit cfg)))\<rparr>
          else s)"

text \<open>The phase of a hop whose stream was cut again.\<close>

definition cut_phase :: "PassErr option \<Rightarrow> string" where
  "cut_phase err =
     (case err of
        None \<Rightarrow> ''upstream_read''
      | Some e \<Rightarrow> if client_err e then ''client_write'' else if limit_err e then ''upstream_limit'' else ''upstream_read'')"

text \<open>After the dial: the flag says whether the loop goes round again.\<close>

definition after_dial :: "RecCfg \<Rightarrow> IterEnv \<Rightarrow> HopDial \<Rightarrow> LoopState \<Rightarrow> bool \<times> LoopState" where
  "after_dial cfg e d s =
     (case (di_phase d, di_resp d) of
        ([], Some r) \<Rightarrow>
          (if an_status r < 200 \<or> an_status r \<ge> 300
           then (False, recoveryFailed ''upstream_status'' (an_status r)
                   (s\<lparr>lo_world := release_hop (the (di_lease d)) (mark_limited cfg (it_rateNow e) (it_rateParse e) r (di_credKey d) (lo_world s))\<rparr>))
           else if \<not> is_event_stream (an_contentType r)
           then (False, recoveryFailed ''upstream_status'' (an_status r)
                   (s\<lparr>lo_world := release_hop (the (di_lease d)) (lo_world s)\<rparr>))
           else
             let ps = it_pass e;
                 w = release_hop (the (di_lease d)) (relay_pass (rc_decode cfg) (an_body r) ps (lo_world s));
                 s' = s\<lparr>lo_world := w, lo_stats := ps_stats ps, lo_err := ps_err ps,
                        lo_bytes := lo_bytes s + ss_Bytes (ps_stats ps), lo_events := lo_events s + ss_Events (ps_stats ps)\<rparr>;
                 cut = shut (wd_window w)
             in if ss_Terminal (ps_stats ps) \<and> \<not> cut
                then (False, s'\<lparr>lo_log := lo_log s' @ [stream_recovery_succeeded (lo_recoveries s') (ss_Bytes (ps_stats ps)) (ss_Events (ps_stats ps))]\<rparr>)
                else if cut
                then (False, stop_with recoveryMaxElapsed ((recoveryFailed recoveryMaxElapsed 0 s')\<lparr>lo_windowShut := True\<rparr>))
                else (True, recoveryFailed (cut_phase (ps_err ps)) 0 s'))
      | (phase, _) \<Rightarrow>
          (if phase = recoveryMaxElapsed
           then (False, stop_with recoveryMaxElapsed ((recoveryFailed recoveryMaxElapsed 0 s)\<lparr>lo_windowShut := True\<rparr>))
           else (False, recoveryFailed phase 0 s)))"

definition hop :: "RecCfg \<Rightarrow> IterEnv \<Rightarrow> string \<Rightarrow> LoopState \<Rightarrow> bool \<times> LoopState" where
  "hop cfg e body s =
     (let s1 = s\<lparr>lo_recoveries := lo_recoveries s + 1, lo_attempts := lo_attempts s + 1,
                 lo_log := lo_log s @ [stream_recovery_started (lo_recoveries s + 1) (partialBytes (wd_partial (lo_world s)))]\<rparr>;
          (d, w) = dialContinuation cfg body (lo_credKey s1) (it_hop e) (lo_world s1);
          s2 = s1\<lparr>lo_world := w, lo_credKey := di_credKey d,
                  lo_lastCred := (if di_credKey d \<noteq> [] then di_credKey d else lo_lastCred s1),
                  lo_gone := lo_gone s1 \<or> di_callerLeft d\<rparr>
      in after_dial cfg e d s2)"

text \<open>\<open>None\<close>: the environment given was too short.\<close>

fun recovery_loop :: "RecCfg \<Rightarrow> IterEnv list \<Rightarrow> LoopState \<Rightarrow> LoopState option" where
  "recovery_loop cfg [] s = None"
| "recovery_loop cfg (e # es) s =
     (case gates cfg e s of
        Inl s' \<Rightarrow> Some s'
      | Inr (body, s') \<Rightarrow> (case hop cfg e body s' of (again, s'') \<Rightarrow> if again then recovery_loop cfg es s'' else Some s''))"

section \<open>The whole stream and its report\<close>

definition stream_start :: "RecCfg \<Rightarrow> string \<Rightarrow> int \<Rightarrow> Budget \<Rightarrow> CredPool option \<Rightarrow> string \<Rightarrow> World" where
  "stream_start cfg api now b pool credKey =
     \<lparr>wd_window = newRecoveryWindow now (sp_MaxElapsed (rc_policy cfg)),
      wd_partial = newPartialText api (sp_MaxPartialBytes (rc_policy cfg)), wd_budget = b, wd_pool = pool, wd_sent = []\<rparr>"

definition enter_loop :: "Pass \<Rightarrow> string \<Rightarrow> World \<Rightarrow> LoopState" where
  "enter_loop ps credKey w =
     \<lparr>lo_world = w, lo_stats = ps_stats ps, lo_err = ps_err ps, lo_bytes = ss_Bytes (ps_stats ps),
      lo_events = ss_Events (ps_stats ps), lo_recoveries = 0, lo_attempts = 0, lo_credKey = credKey, lo_lastCred = credKey,
      lo_windowShut = False, lo_stop = [], lo_unsafe = [], lo_gone = False, lo_log = []\<rparr>"

text \<open>After the loop: the window's own closed body is no error, and a stop is logged.\<close>

definition leave_loop :: "LoopState \<Rightarrow> LoopState" where
  "leave_loop s =
     (let s' = (if lo_windowShut s then s\<lparr>lo_err := None\<rparr> else s)
      in if lo_stop s' \<noteq> [] then s'\<lparr>lo_log := lo_log s' @ [stream_recovery_exhausted (lo_recoveries s') (lo_stop s') (lo_unsafe s')]\<rparr>
         else s')"

text \<open>The answer's report: the outcome and the phase of the truncation record, none when completed.\<close>

definition classify_stream :: "bool \<Rightarrow> LoopState \<Rightarrow> string \<times> string option" where
  "classify_stream enabled s =
     (if lo_err s \<noteq> None \<or> (enabled \<and> \<not> ss_Terminal (lo_stats s))
      then
        let (outcome, phase) =
              (case lo_err s of
                 None \<Rightarrow> (''stream_truncated'', ''recovery'')
               | Some e \<Rightarrow>
                   if client_err e then (''client_disconnected'', ''client_write'')
                   else if limit_err e then (''stream_limit_exceeded'', ''upstream_limit'')
                   else (''stream_truncated'', ''upstream_read''));
            outcome = (if lo_err s = None \<and> lo_gone s then ''client_disconnected'' else outcome)
        in (outcome, Some phase)
      else (''completed'', None))"

definition recover_stream :: "RecCfg \<Rightarrow> string \<Rightarrow> int \<Rightarrow> Budget \<Rightarrow> CredPool option \<Rightarrow> string \<Rightarrow> Pass \<Rightarrow> IterEnv list \<Rightarrow> LoopState option" where
  "recover_stream cfg api now b pool credKey first es =
     (if sp_Enabled (rc_policy cfg)
      then map_option leave_loop
             (recovery_loop cfg es (enter_loop first credKey
                (relay_pass (rc_decode cfg) 0 first (stream_start cfg api now b pool credKey))))
      else Some (enter_loop first credKey (stream_start cfg api now b pool credKey)))"

section \<open>What a hop does\<close>

lemma dial_frame:
  assumes "dialContinuation cfg body key e w = (d, w')"
  shows "wd_partial w' = wd_partial w"
    and "wd_sent w' = wd_sent w \<or> (\<exists>out k. rc_transform cfg body = Inr out \<and> wd_sent w' = wd_sent w @ [(out, k)])"
  using assms
  by (auto simp: dialContinuation_def hop_key_def hop_exchange_def hop_outcome_def release_hop_def Let_def
      split: prod.splits bool.splits option.splits sum.splits if_splits DialAnswer.splits)

lemma pass_act_frame: "wd_sent (pass_act dec a w) = wd_sent w" "wd_budget (pass_act dec a w) = wd_budget w"
  by (simp_all add: pass_act_def split: PassAct.split)

lemma fold_pass_frame:
  "wd_sent (fold (pass_act dec) acts w) = wd_sent w" "wd_budget (fold (pass_act dec) acts w) = wd_budget w"
  by (induction acts arbitrary: w) (simp_all add: pass_act_frame)

lemma relay_pass_frame: "wd_sent (relay_pass dec b ps w) = wd_sent w" "wd_budget (relay_pass dec b ps w) = wd_budget w"
  by (simp_all add: relay_pass_def Let_def fold_pass_frame split: prod.split option.split)

lemma release_hop_frame [simp]:
  "wd_sent (release_hop l w) = wd_sent w" "wd_partial (release_hop l w) = wd_partial w" "wd_budget (release_hop l w) = wd_budget w"
  by (simp_all add: release_hop_def)

lemma mark_limited_frame [simp]:
  "wd_sent (mark_limited cfg t u r k w) = wd_sent w" "wd_partial (mark_limited cfg t u r k w) = wd_partial w"
  "wd_budget (mark_limited cfg t u r k w) = wd_budget w"
  by (simp_all add: mark_limited_def split: option.split)

text \<open>The accumulator over a pass: a run of its own operations, opened by the pass.\<close>

fun payloads :: "PassAct list \<Rightarrow> PtOp list" where
  "payloads [] = []"
| "payloads (PaPayload n p # as) = PtObserve n p # payloads as"
| "payloads (_ # as) = payloads as"

lemma fold_pass_partial: "wd_partial (fold (pass_act dec) acts w) = pt_run dec (payloads acts) (wd_partial w)"
proof (induction acts arbitrary: w)
  case (Cons a acts)
  then show ?case by (cases a) (simp_all add: pass_act_def pt_run_def pt_step_def)
qed (simp add: pt_run_def)

lemma relay_pass_partial: "wd_partial (relay_pass dec b ps w) = pt_run dec (PtBegin # payloads (ps_acts ps)) (wd_partial w)"
  by (simp add: relay_pass_def Let_def fold_pass_partial pt_run_def pt_step_def split: prod.split option.split)

lemma after_dial_world:
  assumes "after_dial cfg e d s = (again, s')"
  shows "wd_sent (lo_world s') = wd_sent (lo_world s)"
    and "wd_partial (lo_world s') = wd_partial (lo_world s)
         \<or> wd_partial (lo_world s') = pt_run (rc_decode cfg) (PtBegin # payloads (ps_acts (it_pass e))) (wd_partial (lo_world s))"
    and "lo_recoveries s' = lo_recoveries s" and "lo_unsafe s' = lo_unsafe s"
    and "wd_budget (lo_world s') = wd_budget (lo_world s)"
  using assms
  by (auto simp: after_dial_def recoveryFailed_def stop_with_def Let_def relay_pass_frame relay_pass_partial
      split: if_splits list.splits option.splits)

lemma hop_split:
  assumes "hop cfg e body s = (again, s')"
  obtains d t where "dialContinuation cfg body (lo_credKey s) (it_hop e) (lo_world s) = (d, lo_world t)"
    "after_dial cfg e d t = (again, s')" "lo_recoveries t = lo_recoveries s + 1" "lo_stop t = lo_stop s"
    "lo_windowShut t = lo_windowShut s"
proof -
  obtain d w where d: "dialContinuation cfg body (lo_credKey s) (it_hop e) (lo_world s) = (d, w)" by fastforce
  let ?s1 = "s\<lparr>lo_recoveries := lo_recoveries s + 1, lo_attempts := lo_attempts s + 1,
                 lo_log := lo_log s @ [stream_recovery_started (lo_recoveries s + 1) (partialBytes (wd_partial (lo_world s)))]\<rparr>"
  have "after_dial cfg e d (?s1\<lparr>lo_world := w, lo_credKey := di_credKey d,
            lo_lastCred := (if di_credKey d \<noteq> [] then di_credKey d else lo_lastCred ?s1),
            lo_gone := lo_gone ?s1 \<or> di_callerLeft d\<rparr>) = (again, s')"
    using assms d by (simp add: hop_def Let_def)
  from that[OF _ this] d show ?thesis by simp
qed

lemma hop_world:
  assumes "hop cfg e body s = (again, s')"
  shows "wd_sent (lo_world s') = wd_sent (lo_world s)
          \<or> (\<exists>out k. rc_transform cfg body = Inr out \<and> wd_sent (lo_world s') = wd_sent (lo_world s) @ [(out, k)])"
    and "wd_partial (lo_world s') = wd_partial (lo_world s)
         \<or> wd_partial (lo_world s') = pt_run (rc_decode cfg) (PtBegin # payloads (ps_acts (it_pass e))) (wd_partial (lo_world s))"
    and "lo_recoveries s' = lo_recoveries s + 1"
proof -
  from assms obtain d t where d: "dialContinuation cfg body (lo_credKey s) (it_hop e) (lo_world s) = (d, lo_world t)"
    and a: "after_dial cfg e d t = (again, s')" and r: "lo_recoveries t = lo_recoveries s + 1" by (rule hop_split)
  note f = dial_frame[OF d] and g = after_dial_world[OF a]
  show "wd_sent (lo_world s') = wd_sent (lo_world s)
          \<or> (\<exists>out k. rc_transform cfg body = Inr out \<and> wd_sent (lo_world s') = wd_sent (lo_world s) @ [(out, k)])"
    using f(2) g(1) by simp
  show "wd_partial (lo_world s') = wd_partial (lo_world s)
         \<or> wd_partial (lo_world s') = pt_run (rc_decode cfg) (PtBegin # payloads (ps_acts (it_pass e))) (wd_partial (lo_world s))"
    using f(1) g(2) by simp
  show "lo_recoveries s' = lo_recoveries s + 1" using g(3) r by simp
qed

lemma gates_Inl:
  "gates cfg e s = Inl s' \<Longrightarrow>
     wd_sent (lo_world s') = wd_sent (lo_world s) \<and> wd_partial (lo_world s') = wd_partial (lo_world s)
     \<and> lo_recoveries s' = lo_recoveries s \<and> lo_err s' = lo_err s \<and> lo_stats s' = lo_stats s"
  by (auto simp: gates_def stop_with_def Let_def split: if_splits Verdict.splits prod.splits bool.splits sum.splits)

lemma gates_Inr:
  "gates cfg e s = Inr (body, s') \<Longrightarrow>
     continuationEligible (lo_stats s) (lo_err s) \<and> lo_recoveries s < sp_MaxRecoveries (rc_policy cfg)
   \<and> \<not> shut (wd_window (lo_world s)) \<and> \<not> it_gone e
   \<and> Exhausted (wd_budget (lo_world s)) (it_budget e) = ExhaustionNone
   \<and> (\<exists>pre. Verdict_of (wd_partial (lo_world s)) = VerdictRecoverable pre \<and> rc_build cfg (rc_body cfg) pre = Inr body)
   \<and> (\<exists>w. s' = s\<lparr>lo_world := (lo_world s)\<lparr>wd_window := w\<rparr>\<rparr>)"
  by (auto simp: gates_def stop_with_def Let_def split: if_splits Verdict.splits prod.splits bool.splits sum.splits)

section \<open>Only justified continuations\<close>

lemma evolves_prefix: "evolves p p' \<Longrightarrow> \<not> settled p' \<Longrightarrow> \<not> settled p \<and> prefix (pt_text p) (pt_text p')"
proof (induction rule: evolves.induct)
  case (evolves_append s p)
  then show ?case by (auto simp: append_text_def settled_def refuse_def Let_def reason_defs split: if_splits)
next
  case (evolves_trans p q r)
  then show ?case by (blast intro: prefix_order.trans)
qed (auto simp: settled_def refuse_def finish_def split: if_splits)

lemma pt_step_prefix: "\<not> settled (pt_step dec op p) \<Longrightarrow> \<not> settled p \<and> prefix (pt_text p) (pt_text (pt_step dec op p))"
proof (cases op)
  case (PtObserve n payload)
  then show "\<not> settled (pt_step dec op p) \<Longrightarrow> \<not> settled p \<and> prefix (pt_text p) (pt_text (pt_step dec op p))"
    using evolves_prefix[OF evolves_payload[of p dec n payload]] by (simp add: pt_step_def)
qed (simp add: pt_step_def beginUpstreamStream_def settled_def)

lemma pt_run_prefix: "\<not> settled (pt_run dec ops p) \<Longrightarrow> \<not> settled p \<and> prefix (pt_text p) (pt_text (pt_run dec ops p))"
proof (induction ops arbitrary: p)
  case (Cons op ops)
  then show ?case using pt_step_prefix[of dec op p] by (auto simp: pt_run_def intro: prefix_order.trans)
qed (simp add: pt_run_def)

lemma Verdict_recoverable: "Verdict_of p = VerdictRecoverable pre \<Longrightarrow> \<not> settled p \<and> pre = pt_text p \<and> pre \<noteq> []"
  by (auto simp: Verdict_of_def settled_def split: if_splits)

text \<open>A sent continuation, against the accumulator now: built from a prefix that is still one of the pre, or the stream is refused.\<close>

definition justified :: "RecCfg \<Rightarrow> PartialText \<Rightarrow> string \<Rightarrow> bool" where
  "justified cfg p out \<longleftrightarrow>
     (\<exists>pre body. pre \<noteq> [] \<and> int (length pre) < sp_MaxPartialBytes (rc_policy cfg)
      \<and> rc_build cfg (rc_body cfg) pre = Inr body \<and> rc_transform cfg body = Inr out
      \<and> (settled p \<or> prefix pre (pt_text p)))"

definition sent_ok :: "RecCfg \<Rightarrow> World \<Rightarrow> bool" where
  "sent_ok cfg w \<longleftrightarrow>
     pt_ok (wd_partial w) \<and> pt_limit (wd_partial w) = sp_MaxPartialBytes (rc_policy cfg)
   \<and> (\<forall>x\<in>set (wd_sent w). justified cfg (wd_partial w) (fst x))"

lemma justified_run:
  assumes "justified cfg p out"
  shows "justified cfg (pt_run dec ops p) out"
proof -
  have "settled (pt_run dec ops p) \<or> prefix pre (pt_text (pt_run dec ops p))"
    if "settled p \<or> prefix pre (pt_text p)" for pre
    using that pt_run_prefix[of dec ops p] by (metis prefix_order.trans)
  with assms show ?thesis unfolding justified_def by blast
qed

lemma sent_ok_run:
  assumes "sent_ok cfg w" "wd_sent w' = wd_sent w" "wd_partial w' = pt_run dec ops (wd_partial w)"
  shows "sent_ok cfg w'"
proof -
  have "pt_ok (wd_partial w') \<and> pt_limit (wd_partial w') = pt_limit (wd_partial w)"
    using assms(1,3) pt_run_ok[of "wd_partial w" dec ops] by (simp add: sent_ok_def)
  then show ?thesis using assms justified_run[of cfg "wd_partial w" _ dec ops] by (simp add: sent_ok_def)
qed

lemma sent_ok_same: "sent_ok cfg w \<Longrightarrow> wd_sent w' = wd_sent w \<Longrightarrow> wd_partial w' = wd_partial w \<Longrightarrow> sent_ok cfg w'"
  by (simp add: sent_ok_def)

lemma hop_sent_ok:
  assumes "sent_ok cfg (lo_world s)" "gates cfg e s = Inr (body, s1)" "hop cfg e body s1 = (again, s')"
  shows "sent_ok cfg (lo_world s')"
proof -
  from gates_Inr[OF assms(2)] obtain pre w where
    v: "Verdict_of (wd_partial (lo_world s)) = VerdictRecoverable pre" and b: "rc_build cfg (rc_body cfg) pre = Inr body"
    and s1: "s1 = s\<lparr>lo_world := (lo_world s)\<lparr>wd_window := w\<rparr>\<rparr>" by blast
  note t = Verdict_recoverable[OF v]
  have len: "int (length pre) < sp_MaxPartialBytes (rc_policy cfg)"
    using assms(1) t by (auto simp: sent_ok_def pt_ok_def)
  note h = hop_world[OF assms(3)]
  define w2 where "w2 = (lo_world s)\<lparr>wd_sent := wd_sent (lo_world s')\<rparr>"
  have "justified cfg (wd_partial (lo_world s)) out" if "rc_transform cfg body = Inr out" for out
    using t b len that unfolding justified_def by blast
  with assms(1) h(1) have "sent_ok cfg w2" by (auto simp: sent_ok_def w2_def s1)
  moreover have "wd_sent (lo_world s') = wd_sent w2" by (simp add: w2_def)
  moreover have "wd_partial (lo_world s') = wd_partial w2
      \<or> wd_partial (lo_world s') = pt_run (rc_decode cfg) (PtBegin # payloads (ps_acts (it_pass e))) (wd_partial w2)"
    using h(2) by (simp add: w2_def s1)
  ultimately show ?thesis using sent_ok_same sent_ok_run by metis
qed

lemma loop_sent_ok: "sent_ok cfg (lo_world s) \<Longrightarrow> recovery_loop cfg es s = Some s' \<Longrightarrow> sent_ok cfg (lo_world s')"
proof (induction es arbitrary: s)
  case (Cons e es)
  show ?case
  proof (cases "gates cfg e s")
    case (Inl s1)
    with Cons.prems gates_Inl[OF Inl] show ?thesis by (auto intro: sent_ok_same)
  next
    case (Inr bs)
    obtain body s1 where bs: "bs = (body, s1)" by fastforce
    obtain again s2 where h: "hop cfg e body s1 = (again, s2)" by fastforce
    have "sent_ok cfg (lo_world s2)" by (rule hop_sent_ok[OF Cons.prems(1) Inr[unfolded bs] h])
    with Cons.IH Cons.prems(2) Inr bs h show ?thesis by (auto split: if_splits)
  qed
qed simp

section \<open>The bound\<close>

lemma loop_bound:
  assumes "recovery_loop cfg es s = Some s'"
  shows "lo_recoveries s \<le> lo_recoveries s' \<and> lo_recoveries s' \<le> max (lo_recoveries s) (sp_MaxRecoveries (rc_policy cfg))
       \<and> int (length (wd_sent (lo_world s'))) - int (length (wd_sent (lo_world s))) \<le> lo_recoveries s' - lo_recoveries s"
  using assms
proof (induction es arbitrary: s)
  case (Cons e es)
  show ?case
  proof (cases "gates cfg e s")
    case (Inl s1)
    with Cons.prems gates_Inl[OF Inl] show ?thesis by simp
  next
    case (Inr bs)
    obtain body s1 where bs: "bs = (body, s1)" by fastforce
    obtain again s2 where h: "hop cfg e body s1 = (again, s2)" by fastforce
    note g = gates_Inr[OF Inr[unfolded bs]] and w = hop_world[OF h]
    then have "lo_recoveries s1 = lo_recoveries s" "wd_sent (lo_world s1) = wd_sent (lo_world s)" by auto
    with w(1,3) have two: "lo_recoveries s2 = lo_recoveries s + 1" "length (wd_sent (lo_world s2)) \<le> length (wd_sent (lo_world s)) + 1" by auto
    show ?thesis
    proof (cases again)
      case True
      with Cons.prems Inr bs h have "recovery_loop cfg es s2 = Some s'" by simp
      from Cons.IH[OF this] two g show ?thesis by auto
    next
      case False
      with Cons.prems Inr bs h have "s' = s2" by simp
      with two g show ?thesis by auto
    qed
  qed
qed simp

lemma loop_returns:
  "sp_MaxRecoveries (rc_policy cfg) - lo_recoveries s < int (length es) \<Longrightarrow> es \<noteq> [] \<Longrightarrow> \<exists>s'. recovery_loop cfg es s = Some s'"
proof (induction es arbitrary: s)
  case (Cons e es)
  show ?case
  proof (cases "gates cfg e s")
    case (Inr bs)
    obtain body s1 where bs: "bs = (body, s1)" by fastforce
    obtain again s2 where h: "hop cfg e body s1 = (again, s2)" by fastforce
    from gates_Inr[OF Inr[unfolded bs]] hop_world(3)[OF h]
    have r: "lo_recoveries s2 = lo_recoveries s + 1" "lo_recoveries s < sp_MaxRecoveries (rc_policy cfg)" by auto
    with Cons.prems have "sp_MaxRecoveries (rc_policy cfg) - lo_recoveries s2 < int (length es)" "es \<noteq> []" by auto
    from Cons.IH[OF this] Inr bs h show ?thesis by simp
  qed simp
qed simp

lemma start_ok: "sent_ok cfg (stream_start cfg api now b pool key)"
  using newPartialText_ok by (simp add: sent_ok_def stream_start_def newPartialText_def)

lemma first_pass_ok: "sent_ok cfg (relay_pass (rc_decode cfg) 0 first (stream_start cfg api now b pool key))"
  by (rule sent_ok_run[OF start_ok relay_pass_frame(1) relay_pass_partial])

lemma leave_frame:
  "lo_world (leave_loop s) = lo_world s" "lo_recoveries (leave_loop s) = lo_recoveries s" "lo_stats (leave_loop s) = lo_stats s"
  "lo_windowShut (leave_loop s) = lo_windowShut s" "lo_stop (leave_loop s) = lo_stop s" "lo_gone (leave_loop s) = lo_gone s"
  "lo_err (leave_loop s) = (if lo_windowShut s then None else lo_err s)"
  by (simp_all add: leave_loop_def Let_def)

lemma enter_frame [simp]:
  "lo_world (enter_loop ps key w) = w" "lo_recoveries (enter_loop ps key w) = 0" "lo_stats (enter_loop ps key w) = ps_stats ps"
  "lo_err (enter_loop ps key w) = ps_err ps"
  by (simp_all add: enter_loop_def)

text \<open>
  C32: With recovery enabled, a committed stream always comes to an end of its recovery, whatever the
  upstreams, the client and the clock do, in at most \<open>MaxRecoveries + 1\<close> rounds; it starts at most
  \<open>MaxRecoveries\<close> continuations, and no more than one request per started continuation leaves.
\<close>

theorem recovery_is_bounded:
  assumes "sp_Enabled (rc_policy cfg)" "0 \<le> sp_MaxRecoveries (rc_policy cfg)"
    and "sp_MaxRecoveries (rc_policy cfg) < int (length es)"
  shows "\<exists>s. recover_stream cfg api now b pool key first es = Some s
           \<and> 0 \<le> lo_recoveries s \<and> lo_recoveries s \<le> sp_MaxRecoveries (rc_policy cfg)
           \<and> int (length (wd_sent (lo_world s))) \<le> lo_recoveries s"
proof -
  let ?w = "relay_pass (rc_decode cfg) 0 first (stream_start cfg api now b pool key)"
  have "es \<noteq> []" using assms by auto
  with assms loop_returns[of cfg "enter_loop first key ?w" es] obtain s
    where s: "recovery_loop cfg es (enter_loop first key ?w) = Some s" by auto
  have "wd_sent ?w = []" by (simp add: relay_pass_frame stream_start_def)
  with loop_bound[OF s] assms(1,2) s show ?thesis
    by (intro exI[of _ "leave_loop s"]) (auto simp: recover_stream_def leave_frame)
qed

lemma continuations_are_justified_parts:
  assumes "recover_stream cfg api now b pool key first es = Some s"
  shows "(out, k) \<in> set (wd_sent (lo_world s)) \<Longrightarrow>
           \<exists>pre body. pre \<noteq> [] \<and> int (length pre) < sp_MaxPartialBytes (rc_policy cfg)
             \<and> rc_build cfg (rc_body cfg) pre = Inr body \<and> rc_transform cfg body = Inr out
             \<and> (settled (wd_partial (lo_world s)) \<or> prefix pre (pt_text (wd_partial (lo_world s))))"
    and "\<not> sp_Enabled (rc_policy cfg) \<or> \<not> continuationEligible (ps_stats first) (ps_err first)
         \<or> settled (wd_partial (relay_pass (rc_decode cfg) 0 first (stream_start cfg api now b pool key)))
         \<Longrightarrow> wd_sent (lo_world s) = []"
proof -
  let ?st = "stream_start cfg api now b pool key"
  let ?w = "relay_pass (rc_decode cfg) 0 first ?st"
  have none: "wd_sent ?st = []" "wd_sent ?w = []" by (simp_all add: relay_pass_frame stream_start_def)
  have "sent_ok cfg (lo_world s)"
  proof (cases "sp_Enabled (rc_policy cfg)")
    case True
    with assms obtain s1 where s1: "recovery_loop cfg es (enter_loop first key ?w) = Some s1" "s = leave_loop s1"
      by (auto simp: recover_stream_def)
    have "sent_ok cfg (lo_world s1)" by (rule loop_sent_ok[OF _ s1(1)]) (simp add: first_pass_ok)
    then show ?thesis by (simp add: s1(2) leave_frame)
  next
    case False
    with assms have "s = enter_loop first key ?st" by (simp add: recover_stream_def)
    then show ?thesis by (simp add: start_ok)
  qed
  then show "(out, k) \<in> set (wd_sent (lo_world s)) \<Longrightarrow>
           \<exists>pre body. pre \<noteq> [] \<and> int (length pre) < sp_MaxPartialBytes (rc_policy cfg)
             \<and> rc_build cfg (rc_body cfg) pre = Inr body \<and> rc_transform cfg body = Inr out
             \<and> (settled (wd_partial (lo_world s)) \<or> prefix pre (pt_text (wd_partial (lo_world s))))"
    by (fastforce simp: sent_ok_def justified_def)
  show "wd_sent (lo_world s) = []" if stop: "\<not> sp_Enabled (rc_policy cfg) \<or> \<not> continuationEligible (ps_stats first) (ps_err first)
         \<or> settled (wd_partial ?w)"
  proof (cases "sp_Enabled (rc_policy cfg)")
    case True
    with assms obtain s1 where s1: "recovery_loop cfg es (enter_loop first key ?w) = Some s1" "s = leave_loop s1"
      by (auto simp: recover_stream_def)
    then obtain e es' where es: "es = e # es'" by (cases es) auto
    obtain s' where g: "gates cfg e (enter_loop first key ?w) = Inl s'"
    proof (cases "gates cfg e (enter_loop first key ?w)")
      case (Inr bs)
      obtain body s2 where "bs = (body, s2)" by fastforce
      with Inr gates_Inr[of cfg e "enter_loop first key ?w" body s2] stop True Verdict_recoverable[of "wd_partial ?w"]
      show ?thesis by auto
    qed auto
    with s1 es gates_Inl[OF g] none show ?thesis by (simp add: leave_frame)
  next
    case False
    with assms have "s = enter_loop first key ?st" by (simp add: recover_stream_def)
    with none show ?thesis by simp
  qed
qed



section \<open>The report\<close>

lemma gates_report:
  "gates cfg e s = Inl s' \<Longrightarrow> lo_stop s = [] \<Longrightarrow> \<not> lo_windowShut s \<Longrightarrow>
     (lo_windowShut s' \<longrightarrow> lo_stop s' = recoveryMaxElapsed)
   \<and> (lo_stop s' \<noteq> [] \<longrightarrow> continuationEligible (lo_stats s') (lo_err s'))
   \<and> (lo_stop s' = recoveryMaxRecoveries \<longrightarrow> lo_recoveries s' \<ge> sp_MaxRecoveries (rc_policy cfg))"
  by (auto simp: gates_def stop_with_def Let_def recovery_reasons
      split: if_splits Verdict.splits prod.splits bool.splits sum.splits)

lemma hop_report:
  assumes "hop cfg e body s = (again, s')" "lo_stop s = []" "\<not> lo_windowShut s"
  shows "if again then lo_stop s' = [] \<and> \<not> lo_windowShut s'
         else lo_windowShut s' = (lo_stop s' = recoveryMaxElapsed) \<and> (lo_stop s' = [] \<or> lo_stop s' = recoveryMaxElapsed)"
proof -
  from assms(1) obtain d t where t: "after_dial cfg e d t = (again, s')" "lo_stop t = lo_stop s" "lo_windowShut t = lo_windowShut s"
    by (rule hop_split)
  with assms(2,3) have "lo_stop t = []" "\<not> lo_windowShut t" by simp_all
  with t(1) show ?thesis
    by (cases "di_phase d"; cases "di_resp d")
      (auto simp: after_dial_def recoveryFailed_def stop_with_def Let_def recovery_reasons split: if_splits)
qed

lemma loop_report:
  "recovery_loop cfg es s = Some s' \<Longrightarrow> lo_stop s = [] \<Longrightarrow> \<not> lo_windowShut s \<Longrightarrow>
     (lo_windowShut s' \<longrightarrow> lo_stop s' = recoveryMaxElapsed)
   \<and> (lo_stop s' \<noteq> [] \<longrightarrow> continuationEligible (lo_stats s') (lo_err s') \<or> lo_windowShut s')
   \<and> (lo_stop s' = recoveryMaxRecoveries \<longrightarrow> lo_recoveries s' \<ge> sp_MaxRecoveries (rc_policy cfg))"
proof (induction es arbitrary: s)
  case (Cons e es)
  show ?case
  proof (cases "gates cfg e s")
    case (Inl s1)
    with Cons.prems gates_report[OF Inl Cons.prems(2,3)] show ?thesis by auto
  next
    case (Inr bs)
    obtain body s1 where bs: "bs = (body, s1)" by fastforce
    obtain again s2 where h: "hop cfg e body s1 = (again, s2)" by fastforce
    from gates_Inr[OF Inr[unfolded bs]] have "lo_stop s1 = lo_stop s" "lo_windowShut s1 = lo_windowShut s" by auto
    with hop_report[OF h] Cons.prems(2,3) have r: "if again then lo_stop s2 = [] \<and> \<not> lo_windowShut s2
         else lo_windowShut s2 = (lo_stop s2 = recoveryMaxElapsed) \<and> (lo_stop s2 = [] \<or> lo_stop s2 = recoveryMaxElapsed)" by simp
    show ?thesis
    proof (cases again)
      case True
      with Cons.IH[of s2] Cons.prems(1) Inr bs h r show ?thesis by simp
    next
      case False
      with Cons.prems(1) Inr bs h r show ?thesis by (auto simp: recovery_reasons)
    qed
  qed
qed simp

lemma recovery_report_parts:
  assumes "recover_stream cfg api now b pool key first es = Some s" and "sp_Enabled (rc_policy cfg)"
  shows "classify_stream True s = (''completed'', None) \<longleftrightarrow> ss_Terminal (lo_stats s) \<and> lo_err s = None"
    and "lo_windowShut s \<Longrightarrow> lo_stop s = recoveryMaxElapsed \<and> lo_err s = None
           \<and> snd (classify_stream True s) \<in> {None, Some ''recovery''}"
    and "lo_stop s \<noteq> [] \<Longrightarrow> lo_windowShut s \<or> continuationEligible (lo_stats s) (lo_err s)"
    and "lo_stop s = recoveryMaxRecoveries \<Longrightarrow> lo_recoveries s \<ge> sp_MaxRecoveries (rc_policy cfg)"
proof -
  obtain s1 where s1: "recovery_loop cfg es (enter_loop first key (relay_pass (rc_decode cfg) 0 first
        (stream_start cfg api now b pool key))) = Some s1" "s = leave_loop s1"
    using assms by (auto simp: recover_stream_def)
  have r: "(lo_windowShut s1 \<longrightarrow> lo_stop s1 = recoveryMaxElapsed)
   \<and> (lo_stop s1 \<noteq> [] \<longrightarrow> continuationEligible (lo_stats s1) (lo_err s1) \<or> lo_windowShut s1)
   \<and> (lo_stop s1 = recoveryMaxRecoveries \<longrightarrow> lo_recoveries s1 \<ge> sp_MaxRecoveries (rc_policy cfg))"
    by (rule loop_report[OF s1(1)]) (simp_all add: enter_loop_def)
  show "classify_stream True s = (''completed'', None) \<longleftrightarrow> ss_Terminal (lo_stats s) \<and> lo_err s = None"
    by (auto simp: classify_stream_def Let_def split: prod.splits option.splits)
  show "lo_windowShut s \<Longrightarrow> lo_stop s = recoveryMaxElapsed \<and> lo_err s = None
           \<and> snd (classify_stream True s) \<in> {None, Some ''recovery''}"
    using r by (auto simp: s1(2) leave_frame classify_stream_def)
  show "lo_stop s \<noteq> [] \<Longrightarrow> lo_windowShut s \<or> continuationEligible (lo_stats s) (lo_err s)"
    using r by (auto simp: s1(2) leave_frame)
  show "lo_stop s = recoveryMaxRecoveries \<Longrightarrow> lo_recoveries s \<ge> sp_MaxRecoveries (rc_policy cfg)"
    using r by (simp add: s1(2) leave_frame)
qed

text \<open>
  How the end of a recoverable stream is reported. The client is told nothing more, and the
  request counts as completed exactly when the last relayed answer delivered its terminal marker
  and no error remains. A stream cut by the proxy's own window stops as \<open>max_elapsed\<close>, carries no
  transport error, and is never reported as an upstream read or a relay limit; and a stop reason
  is given only to a stream that could have been continued or was cut by the window.
\<close>

theorem recovery_report:
  assumes "recover_stream cfg api now b pool key first es = Some s" and "sp_Enabled (rc_policy cfg)"
  shows "(classify_stream True s = (''completed'', None) \<longleftrightarrow> ss_Terminal (lo_stats s) \<and> lo_err s = None)
    \<and> (lo_windowShut s \<longrightarrow> lo_stop s = recoveryMaxElapsed \<and> lo_err s = None
           \<and> snd (classify_stream True s) \<in> {None, Some ''recovery''})
    \<and> (lo_stop s \<noteq> [] \<longrightarrow> lo_windowShut s \<or> continuationEligible (lo_stats s) (lo_err s))
    \<and> (lo_stop s = recoveryMaxRecoveries \<longrightarrow> lo_recoveries s \<ge> sp_MaxRecoveries (rc_policy cfg))"
  using recovery_report_parts [OF assms] by blast


section \<open>Examples\<close>

definition ex_rec_cfg :: RecCfg where
  "ex_rec_cfg = \<lparr>rc_policy = \<lparr>sp_Enabled = True, sp_MaxRecoveries = 1, sp_MaxElapsed = 20 * Second, sp_MaxPartialBytes = 1024\<rparr>,
     rc_body = ''q'', rc_build = (\<lambda>b t. Inr (b @ t)), rc_transform = Inr, rc_pooled = False,
     rc_rateLimit = \<lparr>rl_Cooldown = Second, rl_MaxCooldown = Minute\<rparr>,
     rc_decode = (\<lambda>_. Some (JObj [(''choices'', JArr [JObj [(''index'', JInt 0), (''delta'', JObj [(''content'', JStr ''hi'')])]])])),
     rc_httpDate = (\<lambda>_. None)\<rparr>"

definition ex_rec_budget :: Budget where
  "ex_rec_budget = BeginCandidate (NewBudget \<lparr>en_MaxExchanges = 4, en_MaxElapsed = Minute\<rparr> 0) \<lparr>en_MaxExchanges = 4, en_MaxElapsed = Minute\<rparr> 0"

definition ex_cut_pass :: Pass where
  "ex_cut_pass = \<lparr>ps_arm = 1, ps_acts = [PaRead 2, PaPayload None ''x''],
     ps_stats = \<lparr>ss_Bytes = 9, ss_Events = 1, ss_Terminal = False\<rparr>, ps_err = None\<rparr>"

definition ex_iter :: IterEnv where
  "ex_iter = \<lparr>it_gone = False, it_expired = 3, it_budget = 3,
     it_hop = \<lparr>he_dialable = 4, he_bind = 5, he_reqErr = None, he_now = 6, he_claim = 7, he_claims = [], he_fires = [],
       he_answer = DialResp \<lparr>an_status = 200, an_contentType = ''Text/Event-Stream'', an_retryAfter = [], an_body = 1\<rparr>,
       he_gone = False, he_promote = 8\<rparr>,
     it_pass = \<lparr>ps_arm = 9, ps_acts = [PaRead 10, PaPayload None ''y''],
       ps_stats = \<lparr>ss_Bytes = 11, ss_Events = 2, ss_Terminal = True\<rparr>, ps_err = None\<rparr>,
     it_rateNow = 0, it_rateParse = 0\<rparr>"

lemma ex_recovered:
  "map_option (\<lambda>s. (wd_sent (lo_world s), lo_recoveries s, lo_bytes s, lo_log s, classify_stream True s))
     (recover_stream ex_rec_cfg apiChat 0 ex_rec_budget None [] ex_cut_pass [ex_iter, ex_iter])
   = Some ([(''qhi'', [])], 1, 20, [stream_recovery_started 1 2, stream_recovery_succeeded 1 11 2], (''completed'', None))"
  by code_simp

theorem recovery_is_bounded_witness:
  "\<exists>s. recover_stream ex_rec_cfg apiChat 0 ex_rec_budget None [] ex_cut_pass [ex_iter, ex_iter] = Some s
     \<and> int (length (wd_sent (lo_world s))) \<le> lo_recoveries s \<and> lo_recoveries s \<le> 1"
  using recovery_is_bounded[of ex_rec_cfg "[ex_iter, ex_iter]" apiChat 0 ex_rec_budget None "[]" ex_cut_pass]
  by (auto simp: ex_rec_cfg_def)


theorem recovery_report_witness:
  "\<exists>s. recover_stream ex_rec_cfg apiChat 0 ex_rec_budget None [] ex_cut_pass [ex_iter, ex_iter] = Some s
     \<and> ss_Terminal (lo_stats s) \<and> lo_err s = None"
proof -
  from ex_recovered obtain s where s: "recover_stream ex_rec_cfg apiChat 0 ex_rec_budget None [] ex_cut_pass [ex_iter, ex_iter] = Some s"
    "classify_stream True s = (''completed'', None)" by auto
  from recovery_report [OF s(1)] s show ?thesis by (auto simp: ex_rec_cfg_def)
qed

text \<open>
  A finished answer whose connection then stays open: the terminal marker has reached the client,
  the window closes the idle body, and the read error of that closed body is reported as the
  upstream's truncation, because the loop leaves at its first gate without looking at the window.
\<close>

lemma finished_stream_reported_truncated:
  "map_option (\<lambda>s. (ss_Terminal (lo_stats s), shut (wd_window (lo_world s)), lo_windowShut s, classify_stream True s))
     (recover_stream ex_rec_cfg apiChat 0 ex_rec_budget None []
        (ex_cut_pass\<lparr>ps_acts := [PaRead 2, PaPayload None ''x'', PaFire (2 + 20 * Second) 0],
           ps_stats := \<lparr>ss_Bytes = 9, ss_Events = 2, ss_Terminal = True\<rparr>, ps_err := Some PassRead\<rparr>) [ex_iter])
   = Some (True, True, False, (''stream_truncated'', Some ''upstream_read''))"
  by code_simp

end
