(* ===== verification/Auth_Token.thy ===== *)
theory Auth_Token
  imports Prelude
begin

text \<open>
  Client credentials (\<open>internal/auth/keys.go\<close> and the static mode of \<open>auth.go\<close>): the format of a
  partner token, its generation from random bytes, and the fixed-size comparison of the shared
  key. Random bytes are an argument. The lemmas show that every generated token is well formed and
  names its bytes uniquely, and that the padded comparison is equality.
\<close>

section \<open>Tokens\<close>

definition tokenPrefix :: string where "tokenPrefix = ''oaicr_''"
definition tokenEntropy :: nat where "tokenEntropy = 32"
definition keyIDPrefix :: string where "keyIDPrefix = ''pak_''"
definition keyIDEntropy :: nat where "keyIDEntropy = 12"
definition tokenLength :: nat where "tokenLength = length tokenPrefix + 43"

text \<open>
  \<open>base64.RawURLEncoding\<close>: three bytes become four characters of the URL alphabet, a shorter last
  group two or three, without padding. The decoder skips line breaks and rejects a character
  outside the alphabet or a last group of one character; it does not look at the unused low bits
  of the last character.
\<close>

definition b64_chars :: string where
  "b64_chars = ''ABCDEFGHIJKLMNOPQRSTUVWXYZabcdefghijklmnopqrstuvwxyz0123456789-_''"

definition b64_char :: "nat \<Rightarrow> char" where
  "b64_char n = b64_chars ! (n mod 64)"

definition byte_of :: "char \<Rightarrow> nat" where
  "byte_of c = of_char c"

fun b64_encode :: "string \<Rightarrow> string" where
  "b64_encode (a # b # c # r) =
     (let x = byte_of a; y = byte_of b; z = byte_of c in
      [b64_char (x div 4), b64_char (x mod 4 * 16 + y div 16), b64_char (y mod 16 * 4 + z div 64), b64_char (z mod 64)]
      @ b64_encode r)"
| "b64_encode [a, b] =
     (let x = byte_of a; y = byte_of b in
      [b64_char (x div 4), b64_char (x mod 4 * 16 + y div 16), b64_char (y mod 16 * 4)])"
| "b64_encode [a] = (let x = byte_of a in [b64_char (x div 4), b64_char (x mod 4 * 16)])"
| "b64_encode [] = []"

fun index_of :: "'a \<Rightarrow> 'a list \<Rightarrow> nat option" where
  "index_of x [] = None"
| "index_of x (y # ys) = (if x = y then Some 0 else map_option Suc (index_of x ys))"

definition b64_val :: "char \<Rightarrow> nat option" where
  "b64_val c = index_of c b64_chars"

fun b64_groups :: "nat list \<Rightarrow> string option" where
  "b64_groups (p # q # r # s # rest) =
     map_option (\<lambda>out. [char_of (p * 4 + q div 16), char_of (q mod 16 * 16 + r div 4), char_of (r mod 4 * 64 + s)] @ out)
       (b64_groups rest)"
| "b64_groups [p, q, r] = Some [char_of (p * 4 + q div 16), char_of (q mod 16 * 16 + r div 4)]"
| "b64_groups [p, q] = Some [char_of (p * 4 + q div 16)]"
| "b64_groups [p] = None"
| "b64_groups [] = Some []"

fun vals :: "string \<Rightarrow> nat list option" where
  "vals [] = Some []"
| "vals (c # cs) = (case b64_val c of None \<Rightarrow> None | Some n \<Rightarrow> map_option (Cons n) (vals cs))"

definition b64_decode :: "string \<Rightarrow> string option" where
  "b64_decode s = Option.bind (vals (filter (\<lambda>c. c \<noteq> CHR 0x0A \<and> c \<noteq> CHR 0x0D) s)) b64_groups"

text \<open>\<open>rand.Read\<close> filled the buffer with these bytes, or failed.\<close>

definition GenerateToken :: "string option \<Rightarrow> string option" where
  "GenerateToken rnd = map_option (\<lambda>buf. tokenPrefix @ b64_encode buf) rnd"

definition GenerateKeyID :: "string option \<Rightarrow> string option" where
  "GenerateKeyID rnd = map_option (\<lambda>buf. keyIDPrefix @ b64_encode buf) rnd"

definition has_prefix :: "string \<Rightarrow> string \<Rightarrow> bool" where
  "has_prefix s p \<longleftrightarrow> take (length p) s = p"

definition ValidTokenFormat :: "string \<Rightarrow> bool" where
  "ValidTokenFormat token =
     (if length token \<noteq> tokenLength \<or> \<not> has_prefix token tokenPrefix then False
      else b64_decode (drop (length tokenPrefix) token) \<noteq> None)"

section \<open>Identities and the static mode\<close>

record Principal =
  pr_PartnerID :: string
  pr_KeyID :: string

definition noPrincipal :: Principal where
  "noPrincipal = \<lparr>pr_PartnerID = [], pr_KeyID = []\<rparr>"

datatype AuthReason = ReasonOK | ReasonUnknown | ReasonRevoked | ReasonBackend

fun Reason_String :: "AuthReason \<Rightarrow> string" where
  "Reason_String ReasonOK = ''ok''"
| "Reason_String ReasonUnknown = ''unknown_key''"
| "Reason_String ReasonRevoked = ''revoked_key''"
| "Reason_String ReasonBackend = ''backend_unavailable''"

abbreviation maxTokenBytes :: nat where "maxTokenBytes \<equiv> 4096"

text \<open>\<open>copy\<close> into an array of \<open>maxTokenBytes\<close> zero bytes; the comparison folds the exclusive ors.\<close>

definition padded :: "string \<Rightarrow> nat list" where
  "padded s = take maxTokenBytes (map byte_of s) @ replicate (maxTokenBytes - length s) 0"

definition ConstantTimeCompare :: "nat list \<Rightarrow> nat list \<Rightarrow> int" where
  "ConstantTimeCompare x y =
     (if length x \<noteq> length y then 0
      else if fold (\<lambda>(a, b) v. or v (xor a b)) (zip x y) 0 = 0 then 1 else 0)"

definition tokenMatches :: "string \<Rightarrow> string \<Rightarrow> bool" where
  "tokenMatches presented configured =
     (if configured = [] \<or> length presented > maxTokenBytes \<or> length configured > maxTokenBytes then False
      else ConstantTimeCompare (padded presented) (padded configured) = 1 \<and> length presented = length configured)"

definition static_Authenticate :: "string list \<Rightarrow> string \<Rightarrow> Principal \<times> AuthReason" where
  "static_Authenticate configured token =
     (let matched = fold (\<lambda>k m. if tokenMatches token k then or m 1 else m) configured (0::nat)
      in if matched = 1 then (noPrincipal, ReasonOK) else (noPrincipal, ReasonUnknown))"

section \<open>Round trip of generated tokens\<close>

lemma index_of_nth: "distinct xs \<Longrightarrow> n < length xs \<Longrightarrow> index_of (xs ! n) xs = Some n"
proof (induction xs arbitrary: n)
  case (Cons x xs)
  then show ?case by (cases n) (auto simp: nth_mem)
qed simp

lemma b64_distinct: "distinct b64_chars" "length b64_chars = 64"
  by (simp_all add: b64_chars_def)

lemma b64_val_char: "n < 64 \<Longrightarrow> b64_val (b64_char n) = Some n"
  using index_of_nth[OF b64_distinct(1)] by (simp add: b64_val_def b64_char_def b64_distinct(2))

lemma b64_char_no_break: "b64_char n \<noteq> CHR 0x0A \<and> b64_char n \<noteq> CHR 0x0D"
proof -
  have "b64_char n \<in> set b64_chars" using b64_distinct(2) by (simp add: b64_char_def)
  then show ?thesis by (auto simp: b64_chars_def)
qed

lemma byte_of_less [simp]: "byte_of c < 256"
  by (simp add: byte_of_def of_char_def)

lemma char_of_byte [simp]: "char_of (byte_of c) = c"
  by (simp add: byte_of_def)

lemma vals_append_char:
  "n < 64 \<Longrightarrow> vals (b64_char n # cs) = map_option (Cons n) (vals cs)"
  by (simp add: b64_val_char)

lemma b64_roundtrip: "Option.bind (vals (b64_encode bs)) b64_groups = Some bs"
proof (induction bs rule: b64_encode.induct)
  case (1 a b c r)
  obtain vs where vs: "vals (b64_encode r) = Some vs" "b64_groups vs = Some r"
    using 1 by (cases "vals (b64_encode r)") auto
  define x y z where "x = byte_of a" and "y = byte_of b" and "z = byte_of c"
  have less: "x < 256" "y < 256" "z < 256" by (simp_all add: x_def y_def z_def)
  then have q: "x div 4 < 64" "x mod 4 * 16 + y div 16 < 64" "y mod 16 * 4 + z div 64 < 64" "z mod 64 < 64" by auto
  have e: "x div 4 * 4 + (x mod 4 * 16 + y div 16) div 16 = x"
      "(x mod 4 * 16 + y div 16) mod 16 * 16 + (y mod 16 * 4 + z div 64) div 4 = y"
      "(y mod 16 * 4 + z div 64) mod 4 * 64 + z mod 64 = z"
    using less by (simp_all add: div_add1_eq mod_simps)
  show ?case
    using q vs e by (simp add: vals_append_char Let_def x_def y_def z_def del: vals.simps(2))
next
  case (2 a b)
  define x y where "x = byte_of a" and "y = byte_of b"
  have less: "x < 256" "y < 256" by (simp_all add: x_def y_def)
  then have q: "x div 4 < 64" "x mod 4 * 16 + y div 16 < 64" "y mod 16 * 4 < 64" by auto
  have e: "x div 4 * 4 + (x mod 4 * 16 + y div 16) div 16 = x"
      "(x mod 4 * 16 + y div 16) mod 16 * 16 + (y mod 16 * 4) div 4 = y"
    using less by (simp_all add: div_add1_eq)
  show ?case using q e by (simp add: vals_append_char Let_def x_def y_def del: vals.simps(2))
next
  case (3 a)
  define x where "x = byte_of a"
  have less: "x < 256" by (simp add: x_def)
  then have q: "x div 4 < 64" "x mod 4 * 16 < 64" by auto
  have e: "x div 4 * 4 + (x mod 4 * 16) div 16 = x" using less by simp
  show ?case using q e by (simp add: vals_append_char Let_def x_def del: vals.simps(2))
qed simp

lemma b64_encode_no_break: "filter (\<lambda>c. c \<noteq> CHR 0x0A \<and> c \<noteq> CHR 0x0D) (b64_encode bs) = b64_encode bs"
  by (induction bs rule: b64_encode.induct) (simp_all add: b64_char_no_break Let_def)

lemma b64_decode_encode: "b64_decode (b64_encode bs) = Some bs"
  by (simp add: b64_decode_def b64_encode_no_break b64_roundtrip)

lemma length_b64_encode: "length (b64_encode bs) = (length bs * 4 + 2) div 3"
  by (induction bs rule: b64_encode.induct) (simp_all add: Let_def)

lemma generated_token_roundtrip_parts:
  assumes "length secret = tokenEntropy" "length name = keyIDEntropy"
  shows "\<exists>tok. GenerateToken (Some secret) = Some tok \<and> ValidTokenFormat tok
           \<and> b64_decode (drop (length tokenPrefix) tok) = Some secret"
    and "\<exists>kid. GenerateKeyID (Some name) = Some kid \<and> length kid = 20 \<and> b64_decode (drop (length keyIDPrefix) kid) = Some name"
    and "GenerateToken None = None"
  using assms
  by (simp_all add: GenerateToken_def GenerateKeyID_def ValidTokenFormat_def has_prefix_def b64_decode_encode tokenLength_def
        length_b64_encode tokenEntropy_def keyIDEntropy_def keyIDPrefix_def)

text \<open>
  A token generated from the random bytes passes the format filter, and decoding it past the
  prefix gives the bytes back, so that distinct secrets have distinct tokens; a failed source of
  randomness gives no token. The key identifier is recovered in the same way, in 20 characters.
\<close>

theorem generated_token_roundtrip:
  assumes "length secret = tokenEntropy" "length name = keyIDEntropy"
  shows "(\<exists>tok. GenerateToken (Some secret) = Some tok \<and> ValidTokenFormat tok
           \<and> b64_decode (drop (length tokenPrefix) tok) = Some secret)
    \<and> (\<exists>kid. GenerateKeyID (Some name) = Some kid \<and> length kid = 20 \<and> b64_decode (drop (length keyIDPrefix) kid) = Some name)
    \<and> (GenerateToken None = None)"
  using generated_token_roundtrip_parts [OF assms] by blast


theorem generated_token_roundtrip_witness:
  "\<exists>tok. GenerateToken (Some (replicate 32 (CHR 0xFE))) = Some tok \<and> ValidTokenFormat tok"
  using generated_token_roundtrip [of "replicate 32 (CHR 0xFE)" "replicate 12 (CHR 0x00)"]
  by (auto simp: tokenEntropy_def keyIDEntropy_def)

section \<open>The static comparison\<close>

lemma fold_xor_zero:
  "length xs = length ys \<Longrightarrow>
     (fold (\<lambda>(a, b) v. or v (xor a b)) (zip xs ys) (v::nat) = 0) = (v = 0 \<and> xs = ys)"
proof (induction xs ys arbitrary: v rule: list_induct2)
  case (Cons x xs y ys)
  have or0: "(or v w = 0) = (v = 0 \<and> w = 0)" for v w :: nat
    by (metis or_eq_0_iff)
  have xor0: "(xor x y = 0) = (x = y)"
    by (metis xor_self_eq bit.xor_left_self xor.right_neutral xor.assoc)
  show ?case using Cons.IH by (auto simp: or0 xor0)
qed simp

lemma ConstantTimeCompare_iff: "ConstantTimeCompare xs ys = 1 \<longleftrightarrow> xs = ys"
  by (auto simp: ConstantTimeCompare_def fold_xor_zero)

lemma map_byte_inj: "map byte_of s = map byte_of t \<longleftrightarrow> s = t"
proof -
  have "inj byte_of" by (metis char_of_byte injI)
  then show ?thesis by (rule inj_map_eq_map)
qed

lemma padded_inj: "length s \<le> maxTokenBytes \<Longrightarrow> length t = length s \<Longrightarrow> padded s = padded t \<longleftrightarrow> s = t"
  by (simp add: padded_def map_byte_inj)

lemma tokenMatches_iff: "tokenMatches p k \<longleftrightarrow> p = k \<and> k \<noteq> [] \<and> length k \<le> maxTokenBytes"
  by (auto simp: tokenMatches_def ConstantTimeCompare_iff padded_inj dest!: padded_inj[THEN iffD1, rotated -1])

lemma or_fold: "fold (\<lambda>k m. if P k then or m 1 else m) ks (m::nat) = (if list_ex P ks then or m 1 else m)"
proof (induction ks arbitrary: m)
  case (Cons k ks)
  have "or (or m 1) 1 = or m (1::nat)" by (simp add: or.assoc)
  with Cons.IH show ?case by auto
qed simp

text \<open>
  Static mode accepts exactly the non-empty configured keys of at most \<open>maxTokenBytes\<close> bytes: the
  padding hides neither a trailing zero byte nor a length.
\<close>

lemma static_Authenticate_iff:
  "static_Authenticate configured token =
     (noPrincipal, if token \<in> set configured \<and> token \<noteq> [] \<and> length token \<le> maxTokenBytes then ReasonOK else ReasonUnknown)"
  by (auto simp: static_Authenticate_def or_fold list_ex_iff tokenMatches_iff Let_def)

end
