(* ===== verification/Auth_Partner.thy ===== *)
theory Auth_Partner
  imports Auth_Token "HOL-Library.AList"
begin

text \<open>
  Partner authentication (\<open>internal/auth/cache.go\<close>, \<open>partner.go\<close>, \<open>store.go\<close>, \<open>pgstore.go\<close>): the
  bounded cache of decisions, the key table behind it with the statements the store issues, and
  \<open>Authenticate\<close>. Requests interleave with each other and with key management between the cache
  read, the query and the cache write. The digest is the parameter \<open>sha\<close>; the database answers a
  query or fails with an error class. The lemmas bound what the cache may answer and for how long.
\<close>

section \<open>The decision cache\<close>

definition positiveTTL :: duration where "positiveTTL = 60 * Second"
definition negativeTTL :: duration where "negativeTTL = 5 * Second"
definition defaultCacheCap :: int where "defaultCacheCap = 4096"

record cacheEntry =
  ce_principal :: Principal
  ce_reason :: AuthReason
  ce_expiresAt :: "time"

text \<open>The map of the entries, and the recency list of their keys, most recent first.\<close>

record decisionCache =
  dc_capacity :: int
  dc_entries :: "(string \<times> cacheEntry) list"
  dc_order :: "string list"

definition newDecisionCache :: "int \<Rightarrow> decisionCache" where
  "newDecisionCache capacity =
     \<lparr>dc_capacity = (if capacity \<le> 0 then defaultCacheCap else capacity), dc_entries = [], dc_order = []\<rparr>"

definition move_to_front :: "string \<Rightarrow> string list \<Rightarrow> string list" where
  "move_to_front h ord = h # remove1 h ord"

definition cache_get :: "time \<Rightarrow> string \<Rightarrow> decisionCache \<Rightarrow> (Principal \<times> AuthReason) option \<times> decisionCache" where
  "cache_get now h c =
     (case map_of (dc_entries c) h of
        None \<Rightarrow> (None, c)
      | Some e \<Rightarrow>
          if \<not> now < ce_expiresAt e
          then (None, c\<lparr>dc_order := remove1 h (dc_order c), dc_entries := AList.delete h (dc_entries c)\<rparr>)
          else (Some (ce_principal e, ce_reason e), c\<lparr>dc_order := move_to_front h (dc_order c)\<rparr>))"

function evict :: "decisionCache \<Rightarrow> decisionCache" where
  "evict c =
     (if int (length (dc_entries c)) > dc_capacity c \<and> dc_order c \<noteq> []
      then evict (c\<lparr>dc_entries := AList.delete (last (dc_order c)) (dc_entries c), dc_order := butlast (dc_order c)\<rparr>)
      else c)"
  by pat_completeness auto
termination by (relation "measure (\<lambda>c. length (dc_order c))") auto

declare evict.simps [simp del]

definition ttl :: "AuthReason \<Rightarrow> duration" where
  "ttl r = (if r = ReasonOK then positiveTTL else negativeTTL)"

definition cache_put :: "time \<Rightarrow> string \<Rightarrow> Principal \<Rightarrow> AuthReason \<Rightarrow> decisionCache \<Rightarrow> decisionCache" where
  "cache_put now h prin reason c =
     (if reason = ReasonBackend then c
      else
        let e = \<lparr>ce_principal = prin, ce_reason = reason, ce_expiresAt = now + ttl reason\<rparr> in
        case map_of (dc_entries c) h of
          Some _ \<Rightarrow> c\<lparr>dc_entries := AList.update h e (dc_entries c), dc_order := move_to_front h (dc_order c)\<rparr>
        | None \<Rightarrow> evict (c\<lparr>dc_entries := AList.update h e (dc_entries c), dc_order := h # dc_order c\<rparr>))"

section \<open>The key table\<close>

definition StatusActive :: string where "StatusActive = ''active''"
definition StatusRevoked :: string where "StatusRevoked = ''revoked''"

record KeyRecord =
  kr_KeyID :: string
  kr_PartnerID :: string
  kr_Status :: string
  kr_CreatedAt :: "time"
  kr_RevokedAt :: "time option"
  kr_LastUsedAt :: "time option"

text \<open>A row of \<open>partner_api_keys\<close>: the digest of the token beside the record.\<close>

type_synonym key_row = "string \<times> KeyRecord"

datatype LookupAnswer = KeyFound KeyRecord | ErrKeyNotFound | LookupFailed string

definition LookupByHash :: "string \<Rightarrow> key_row list \<Rightarrow> LookupAnswer" where
  "LookupByHash digest rows = (case map_of rows digest of None \<Rightarrow> ErrKeyNotFound | Some r \<Rightarrow> KeyFound r)"

text \<open>The insert, under the table's key, its unique digest and its check of the status.\<close>

definition CreateKey :: "KeyRecord \<Rightarrow> string \<Rightarrow> key_row list \<Rightarrow> key_row list result" where
  "CreateKey rec digest rows =
     (if kr_KeyID rec \<in> set (map (kr_KeyID \<circ> snd) rows) \<or> digest \<in> set (map fst rows)
         \<or> (kr_Status rec \<noteq> StatusActive \<and> kr_Status rec \<noteq> StatusRevoked)
      then Inl (Err ''key store rejected the insert'')
      else Inr (rows @ [(digest, rec\<lparr>kr_RevokedAt := None, kr_LastUsedAt := None\<rparr>)]))"

definition revoke_row :: "time \<Rightarrow> string \<Rightarrow> KeyRecord \<Rightarrow> KeyRecord" where
  "revoke_row now keyID r =
     (if kr_KeyID r = keyID \<and> kr_Status r = StatusActive
      then r\<lparr>kr_Status := StatusRevoked, kr_RevokedAt := (case kr_RevokedAt r of None \<Rightarrow> Some now | Some t \<Rightarrow> Some t)\<rparr>
      else r)"

definition RevokeKey :: "time \<Rightarrow> string \<Rightarrow> key_row list \<Rightarrow> bool \<times> key_row list" where
  "RevokeKey now keyID rows =
     (list_ex (\<lambda>(_, r). kr_KeyID r = keyID \<and> kr_Status r = StatusActive) rows,
      map (\<lambda>(h, r). (h, revoke_row now keyID r)) rows)"

text \<open>The touch queue, its flusher's batch, and one flush: the map's order and how far it got.\<close>

record TouchQueue =
  tq_touches :: "(string \<times> time) list"
  tq_sealed :: bool
  tq_pending :: "(string \<times> time) list"

definition touchQueueCap :: nat where "touchQueueCap = 1024"
definition flushBatch :: nat where "flushBatch = 256"

definition TouchLastUsed :: "string \<Rightarrow> time \<Rightarrow> TouchQueue \<Rightarrow> TouchQueue" where
  "TouchLastUsed keyID at_time q =
     (if tq_sealed q then q
      else if length (tq_touches q) < touchQueueCap then q\<lparr>tq_touches := tq_touches q @ [(keyID, at_time)]\<rparr> else q)"

definition touch_row :: "string \<times> time \<Rightarrow> KeyRecord \<Rightarrow> KeyRecord" where
  "touch_row kt r =
     (if kr_KeyID r = fst kt
      then r\<lparr>kr_LastUsedAt := Some (max (case kr_LastUsedAt r of None \<Rightarrow> 0 | Some t \<Rightarrow> t) (snd kt))\<rparr> else r)"

definition flush_touches :: "(string \<times> time) list \<Rightarrow> nat \<Rightarrow> key_row list \<Rightarrow> key_row list" where
  "flush_touches order written rows = fold (\<lambda>kt. map (\<lambda>(h, r). (h, touch_row kt r))) (take written order) rows"

text \<open>
  One turn of \<open>flushLoop\<close>: a received touch, which fills the batch or not, or the end of the
  window. The result says whether a flush of the batch follows.
\<close>

definition receive_touch :: "TouchQueue \<Rightarrow> (bool \<times> TouchQueue) option" where
  "receive_touch q =
     (case tq_touches q of
        [] \<Rightarrow> if tq_sealed q then Some (True, q) else None
      | (k, t) # rest \<Rightarrow>
          let q' = q\<lparr>tq_touches := rest, tq_pending := AList.update k t (tq_pending q)\<rparr>
          in Some (length (tq_pending q') \<ge> flushBatch, q'))"

definition clear_pending :: "TouchQueue \<Rightarrow> TouchQueue" where
  "clear_pending q = q\<lparr>tq_pending := []\<rparr>"

section \<open>Authenticate\<close>

type_synonym auth_answer = "Principal \<times> AuthReason \<times> string option"

text \<open>Up to the query: an answer, or the digest to look up.\<close>

definition auth_begin :: "(string \<Rightarrow> string) \<Rightarrow> time \<Rightarrow> string \<Rightarrow> decisionCache \<Rightarrow> (auth_answer + string) \<times> decisionCache" where
  "auth_begin sha now token c =
     (if \<not> ValidTokenFormat token then (Inl (noPrincipal, ReasonUnknown, None), c)
      else
        let digest = sha token in
        case cache_get now (hex_encode digest) c of
          (Some (p, r), c') \<Rightarrow> (Inl (p, r, None), c')
        | (None, c') \<Rightarrow> (Inr digest, c'))"

text \<open>From the query's answer: the result, the cache, and the touch of a used key.\<close>

definition auth_finish :: "time \<Rightarrow> string \<Rightarrow> LookupAnswer \<Rightarrow> decisionCache \<Rightarrow> auth_answer \<times> decisionCache \<times> string option" where
  "auth_finish now digest ans c =
     (let h = hex_encode digest in
      case ans of
        ErrKeyNotFound \<Rightarrow> ((noPrincipal, ReasonUnknown, None), cache_put now h noPrincipal ReasonUnknown c, None)
      | LookupFailed err \<Rightarrow> ((noPrincipal, ReasonBackend, Some err), c, None)
      | KeyFound rec \<Rightarrow>
          if kr_Status rec = StatusActive
          then let p = \<lparr>pr_PartnerID = kr_PartnerID rec, pr_KeyID = kr_KeyID rec\<rparr>
               in ((p, ReasonOK, None), cache_put now h p ReasonOK c, Some (kr_KeyID rec))
          else if kr_Status rec = StatusRevoked
          then ((noPrincipal, ReasonRevoked, None), cache_put now h noPrincipal ReasonRevoked c, None)
          else ((noPrincipal, ReasonUnknown, None), cache_put now h noPrincipal ReasonUnknown c, None))"

text \<open>The whole call with nothing interleaved: the query, then the clock of the write.\<close>

definition Authenticate ::
  "(string \<Rightarrow> string) \<Rightarrow> (string \<Rightarrow> LookupAnswer) \<Rightarrow> time \<Rightarrow> time \<Rightarrow> string \<Rightarrow> decisionCache \<Rightarrow> auth_answer \<times> decisionCache" where
  "Authenticate sha lookup now later token c =
     (case auth_begin sha now token c of
        (Inl a, c') \<Rightarrow> (a, c')
      | (Inr digest, c') \<Rightarrow> (case auth_finish later digest (lookup digest) c' of (a, c'', _) \<Rightarrow> (a, c'')))"

section \<open>Runs\<close>

datatype ReqPhase = ReqMissed string | ReqLooked string LookupAnswer | ReqAnswered auth_answer

text \<open>
  The whole: the cache, the table, the touches, each request's phase in order of arrival, and the
  answers given so far with the instant of the clock reading they rest on.
\<close>

record AuthState =
  au_cache :: decisionCache
  au_rows :: "key_row list"
  au_touch :: TouchQueue
  au_reqs :: "ReqPhase list"
  au_outs :: "(time \<times> auth_answer) list"

datatype AuthAct =
    AuthBegin string "time"
  | AuthLookup nat "string option"
  | AuthFinish nat "time"
  | AuthCreate KeyRecord string
  | AuthRevoke string "time"

definition newAuth :: "key_row list \<Rightarrow> AuthState" where
  "newAuth rows = \<lparr>au_cache = newDecisionCache defaultCacheCap, au_rows = rows,
     au_touch = \<lparr>tq_touches = [], tq_sealed = False, tq_pending = []\<rparr>, au_reqs = [], au_outs = []\<rparr>"

fun auth_step :: "(string \<Rightarrow> string) \<Rightarrow> AuthAct \<Rightarrow> AuthState \<Rightarrow> AuthState option" where
  "auth_step sha (AuthBegin token now) s =
     (case auth_begin sha now token (au_cache s) of
        (Inl a, c) \<Rightarrow> Some (s\<lparr>au_cache := c, au_reqs := au_reqs s @ [ReqAnswered a], au_outs := au_outs s @ [(now, a)]\<rparr>)
      | (Inr d, c) \<Rightarrow> Some (s\<lparr>au_cache := c, au_reqs := au_reqs s @ [ReqMissed d]\<rparr>))"
| "auth_step sha (AuthLookup i err) s =
     (if i < length (au_reqs s) then
        (case au_reqs s ! i of
           ReqMissed d \<Rightarrow>
             Some (s\<lparr>au_reqs := (au_reqs s)[i := ReqLooked d (case err of
                        Some e \<Rightarrow> LookupFailed e | None \<Rightarrow> LookupByHash d (au_rows s))]\<rparr>)
         | _ \<Rightarrow> None)
      else None)"
| "auth_step sha (AuthFinish i now) s =
     (if i < length (au_reqs s) then
        (case au_reqs s ! i of
           ReqLooked d ans \<Rightarrow>
             (case auth_finish now d ans (au_cache s) of
                (a, c, used) \<Rightarrow>
                  Some (s\<lparr>au_cache := c, au_reqs := (au_reqs s)[i := ReqAnswered a], au_outs := au_outs s @ [(now, a)],
                          au_touch := (case used of None \<Rightarrow> au_touch s | Some k \<Rightarrow> TouchLastUsed k now (au_touch s))\<rparr>))
         | _ \<Rightarrow> None)
      else None)"
| "auth_step sha (AuthCreate rec d) s =
     (case CreateKey rec d (au_rows s) of Inl _ \<Rightarrow> Some s | Inr rows \<Rightarrow> Some (s\<lparr>au_rows := rows\<rparr>))"
| "auth_step sha (AuthRevoke k now) s = Some (s\<lparr>au_rows := snd (RevokeKey now k (au_rows s))\<rparr>)"

fun auth_run :: "(string \<Rightarrow> string) \<Rightarrow> AuthAct list \<Rightarrow> AuthState \<Rightarrow> AuthState option" where
  "auth_run sha [] s = Some s"
| "auth_run sha (a # as) s = (case auth_step sha a s of None \<Rightarrow> None | Some s' \<Rightarrow> auth_run sha as s')"

section \<open>The cache within its capacity\<close>

definition cache_wf :: "decisionCache \<Rightarrow> bool" where
  "cache_wf c \<longleftrightarrow> 0 < dc_capacity c \<and> distinct (map fst (dc_entries c)) \<and> distinct (dc_order c)
     \<and> set (dc_order c) = set (map fst (dc_entries c)) \<and> int (length (dc_entries c)) \<le> dc_capacity c"

lemma wf_newDecisionCache: "cache_wf (newDecisionCache n)"
  by (simp add: cache_wf_def newDecisionCache_def defaultCacheCap_def)

lemma length_delete_key:
  "distinct (map fst xs) \<Longrightarrow> k \<in> fst ` set xs \<Longrightarrow> length (AList.delete k xs) = length xs - 1"
proof (induction xs)
  case (Cons x xs)
  show ?case
  proof (cases "fst x = k")
    case True
    with Cons.prems have "k \<notin> fst ` set xs" by auto
    then have "AList.delete k xs = xs" by (metis AList.delete_conv' delete_id)
    with True show ?thesis by (cases x) simp
  next
    case False
    with Cons show ?thesis by (cases x; cases xs) auto
  qed
qed simp

lemma wf_length: "distinct (map fst xs) \<Longrightarrow> distinct ys \<Longrightarrow> set ys = set (map fst xs) \<Longrightarrow> length ys = length xs"
  by (metis distinct_card length_map)

lemma delete_key_set: "fst ` set (AList.delete k xs) = fst ` set xs - {k}"
  by (metis delete_keys set_map set_removeAll)

lemma wf_get: "cache_wf c \<Longrightarrow> cache_wf (snd (cache_get now h c))"
proof -
  assume wf: "cache_wf c"
  show ?thesis
  proof (cases "map_of (dc_entries c) h")
    case (Some e)
    then have mem: "h \<in> fst ` set (dc_entries c)" by (metis map_of_eq_None_iff option.distinct(1))
    have len: "length (AList.delete h (dc_entries c)) \<le> length (dc_entries c)" by (rule length_delete_le)
    from wf mem Some len show ?thesis
      by (auto simp: cache_wf_def cache_get_def move_to_front_def distinct_delete delete_key_set)
  qed (use wf in \<open>simp add: cache_get_def\<close>)
qed

lemma update_new: "h \<notin> fst ` set xs \<Longrightarrow> AList.update h e xs = xs @ [(h, e)]"
  by (induction xs) auto

lemma evict_stop: "int (length (dc_entries c)) \<le> dc_capacity c \<or> dc_order c = [] \<Longrightarrow> evict c = c"
  by (subst evict.simps) auto

lemma evict_step: "dc_capacity c < int (length (dc_entries c)) \<Longrightarrow> dc_order c \<noteq> [] \<Longrightarrow>
    evict c = evict (c\<lparr>dc_entries := AList.delete (last (dc_order c)) (dc_entries c), dc_order := butlast (dc_order c)\<rparr>)"
  by (subst evict.simps) simp

text \<open>One insertion brings the cache at most one over its capacity, and the eviction takes it back.\<close>

lemma evict_wf:
  assumes "0 < dc_capacity c" "distinct (map fst (dc_entries c))" "distinct (dc_order c)"
    "set (dc_order c) = set (map fst (dc_entries c))" "int (length (dc_entries c)) \<le> dc_capacity c + 1"
  shows "cache_wf (evict c)"
proof (cases "int (length (dc_entries c)) > dc_capacity c")
  case False
  with assms show ?thesis by (simp add: evict_stop cache_wf_def)
next
  case True
  with assms(1) have "dc_entries c \<noteq> []" by auto
  with assms(4) have ne: "dc_order c \<noteq> []" by auto
  define l where "l = last (dc_order c)"
  have ord: "dc_order c = butlast (dc_order c) @ [l]" using ne by (simp add: l_def)
  have l: "l \<in> fst ` set (dc_entries c)" using ne assms(4) unfolding l_def by (metis last_in_set set_map)
  have bl: "distinct (butlast (dc_order c))" "set (butlast (dc_order c)) = set (dc_order c) - {l}"
    using assms(3) ord by (metis distinct_append, metis Diff_insert_absorb distinct_append disjoint_insert(1) list.set(1) list.simps(15) rotate1.simps(2) set_append set_rotate1 Un_insert_right sup_bot.right_neutral)
  have len: "length (AList.delete l (dc_entries c)) = length (dc_entries c) - 1"
    by (rule length_delete_key[OF assms(2) l])
  have len': "int (length (AList.delete l (dc_entries c))) \<le> dc_capacity c"
    using len assms(1,5) True by (cases "dc_entries c") auto
  let ?c = "c\<lparr>dc_entries := AList.delete l (dc_entries c), dc_order := butlast (dc_order c)\<rparr>"
  have "evict c = evict ?c" using True ne by (simp add: evict_step l_def)
  moreover have "evict ?c = ?c" using len' by (intro evict_stop) simp
  moreover have "cache_wf ?c"
    using assms bl len' by (auto simp: cache_wf_def distinct_delete delete_key_set)
  ultimately show ?thesis by simp
qed

lemma wf_put: "cache_wf c \<Longrightarrow> cache_wf (cache_put now h p r c)"
proof -
  assume wf: "cache_wf c"
  show ?thesis
  proof (cases "map_of (dc_entries c) h")
    case None
    then have new: "h \<notin> fst ` set (dc_entries c)" by (simp add: map_of_eq_None_iff)
    then have upd: "AList.update h e (dc_entries c) = dc_entries c @ [(h, e)]" for e by (rule update_new)
    have "cache_wf (evict (c\<lparr>dc_entries := dc_entries c @ [(h, e)], dc_order := h # dc_order c\<rparr>))" for e
      by (rule evict_wf) (use wf new in \<open>auto simp: cache_wf_def\<close>)
    with wf None upd show ?thesis by (simp add: cache_put_def Let_def)
  next
    case (Some e)
    then have mem: "h \<in> fst ` set (dc_entries c)" by (metis map_of_eq_None_iff option.distinct(1))
    have keys: "map fst (AList.update h e' (dc_entries c)) = map fst (dc_entries c)" for e'
      using mem by (simp add: update_keys)
    have "length (AList.update h e' (dc_entries c)) = length (dc_entries c)"
         "fst ` set (AList.update h e' (dc_entries c)) = fst ` set (dc_entries c)" for e'
      using keys[of e'] by (metis length_map, metis set_map)
    with wf mem Some keys show ?thesis
      by (auto simp: cache_put_def Let_def cache_wf_def move_to_front_def)
  qed
qed

section \<open>What the cache may answer\<close>

definition cached :: "decisionCache \<Rightarrow> string \<Rightarrow> cacheEntry option" where
  "cached c h = map_of (dc_entries c) h"

lemma get_answer: "cache_get now h c = (Some (p, r), c') \<Longrightarrow>
    \<exists>e. cached c h = Some e \<and> ce_principal e = p \<and> ce_reason e = r \<and> now < ce_expiresAt e"
  by (auto simp: cache_get_def cached_def split: option.splits if_splits)

lemma get_keeps: "cached (snd (cache_get now h c)) h' = Some e \<Longrightarrow> cached c h' = Some e"
  by (auto simp: cache_get_def cached_def delete_conv' split: option.splits if_splits)

lemma evict_keeps: "cached (evict c) h = Some e \<Longrightarrow> cached c h = Some e"
proof (induction c rule: evict.induct)
  case (1 c)
  show ?case
  proof (cases "int (length (dc_entries c)) > dc_capacity c \<and> dc_order c \<noteq> []")
    case True
    then have "cached (evict (c\<lparr>dc_entries := AList.delete (last (dc_order c)) (dc_entries c), dc_order := butlast (dc_order c)\<rparr>)) h = Some e"
      using 1(2) evict_step[of c] by simp
    from 1(1)[OF True this] show ?thesis by (simp add: cached_def delete_conv' split: if_splits)
  next
    case False
    then have "evict c = c" by (intro evict_stop) auto
    with 1(2) show ?thesis by simp
  qed
qed

lemma put_keeps:
  "cached (cache_put now h p r c) h' = Some e \<Longrightarrow>
     cached c h' = Some e \<or> (h' = h \<and> r \<noteq> ReasonBackend \<and> e = \<lparr>ce_principal = p, ce_reason = r, ce_expiresAt = now + ttl r\<rparr>)"
  by (auto simp: cache_put_def Let_def cached_def[of c] update_conv' split: if_splits option.splits
        dest!: evict_keeps) (auto simp: cached_def update_conv' split: if_splits)

lemma valid_A: "ValidTokenFormat (tokenPrefix @ replicate 43 (CHR ''A''))"
proof -
  have "replicate 43 (CHR ''A'') = b64_encode (replicate 32 (CHR 0x00))" by code_simp
  then show ?thesis
    by (simp add: ValidTokenFormat_def has_prefix_def tokenLength_def b64_decode_encode length_b64_encode)
qed

section \<open>Fail closed, and the revocation lag\<close>

lemma auth_begin_OK:
  "auth_begin sha now token c = (Inl (p, ReasonOK, err), c') \<Longrightarrow>
     \<exists>e. cached c (hex_encode (sha token)) = Some e \<and> ce_principal e = p \<and> ce_reason e = ReasonOK \<and> now < ce_expiresAt e"
  by (auto simp: auth_begin_def Let_def dest!: get_answer split: if_splits option.splits prod.splits)

lemma auth_begin_keeps: "cached (snd (auth_begin sha now token c)) h = Some e \<Longrightarrow> cached c h = Some e"
  using get_keeps[of now "hex_encode (sha token)" c h e]
  by (auto simp: auth_begin_def Let_def split: if_splits option.splits prod.splits)

lemma auth_finish_OK:
  "auth_finish now digest ans c = ((p, ReasonOK, err), c', used) \<Longrightarrow>
     \<exists>r. ans = KeyFound r \<and> kr_Status r = StatusActive \<and> p = \<lparr>pr_PartnerID = kr_PartnerID r, pr_KeyID = kr_KeyID r\<rparr>"
  by (auto simp: auth_finish_def Let_def split: LookupAnswer.splits if_splits)

lemma auth_finish_keeps:
  assumes "auth_finish now digest ans c = (a, c', used)" "cached c' h = Some e" "ce_reason e = ReasonOK"
  shows "cached c h = Some e \<or>
    (\<exists>r. ans = KeyFound r \<and> kr_Status r = StatusActive \<and> pr_KeyID (ce_principal e) = kr_KeyID r \<and> ce_expiresAt e = now + positiveTTL)"
  using assms
  by (auto simp: auth_finish_def Let_def ttl_def dest!: put_keeps split: LookupAnswer.splits if_splits)

text \<open>
  An accepted caller has an active record behind it: the answer comes from a query of this call
  that found an active key, or from a cached acceptance still inside its time to live, and carries
  that identity. A failed query denies, reports the failure, and leaves no decision in the cache.
\<close>

theorem Authenticate_fail_closed:
  shows "Authenticate sha lookup now later token c = ((p, ReasonOK, err), c') \<Longrightarrow>
      (\<exists>r. lookup (sha token) = KeyFound r \<and> kr_Status r = StatusActive
           \<and> p = \<lparr>pr_PartnerID = kr_PartnerID r, pr_KeyID = kr_KeyID r\<rparr>)
    \<or> (\<exists>e. cached c (hex_encode (sha token)) = Some e \<and> ce_principal e = p \<and> ce_reason e = ReasonOK \<and> now < ce_expiresAt e)"
    and "lookup (sha token) = LookupFailed msg \<Longrightarrow> ValidTokenFormat token \<Longrightarrow> fst (cache_get now (hex_encode (sha token)) c) = None \<Longrightarrow>
      Authenticate sha lookup now later token c
        = ((noPrincipal, ReasonBackend, Some msg), snd (cache_get now (hex_encode (sha token)) c))"
    and "\<not> ValidTokenFormat token \<Longrightarrow> Authenticate sha lookup now later token c = ((noPrincipal, ReasonUnknown, None), c)"
proof -
  assume ok: "Authenticate sha lookup now later token c = ((p, ReasonOK, err), c')"
  show "(\<exists>r. lookup (sha token) = KeyFound r \<and> kr_Status r = StatusActive
           \<and> p = \<lparr>pr_PartnerID = kr_PartnerID r, pr_KeyID = kr_KeyID r\<rparr>)
    \<or> (\<exists>e. cached c (hex_encode (sha token)) = Some e \<and> ce_principal e = p \<and> ce_reason e = ReasonOK \<and> now < ce_expiresAt e)"
  proof (cases "auth_begin sha now token c")
    case (Pair x c1)
    show ?thesis
    proof (cases x)
      case (Inl a)
      with ok Pair have "auth_begin sha now token c = (Inl (p, ReasonOK, err), c')" by (simp add: Authenticate_def)
      from auth_begin_OK[OF this] show ?thesis by blast
    next
      case (Inr d)
      then have d: "d = sha token" using Pair by (auto simp: auth_begin_def Let_def split: if_splits option.splits prod.splits)
      from ok Pair Inr obtain used where "auth_finish later d (lookup d) c1 = ((p, ReasonOK, err), c', used)"
        by (auto simp: Authenticate_def split: prod.splits)
      from auth_finish_OK[OF this] d show ?thesis by blast
    qed
  qed
qed (auto simp: Authenticate_def auth_begin_def auth_finish_def Let_def split: prod.splits)

theorem Authenticate_fail_closed_witness:
  "Authenticate (\<lambda>_. ''h'') (\<lambda>_. LookupFailed ''timeout'') 5 6 (tokenPrefix @ replicate 43 (CHR ''A'')) (newDecisionCache 2)
     = ((noPrincipal, ReasonBackend, Some ''timeout''), newDecisionCache 2)"
  using Authenticate_fail_closed(2)[of "\<lambda>_. LookupFailed ''timeout''" "\<lambda>_. ''h''"
      "tokenPrefix @ replicate 43 (CHR ''A'')" "''timeout''" 5 "newDecisionCache 2" 6]
  by (simp add: cache_get_def newDecisionCache_def valid_A)

definition awaiting_ok :: "string \<Rightarrow> ReqPhase \<Rightarrow> bool" where
  "awaiting_ok k ph \<longleftrightarrow> (case ph of ReqLooked d (KeyFound r) \<Rightarrow> kr_KeyID r = k \<and> kr_Status r = StatusActive | _ \<Rightarrow> False)"

lemma awaiting_answered [simp]: "\<not> awaiting_ok k (ReqAnswered a)" "\<not> awaiting_ok k (ReqMissed d)"
  by (simp_all add: awaiting_ok_def)

fun act_times :: "AuthAct list \<Rightarrow> time list" where
  "act_times [] = []"
| "act_times (AuthBegin _ t # as) = t # act_times as"
| "act_times (AuthFinish _ t # as) = t # act_times as"
| "act_times (_ # as) = act_times as"

fun finishes :: "AuthAct list \<Rightarrow> (nat \<times> time) list" where
  "finishes [] = []"
| "finishes (AuthFinish i t # as) = (i, t) # finishes as"
| "finishes (_ # as) = finishes as"

definition accepts_upto :: "string \<Rightarrow> time \<Rightarrow> decisionCache \<Rightarrow> bool" where
  "accepts_upto k t c \<longleftrightarrow>
     (\<forall>h e. cached c h = Some e \<and> ce_reason e = ReasonOK \<and> pr_KeyID (ce_principal e) = k \<longrightarrow> ce_expiresAt e \<le> t)"

definition accepted_by :: "string \<Rightarrow> time \<Rightarrow> (time \<times> auth_answer) list \<Rightarrow> bool" where
  "accepted_by k t outs \<longleftrightarrow> (\<forall>now p err. (now, (p, ReasonOK, err)) \<in> set outs \<and> pr_KeyID p = k \<longrightarrow> now < t)"

definition key_dead :: "string \<Rightarrow> key_row list \<Rightarrow> bool" where
  "key_dead k rows \<longleftrightarrow> (\<forall>(h, r)\<in>set rows. kr_KeyID r = k \<longrightarrow> kr_Status r \<noteq> StatusActive) \<and> k \<in> set (map (kr_KeyID \<circ> snd) rows)"

definition revoked_inv :: "string \<Rightarrow> time \<Rightarrow> nat set \<Rightarrow> AuthState \<Rightarrow> bool" where
  "revoked_inv k D R s \<longleftrightarrow>
     key_dead k (au_rows s) \<and> (\<forall>i<length (au_reqs s). awaiting_ok k (au_reqs s ! i) \<longrightarrow> i \<in> R)
   \<and> accepts_upto k (D + positiveTTL) (au_cache s)"

lemma auth_begin_upto: "accepts_upto k t c \<Longrightarrow> accepts_upto k t (snd (auth_begin sha now token c))"
  unfolding accepts_upto_def using auth_begin_keeps by blast

lemma auth_finish_upto:
  assumes "auth_finish now d ans c = (a, c', used)" "accepts_upto k (D + positiveTTL) c"
    "awaiting_ok k (ReqLooked d ans) \<Longrightarrow> now \<le> D"
  shows "accepts_upto k (D + positiveTTL) c'"
  unfolding accepts_upto_def
proof (intro allI impI, elim conjE)
  fix h e assume e: "cached c' h = Some e" "ce_reason e = ReasonOK" "pr_KeyID (ce_principal e) = k"
  from auth_finish_keeps[OF assms(1) e(1,2)] show "ce_expiresAt e \<le> D + positiveTTL"
    using assms(2,3) e by (auto simp: accepts_upto_def awaiting_ok_def)
qed

lemma dead_create:
  assumes "key_dead k rows" "CreateKey rec d rows = Inr rows'"
  shows "key_dead k rows'"
proof -
  have rows': "rows' = rows @ [(d, rec\<lparr>kr_RevokedAt := None, kr_LastUsedAt := None\<rparr>)]"
    "kr_KeyID rec \<notin> set (map (kr_KeyID \<circ> snd) rows)"
    using assms(2) by (simp_all add: CreateKey_def split: if_splits)
  then have "kr_KeyID rec \<noteq> k" using assms(1) unfolding key_dead_def by blast
  with assms(1) rows'(1) show ?thesis by (simp add: key_dead_def)
qed

lemma revoke_row_facts [simp]:
  "kr_KeyID (revoke_row now k' r) = kr_KeyID r"
  "kr_Status (revoke_row now k' r) = StatusActive \<longleftrightarrow> kr_Status r = StatusActive \<and> kr_KeyID r \<noteq> k'"
  by (auto simp: revoke_row_def StatusActive_def StatusRevoked_def)

lemma RevokeKey_keys [simp]: "map (kr_KeyID \<circ> snd) (snd (RevokeKey now k' rows)) = map (kr_KeyID \<circ> snd) rows"
  by (simp add: RevokeKey_def case_prod_beta comp_def)

lemma dead_revoke: "key_dead k rows \<Longrightarrow> key_dead k (snd (RevokeKey now k' rows))"
  unfolding key_dead_def RevokeKey_keys by (auto simp: RevokeKey_def)

lemma revoke_dead: "k \<in> set (map (kr_KeyID \<circ> snd) rows) \<Longrightarrow> key_dead k (snd (RevokeKey now k rows))"
  unfolding key_dead_def RevokeKey_keys by (auto simp: RevokeKey_def)

lemma dead_lookup: "key_dead k rows \<Longrightarrow> \<not> awaiting_ok k (ReqLooked d (LookupByHash d rows))"
  by (auto simp: key_dead_def awaiting_ok_def LookupByHash_def dest!: map_of_SomeD split: option.splits)

lemma revoked_step:
  assumes "revoked_inv k D R s" "auth_step sha a s = Some s'" "\<forall>(i, t)\<in>set (finishes [a]). i \<in> R \<longrightarrow> t \<le> D"
  shows "revoked_inv k D R s' \<and> (\<exists>new. au_outs s' = au_outs s @ new \<and> accepted_by k (D + positiveTTL) new)"
proof (cases a)
  case (AuthBegin token now)
  obtain x c where b: "auth_begin sha now token (au_cache s) = (x, c)" by fastforce
  have up: "accepts_upto k (D + positiveTTL) c"
    using auth_begin_upto[of k "D + positiveTTL" "au_cache s" sha now token] assms(1) b by (simp add: revoked_inv_def)
  show ?thesis
  proof (cases x)
    case (Inl ans)
    then have s': "s' = s\<lparr>au_cache := c, au_reqs := au_reqs s @ [ReqAnswered ans], au_outs := au_outs s @ [(now, ans)]\<rparr>"
      using assms(2) AuthBegin b by simp
    have "accepted_by k (D + positiveTTL) [(now, ans)]"
      unfolding accepted_by_def
    proof (intro allI impI, elim conjE)
      fix t p err assume o: "(t, (p, ReasonOK, err)) \<in> set [(now, ans)]" "pr_KeyID p = k"
      then have "auth_begin sha now token (au_cache s) = (Inl (p, ReasonOK, err), c)" using b Inl by simp
      from auth_begin_OK[OF this] obtain e where e: "cached (au_cache s) (hex_encode (sha token)) = Some e" "ce_principal e = p"
        "ce_reason e = ReasonOK" "now < ce_expiresAt e" by blast
      with assms(1) o(2) have "ce_expiresAt e \<le> D + positiveTTL" unfolding revoked_inv_def accepts_upto_def by blast
      with e(4) o(1) show "t < D + positiveTTL" by simp
    qed
    then show ?thesis using assms(1) up s' by (auto simp: revoked_inv_def nth_append awaiting_ok_def)
  next
    case (Inr d)
    then have s': "s' = s\<lparr>au_cache := c, au_reqs := au_reqs s @ [ReqMissed d]\<rparr>" using assms(2) AuthBegin b by simp
    then show ?thesis using assms(1) up by (auto simp: revoked_inv_def nth_append awaiting_ok_def accepted_by_def)
  qed
next
  case (AuthLookup i err)
  then obtain d where d: "i < length (au_reqs s)" "au_reqs s ! i = ReqMissed d"
    "s' = s\<lparr>au_reqs := (au_reqs s)[i := ReqLooked d (case err of Some e \<Rightarrow> LookupFailed e | None \<Rightarrow> LookupByHash d (au_rows s))]\<rparr>"
    using assms(2) by (auto split: if_splits ReqPhase.splits)
  have "\<not> awaiting_ok k (ReqLooked d (case err of Some e \<Rightarrow> LookupFailed e | None \<Rightarrow> LookupByHash d (au_rows s)))"
    using dead_lookup[of k "au_rows s" d] assms(1) by (cases err) (auto simp: revoked_inv_def awaiting_ok_def)
  then show ?thesis using assms(1) d by (auto simp: revoked_inv_def nth_list_update accepted_by_def)
next
  case (AuthFinish i now)
  then obtain d ans where d: "i < length (au_reqs s)" "au_reqs s ! i = ReqLooked d ans"
    using assms(2) by (auto split: if_splits ReqPhase.splits)
  obtain an c used where f: "auth_finish now d ans (au_cache s) = (an, c, used)" by (metis surj_pair)
  from assms(1,3) d AuthFinish have late: "awaiting_ok k (ReqLooked d ans) \<Longrightarrow> now \<le> D"
    by (auto simp: revoked_inv_def)
  have up: "accepts_upto k (D + positiveTTL) c"
    by (rule auth_finish_upto[OF f _ late]) (use assms(1) in \<open>simp_all add: revoked_inv_def\<close>)
  have "accepted_by k (D + positiveTTL) [(now, an)]"
    unfolding accepted_by_def
  proof (intro allI impI, elim conjE)
    fix t p err assume o: "(t, (p, ReasonOK, err)) \<in> set [(now, an)]" "pr_KeyID p = k"
    with auth_finish_OK[of now d ans "au_cache s" p err c used] f late show "t < D + positiveTTL"
      by (force simp: awaiting_ok_def positiveTTL_def Second_def)
  qed
  then show ?thesis using assms(1,2) d f up AuthFinish
    by (auto simp: revoked_inv_def nth_list_update awaiting_answered split: if_splits)
next
  case (AuthCreate rec d)
  then show ?thesis using assms(1,2)
    by (auto simp: revoked_inv_def accepted_by_def dest: dead_create split: sum.splits)
next
  case (AuthRevoke k' now)
  then show ?thesis using assms(1,2) by (auto simp: revoked_inv_def accepted_by_def dead_revoke)
qed

lemma accepted_by_append: "accepted_by k t (xs @ ys) = (accepted_by k t xs \<and> accepted_by k t ys)"
  unfolding accepted_by_def set_append Un_iff by blast

lemma finishes_Cons: "set (finishes (a # as)) = set (finishes [a]) \<union> set (finishes as)"
  by (cases a) auto

lemma revoked_run:
  "revoked_inv k D R s \<Longrightarrow> auth_run sha as s = Some s' \<Longrightarrow> \<forall>(i, t)\<in>set (finishes as). i \<in> R \<longrightarrow> t \<le> D \<Longrightarrow>
     \<exists>new. au_outs s' = au_outs s @ new \<and> accepted_by k (D + positiveTTL) new"
proof (induction as arbitrary: s)
  case Nil
  then show ?case by (auto simp: accepted_by_def)
next
  case (Cons a as)
  then obtain s1 where s1: "auth_step sha a s = Some s1" "auth_run sha as s1 = Some s'" by (auto split: option.splits)
  have "\<forall>(i, t)\<in>set (finishes [a]). i \<in> R \<longrightarrow> t \<le> D" "\<forall>(i, t)\<in>set (finishes as). i \<in> R \<longrightarrow> t \<le> D"
    using Cons.prems(3) unfolding finishes_Cons[of a as] by auto
  with revoked_step[OF Cons.prems(1) s1(1)] Cons.IH[OF _ s1(2)] obtain n1 n2 where
    "au_outs s1 = au_outs s @ n1" "accepted_by k (D + positiveTTL) n1" "au_outs s' = au_outs s1 @ n2" "accepted_by k (D + positiveTTL) n2"
    by blast
  moreover from this have "accepted_by k (D + positiveTTL) (n1 @ n2)" by (simp add: accepted_by_append)
  ultimately show ?case by (intro exI[of _ "n1 @ n2"]) simp
qed

text \<open>Before the revocation: no acceptance in the cache outlives the clock readings so far by more than its time to live.\<close>

lemma upto_run:
  "accepts_upto k (D + positiveTTL) (au_cache s) \<Longrightarrow> auth_run sha as s = Some s' \<Longrightarrow> \<forall>t\<in>set (act_times as). t \<le> D \<Longrightarrow>
     accepts_upto k (D + positiveTTL) (au_cache s')"
proof (induction as arbitrary: s)
  case (Cons a as)
  then obtain s1 where s1: "auth_step sha a s = Some s1" "auth_run sha as s1 = Some s'" by (auto split: option.splits)
  have "accepts_upto k (D + positiveTTL) (au_cache s1)"
  proof (cases a)
    case (AuthBegin token now)
    with s1(1) have "au_cache s1 = snd (auth_begin sha now token (au_cache s))" by (auto split: prod.splits sum.splits)
    with auth_begin_upto[OF Cons.prems(1)] show ?thesis by simp
  next
    case (AuthFinish i now)
    then obtain d ans an used where "auth_finish now d ans (au_cache s) = (an, au_cache s1, used)"
      using s1(1) by (auto split: if_splits ReqPhase.splits prod.splits)
    from auth_finish_upto[OF this Cons.prems(1)] AuthFinish Cons.prems(3) show ?thesis by simp
  qed (use s1(1) Cons.prems(1) in \<open>auto split: if_splits ReqPhase.splits sum.splits\<close>)
  moreover have "\<forall>t\<in>set (act_times as). t \<le> D" using Cons.prems(3) by (cases a) auto
  ultimately show ?case using Cons.IH s1(2) by blast
qed simp

text \<open>
  C37: After a key is revoked, every acceptance of it that is still given, over any interleaving of
  requests and key management, is given less than the positive time to live after \<open>D\<close>, where \<open>D\<close>
  bounds the clock readings before the revocation and the instants at which requests whose query
  had already seen the key active write their decision. The lag counts from that write, not from
  the revocation.
\<close>

theorem revocation_lag:
  assumes "auth_run sha as1 (newAuth rows) = Some s1" and "\<forall>t\<in>set (act_times as1). t \<le> D"
    and "k \<in> set (map (kr_KeyID \<circ> snd) (au_rows s1))"
    and "auth_run sha (AuthRevoke k T # as2) s1 = Some s2"
    and "\<forall>(i, t)\<in>set (finishes as2). i < length (au_reqs s1) \<and> awaiting_ok k (au_reqs s1 ! i) \<longrightarrow> t \<le> D"
    and "(now, (p, ReasonOK, err)) \<in> set (drop (length (au_outs s1)) (au_outs s2))" and "pr_KeyID p = k"
  shows "now < D + positiveTTL"
proof -
  let ?R = "{i. i < length (au_reqs s1) \<and> awaiting_ok k (au_reqs s1 ! i)}"
  let ?s = "s1\<lparr>au_rows := snd (RevokeKey T k (au_rows s1))\<rparr>"
  have "accepts_upto k (D + positiveTTL) (au_cache s1)"
    by (rule upto_run[OF _ assms(1,2)]) (simp add: newAuth_def newDecisionCache_def accepts_upto_def cached_def)
  then have inv: "revoked_inv k D ?R ?s" using revoke_dead[OF assms(3)] by (simp add: revoked_inv_def)
  have "auth_run sha as2 ?s = Some s2" using assms(4) by simp
  from revoked_run[OF inv this] assms(5) obtain new where new: "au_outs s2 = au_outs s1 @ new" "accepted_by k (D + positiveTTL) new"
    by auto
  then have "(now, (p, ReasonOK, err)) \<in> set new" using assms(6) by simp
  with new(2) assms(7) show ?thesis by (auto simp: accepted_by_def)
qed

text \<open>At the bound: a query answered at second 8, a revocation at 10, the decision written at 40, and the key accepted at 99.\<close>

theorem revocation_lag_witness:
  "\<exists>s1 s2. auth_run (\<lambda>_. ''h'') [AuthBegin (tokenPrefix @ replicate 43 (CHR ''A'')) (8 * Second), AuthLookup 0 None]
        (newAuth [(''h'', \<lparr>kr_KeyID = ''k'', kr_PartnerID = ''p'', kr_Status = StatusActive, kr_CreatedAt = 0, kr_RevokedAt = None, kr_LastUsedAt = None\<rparr>)]) = Some s1
     \<and> auth_run (\<lambda>_. ''h'') [AuthRevoke ''k'' (10 * Second), AuthFinish 0 (40 * Second),
          AuthBegin (tokenPrefix @ replicate 43 (CHR ''A'')) (99 * Second)] s1 = Some s2
     \<and> last (au_outs s2) = (99 * Second, \<lparr>pr_PartnerID = ''p'', pr_KeyID = ''k''\<rparr>, ReasonOK, None)
     \<and> 99 * Second < 40 * Second + positiveTTL"
proof -
  let ?tok = "tokenPrefix @ replicate 43 (CHR ''A'')"
  let ?row = "(''h'', \<lparr>kr_KeyID = ''k'', kr_PartnerID = ''p'', kr_Status = StatusActive, kr_CreatedAt = 0, kr_RevokedAt = None, kr_LastUsedAt = None\<rparr>)"
  let ?p = "\<lparr>pr_PartnerID = ''p'', pr_KeyID = ''k''\<rparr>"
  obtain s1 where s1: "auth_run (\<lambda>_. ''h'') [AuthBegin ?tok (8 * Second), AuthLookup 0 None] (newAuth [?row]) = Some s1"
      and c1: "au_cache s1 = newDecisionCache defaultCacheCap" and r1: "au_reqs s1 = [ReqLooked ''h'' (KeyFound (snd ?row))]"
      and o1: "au_outs s1 = []" and t1: "au_rows s1 = [?row]"
    by (simp add: auth_begin_def valid_A newAuth_def cache_get_def newDecisionCache_def LookupByHash_def)
  obtain s2 where s2: "auth_run (\<lambda>_. ''h'') [AuthRevoke ''k'' (10 * Second), AuthFinish 0 (40 * Second), AuthBegin ?tok (99 * Second)] s1 = Some s2"
      and o2: "au_outs s2 = [(40 * Second, ?p, ReasonOK, None), (99 * Second, ?p, ReasonOK, None)]"
    using c1 r1 o1 t1
    by (simp add: auth_begin_def auth_finish_def valid_A cache_get_def cache_put_def newDecisionCache_def defaultCacheCap_def evict_stop
          ttl_def positiveTTL_def Second_def StatusActive_def Let_def)
  have "99 * Second < 40 * Second + positiveTTL"
    by (rule revocation_lag[OF s1 _ _ s2, where p = ?p and err = None])
      (use r1 o1 o2 t1 in \<open>auto simp: Second_def\<close>)
  with s1 s2 o2 show ?thesis by auto
qed

section \<open>The cache stays within its memory bound\<close>

lemma wf_auth_begin: "cache_wf c \<Longrightarrow> cache_wf (snd (auth_begin sha now token c))"
  using wf_get[of c now "hex_encode (sha token)"]
  by (auto simp: auth_begin_def Let_def split: option.splits prod.splits)

lemma wf_auth_finish: "cache_wf c \<Longrightarrow> auth_finish now d ans c = (a, c', used) \<Longrightarrow> cache_wf c'"
  by (auto simp: auth_finish_def Let_def wf_put split: LookupAnswer.splits if_splits)

lemma wf_auth_step: "cache_wf (au_cache s) \<Longrightarrow> auth_step sha a s = Some s' \<Longrightarrow> cache_wf (au_cache s')"
proof (cases a)
  case (AuthBegin token now)
  assume "cache_wf (au_cache s)" "auth_step sha a s = Some s'"
  with AuthBegin wf_auth_begin[of "au_cache s" sha now token] show ?thesis by (auto split: prod.splits sum.splits)
qed (auto split: if_splits ReqPhase.splits prod.splits sum.splits dest: wf_auth_finish)

lemma auth_cache_bounded:
  assumes "auth_run sha as (newAuth rows) = Some s"
  shows "cache_wf (au_cache s)"
proof -
  have "cache_wf (au_cache s0) \<Longrightarrow> auth_run sha as s0 = Some s \<Longrightarrow> cache_wf (au_cache s)" for s0
    by (induction as arbitrary: s0) (auto split: option.splits dest: wf_auth_step)
  from this[OF _ assms] show ?thesis using wf_newDecisionCache by (simp add: newAuth_def)
qed

text \<open>A flush of touches never moves a key's last use backwards.\<close>

lemma flush_touches_monotone:
  assumes "(h, r) \<in> set rows"
  shows "\<exists>r'. (h, r') \<in> set (flush_touches order n rows) \<and> kr_KeyID r' = kr_KeyID r
           \<and> (\<forall>t. kr_LastUsedAt r = Some t \<longrightarrow> (\<exists>t'. kr_LastUsedAt r' = Some t' \<and> t \<le> t'))"
proof -
  have "(h, r) \<in> set rows \<Longrightarrow> \<exists>r'. (h, r') \<in> set (fold (\<lambda>kt. map (\<lambda>(h, r). (h, touch_row kt r))) kts rows)
      \<and> kr_KeyID r' = kr_KeyID r \<and> (\<forall>t. kr_LastUsedAt r = Some t \<longrightarrow> (\<exists>t'. kr_LastUsedAt r' = Some t' \<and> t \<le> t'))" for kts
  proof (induction kts arbitrary: rows r)
    case (Cons kt kts)
    let ?r = "touch_row kt r"
    have "(h, ?r) \<in> set (map (\<lambda>(h, r). (h, touch_row kt r)) rows)" using Cons.prems by force
    from Cons.IH[OF this] obtain r' where r': "(h, r') \<in> set (fold (\<lambda>kt. map (\<lambda>(h, r). (h, touch_row kt r))) kts (map (\<lambda>(h, r). (h, touch_row kt r)) rows))"
      "kr_KeyID r' = kr_KeyID ?r" "\<And>t. kr_LastUsedAt ?r = Some t \<Longrightarrow> \<exists>t'. kr_LastUsedAt r' = Some t' \<and> t \<le> t'" by blast
    have "kr_KeyID ?r = kr_KeyID r" "\<And>t. kr_LastUsedAt r = Some t \<Longrightarrow> \<exists>t'. kr_LastUsedAt ?r = Some t' \<and> t \<le> t'"
      by (simp_all add: touch_row_def)
    with r' show ?case by (fastforce intro: order_trans)
  qed force
  then show ?thesis using assms by (simp add: flush_touches_def)
qed

end
