(* ===== verification/Usage_Capture.thy ===== *)
theory Usage_Capture
  imports Partial_Text Recovery_Backoff
begin

text \<open>
  The usage facts of one request (\<open>internal/usage/capture.go\<close>): what one upstream document states
  of its token counts, last-wins inside one upstream call, and the fold across the calls of a
  recovered stream. The syntax of JSON is the decoder's, an argument; how \<open>encoding/json\<close> fills the
  structs of the source from a JSON value is written out. The lemmas give the aggregate of any
  sequence of calls exactly.
\<close>

section \<open>Counts\<close>

record Tokens =
  tk_Prompt :: "int option"
  tk_Completion :: "int option"
  tk_Total :: "int option"

definition noTokens :: Tokens where
  "noTokens = \<lparr>tk_Prompt = None, tk_Completion = None, tk_Total = None\<rparr>"

definition addCount :: "int option \<Rightarrow> int option \<Rightarrow> int option" where
  "addCount a b =
     (case (a, b) of
        (None, None) \<Rightarrow> None
      | (None, Some y) \<Rightarrow> Some y
      | (Some x, None) \<Rightarrow> Some x
      | (Some x, Some y) \<Rightarrow> Some (wrap64 (x + y)))"

definition or_else :: "'a option \<Rightarrow> 'a option \<Rightarrow> 'a option" where
  "or_else a b = (case a of None \<Rightarrow> b | Some _ \<Rightarrow> a)"

definition foldTokens :: "Tokens \<Rightarrow> Tokens \<Rightarrow> Tokens" where
  "foldTokens a b =
     (let p = or_else (tk_Prompt b) (tk_Prompt a);
          c = addCount (tk_Completion a) (tk_Completion b)
      in \<lparr>tk_Prompt = p, tk_Completion = c,
          tk_Total = or_else (addCount p c) (or_else (tk_Total b) (tk_Total a))\<rparr>)"

section \<open>Reading a document\<close>

text \<open>
  The value of a JSON number literal as a rational, and the double \<open>strconv.ParseFloat\<close> rounds it
  to; a literal beyond the doubles is a range error.
\<close>

definition split_at :: "(char \<Rightarrow> bool) \<Rightarrow> string \<Rightarrow> string \<times> string" where
  "split_at P s = (takeWhile (\<lambda>c. \<not> P c) s, tl (dropWhile (\<lambda>c. \<not> P c) s))"

definition signed_val :: "string \<Rightarrow> int" where
  "signed_val s =
     (case s of
        [] \<Rightarrow> 0
      | c # r \<Rightarrow> if c = CHR ''-'' then - int (digits_val 0 r)
                 else if c = CHR ''+'' then int (digits_val 0 r) else int (digits_val 0 s))"

definition literal_val :: "string \<Rightarrow> rat" where
  "literal_val s =
     (let (mant, ex) = split_at (\<lambda>c. c = CHR ''e'' \<or> c = CHR ''E'') s;
          neg = (mant \<noteq> [] \<and> hd mant = CHR ''-'');
          (whole, frac) = split_at (\<lambda>c. c = CHR ''.'') (if neg then tl mant else mant);
          v = of_nat (digits_val 0 (whole @ frac)) * (10 powi (signed_val ex - int (length frac)))
      in if neg then - v else v)"

definition float_count :: "rat \<Rightarrow> int option" where
  "float_count x =
     (case f64_round x of
        F64 r \<Rightarrow> if of_int (rat_trunc r) = r \<and> - (2 ^ 63) \<le> r \<and> r \<le> 2 ^ 63 then Some (f64_to_duration (F64 r)) else None
      | _ \<Rightarrow> None)"

definition tokenCount :: "Json option \<Rightarrow> int option" where
  "tokenCount raw =
     (case raw of
        Some (JInt n) \<Rightarrow> if in_int64 n then Some n else float_count (of_int n)
      | Some (JReal lit) \<Rightarrow> float_count (literal_val lit)
      | Some (JStr s) \<Rightarrow> atoi (TrimSpace s)
      | _ \<Rightarrow> None)"

record wireUsage =
  wu_prompt :: "Json option"
  wu_completion :: "Json option"
  wu_input :: "Json option"
  wu_output :: "Json option"
  wu_total :: "Json option"

record wireBody =
  wb_Usage :: "wireUsage option"
  wb_Response :: "wireUsage option option"

definition noUsage :: wireUsage where
  "noUsage = \<lparr>wu_prompt = None, wu_completion = None, wu_input = None, wu_output = None, wu_total = None\<rparr>"

text \<open>
  \<open>encoding/json\<close> finds the field of a member up to case: the Kelvin sign and the long s fold to
  their letters as well. A repeated member decodes into what the earlier ones left; null clears a
  pointer, and a value of the wrong kind makes the whole decoding an error.
\<close>

definition upper :: "char \<Rightarrow> char" where
  "upper c = (if CHR ''a'' \<le> c \<and> c \<le> CHR ''z'' then char_of (of_char c - 32 :: nat) else c)"

fun foldName :: "string \<Rightarrow> string" where
  "foldName (a # b # c # r) =
     (if [a, b, c] = [CHR 0xE2, CHR 0x84, CHR 0xAA] then CHR ''K'' # foldName r
      else if [a, b] = [CHR 0xC5, CHR 0xBF] then CHR ''S'' # foldName (c # r)
      else upper a # foldName (b # c # r))"
| "foldName [a, b] = (if [a, b] = [CHR 0xC5, CHR 0xBF] then ''S'' else [upper a, upper b])"
| "foldName [a] = [upper a]"
| "foldName [] = []"

definition is_field :: "string \<Rightarrow> string \<Rightarrow> bool" where
  "is_field name key \<longleftrightarrow> foldName key = foldName name"

definition usage_member :: "string \<times> Json \<Rightarrow> wireUsage \<Rightarrow> wireUsage" where
  "usage_member kv w =
     (let (k, v) = kv in
      if is_field ''prompt_tokens'' k then w\<lparr>wu_prompt := Some v\<rparr>
      else if is_field ''completion_tokens'' k then w\<lparr>wu_completion := Some v\<rparr>
      else if is_field ''input_tokens'' k then w\<lparr>wu_input := Some v\<rparr>
      else if is_field ''output_tokens'' k then w\<lparr>wu_output := Some v\<rparr>
      else if is_field ''total_tokens'' k then w\<lparr>wu_total := Some v\<rparr>
      else w)"

definition decode_usage :: "Json \<Rightarrow> wireUsage option \<Rightarrow> wireUsage option option" where
  "decode_usage v prev =
     (case v of
        JNull \<Rightarrow> Some None
      | JObj kvs \<Rightarrow> Some (Some (fold usage_member kvs (case prev of None \<Rightarrow> noUsage | Some w \<Rightarrow> w)))
      | _ \<Rightarrow> None)"

fun decode_response :: "members \<Rightarrow> wireUsage option \<Rightarrow> wireUsage option option" where
  "decode_response [] u = Some u"
| "decode_response ((k, v) # kvs) u =
     (if is_field ''usage'' k then (case decode_usage v u of None \<Rightarrow> None | Some u' \<Rightarrow> decode_response kvs u')
      else decode_response kvs u)"

fun decode_body :: "members \<Rightarrow> wireBody \<Rightarrow> wireBody option" where
  "decode_body [] b = Some b"
| "decode_body ((k, v) # kvs) b =
     (if is_field ''usage'' k
      then (case decode_usage v (wb_Usage b) of None \<Rightarrow> None | Some u \<Rightarrow> decode_body kvs (b\<lparr>wb_Usage := u\<rparr>))
      else if is_field ''response'' k
      then (case v of
              JNull \<Rightarrow> decode_body kvs (b\<lparr>wb_Response := None\<rparr>)
            | JObj r \<Rightarrow>
                (case decode_response r (case wb_Response b of None \<Rightarrow> None | Some u \<Rightarrow> u) of
                   None \<Rightarrow> None
                 | Some u \<Rightarrow> decode_body kvs (b\<lparr>wb_Response := Some u\<rparr>))
            | _ \<Rightarrow> None)
      else decode_body kvs b)"

definition unmarshal_body :: "Json \<Rightarrow> wireBody option" where
  "unmarshal_body v =
     (case v of
        JNull \<Rightarrow> Some \<lparr>wb_Usage = None, wb_Response = None\<rparr>
      | JObj kvs \<Rightarrow> decode_body kvs \<lparr>wb_Usage = None, wb_Response = None\<rparr>
      | _ \<Rightarrow> None)"

definition tokensFromWire :: "wireUsage option \<Rightarrow> Tokens option" where
  "tokensFromWire u =
     (case u of
        None \<Rightarrow> None
      | Some w \<Rightarrow>
          let t = \<lparr>tk_Prompt = or_else (tokenCount (wu_input w)) (tokenCount (wu_prompt w)),
                   tk_Completion = or_else (tokenCount (wu_output w)) (tokenCount (wu_completion w)),
                   tk_Total = tokenCount (wu_total w)\<rparr>
          in if tk_Prompt t \<noteq> None \<or> tk_Completion t \<noteq> None \<or> tk_Total t \<noteq> None then Some t else None)"

type_synonym decoder = "string \<Rightarrow> Json option"

definition ExtractChatUsage :: "decoder \<Rightarrow> string \<Rightarrow> Tokens option" where
  "ExtractChatUsage dec body =
     (case Option.bind (dec body) unmarshal_body of None \<Rightarrow> None | Some w \<Rightarrow> tokensFromWire (wb_Usage w))"

definition ExtractResponsesUsage :: "decoder \<Rightarrow> string \<Rightarrow> Tokens option" where
  "ExtractResponsesUsage dec body =
     (case Option.bind (dec body) unmarshal_body of
        None \<Rightarrow> None
      | Some w \<Rightarrow>
          tokensFromWire (case wb_Usage w of
                            Some u \<Rightarrow> Some u
                          | None \<Rightarrow> (case wb_Response w of None \<Rightarrow> None | Some u \<Rightarrow> u)))"

section \<open>The capture\<close>

record Capture =
  cap_responses :: bool
  cap_tokens :: Tokens
  cap_found :: bool
  cap_sealed :: Tokens
  cap_sealedFound :: bool

definition NewCapture :: "string \<Rightarrow> Capture" where
  "NewCapture api = \<lparr>cap_responses = (api = ''responses''), cap_tokens = noTokens, cap_found = False,
                     cap_sealed = noTokens, cap_sealedFound = False\<rparr>"

definition cap_extract :: "Capture \<Rightarrow> decoder \<Rightarrow> string \<Rightarrow> Tokens option" where
  "cap_extract c = (if cap_responses c then ExtractResponsesUsage else ExtractChatUsage)"

definition usageKey :: string where "usageKey = [CHR 0x22] @ ''usage'' @ [CHR 0x22]"

fun bytes_contains :: "string \<Rightarrow> string \<Rightarrow> bool" where
  "bytes_contains [] k = (k = [])"
| "bytes_contains (c # s) k = (take (length k) (c # s) = k \<or> bytes_contains s k)"

definition cap_Observe :: "decoder \<Rightarrow> string \<Rightarrow> Capture \<Rightarrow> Capture" where
  "cap_Observe dec body c =
     (if \<not> bytes_contains body usageKey then c
      else (case cap_extract c dec body of
              None \<Rightarrow> c
            | Some t \<Rightarrow> c\<lparr>cap_tokens := t, cap_found := True\<rparr>))"

definition Seal :: "Capture \<Rightarrow> Capture" where
  "Seal c =
     (let c' = (if cap_found c
                then c\<lparr>cap_sealed := foldTokens (cap_sealed c) (cap_tokens c), cap_sealedFound := True\<rparr> else c)
      in c'\<lparr>cap_tokens := noTokens, cap_found := False\<rparr>)"

definition cap_Tokens :: "Capture \<Rightarrow> Tokens option" where
  "cap_Tokens c =
     (if cap_found c \<and> cap_sealedFound c then Some (foldTokens (cap_sealed c) (cap_tokens c))
      else if cap_found c then Some (cap_tokens c)
      else if cap_sealedFound c then Some (cap_sealed c)
      else None)"

section \<open>The aggregate\<close>

text \<open>One request: its upstream calls in order, each the payloads relayed from it.\<close>

definition observe_call :: "decoder \<Rightarrow> string list \<Rightarrow> Capture \<Rightarrow> Capture" where
  "observe_call dec payloads c = fold (cap_Observe dec) payloads (Seal c)"

definition observe_request :: "decoder \<Rightarrow> string list list \<Rightarrow> Capture \<Rightarrow> Capture" where
  "observe_request dec calls c = fold (observe_call dec) calls c"

text \<open>What one payload states, what one call states, and the calls that state something.\<close>

definition states_usage :: "bool \<Rightarrow> decoder \<Rightarrow> string \<Rightarrow> Tokens option" where
  "states_usage responses dec body =
     (if bytes_contains body usageKey
      then (if responses then ExtractResponsesUsage else ExtractChatUsage) dec body else None)"

fun last_some :: "'a option list \<Rightarrow> 'a option" where
  "last_some [] = None"
| "last_some (x # xs) = or_else (last_some xs) x"

definition call_usage :: "bool \<Rightarrow> decoder \<Rightarrow> string list \<Rightarrow> Tokens option" where
  "call_usage responses dec payloads = last_some (map (states_usage responses dec) payloads)"

fun sum_counts :: "int option list \<Rightarrow> int option" where
  "sum_counts [] = None"
| "sum_counts (None # xs) = sum_counts xs"
| "sum_counts (Some x # xs) = (case sum_counts xs of None \<Rightarrow> Some x | Some y \<Rightarrow> Some (wrap64 (x + y)))"

lemma or_else_simps [simp]: "or_else None b = b" "or_else (Some x) b = Some x" "or_else a None = a"
  by (simp_all add: or_else_def split: option.splits)

lemma or_else_assoc [simp]: "or_else (or_else a b) c = or_else a (or_else b c)"
  by (simp add: or_else_def split: option.splits)

lemma last_some_append [simp]: "last_some (xs @ ys) = or_else (last_some ys) (last_some xs)"
  by (induction xs) simp_all

lemma wrap64_sum: "wrap64 (wrap64 a + b) = wrap64 (a + b)" "wrap64 (a + wrap64 b) = wrap64 (a + b)"
  by (simp_all add: wrap64_def algebra_simps mod_simps)

lemma addCount_simps [simp]: "addCount None b = b" "addCount a None = a" "addCount (Some x) (Some y) = Some (wrap64 (x + y))"
  by (auto simp: addCount_def split: option.splits)

lemma addCount_assoc: "addCount (addCount a b) c = addCount a (addCount b c)"
  by (cases a; cases b; cases c) (simp_all add: wrap64_sum algebra_simps)

lemma sum_counts_Cons: "sum_counts (x # xs) = addCount x (sum_counts xs)"
  by (cases x; cases "sum_counts xs") simp_all

lemma sum_counts_append: "sum_counts (xs @ ys) = addCount (sum_counts xs) (sum_counts ys)"
  by (induction xs) (simp_all add: sum_counts_Cons addCount_assoc del: sum_counts.simps(2,3))

text \<open>The aggregate of the observations of several calls.\<close>

definition aggregate :: "Tokens list \<Rightarrow> Tokens" where
  "aggregate ts =
     (let p = last_some (map tk_Prompt ts); c = sum_counts (map tk_Completion ts)
      in \<lparr>tk_Prompt = p, tk_Completion = c, tk_Total = or_else (addCount p c) (last_some (map tk_Total ts))\<rparr>)"

lemma foldTokens_aggregate: "foldTokens (aggregate ts) t = aggregate (ts @ [t])"
proof -
  have "addCount (last_some (map tk_Prompt ts)) (sum_counts (map tk_Completion ts)) = None
        \<or> addCount (or_else (tk_Prompt t) (last_some (map tk_Prompt ts))) (addCount (sum_counts (map tk_Completion ts)) (tk_Completion t)) \<noteq> None"
    by (cases "tk_Prompt t"; cases "last_some (map tk_Prompt ts)"; cases "sum_counts (map tk_Completion ts)"; cases "tk_Completion t") simp_all
  then show ?thesis
    by (cases "tk_Completion t") (auto simp: foldTokens_def aggregate_def sum_counts_append Let_def or_else_def split: option.splits)
qed

lemma aggregate_Nil: "aggregate [] = noTokens"
  by (simp add: aggregate_def noTokens_def)

definition cap_holds :: "bool \<Rightarrow> Tokens list \<Rightarrow> Tokens option \<Rightarrow> Capture \<Rightarrow> bool" where
  "cap_holds responses old cur c \<longleftrightarrow>
     cap_responses c = responses \<and> cap_sealed c = aggregate old \<and> cap_sealedFound c = (old \<noteq> [])
   \<and> cap_found c = (cur \<noteq> None) \<and> (\<forall>t. cur = Some t \<longrightarrow> cap_tokens c = t)"

lemma Observe_holds:
  "cap_holds r old cur c \<Longrightarrow> cap_holds r old (or_else (states_usage r dec body) cur) (cap_Observe dec body c)"
  by (auto simp: cap_holds_def cap_Observe_def states_usage_def cap_extract_def split: option.splits)

lemma Seal_holds:
  "cap_holds r old cur c \<Longrightarrow> cap_holds r (old @ (case cur of None \<Rightarrow> [] | Some t \<Rightarrow> [t])) None (Seal c)"
  by (auto simp: cap_holds_def Seal_def Let_def foldTokens_aggregate split: option.splits)

lemma payloads_hold:
  "cap_holds r old cur c \<Longrightarrow>
     cap_holds r old (or_else (last_some (map (states_usage r dec) ps)) cur) (fold (cap_Observe dec) ps c)"
proof (induction ps arbitrary: c cur)
  case (Cons p ps)
  from Cons.IH[OF Observe_holds[OF Cons.prems, of dec p]] show ?case by simp
qed simp

lemma observe_call_holds:
  assumes "cap_holds r old cur c"
  shows "cap_holds r (old @ (case cur of None \<Rightarrow> [] | Some t \<Rightarrow> [t])) (call_usage r dec ps) (observe_call dec ps c)"
  using payloads_hold[OF Seal_holds[OF assms]] by (simp add: observe_call_def call_usage_def)

lemma request_holds:
  "cap_holds r old cur c \<Longrightarrow> calls \<noteq> [] \<Longrightarrow>
     cap_holds r (old @ (case cur of None \<Rightarrow> [] | Some t \<Rightarrow> [t]) @ concat (map (\<lambda>ps. case call_usage r dec ps of None \<Rightarrow> [] | Some t \<Rightarrow> [t]) (butlast calls)))
       (call_usage r dec (last calls)) (observe_request dec calls c)"
proof (induction calls arbitrary: c old cur)
  case (Cons ps calls)
  note one = observe_call_holds[OF Cons.prems(1), of dec ps]
  show ?case
  proof (cases "calls = []")
    case True
    with one show ?thesis by (simp add: observe_request_def)
  next
    case False
    from Cons.IH[OF one False] False show ?thesis by (simp add: observe_request_def)
  qed
qed simp

lemma cap_holds_Tokens:
  "cap_holds r old cur c \<Longrightarrow>
     cap_Tokens c = (case cur of
                       None \<Rightarrow> if old = [] then None else Some (aggregate old)
                     | Some t \<Rightarrow> if old = [] then Some t else Some (aggregate (old @ [t])))"
  by (auto simp: cap_holds_def cap_Tokens_def foldTokens_aggregate split: option.splits)

definition stated_usage :: "bool \<Rightarrow> decoder \<Rightarrow> string list list \<Rightarrow> Tokens list" where
  "stated_usage responses dec calls = List.map_filter (call_usage responses dec) calls"

lemma NewCapture_holds: "cap_holds (api = ''responses'') [] None (NewCapture api)"
  by (simp add: cap_holds_def NewCapture_def aggregate_Nil)

lemma map_filter_concat: "List.map_filter f xs = concat (map (\<lambda>x. case f x of None \<Rightarrow> [] | Some t \<Rightarrow> [t]) xs)"
  by (induction xs) (auto simp: List.map_filter_simps split: option.splits)

lemma map_filter_butlast:
  "xs \<noteq> [] \<Longrightarrow> List.map_filter f xs =
     concat (map (\<lambda>x. case f x of None \<Rightarrow> [] | Some t \<Rightarrow> [t]) (butlast xs)) @ (case f (last xs) of None \<Rightarrow> [] | Some t \<Rightarrow> [t])"
  by (subst append_butlast_last_id[symmetric], assumption) (simp only: map_filter_concat map_append concat_append, simp)

text \<open>
  The metered usage of a request answered by any sequence of upstream calls. With no call stating
  usage there is none; with the last call alone stating it, its last object unchanged; otherwise
  the prompt is the last one stated, the completion the sum of those stated, and the total is
  restated from the two, or is the last one stated when neither is. Inside one call only the last
  readable object counts.
\<close>

theorem capture_aggregates_calls:
  "cap_Tokens (observe_request dec calls (NewCapture api)) =
     (let ts = stated_usage (api = ''responses'') dec calls in
      if ts = [] then None
      else if length ts = 1 \<and> call_usage (api = ''responses'') dec (last calls) \<noteq> None then Some (hd ts)
      else Some \<lparr>tk_Prompt = last_some (map tk_Prompt ts), tk_Completion = sum_counts (map tk_Completion ts),
                 tk_Total = or_else (addCount (last_some (map tk_Prompt ts)) (sum_counts (map tk_Completion ts)))
                              (last_some (map tk_Total ts))\<rparr>)"
proof (cases "calls = []")
  case True
  then show ?thesis
    by (simp add: observe_request_def stated_usage_def List.map_filter_simps NewCapture_def cap_Tokens_def)
next
  case False
  define r where "r = (api = ''responses'')"
  define old where "old = concat (map (\<lambda>x. case call_usage r dec x of None \<Rightarrow> [] | Some t \<Rightarrow> [t]) (butlast calls))"
  have h: "cap_Tokens (observe_request dec calls (NewCapture api)) =
      (case call_usage r dec (last calls) of
         None \<Rightarrow> if old = [] then None else Some (aggregate old)
       | Some t \<Rightarrow> if old = [] then Some t else Some (aggregate (old @ [t])))"
    using cap_holds_Tokens[OF request_holds[OF NewCapture_holds False, of api dec]]
    unfolding r_def old_def append_Nil option.case .
  have ts: "stated_usage r dec calls = old @ (case call_usage r dec (last calls) of None \<Rightarrow> [] | Some t \<Rightarrow> [t])"
    unfolding stated_usage_def old_def by (rule map_filter_butlast[OF False])
  show ?thesis
    unfolding h r_def[symmetric] ts by (cases "call_usage r dec (last calls)"; cases old) (simp_all add: aggregate_def Let_def)
qed

text \<open>A count of exactly \<open>2\<^sup>6\<^sup>3\<close> passes the range test of the float branch and converts to the smallest integer.\<close>

lemma tokenCount_wraps: "tokenCount (Some (JInt (2 ^ 63))) = Some (- (2 ^ 63))"
proof -
  have bits: "bit_length (2 ^ n) = Suc n" for n :: nat
    by (induction n) (subst bit_length.simps, simp)+
  have e: "f64_exponent (2 ^ 63) = 11"
    using bits[of 63] bits[of 0] by (simp add: f64_exponent_def quotient_of_int[of "2 ^ 63", simplified])
  have "f64_round (2 ^ 63) = F64 (2 ^ 63)"
    by (simp add: f64_round_def f64_round_val_def e[simplified] round_half_even_def Let_def)
  then show ?thesis
    by (simp add: tokenCount_def in_int64_def int64_min_def int64_max_def float_count_def rat_trunc_def)
qed

end
