(* ===== verification/Usage_Pipeline.thy ===== *)
theory Usage_Pipeline
  imports Prelude "HOL-Library.Sublist"
begin

text \<open>
  The metering pipeline (\<open>internal/usage/pipeline.go\<close>): request handlers hand events to \<open>Record\<close>,
  one writer goroutine batches them into the repository, and \<open>Close\<close> drains at shutdown. The
  goroutines interleave at the critical sections of \<open>p.mu\<close> and at the channel operations: a run is
  a sequence of actions, each one of these sections, with the repository's answers and the
  clock's as the actions' arguments. The lemmas show that no event is lost uncounted, stored
  twice or reordered, and that a closed pipeline drains in boundedly many writer steps.
\<close>

section \<open>State\<close>

record Stats =
  st_Queued :: int
  st_Inserted :: int
  st_Dropped :: int
  st_InsertFailures :: int
  st_Retries :: int
  st_Flushes :: int
  st_LastFlush :: "time option"
  st_LastFlushDurationMS :: int

text \<open>The structured log events of the pipeline, with their fields.\<close>

datatype MeterLog =
    usage_flush_failed string int int int int int \<comment> \<open>error\_class, dropped, queue\_depth, insert\_failures, retries, duration\_ms\<close>
  | usage_flush_completed int int int \<comment> \<open>events, duration\_ms, queue\_depth\<close>
  | usage_events_dropped int int int \<comment> \<open>dropped, dropped\_total, queue\_depth\<close>

text \<open>
  Where the writer goroutine stands: at the select of \<open>writeLoop\<close>, at the first critical section of
  \<open>flush\<close>, at the head of its loop in attempt \<open>n\<close>, after the loop with its last error, in
  \<open>reportPendingDrops\<close>, or gone with \<open>done\<close> closed. The flag marks the last flush, of a closed queue.
\<close>

datatype WriterPhase =
    Selecting
  | FlushBegin bool
  | Attempting int bool
  | Settling "string option" bool
  | Reporting bool
  | WriterDone

text \<open>Where the caller of \<open>Close\<close> stands: before it, in its first wait, in the grace, or returned.\<close>

datatype CloserPhase = NotClosing | AwaitDrain | AwaitGrace | CloseReturned

text \<open>\<open>pl_calls\<close> is what the repository saw: each \<open>InsertEvents\<close> batch and whether the call succeeded.\<close>

record 'e Pipeline =
  pl_queueCap :: nat
  pl_batchSize :: nat
  pl_maxRetries :: int
  pl_events :: "'e list"
  pl_accepting :: bool
  pl_stats :: Stats
  pl_droppedSinceReport :: int
  pl_batch :: "'e list"
  pl_phase :: WriterPhase
  pl_closer :: CloserPhase
  pl_calls :: "('e list \<times> bool) list"
  pl_log :: "MeterLog list"

definition newPipeline :: "nat \<Rightarrow> nat \<Rightarrow> int \<Rightarrow> 'e Pipeline" where
  "newPipeline queueCap batchSize maxRetries =
     \<lparr>pl_queueCap = queueCap, pl_batchSize = batchSize, pl_maxRetries = maxRetries, pl_events = [], pl_accepting = True,
      pl_stats = \<lparr>st_Queued = 0, st_Inserted = 0, st_Dropped = 0, st_InsertFailures = 0, st_Retries = 0, st_Flushes = 0,
        st_LastFlush = None, st_LastFlushDurationMS = 0\<rparr>,
      pl_droppedSinceReport = 0, pl_batch = [], pl_phase = Selecting, pl_closer = NotClosing, pl_calls = [], pl_log = []\<rparr>"

definition NewPipeline :: "'e Pipeline" where
  "NewPipeline = newPipeline 8192 256 3"

section \<open>Intake and shutdown\<close>

definition count_drop :: "'e Pipeline \<Rightarrow> 'e Pipeline" where
  "count_drop p = p\<lparr>pl_stats := (pl_stats p)\<lparr>st_Dropped := st_Dropped (pl_stats p) + 1\<rparr>,
                    pl_droppedSinceReport := pl_droppedSinceReport p + 1\<rparr>"

definition Record :: "'e \<Rightarrow> 'e Pipeline \<Rightarrow> 'e Pipeline" where
  "Record ev p =
     (if \<not> pl_accepting p then count_drop p
      else if length (pl_events p) < pl_queueCap p
      then p\<lparr>pl_events := pl_events p @ [ev], pl_stats := (pl_stats p)\<lparr>st_Queued := st_Queued (pl_stats p) + 1\<rparr>\<rparr>
      else count_drop p)"

text \<open>The body of \<open>closeOnce\<close>; every later call returns once the first has.\<close>

definition Close_intake :: "'e Pipeline \<Rightarrow> 'e Pipeline" where
  "Close_intake p = (if pl_closer p = NotClosing then p\<lparr>pl_accepting := False, pl_closer := AwaitDrain\<rparr> else p)"

datatype CloserSignal = DrainSeen | CtxExpired | GraceExpired

definition Close_wait :: "CloserSignal \<Rightarrow> 'e Pipeline \<Rightarrow> 'e Pipeline option" where
  "Close_wait sig p =
     (case (pl_closer p, sig) of
        (AwaitDrain, DrainSeen) \<Rightarrow> if pl_phase p = WriterDone then Some (p\<lparr>pl_closer := CloseReturned\<rparr>) else None
      | (AwaitDrain, CtxExpired) \<Rightarrow> Some (p\<lparr>pl_closer := AwaitGrace\<rparr>)
      | (AwaitGrace, DrainSeen) \<Rightarrow> if pl_phase p = WriterDone then Some (p\<lparr>pl_closer := CloseReturned\<rparr>) else None
      | (AwaitGrace, GraceExpired) \<Rightarrow> Some (p\<lparr>pl_closer := CloseReturned\<rparr>)
      | _ \<Rightarrow> None)"

section \<open>The writer\<close>

text \<open>The closure \<open>flush\<close> of \<open>writeLoop\<close>: an empty batch only reports.\<close>

definition start_flush :: "bool \<Rightarrow> 'e Pipeline \<Rightarrow> 'e Pipeline" where
  "start_flush final p = p\<lparr>pl_phase := (if pl_batch p = [] then Reporting final else FlushBegin final)\<rparr>"

definition receive :: "'e Pipeline \<Rightarrow> 'e Pipeline option" where
  "receive p =
     (case pl_events p of
        [] \<Rightarrow> if pl_accepting p then None else Some (start_flush True p)
      | ev # evs \<Rightarrow>
          let p' = p\<lparr>pl_events := evs, pl_batch := pl_batch p @ [ev]\<rparr>
          in Some (if length (pl_batch p') \<ge> pl_batchSize p' then start_flush False p' else p'))"

definition loop_head :: "int \<Rightarrow> string option \<Rightarrow> bool \<Rightarrow> 'e Pipeline \<Rightarrow> 'e Pipeline" where
  "loop_head attempt err final p =
     p\<lparr>pl_phase := (if attempt \<le> pl_maxRetries p then Attempting attempt final else Settling err final)\<rparr>"

definition flush_begin :: "bool \<Rightarrow> 'e Pipeline \<Rightarrow> 'e Pipeline" where
  "flush_begin final p =
     loop_head 0 None final
       (p\<lparr>pl_stats := (pl_stats p)\<lparr>st_Queued := st_Queued (pl_stats p) - int (length (pl_batch p))\<rparr>\<rparr>)"

text \<open>
  One turn of the loop. The flush's context expired before it, or the repository answers:
  \<open>None\<close> for success, otherwise the class of its error.
\<close>

datatype InsertAnswer = FlushExpired string | Inserts "string option"

definition flush_attempt :: "int \<Rightarrow> bool \<Rightarrow> InsertAnswer \<Rightarrow> 'e Pipeline \<Rightarrow> 'e Pipeline" where
  "flush_attempt attempt final ans p =
     (case ans of
        FlushExpired cls \<Rightarrow> p\<lparr>pl_phase := Settling (Some cls) final\<rparr>
      | Inserts None \<Rightarrow> p\<lparr>pl_calls := pl_calls p @ [(pl_batch p, True)], pl_phase := Settling None final\<rparr>
      | Inserts (Some cls) \<Rightarrow>
          let s = pl_stats p;
              s' = s\<lparr>st_InsertFailures := st_InsertFailures s + 1,
                     st_Retries := st_Retries s + (if attempt < pl_maxRetries p then 1 else 0)\<rparr>
          in loop_head (attempt + 1) (Some cls) final
               (p\<lparr>pl_calls := pl_calls p @ [(pl_batch p, False)], pl_stats := s'\<rparr>))"

text \<open>
  The accounting after the loop. The batch is the writer's own variable, so it is emptied here,
  with the outcome counted, although the code clears it after the report.
\<close>

definition flush_settle :: "string option \<Rightarrow> bool \<Rightarrow> time \<Rightarrow> int \<Rightarrow> 'e Pipeline \<Rightarrow> 'e Pipeline" where
  "flush_settle err final now elapsed p =
     (let s = pl_stats p; n = int (length (pl_batch p)) in
      case err of
        Some cls \<Rightarrow>
          p\<lparr>pl_stats := s\<lparr>st_Dropped := st_Dropped s + n\<rparr>,
            pl_log := pl_log p @ [usage_flush_failed cls n (st_Queued s) (st_InsertFailures s) (st_Retries s) elapsed],
            pl_batch := [], pl_phase := Reporting final\<rparr>
      | None \<Rightarrow>
          p\<lparr>pl_stats := s\<lparr>st_Inserted := st_Inserted s + n, st_Flushes := st_Flushes s + 1, st_LastFlush := Some now,
                         st_LastFlushDurationMS := elapsed\<rparr>,
            pl_log := pl_log p @ [usage_flush_completed n elapsed (st_Queued s)],
            pl_batch := [], pl_phase := Reporting final\<rparr>)"

definition reportPendingDrops :: "bool \<Rightarrow> 'e Pipeline \<Rightarrow> 'e Pipeline" where
  "reportPendingDrops final p =
     (let d = pl_droppedSinceReport p; s = pl_stats p in
      p\<lparr>pl_droppedSinceReport := 0,
        pl_log := (if d > 0 then pl_log p @ [usage_events_dropped d (st_Dropped s) (st_Queued s)] else pl_log p),
        pl_phase := (if final then WriterDone else Selecting)\<rparr>)"

section \<open>Runs\<close>

datatype 'e MeterAct =
    ARecord 'e | AClose | ACloser CloserSignal | AReceive | ATick | ABegin | AAnswer InsertAnswer | ASettle time int | AReport

fun meter_step :: "'e MeterAct \<Rightarrow> 'e Pipeline \<Rightarrow> 'e Pipeline option" where
  "meter_step (ARecord ev) p = Some (Record ev p)"
| "meter_step AClose p = Some (Close_intake p)"
| "meter_step (ACloser sig) p = Close_wait sig p"
| "meter_step AReceive p = (if pl_phase p = Selecting then receive p else None)"
| "meter_step ATick p = (if pl_phase p = Selecting then Some (start_flush False p) else None)"
| "meter_step ABegin p = (case pl_phase p of FlushBegin f \<Rightarrow> Some (flush_begin f p) | _ \<Rightarrow> None)"
| "meter_step (AAnswer ans) p = (case pl_phase p of Attempting n f \<Rightarrow> Some (flush_attempt n f ans p) | _ \<Rightarrow> None)"
| "meter_step (ASettle now ms) p = (case pl_phase p of Settling err f \<Rightarrow> Some (flush_settle err f now ms p) | _ \<Rightarrow> None)"
| "meter_step AReport p = (case pl_phase p of Reporting f \<Rightarrow> Some (reportPendingDrops f p) | _ \<Rightarrow> None)"

fun meter_run :: "'e MeterAct list \<Rightarrow> 'e Pipeline \<Rightarrow> 'e Pipeline option" where
  "meter_run [] p = Some p"
| "meter_run (a # as) p = (case meter_step a p of None \<Rightarrow> None | Some p' \<Rightarrow> meter_run as p')"

fun recorded :: "'e MeterAct list \<Rightarrow> 'e list" where
  "recorded [] = []"
| "recorded (ARecord ev # as) = ev # recorded as"
| "recorded (_ # as) = recorded as"

text \<open>What the repository holds, the events the counters call queued, and those a flush has in hand.\<close>

definition stored :: "'e Pipeline \<Rightarrow> 'e list" where
  "stored p = concat (map fst (filter snd (pl_calls p)))"

fun in_hand :: "WriterPhase \<Rightarrow> bool" where
  "in_hand (Attempting _ _) = True"
| "in_hand (Settling _ _) = True"
| "in_hand _ = False"

text \<open>The batch is in the repository already when the last call of the loop has just succeeded.\<close>

fun landed :: "WriterPhase \<Rightarrow> bool" where
  "landed (Settling None _) = True"
| "landed _ = False"

definition unstored :: "'e Pipeline \<Rightarrow> 'e list" where
  "unstored p = (if landed (pl_phase p) then [] else pl_batch p)"

section \<open>Accounting\<close>

fun log_drops :: "MeterLog \<Rightarrow> int" where
  "log_drops (usage_flush_failed _ n _ _ _ _) = n"
| "log_drops (usage_events_dropped n _ _) = n"
| "log_drops (usage_flush_completed _ _ _) = 0"

fun final_phase :: "WriterPhase \<Rightarrow> bool" where
  "final_phase (FlushBegin f) = f"
| "final_phase (Attempting _ f) = f"
| "final_phase (Settling _ f) = f"
| "final_phase (Reporting f) = f"
| "final_phase WriterDone = True"
| "final_phase Selecting = False"

fun attempt_ok :: "int \<Rightarrow> WriterPhase \<Rightarrow> bool" where
  "attempt_ok m (Attempting n _) = (0 \<le> n \<and> n \<le> m)"
| "attempt_ok m _ = True"

fun batch_gone :: "WriterPhase \<Rightarrow> bool" where
  "batch_gone (Reporting _) = True"
| "batch_gone WriterDone = True"
| "batch_gone _ = False"

definition meter_count :: "'e list \<Rightarrow> 'e Pipeline \<Rightarrow> bool" where
  "meter_count r p \<longleftrightarrow>
     st_Queued (pl_stats p) = int (length (pl_events p)) + (if in_hand (pl_phase p) then 0 else int (length (pl_batch p)))
   \<and> int (length r) = st_Inserted (pl_stats p) + st_Dropped (pl_stats p) + int (length (pl_events p)) + int (length (pl_batch p))
   \<and> st_Inserted (pl_stats p) + int (length (pl_batch p)) = int (length (stored p)) + int (length (unstored p))
   \<and> (\<Sum>l\<leftarrow>pl_log p. log_drops l) + pl_droppedSinceReport p = st_Dropped (pl_stats p)"

definition meter_shape :: "'e Pipeline \<Rightarrow> bool" where
  "meter_shape p \<longleftrightarrow>
     0 \<le> pl_maxRetries p
   \<and> attempt_ok (pl_maxRetries p) (pl_phase p)
   \<and> pl_accepting p = (pl_closer p = NotClosing)
   \<and> (final_phase (pl_phase p) \<longrightarrow> \<not> pl_accepting p \<and> pl_events p = [])
   \<and> (batch_gone (pl_phase p) \<longrightarrow> pl_batch p = [])
   \<and> length (pl_events p) \<le> pl_queueCap p
   \<and> length (pl_batch p) \<le> max 1 (pl_batchSize p)
   \<and> (pl_phase p = Selecting \<longrightarrow> length (pl_batch p) < max 1 (pl_batchSize p))
   \<and> 0 \<le> pl_droppedSinceReport p"

definition meter_order :: "'e list \<Rightarrow> 'e Pipeline \<Rightarrow> bool" where
  "meter_order r p \<longleftrightarrow> subseq (stored p @ unstored p @ pl_events p) r"

lemma Close_wait_Some:
  "Close_wait sig p = Some p' \<Longrightarrow> \<exists>c. c \<noteq> NotClosing \<and> pl_closer p \<noteq> NotClosing \<and> p' = p\<lparr>pl_closer := c\<rparr>"
  by (cases "pl_closer p"; cases sig) (auto simp: Close_wait_def split: if_splits)

lemma Record_cases:
  obtains (dropped) "Record ev p = count_drop p"
    | (kept) "pl_accepting p" "length (pl_events p) < pl_queueCap p"
      "Record ev p = p\<lparr>pl_events := pl_events p @ [ev], pl_stats := (pl_stats p)\<lparr>st_Queued := st_Queued (pl_stats p) + 1\<rparr>\<rparr>"
  by (cases "pl_accepting p \<and> length (pl_events p) < pl_queueCap p") (auto simp: Record_def)

lemmas meter_ops = count_drop_def Close_intake_def start_flush_def receive_def loop_head_def flush_begin_def
  flush_attempt_def flush_settle_def reportPendingDrops_def Let_def

lemma start_flush_simps [simp]:
  "\<not> in_hand (pl_phase (start_flush f p))" "\<not> landed (pl_phase (start_flush f p))"
  "pl_events (start_flush f p) = pl_events p" "pl_batch (start_flush f p) = pl_batch p"
  "pl_stats (start_flush f p) = pl_stats p" "pl_calls (start_flush f p) = pl_calls p" "pl_log (start_flush f p) = pl_log p"
  "pl_droppedSinceReport (start_flush f p) = pl_droppedSinceReport p"
  by (simp_all add: start_flush_def)

lemma meter_step_shape:
  assumes "meter_shape p" "meter_step a p = Some p'"
  shows "meter_shape p'"
proof (cases a)
  case (ARecord ev)
  then have p': "p' = Record ev p" using assms(2) by simp
  show ?thesis
  proof (cases rule: Record_cases[of ev p])
    case dropped
    from assms(1) show ?thesis unfolding p' dropped by (simp add: meter_shape_def count_drop_def) blast
  next
    case kept
    from assms(1) kept(1,2) show ?thesis unfolding p' kept(3) by (simp add: meter_shape_def)
  qed
next
  case (ACloser sig)
  with assms show ?thesis by (auto simp: meter_shape_def dest!: Close_wait_Some)
next
  case AReceive
  with assms show ?thesis by (auto simp: meter_shape_def meter_ops split: if_splits list.splits)
next
  case (AAnswer ans)
  with assms(2) show ?thesis
  proof (cases "pl_phase p")
    case (Attempting n f)
    show ?thesis
    proof (cases "n + 1 \<le> pl_maxRetries p")
      case True
      with assms AAnswer Attempting show ?thesis
        by (auto simp: meter_shape_def meter_ops split: InsertAnswer.splits option.splits)
    next
      case False
      with assms AAnswer Attempting show ?thesis
        by (auto simp: meter_shape_def meter_ops split: InsertAnswer.splits option.splits)
    qed
  qed auto
next
  case (ASettle now ms)
  with assms show ?thesis by (auto simp: meter_shape_def meter_ops split: WriterPhase.splits option.splits)
next
  case AReport
  with assms show ?thesis by (auto simp: meter_shape_def meter_ops split: WriterPhase.splits)
qed (use assms in \<open>auto simp: meter_shape_def meter_ops split: if_splits WriterPhase.splits\<close>)

lemma meter_step_count:
  assumes "meter_count r p" "meter_shape p" "meter_step a p = Some p'"
  shows "meter_count (r @ recorded [a]) p'"
proof (cases a)
  case (ARecord ev)
  with assms show ?thesis by (cases rule: Record_cases[of ev p]) (auto simp: meter_count_def count_drop_def stored_def unstored_def)
next
  case (ACloser sig)
  with assms show ?thesis by (auto simp: meter_count_def stored_def unstored_def dest!: Close_wait_Some)
next
  case AReceive
  with assms(3) have "pl_phase p = Selecting" "receive p = Some p'" by (auto split: if_splits)
  with assms(1) AReceive show ?thesis
    by (cases "pl_events p") (auto simp: receive_def Let_def meter_count_def stored_def unstored_def split: if_splits)
next
  case (AAnswer ans)
  with assms(3) obtain n f where ph: "pl_phase p = Attempting n f" and p': "p' = flush_attempt n f ans p"
    by (auto split: WriterPhase.splits)
  have "in_hand (pl_phase p') \<and> pl_batch p' = pl_batch p \<and> pl_events p' = pl_events p \<and> pl_log p' = pl_log p
      \<and> pl_droppedSinceReport p' = pl_droppedSinceReport p \<and> st_Queued (pl_stats p') = st_Queued (pl_stats p)
      \<and> st_Inserted (pl_stats p') = st_Inserted (pl_stats p) \<and> st_Dropped (pl_stats p') = st_Dropped (pl_stats p)
      \<and> length (stored p') + length (unstored p') = length (stored p) + length (pl_batch p)"
    unfolding p' flush_attempt_def loop_head_def Let_def stored_def unstored_def
    by (cases ans) (simp_all split: option.splits)
  with assms(1) ph AAnswer show ?thesis by (simp add: meter_count_def unstored_def)
next
  case (ASettle now ms)
  with assms(3) obtain err f where ph: "pl_phase p = Settling err f" and p': "p' = flush_settle err f now ms p"
    by (auto split: WriterPhase.splits)
  from assms(1) ph show ?thesis unfolding p' ASettle
    by (cases err) (simp_all add: meter_count_def flush_settle_def Let_def stored_def unstored_def)
next
  case AReport
  with assms(3) obtain f where ph: "pl_phase p = Reporting f" and p': "p' = reportPendingDrops f p"
    by (auto split: WriterPhase.splits)
  from assms(1,2) ph show ?thesis unfolding p' AReport
    by (simp add: meter_shape_def meter_count_def reportPendingDrops_def Let_def stored_def unstored_def)
next
  case ABegin
  with assms have "0 \<le> pl_maxRetries p" by (simp add: meter_shape_def)
  with ABegin assms(1,3) show ?thesis
    by (auto simp: meter_count_def meter_ops stored_def unstored_def split: WriterPhase.splits)
qed (use assms in \<open>auto simp: meter_count_def meter_ops stored_def unstored_def split: if_splits WriterPhase.splits\<close>)

lemma subseq_record: "subseq xs r \<Longrightarrow> subseq xs (r @ [e]) \<and> subseq (xs @ [e]) (r @ [e])"
  by (metis append.right_neutral list_emb_Nil list_emb_append_mono subseq_order.refl)

lemma subseq_drop_middle: "subseq (xs @ ys @ zs) r \<Longrightarrow> subseq (xs @ zs) r"
  by (metis (full_types) list_emb_Nil list_emb_append_mono subseq_order.refl subseq_order.trans append_Nil)

lemma meter_step_order:
  assumes "meter_order r p" "meter_shape p" "meter_step a p = Some p'"
  shows "meter_order (r @ recorded [a]) p'"
proof (cases a)
  case (ARecord ev)
  with assms subseq_record[of "stored p @ unstored p @ pl_events p" r ev] show ?thesis
    by (cases rule: Record_cases[of ev p]) (auto simp: meter_order_def count_drop_def stored_def unstored_def)
next
  case (ACloser sig)
  with assms show ?thesis by (auto simp: meter_order_def stored_def unstored_def dest!: Close_wait_Some)
next
  case AReceive
  with assms show ?thesis
    by (auto simp: meter_order_def meter_ops stored_def unstored_def split: if_splits list.splits)
next
  case (AAnswer ans)
  with assms show ?thesis
    by (auto simp: meter_order_def meter_ops stored_def unstored_def
             split: if_splits WriterPhase.splits InsertAnswer.splits option.splits)
next
  case (ASettle now ms)
  with assms show ?thesis
    by (auto simp: meter_order_def meter_ops stored_def unstored_def dest: subseq_drop_middle
             split: WriterPhase.splits option.splits)
next
  case ABegin
  with assms have "0 \<le> pl_maxRetries p" by (simp add: meter_shape_def)
  with ABegin assms(1,3) show ?thesis
    by (auto simp: meter_order_def meter_ops stored_def unstored_def split: WriterPhase.splits)
qed (use assms in \<open>auto simp: meter_order_def meter_ops stored_def unstored_def split: if_splits WriterPhase.splits\<close>)

definition meter_inv :: "'e list \<Rightarrow> 'e Pipeline \<Rightarrow> bool" where
  "meter_inv r p \<longleftrightarrow> meter_shape p \<and> meter_count r p \<and> meter_order r p"

lemma recorded_Cons: "recorded (a # as) = recorded [a] @ recorded as"
  by (cases a) simp_all

lemma meter_run_inv: "meter_inv r p \<Longrightarrow> meter_run as p = Some p' \<Longrightarrow> meter_inv (r @ recorded as) p'"
proof (induction as arbitrary: r p)
  case Nil
  then show ?case by simp
next
  case (Cons a as)
  then obtain p1 where p1: "meter_step a p = Some p1" "meter_run as p1 = Some p'" by (auto split: option.splits)
  then have "meter_inv (r @ recorded [a]) p1"
    using Cons.prems(1) meter_step_shape[of p a] meter_step_count[of r p a] meter_step_order[of r p a] by (simp add: meter_inv_def)
  from Cons.IH[OF this p1(2)] show ?case using recorded_Cons[of a as] by simp
qed

lemma newPipeline_inv: "0 \<le> m \<Longrightarrow> meter_inv [] (newPipeline q b m)"
  by (simp add: meter_inv_def meter_shape_def meter_count_def meter_order_def newPipeline_def stored_def unstored_def)

lemma NewPipeline_reaches_inv: "meter_run as NewPipeline = Some p \<Longrightarrow> meter_inv (recorded as) p"
  using meter_run_inv[OF newPipeline_inv[of 3 8192 256], of as p] by (simp add: NewPipeline_def)

lemma meter_step_caps:
  assumes "meter_step a p = Some p'"
  shows "pl_queueCap p' = pl_queueCap p \<and> pl_batchSize p' = pl_batchSize p \<and> pl_maxRetries p' = pl_maxRetries p"
  using assms
  by (cases a) (auto simp: meter_ops Record_def split: if_splits list.splits WriterPhase.splits InsertAnswer.splits option.splits
                  dest!: Close_wait_Some)

lemma meter_run_caps:
  "meter_run as p = Some p' \<Longrightarrow>
     pl_queueCap p' = pl_queueCap p \<and> pl_batchSize p' = pl_batchSize p \<and> pl_maxRetries p' = pl_maxRetries p"
  by (induction as arbitrary: p) (auto split: option.splits dest!: meter_step_caps)

lemma meter_conserves_parts:
  assumes "meter_run as NewPipeline = Some p"
  shows "int (length (recorded as)) =
           st_Inserted (pl_stats p) + st_Dropped (pl_stats p) + st_Queued (pl_stats p)
           + (if in_hand (pl_phase p) then int (length (pl_batch p)) else 0)"
    and "subseq (stored p @ unstored p @ pl_events p) (recorded as)"
    and "(\<Sum>l\<leftarrow>pl_log p. log_drops l) + pl_droppedSinceReport p = st_Dropped (pl_stats p)"
    and "length (pl_events p) \<le> 8192" and "length (pl_batch p) \<le> 256"
proof -
  have caps: "pl_queueCap p = 8192 \<and> pl_batchSize p = 256"
    using meter_run_caps[OF assms] by (simp add: NewPipeline_def newPipeline_def)
  note inv = NewPipeline_reaches_inv[OF assms]
  show "int (length (recorded as)) =
           st_Inserted (pl_stats p) + st_Dropped (pl_stats p) + st_Queued (pl_stats p)
           + (if in_hand (pl_phase p) then int (length (pl_batch p)) else 0)"
    using inv by (auto simp: meter_inv_def meter_count_def)
  show "subseq (stored p @ unstored p @ pl_events p) (recorded as)" using inv by (simp add: meter_inv_def meter_order_def)
  show "(\<Sum>l\<leftarrow>pl_log p. log_drops l) + pl_droppedSinceReport p = st_Dropped (pl_stats p)"
    using inv by (simp add: meter_inv_def meter_count_def)
  show "length (pl_events p) \<le> 8192" "length (pl_batch p) \<le> 256"
    using inv caps by (auto simp: meter_inv_def meter_shape_def)
qed

text \<open>
  C38: On every run of the metering pipeline, whatever the interleaving of handlers, writer and
  shutdown and whatever the repository answers: each event handed to \<open>Record\<close> is counted as inserted,
  as dropped, as queued, or is in the writer's current flush; what the repository holds, followed
  by what is still waiting, is a subsequence of the recorded events, so that none is stored twice
  or out of order; every drop is in a log line or in the pending drop report; and the queue and
  the batch stay within their caps.
\<close>

theorem meter_conserves:
  assumes "meter_run as NewPipeline = Some p"
  shows "(int (length (recorded as)) =
           st_Inserted (pl_stats p) + st_Dropped (pl_stats p) + st_Queued (pl_stats p)
           + (if in_hand (pl_phase p) then int (length (pl_batch p)) else 0))
    \<and> (subseq (stored p @ unstored p @ pl_events p) (recorded as))
    \<and> ((\<Sum>l\<leftarrow>pl_log p. log_drops l) + pl_droppedSinceReport p = st_Dropped (pl_stats p))
    \<and> (length (pl_events p) \<le> 8192)
    \<and> (length (pl_batch p) \<le> 256)"
  using meter_conserves_parts [OF assms] by blast


theorem meter_conserves_witness:
  "\<exists>p. meter_run [ARecord (1::nat), AReceive, ATick, ABegin, ARecord 2, AAnswer (Inserts (Some ''timeout'')), AAnswer (Inserts None),
        ASettle 0 7, AReport] NewPipeline = Some p \<and> stored p = [1]
     \<and> int 2 = st_Inserted (pl_stats p) + st_Dropped (pl_stats p) + st_Queued (pl_stats p)"
proof -
  let ?as = "[ARecord (1::nat), AReceive, ATick, ABegin, ARecord 2, AAnswer (Inserts (Some ''timeout'')), AAnswer (Inserts None),
        ASettle 0 7, AReport]"
  obtain p where p: "meter_run ?as NewPipeline = Some p" "stored p = [1]" "pl_phase p = Selecting"
    by (simp add: NewPipeline_def newPipeline_def Record_def meter_ops stored_def)
  show ?thesis using p meter_conserves [OF p(1)] by (intro exI[of _ p]) simp
qed

section \<open>Draining\<close>

text \<open>
  How many writer steps a closed pipeline still has before it, ticks apart: a flush is its first
  section, at most one turn of the loop per allowed attempt, the accounting and the report.
\<close>

definition attempts :: "'e Pipeline \<Rightarrow> nat" where
  "attempts p = nat (pl_maxRetries p + 1)"

fun phase_cost :: "nat \<Rightarrow> bool \<Rightarrow> WriterPhase \<Rightarrow> nat" where
  "phase_cost k b Selecting = (if b then 2 else k + 4)"
| "phase_cost k b (FlushBegin f) = k + 3 + (if f then 0 else 2)"
| "phase_cost k b (Attempting n f) = nat (int k - n) + 2 + (if f then 0 else 2)"
| "phase_cost k b (Settling _ f) = 2 + (if f then 0 else 2)"
| "phase_cost k b (Reporting f) = 1 + (if f then 0 else 2)"
| "phase_cost k b WriterDone = 0"

definition drain_cost :: "'e Pipeline \<Rightarrow> nat" where
  "drain_cost p = (attempts p + 4) * length (pl_events p) + phase_cost (attempts p) (pl_batch p = []) (pl_phase p)"

fun writer_steps :: "'e MeterAct list \<Rightarrow> nat" where
  "writer_steps [] = 0"
| "writer_steps (AReceive # as) = Suc (writer_steps as)"
| "writer_steps (ABegin # as) = Suc (writer_steps as)"
| "writer_steps (AAnswer _ # as) = Suc (writer_steps as)"
| "writer_steps (ASettle _ _ # as) = Suc (writer_steps as)"
| "writer_steps (AReport # as) = Suc (writer_steps as)"
| "writer_steps (_ # as) = writer_steps as"

fun ticks :: "'e MeterAct list \<Rightarrow> nat" where
  "ticks [] = 0"
| "ticks (ATick # as) = Suc (ticks as)"
| "ticks (_ # as) = ticks as"

lemma closed_stays: "meter_step a p = Some p' \<Longrightarrow> \<not> pl_accepting p \<Longrightarrow> \<not> pl_accepting p'"
  by (cases a) (auto simp: meter_ops Record_def split: if_splits list.splits WriterPhase.splits InsertAnswer.splits option.splits
                  dest!: Close_wait_Some)

lemma drain_step:
  assumes "meter_shape p" "\<not> pl_accepting p" "meter_step a p = Some p'"
  shows "writer_steps [a] + drain_cost p' \<le> drain_cost p + ticks [a]"
proof (cases a)
  case (ACloser sig)
  with assms show ?thesis by (auto simp: drain_cost_def attempts_def dest!: Close_wait_Some)
next
  case (ARecord ev)
  with assms show ?thesis by (auto simp: Record_def count_drop_def drain_cost_def attempts_def)
next
  case AReceive
  with assms show ?thesis
    by (auto simp: drain_cost_def attempts_def meter_ops algebra_simps split: if_splits list.splits)
next
  case (AAnswer ans)
  with assms show ?thesis
    by (auto simp: meter_shape_def drain_cost_def attempts_def meter_ops split: WriterPhase.splits InsertAnswer.splits option.splits)
next
  case (ASettle now ms)
  with assms show ?thesis
    by (auto simp: drain_cost_def attempts_def meter_ops split: WriterPhase.splits option.splits)
next
  case AReport
  with assms show ?thesis by (auto simp: meter_shape_def drain_cost_def attempts_def meter_ops split: WriterPhase.splits)
qed (use assms in \<open>auto simp: meter_shape_def drain_cost_def attempts_def meter_ops split: if_splits WriterPhase.splits\<close>)

lemma writer_steps_Cons: "writer_steps (a # as) = writer_steps [a] + writer_steps as" "ticks (a # as) = ticks [a] + ticks as"
  by (cases a; simp)+

lemma drain_run:
  "meter_inv r p \<Longrightarrow> \<not> pl_accepting p \<Longrightarrow> meter_run as p = Some p' \<Longrightarrow>
     writer_steps as + drain_cost p' \<le> drain_cost p + ticks as"
proof (induction as arbitrary: r p)
  case (Cons a as)
  then obtain p1 where p1: "meter_step a p = Some p1" "meter_run as p1 = Some p'" by (auto split: option.splits)
  have "meter_run [a] p = Some p1" using p1 by simp
  with Cons.prems have inv: "meter_inv (r @ recorded [a]) p1" "\<not> pl_accepting p1"
    using meter_run_inv closed_stays[OF p1(1)] by blast+
  have "writer_steps [a] + drain_cost p1 \<le> drain_cost p + ticks [a]"
    using drain_step[OF _ Cons.prems(2) p1(1)] Cons.prems(1) by (simp add: meter_inv_def)
  then show ?case using Cons.IH[OF inv p1(2)] writer_steps_Cons[of a as] by simp
qed simp

lemma closed_run: "meter_run as p = Some p' \<Longrightarrow> \<not> pl_accepting p \<Longrightarrow> \<not> pl_accepting p'"
  by (induction as arbitrary: p) (auto split: option.splits dest: closed_stays)

lemma recorded_append: "recorded (as @ bs) = recorded as @ recorded bs"
proof (induction as)
  case (Cons a as)
  then show ?case using recorded_Cons[of a as] recorded_Cons[of a "as @ bs"] by simp
qed simp

lemma drain_cost_bound:
  assumes "meter_shape p" "pl_queueCap p = 8192" "pl_maxRetries p = 3"
  shows "drain_cost p \<le> 8 * 8192 + 9"
proof -
  have "phase_cost 4 b (pl_phase p) \<le> 9" for b
    using assms by (cases "pl_phase p") (auto simp: meter_shape_def)
  moreover have "length (pl_events p) \<le> 8192" using assms by (simp add: meter_shape_def)
  ultimately have "8 * length (pl_events p) + phase_cost 4 (pl_batch p = []) (pl_phase p) \<le> 8 * 8192 + 9"
    by (intro add_mono mult_left_mono) auto
  then show ?thesis using assms(3) by (simp add: drain_cost_def attempts_def)
qed

lemma writer_enabled:
  assumes "meter_shape p" "\<not> pl_accepting p" "pl_phase p \<noteq> WriterDone"
  shows "\<exists>a\<in>{AReceive, ABegin, AAnswer ans, ASettle now ms, AReport}. meter_step a p \<noteq> None"
  using assms by (cases "pl_phase p") (auto simp: receive_def Let_def split: list.splits)

lemma closed_pipeline_drains_parts:
  assumes "meter_run as NewPipeline = Some p" "\<not> pl_accepting p" "meter_run bs p = Some q"
  shows "pl_phase q = WriterDone \<or>
           (\<exists>a\<in>{AReceive, ABegin, AAnswer ans, ASettle now ms, AReport}. meter_step a q \<noteq> None)"
    and "writer_steps bs + drain_cost q \<le> drain_cost p + ticks bs"
    and "drain_cost p \<le> 8 * 8192 + 9"
    and "pl_phase q = WriterDone \<Longrightarrow>
           st_Queued (pl_stats q) = 0 \<and>
           int (length (recorded (as @ bs))) = st_Inserted (pl_stats q) + st_Dropped (pl_stats q)"
proof -
  note inv = NewPipeline_reaches_inv[OF assms(1)]
  note invq = meter_run_inv[OF inv assms(3)]
  have rec: "recorded (as @ bs) = recorded as @ recorded bs" by (rule recorded_append)
  show "writer_steps bs + drain_cost q \<le> drain_cost p + ticks bs" by (rule drain_run[OF inv assms(2,3)])
  show "pl_phase q = WriterDone \<or>
           (\<exists>a\<in>{AReceive, ABegin, AAnswer ans, ASettle now ms, AReport}. meter_step a q \<noteq> None)"
    using writer_enabled invq closed_run[OF assms(3,2)] unfolding meter_inv_def by blast
  show "drain_cost p \<le> 8 * 8192 + 9"
    by (rule drain_cost_bound) (use inv meter_run_caps[OF assms(1)] in \<open>auto simp: meter_inv_def NewPipeline_def newPipeline_def\<close>)
  show "pl_phase q = WriterDone \<Longrightarrow>
           st_Queued (pl_stats q) = 0 \<and>
           int (length (recorded (as @ bs))) = st_Inserted (pl_stats q) + st_Dropped (pl_stats q)"
    using invq by (auto simp: meter_inv_def meter_count_def meter_shape_def rec)
qed

text \<open>
  Once \<open>Close\<close> has stopped the intake, the pipeline drains: until the writer is done some step of
  it is enabled whatever the repository and the clock answer; every continuation, concurrent
  records included, takes at most \<open>drain_cost\<close> writer steps, a tick adding at most one; and when the
  writer is done nothing is queued, and each recorded event has been inserted or dropped.
\<close>

theorem closed_pipeline_drains:
  assumes "meter_run as NewPipeline = Some p" "\<not> pl_accepting p" "meter_run bs p = Some q"
  shows "(pl_phase q = WriterDone \<or>
           (\<exists>a\<in>{AReceive, ABegin, AAnswer ans, ASettle now ms, AReport}. meter_step a q \<noteq> None))
    \<and> (writer_steps bs + drain_cost q \<le> drain_cost p + ticks bs)
    \<and> (drain_cost p \<le> 8 * 8192 + 9)
    \<and> (pl_phase q = WriterDone \<longrightarrow>
           st_Queued (pl_stats q) = 0 \<and>
           int (length (recorded (as @ bs))) = st_Inserted (pl_stats q) + st_Dropped (pl_stats q))"
  using closed_pipeline_drains_parts [OF assms] by blast


theorem closed_pipeline_drains_witness:
  "\<exists>p q. meter_run [ARecord (1::nat), AClose] NewPipeline = Some p
     \<and> meter_run [AReceive, ARecord 2, AReceive, ABegin, AAnswer (FlushExpired ''timeout''), ASettle 0 9, AReport] p = Some q
     \<and> st_Queued (pl_stats q) = 0 \<and> int 2 = st_Inserted (pl_stats q) + st_Dropped (pl_stats q) \<and> st_Dropped (pl_stats q) = 2"
proof -
  let ?as = "[ARecord (1::nat), AClose]"
  let ?bs = "[AReceive, ARecord 2, AReceive, ABegin, AAnswer (FlushExpired ''timeout''), ASettle 0 9, AReport]"
  obtain p where p: "meter_run ?as NewPipeline = Some p" "\<not> pl_accepting p" "pl_phase p = Selecting" "pl_events p = [1]"
      "pl_batch p = []" "pl_batchSize p = 256" "pl_maxRetries p = 3" "st_Dropped (pl_stats p) = 0"
    by (simp add: NewPipeline_def newPipeline_def Record_def meter_ops)
  then obtain q where q: "meter_run ?bs p = Some q" "pl_phase q = WriterDone" "st_Dropped (pl_stats q) = 2"
    by (simp add: Record_def meter_ops)
  show ?thesis using p q closed_pipeline_drains [OF p(1,2) q(1)] by auto
qed

text \<open>
  The bound on \<open>Close\<close> itself is not a drain: when its window and its grace expire first it returns
  with events neither inserted nor dropped.
\<close>

lemma Close_returns_with_backlog:
  "\<exists>p. meter_run [ARecord (1::nat), AReceive, ATick, ABegin, ARecord 2, AClose, ACloser CtxExpired, ACloser GraceExpired] NewPipeline
        = Some p \<and> pl_closer p = CloseReturned \<and> st_Inserted (pl_stats p) + st_Dropped (pl_stats p) = 0"
  by (simp add: NewPipeline_def newPipeline_def Record_def Close_wait_def meter_ops)

end
