(* ===== verification/Config_Recovery.thy ===== *)
theory Config_Recovery
  imports Recovery_Merge
begin

text \<open>
  \<open>internal/config/recovery.go\<close>: the YAML surface of the recovery policy. A decoded block (one
  record per \<open>runtime*\<close> struct, a pointer field an \<open>option\<close>, an unstated string the empty one, a
  mapping an association list in whatever order Go iterates it) becomes the partial policy of
  one layer, and a candidate's layers fold in the documented order. \<open>time.ParseDuration\<close> is
  written out, its unsigned 64-bit arithmetic and its \<open>float64\<close> fraction included.

  The theorems: the built layer does not depend on the iteration order of a mapping; a
  provider or candidate block never moves what belongs to the request; every duration the
  program can hold is read back from its nanosecond spelling; a status key is read exactly
  when it is a three-digit status.
\<close>

section \<open>Steps that may fail\<close>

definition and_then :: "'a result \<Rightarrow> ('a \<Rightarrow> 'b result) \<Rightarrow> 'b result" where
  "and_then r f = (case r of Inl e \<Rightarrow> Inl e | Inr x \<Rightarrow> f x)"

definition wrap_err :: "string \<Rightarrow> 'a result \<Rightarrow> 'a result" where
  "wrap_err field r = (case r of Inl e \<Rightarrow> Inl (Wrap field e) | Inr x \<Rightarrow> Inr x)"

text \<open>\<open>if p != nil { v, err := f(p); ...; out = &v }\<close>, and the same for an unstated string.\<close>

definition if_stated :: "('a \<Rightarrow> 'b result) \<Rightarrow> 'a option \<Rightarrow> 'b option result" where
  "if_stated f p = (case p of None \<Rightarrow> Inr None | Some x \<Rightarrow> and_then (f x) (\<lambda>y. Inr (Some y)))"

definition if_text :: "(string \<Rightarrow> 'b result) \<Rightarrow> string \<Rightarrow> 'b option result" where
  "if_text f s = (if s = [] then Inr None else and_then (f s) (\<lambda>y. Inr (Some y)))"

text \<open>\<open>for x in xs { r, err := f(x); if err { return err }; out = append(out, r) }\<close>\<close>

fun collect :: "('x \<Rightarrow> 'y result) \<Rightarrow> 'x list \<Rightarrow> 'y list result" where
  "collect f [] = Inr []"
| "collect f (x # xs) = and_then (f x) (\<lambda>y. and_then (collect f xs) (\<lambda>ys. Inr (y # ys)))"

section \<open>Durations\<close>

text \<open>\<open>leadingInt\<close>: the digits in front, refused once the value leaves the range of \<open>1<<63\<close>.\<close>

fun leadingInt :: "int \<Rightarrow> string \<Rightarrow> (int \<times> string) option" where
  "leadingInt x [] = Some (x, [])"
| "leadingInt x (c # s) =
     (if \<not> is_digit c then Some (x, c # s)
      else if x > 2 ^ 63 div 10 then None
      else let y = x * 10 + int (digit_val c) in if y > 2 ^ 63 then None else leadingInt y s)"

text \<open>\<open>leadingFraction\<close>: the digits behind the point, those that no longer fit read over.\<close>

fun leadingFraction :: "int \<Rightarrow> rat \<Rightarrow> bool \<Rightarrow> string \<Rightarrow> int \<times> rat \<times> string" where
  "leadingFraction x scale overflow [] = (x, scale, [])"
| "leadingFraction x scale overflow (c # s) =
     (if \<not> is_digit c then (x, scale, c # s)
      else if overflow then leadingFraction x scale True s
      else if x > (2 ^ 63 - 1) div 10 then leadingFraction x scale True s
      else let y = x * 10 + int (digit_val c) in
           if y > 2 ^ 63 then leadingFraction x scale True s
           else leadingFraction y (scale * 10) False s)"

text \<open>\<open>unitMap\<close>; the micro sign has two spellings, both two bytes of UTF-8.\<close>

definition unitMap :: "string \<Rightarrow> int option" where
  "unitMap = map_of
     [(''ns'', 1), (''us'', 1000), ([CHR 0xC2, CHR 0xB5, CHR ''s''], 1000),
      ([CHR 0xCE, CHR 0xBC, CHR ''s''], 1000), (''ms'', 1000000), (''s'', 1000000000),
      (''m'', 60000000000), (''h'', 3600000000000)]"

definition unit_char :: "char \<Rightarrow> bool" where
  "unit_char c \<longleftrightarrow> c \<noteq> CHR ''.'' \<and> \<not> is_digit c"

text \<open>\<open>uint64(float64(f) * (float64(unit) / scale))\<close>\<close>

definition fraction_ns :: "int \<Rightarrow> rat \<Rightarrow> int \<Rightarrow> int" where
  "fraction_ns f scale u =
     (case f64_mul (f64_of_int f) (f64_round (of_int u / scale)) of
        F64 x \<Rightarrow> rat_trunc x
      | _ \<Rightarrow> 0)"

text \<open>One element of the text, a number and its unit: its nanoseconds and the rest.\<close>

definition duration_element :: "string \<Rightarrow> (int \<times> string) option" where
  "duration_element s =
     (if s = [] \<or> \<not> (hd s = CHR ''.'' \<or> is_digit (hd s)) then None
      else case leadingInt 0 s of
        None \<Rightarrow> None
      | Some (v, s1) \<Rightarrow>
          (let pre = length s \<noteq> length s1;
               (f, scale, s2, post) =
                 (if s1 \<noteq> [] \<and> hd s1 = CHR ''.''
                  then (let (f, scale, r) = leadingFraction 0 1 False (tl s1)
                        in (f, scale, r, length (tl s1) \<noteq> length r))
                  else (0, 1, s1, False));
               u = takeWhile unit_char s2;
               rest = dropWhile unit_char s2
           in if \<not> pre \<and> \<not> post then None
              else if u = [] then None
              else case unitMap u of
                None \<Rightarrow> None
              | Some w \<Rightarrow>
                  (if v > 2 ^ 63 div w then None
                   else let v = v * w; v = (if f > 0 then v + fraction_ns f scale w else v)
                        in if f > 0 \<and> v > 2 ^ 63 then None else Some (v, rest))))"

text \<open>
  The loop over the elements, with the sum in a \<open>uint64\<close>: two elements of \<open>1<<63\<close> each wrap
  around to nought, which the check behind the addition does not see. Every element
  consumes a character, so as many rounds as there are characters are enough.
\<close>

fun duration_sum :: "nat \<Rightarrow> int \<Rightarrow> string \<Rightarrow> int option" where
  "duration_sum n d [] = Some d"
| "duration_sum 0 d (c # s) = None"
| "duration_sum (Suc n) d (c # s) =
     (case duration_element (c # s) of
        None \<Rightarrow> None
      | Some (v, rest) \<Rightarrow>
          (let e = (d + v) mod 2 ^ 64 in if e > 2 ^ 63 then None else duration_sum n e rest))"

definition ParseDuration :: "string \<Rightarrow> duration option" where
  "ParseDuration s0 =
     (let neg = (s0 \<noteq> [] \<and> hd s0 = CHR ''-''); s = unsigned_part s0 in
      if s = ''0'' then Some 0
      else if s = [] then None
      else case duration_sum (length s) 0 s of
        None \<Rightarrow> None
      | Some d \<Rightarrow> (if neg then Some (- d) else if d > 2 ^ 63 - 1 then None else Some d))"

definition parseRecoveryDuration :: "string \<Rightarrow> string \<Rightarrow> duration result" where
  "parseRecoveryDuration raw field =
     (case ParseDuration raw of
        None \<Rightarrow> Inl (Err (field @ '' must be a valid duration (e.g. 10s, 1m)''))
      | Some d \<Rightarrow> Inr d)"

section \<open>The decoded blocks\<close>

type_synonym yaml_map = "(string \<times> string) list"

record runtimeRecoveryHTTP =
  rh_Exact :: yaml_map
  rh_Classes :: yaml_map

record runtimeRecoveryProviderError =
  rpe_Code :: string
  rpe_Type :: string

record runtimeRecoveryWhen =
  rw_Status :: "int option"
  rw_StatusClass :: string
  rw_Failure :: string
  rw_TransportClass :: string
  rw_TransportCause :: string
  rw_ProtocolCause :: string
  rw_CallerCause :: string
  rw_CredentialCause :: string
  rw_ProviderError :: "runtimeRecoveryProviderError option"
  rw_Streaming :: "bool option"
  rw_CandidateIndex :: "int option"
  rw_RetryIndex :: "int option"

record runtimeRecoveryRule =
  rru_ID :: string
  rru_When :: "runtimeRecoveryWhen option"
  rru_Action :: string

record runtimeRecoveryMatrix =
  rm_HTTP :: "runtimeRecoveryHTTP option"
  rm_Transport :: yaml_map
  rm_Protocol :: yaml_map
  rm_Caller :: yaml_map
  rm_Credential :: yaml_map
  rm_Rules :: "runtimeRecoveryRule list"
  rm_Default :: string

record runtimeBackoff =
  rb_Initial :: string
  rb_Max :: string
  rb_Jitter :: "f64 option"

record runtimeRecoveryRetries =
  rrt_MaxRetries :: "int option"
  rrt_MaxElapsed :: string
  rrt_Backoff :: "runtimeBackoff option"
  rrt_OnExhausted :: string

record runtimeRecoveryFallback =
  rf_Enabled :: "bool option"
  rf_MaxCandidates :: "int option"
  rf_OnExhausted :: string

record runtimeRecoveryEnvelope =
  re_MaxExchanges :: "int option"
  re_MaxElapsed :: string

record runtimeRecoveryBudget =
  rbu_Request :: "runtimeRecoveryEnvelope option"
  rbu_Candidate :: "runtimeRecoveryEnvelope option"

record runtimeRecoveryRetryAfter =
  rra_Enabled :: "bool option"
  rra_Mode :: string
  rra_MaxDelay :: string

record runtimeStream =
  rs_Enabled :: "bool option"
  rs_MaxRecoveries :: "int option"
  rs_MaxElapsed :: string
  rs_MaxPartialBytes :: "int option"

record runtimeRecovery =
  rr_Matrix :: "runtimeRecoveryMatrix option"
  rr_Retries :: "runtimeRecoveryRetries option"
  rr_Fallback :: "runtimeRecoveryFallback option"
  rr_Budget :: "runtimeRecoveryBudget option"
  rr_RetryAfter :: "runtimeRecoveryRetryAfter option"
  rr_Stream :: "runtimeStream option"

text \<open>The legacy spellings: the top-level \<open>provider-fallback\<close> block and a model's \<open>retries\<close> block.\<close>

record runtimeProviderFallback =
  rpf_Enabled :: "bool option"
  rpf_MaxAttempts :: "int option"

record runtimeRetries =
  rlr_MaxRetries :: "int option"
  rlr_MaxElapsed :: string
  rlr_Backoff :: "runtimeBackoff option"

section \<open>The matrix block\<close>

definition sortedRecoveryKeys :: "yaml_map \<Rightarrow> string list" where
  "sortedRecoveryKeys m = sort (map fst m)"

text \<open>\<open>m[key]\<close> of a Go map: the zero value for a key that is not there.\<close>

definition at_key :: "yaml_map \<Rightarrow> string \<Rightarrow> string" where
  "at_key m k = (case map_of m k of None \<Rightarrow> [] | Some v \<Rightarrow> v)"

definition parseRecoveryStatusKey :: "string \<Rightarrow> int result" where
  "parseRecoveryStatusKey key =
     (if length key \<noteq> 3 then Inl (Err ''key must be a three-digit HTTP status'')
      else case atoi key of
        None \<Rightarrow> Inl (Err ''key must be a three-digit HTTP status'')
      | Some status \<Rightarrow>
          (if status < 100 \<or> status > 599 then Inl (Err ''key must be an HTTP status between 100 and 599'')
           else Inr status))"

definition canonicalCallerCause :: "string \<Rightarrow> string result" where
  "canonicalCallerCause token =
     (if token = ''canceled'' \<or> token = CallerCanceled then Inr CallerCanceled
      else if token = ''deadline'' \<or> token = CallerDeadline then Inr CallerDeadline
      else Inl (Err ''caller cause must be one of canceled, deadline''))"

definition exact_rule :: "yaml_map \<Rightarrow> string \<Rightarrow> Rule result" where
  "exact_rule m key =
     and_then (wrap_err ''recovery.matrix.http.exact'' (parseRecoveryStatusKey key)) (\<lambda>status.
     and_then (wrap_err ''recovery.matrix.http.exact'' (ParseAction (at_key m key))) (\<lambda>action.
     Inr \<lparr>r_ID = StatusRuleID status, r_Match = zeroMatch\<lparr>m_Status := status\<rparr>, r_Action = action\<rparr>))"

definition class_rule :: "yaml_map \<Rightarrow> string \<Rightarrow> Rule result" where
  "class_rule m key =
     and_then (wrap_err ''recovery.matrix.http.classes'' (ParseStatusClass key)) (\<lambda>cls.
     and_then (wrap_err ''recovery.matrix.http.classes'' (ParseAction (at_key m key))) (\<lambda>action.
     Inr \<lparr>r_ID = StatusClassRuleID cls, r_Match = zeroMatch\<lparr>m_StatusClass := cls\<rparr>, r_Action = action\<rparr>))"

text \<open>A token that is both a class and a cause names the class.\<close>

definition transport_key_rule :: "yaml_map \<Rightarrow> string \<Rightarrow> Rule result" where
  "transport_key_rule m key =
     and_then (wrap_err ''recovery.matrix.transport'' (ParseAction (at_key m key))) (\<lambda>action.
     case ParseTransportClass key of
       Inr cls \<Rightarrow>
         Inr \<lparr>r_ID = TransportClassRuleID cls,
              r_Match = zeroMatch\<lparr>m_Class := FailureTransport, m_TransportClass := cls\<rparr>,
              r_Action = action\<rparr>
     | Inl _ \<Rightarrow>
         if \<not> KnownTransportCause key
         then Inl (Err ''recovery.matrix.transport: key must be a transport class (connection, timeout, proxy_connect, proxy_auth) or a transport cause token'')
         else Inr \<lparr>r_ID = TransportCauseRuleID key,
                   r_Match = zeroMatch\<lparr>m_Class := FailureTransport, m_TransportCause := key\<rparr>,
                   r_Action = action\<rparr>)"

definition protocol_key_rule :: "yaml_map \<Rightarrow> string \<Rightarrow> Rule result" where
  "protocol_key_rule m key =
     (if \<not> KnownProtocolCause key
      then Inl (Err ''recovery.matrix.protocol: key must be a protocol cause token (invalid_response, oversized_response, body_read_failed, body_timeout)'')
      else and_then (wrap_err ''recovery.matrix.protocol'' (ParseAction (at_key m key))) (\<lambda>action.
        Inr \<lparr>r_ID = ProtocolRuleID key,
             r_Match = zeroMatch\<lparr>m_Class := FailureProtocol, m_ProtocolCause := key\<rparr>,
             r_Action = action\<rparr>))"

definition caller_key_rule :: "yaml_map \<Rightarrow> string \<Rightarrow> Rule result" where
  "caller_key_rule m key =
     and_then (wrap_err ''recovery.matrix.caller'' (canonicalCallerCause key)) (\<lambda>cause.
     and_then (wrap_err ''recovery.matrix.caller'' (ParseAction (at_key m key))) (\<lambda>action.
     if action \<noteq> ActionTerminal then Inl (Err ''recovery.matrix.caller must be terminal'')
     else Inr \<lparr>r_ID = CallerRuleID cause,
               r_Match = zeroMatch\<lparr>m_Class := FailureCaller, m_CallerCause := cause\<rparr>,
               r_Action = action\<rparr>))"

definition credential_key_rule :: "yaml_map \<Rightarrow> string \<Rightarrow> Rule result" where
  "credential_key_rule m key =
     (if \<not> KnownCredentialCause key
      then Inl (Err ''recovery.matrix.credential: key must be a credential cause token (cooldown)'')
      else and_then (wrap_err ''recovery.matrix.credential'' (ParseAction (at_key m key))) (\<lambda>action.
        Inr \<lparr>r_ID = CredentialCauseRuleID key,
             r_Match = zeroMatch\<lparr>m_Class := FailureCredential, m_CredentialCause := key\<rparr>,
             r_Action = action\<rparr>))"


definition match_status :: "string \<Rightarrow> int option \<Rightarrow> int result" where
  "match_status field p =
     (case p of
        None \<Rightarrow> Inr 0
      | Some n \<Rightarrow>
          if n < 100 \<or> n > 599
          then Inl (Err (field @ ''.when.status: must be an HTTP status between 100 and 599''))
          else Inr n)"

text \<open>A predicate over a token: unstated it is the zero value, stated it is parsed or refused.\<close>

definition match_token :: "(string \<Rightarrow> 'b result) \<Rightarrow> string \<Rightarrow> 'b \<Rightarrow> string \<Rightarrow> 'b result" where
  "match_token f field zero s = (if s = [] then Inr zero else wrap_err field (f s))"

definition known_token :: "(string \<Rightarrow> bool) \<Rightarrow> string \<Rightarrow> string \<Rightarrow> string result" where
  "known_token known msg s = (if s \<noteq> [] \<and> \<not> known s then Inl (Err msg) else Inr s)"

definition buildRecoveryMatch :: "runtimeRecoveryWhen \<Rightarrow> string \<Rightarrow> Match result" where
  "buildRecoveryMatch w field =
     and_then (match_status field (rw_Status w)) (\<lambda>status.
     and_then (match_token ParseStatusClass (field @ ''.when.status-class'') StatusClassNone (rw_StatusClass w)) (\<lambda>scls.
     and_then (match_token ParseFailureClass (field @ ''.when.failure'') FailureAny (rw_Failure w)) (\<lambda>fcls.
     and_then (match_token ParseTransportClass (field @ ''.when.transport-class'') TransportClassNone
                 (rw_TransportClass w)) (\<lambda>tcls.
     and_then (known_token KnownTransportCause (field @ ''.when.transport-cause: unknown transport cause token'')
                 (rw_TransportCause w)) (\<lambda>tcause.
     and_then (known_token KnownProtocolCause (field @ ''.when.protocol-cause: unknown protocol cause token'')
                 (rw_ProtocolCause w)) (\<lambda>pcause.
     and_then (match_token canonicalCallerCause (field @ ''.when.caller-cause'') [] (rw_CallerCause w)) (\<lambda>ccause.
     and_then (known_token KnownCredentialCause (field @ ''.when.credential-cause: unknown credential cause token'')
                 (rw_CredentialCause w)) (\<lambda>krcause.
     and_then (case rw_CandidateIndex w of
                 None \<Rightarrow> Inr 0
               | Some n \<Rightarrow> if n < 1 then Inl (Err (field @ ''.when.candidate-index: must be at least 1''))
                           else Inr n) (\<lambda>cand.
     and_then (case rw_RetryIndex w of
                 None \<Rightarrow> Inr None
               | Some n \<Rightarrow> if n < 0 then Inl (Err (field @ ''.when.retry-index: must not be negative''))
                           else Inr (Some n)) (\<lambda>retry.
     Inr \<lparr>m_Class = fcls, m_Status = status, m_StatusClass = scls, m_TransportClass = tcls,
          m_TransportCause = tcause, m_ProtocolCause = pcause, m_CallerCause = ccause,
          m_CredentialCause = krcause,
          m_ProviderErrorType = (case rw_ProviderError w of None \<Rightarrow> [] | Some e \<Rightarrow> rpe_Type e),
          m_ProviderErrorCode = (case rw_ProviderError w of None \<Rightarrow> [] | Some e \<Rightarrow> rpe_Code e),
          m_Streaming = rw_Streaming w, m_CandidateIndex = cand, m_RetryIndex = retry\<rparr>))))))))))"

definition buildRecoveryRule :: "runtimeRecoveryRule \<Rightarrow> int \<Rightarrow> Rule result" where
  "buildRecoveryRule rr ordinal =
     (let field = ''recovery.matrix.rules rule '' @ itoa ordinal in
      and_then (wrap_err field (ValidateRuleID (rru_ID rr))) (\<lambda>_.
      and_then (case rru_When rr of None \<Rightarrow> Inr zeroMatch | Some w \<Rightarrow> buildRecoveryMatch w field) (\<lambda>mt.
      and_then (wrap_err (field @ ''.action'') (ParseAction (rru_Action rr))) (\<lambda>action.
      Inr \<lparr>r_ID = rru_ID rr, r_Match = mt, r_Action = action\<rparr>))))"

text \<open>The shorthand forms in their fixed order, each by sorted key, then the free-form list.\<close>

definition shorthand :: "(yaml_map \<Rightarrow> string \<Rightarrow> Rule result) \<Rightarrow> yaml_map \<Rightarrow> Rule list result" where
  "shorthand f m = collect (f m) (sortedRecoveryKeys m)"

definition buildRecoveryMatrix :: "runtimeRecoveryMatrix \<Rightarrow> MatrixPartial result" where
  "buildRecoveryMatrix rm =
     and_then (case rm_HTTP rm of
                 None \<Rightarrow> Inr []
               | Some h \<Rightarrow> and_then (shorthand exact_rule (rh_Exact h)) (\<lambda>xs.
                           and_then (shorthand class_rule (rh_Classes h)) (\<lambda>ys. Inr (xs @ ys)))) (\<lambda>http.
     and_then (shorthand transport_key_rule (rm_Transport rm)) (\<lambda>transport.
     and_then (shorthand protocol_key_rule (rm_Protocol rm)) (\<lambda>protocol.
     and_then (shorthand caller_key_rule (rm_Caller rm)) (\<lambda>caller.
     and_then (shorthand credential_key_rule (rm_Credential rm)) (\<lambda>credential.
     and_then (collect (\<lambda>(i, rr). buildRecoveryRule rr i) (zip [1..int (length (rm_Rules rm))] (rm_Rules rm)))
       (\<lambda>free.
     and_then (if_text (\<lambda>s. wrap_err ''recovery.matrix.default'' (ParseAction s)) (rm_Default rm)) (\<lambda>dflt.
     Inr \<lparr>mp_Rules = http @ transport @ protocol @ caller @ credential @ free, mp_Default = dflt\<rparr>)))))))"

section \<open>The other blocks\<close>

definition duration_field :: "string \<Rightarrow> string \<Rightarrow> duration option result" where
  "duration_field field s = if_text (\<lambda>t. parseRecoveryDuration t field) s"

definition action_field :: "string \<Rightarrow> string \<Rightarrow> Action option result" where
  "action_field field s = if_text (\<lambda>t. wrap_err field (ParseAction t)) s"

definition buildRecoveryBackoff :: "runtimeBackoff \<Rightarrow> BackoffPartial result" where
  "buildRecoveryBackoff b =
     and_then (duration_field ''recovery.retries.backoff.initial'' (rb_Initial b)) (\<lambda>ini.
     and_then (duration_field ''recovery.retries.backoff.max'' (rb_Max b)) (\<lambda>mx.
     Inr \<lparr>bop_Initial = ini, bop_Max = mx, bop_Jitter = rb_Jitter b\<rparr>))"

definition buildRecoveryRetries :: "runtimeRecoveryRetries \<Rightarrow> RetryPartial result" where
  "buildRecoveryRetries rr =
     and_then (duration_field ''recovery.retries.max-elapsed'' (rrt_MaxElapsed rr)) (\<lambda>el.
     and_then (if_stated buildRecoveryBackoff (rrt_Backoff rr)) (\<lambda>bo.
     and_then (action_field ''recovery.retries.on-exhausted'' (rrt_OnExhausted rr)) (\<lambda>ex.
     Inr \<lparr>rpp_MaxRetries = rrt_MaxRetries rr, rpp_MaxElapsed = el, rpp_Backoff = bo,
          rpp_OnExhausted = ex\<rparr>)))"

definition buildRecoveryFallback :: "runtimeRecoveryFallback \<Rightarrow> FallbackPartial result" where
  "buildRecoveryFallback rf =
     and_then (action_field ''recovery.fallback.on-exhausted'' (rf_OnExhausted rf)) (\<lambda>ex.
     Inr \<lparr>fpp_Enabled = rf_Enabled rf, fpp_MaxCandidates = rf_MaxCandidates rf, fpp_OnExhausted = ex\<rparr>)"

definition buildRecoveryEnvelope :: "string \<Rightarrow> runtimeRecoveryEnvelope \<Rightarrow> EnvelopePartial result" where
  "buildRecoveryEnvelope field re =
     and_then (duration_field (field @ ''.max-elapsed'') (re_MaxElapsed re)) (\<lambda>el.
     Inr \<lparr>enp_MaxExchanges = re_MaxExchanges re, enp_MaxElapsed = el\<rparr>)"

definition buildRecoveryBudget :: "runtimeRecoveryBudget \<Rightarrow> BudgetPartial result" where
  "buildRecoveryBudget rb =
     and_then (if_stated (buildRecoveryEnvelope ''recovery.budget.request'') (rbu_Request rb)) (\<lambda>rq.
     and_then (if_stated (buildRecoveryEnvelope ''recovery.budget.candidate'') (rbu_Candidate rb)) (\<lambda>ca.
     Inr \<lparr>bpp_Request = rq, bpp_Candidate = ca\<rparr>))"

definition buildRecoveryRetryAfter :: "runtimeRecoveryRetryAfter \<Rightarrow> RetryAfterPartial result" where
  "buildRecoveryRetryAfter ra =
     and_then (if_text (\<lambda>t. wrap_err ''recovery.retry-after.mode'' (ParseRetryAfterMode t)) (rra_Mode ra)) (\<lambda>md.
     and_then (duration_field ''recovery.retry-after.max-delay'' (rra_MaxDelay ra)) (\<lambda>dl.
     Inr \<lparr>rap_Enabled = rra_Enabled ra, rap_Mode = md, rap_MaxDelay = dl\<rparr>))"

definition buildRecoveryStream :: "runtimeStream \<Rightarrow> StreamPartial result" where
  "buildRecoveryStream rs =
     and_then (duration_field ''recovery.stream.max-elapsed'' (rs_MaxElapsed rs)) (\<lambda>el.
     Inr \<lparr>spp_Enabled = rs_Enabled rs, spp_MaxRecoveries = rs_MaxRecoveries rs,
          spp_MaxElapsed = el, spp_MaxPartialBytes = rs_MaxPartialBytes rs\<rparr>)"

definition buildRecoveryPartial :: "runtimeRecovery \<Rightarrow> Partial result" where
  "buildRecoveryPartial block =
     and_then (if_stated buildRecoveryMatrix (rr_Matrix block)) (\<lambda>mx.
     and_then (if_stated buildRecoveryRetries (rr_Retries block)) (\<lambda>rt.
     and_then (if_stated buildRecoveryFallback (rr_Fallback block)) (\<lambda>fb.
     and_then (if_stated buildRecoveryBudget (rr_Budget block)) (\<lambda>bu.
     and_then (if_stated buildRecoveryRetryAfter (rr_RetryAfter block)) (\<lambda>ra.
     and_then (if_stated buildRecoveryStream (rr_Stream block)) (\<lambda>st.
     Inr \<lparr>pa_Matrix = mx, pa_Retry = rt, pa_Fallback = fb, pa_Budget = bu, pa_RetryAfter = ra,
          pa_Stream = st\<rparr>))))))"

section \<open>Positions\<close>

definition states_request :: "runtimeRecovery \<Rightarrow> bool" where
  "states_request block \<longleftrightarrow>
     (case rr_Budget block of None \<Rightarrow> False | Some b \<Rightarrow> rbu_Request b \<noteq> None)"

definition buildRecoveryOverride :: "runtimeRecovery \<Rightarrow> Partial result" where
  "buildRecoveryOverride block =
     (if states_request block
      then Inl (Err ''recovery.budget.request is request-scoped and only valid in the top-level recovery block'')
      else if rr_Fallback block \<noteq> None
      then Inl (Err ''recovery.fallback is request-scoped (the candidate walk's reach) and only valid in the top-level recovery block or a model entry'')
      else if rr_Stream block \<noteq> None
      then Inl (Err ''recovery.stream changes client-visible output and is only valid in the top-level recovery block or a model entry'')
      else buildRecoveryPartial block)"

definition defaultProviderFallbackAttempts :: int where "defaultProviderFallbackAttempts = 2"

definition buildLegacyFallback :: "runtimeProviderFallback \<Rightarrow> FallbackPartial" where
  "buildLegacyFallback rf =
     (let enabled = stated (rpf_Enabled rf) True;
          reach = (if \<not> enabled then 1 else stated (rpf_MaxAttempts rf) defaultProviderFallbackAttempts)
      in \<lparr>fpp_Enabled = Some enabled, fpp_MaxCandidates = Some reach, fpp_OnExhausted = None\<rparr>)"

definition buildGlobalRecovery :: "runtimeRecovery option \<Rightarrow> runtimeProviderFallback option \<Rightarrow> Partial result" where
  "buildGlobalRecovery block legacy =
     and_then
       (case block of
          None \<Rightarrow> Inr emptyPartial
        | Some b \<Rightarrow>
            and_then (buildRecoveryPartial b) (\<lambda>p.
            if legacy \<noteq> None \<and> rr_Fallback b \<noteq> None
            then Inl (Err ''recovery.fallback and the legacy provider-fallback block are mutually exclusive'')
            else Inr p))
       (\<lambda>p. Inr (case legacy of
                   None \<Rightarrow> p
                 | Some l \<Rightarrow> if pa_Fallback p = None then p\<lparr>pa_Fallback := Some (buildLegacyFallback l)\<rparr> else p))"

text \<open>The legacy retries: an omitted ceiling is lifted to an initial wait above the default one.\<close>

definition buildLegacyBackoff :: "runtimeBackoff \<Rightarrow> BackoffPartial result" where
  "buildLegacyBackoff b =
     and_then (duration_field ''retries.backoff.initial'' (rb_Initial b)) (\<lambda>ini.
     and_then
       (if rb_Max b \<noteq> [] then duration_field ''retries.backoff.max'' (rb_Max b)
        else case ini of
          None \<Rightarrow> Inr None
        | Some i \<Rightarrow> Inr (if i > DefaultBackoffMax then Some i else None)) (\<lambda>mx.
     Inr \<lparr>bop_Initial = ini, bop_Max = mx, bop_Jitter = rb_Jitter b\<rparr>))"

definition buildLegacyRetries :: "runtimeRetries \<Rightarrow> RetryPartial result" where
  "buildLegacyRetries rr =
     and_then (duration_field ''retries.max-elapsed'' (rlr_MaxElapsed rr)) (\<lambda>el.
     and_then (if_stated buildLegacyBackoff (rlr_Backoff rr)) (\<lambda>bo.
     Inr \<lparr>rpp_MaxRetries = rlr_MaxRetries rr, rpp_MaxElapsed = el, rpp_Backoff = bo,
          rpp_OnExhausted = None\<rparr>))"

text \<open>\<open>buildModelRecovery\<close> reads a model entry's \<open>recovery\<close> and \<open>retries\<close> blocks.\<close>

definition buildModelRecovery :: "runtimeRecovery option \<Rightarrow> runtimeRetries option \<Rightarrow> Partial option result" where
  "buildModelRecovery rec retries =
     (if retries \<noteq> None \<and> (case rec of None \<Rightarrow> False | Some b \<Rightarrow> rr_Retries b \<noteq> None)
      then Inl (Err ''recovery.retries and the legacy retries block are mutually exclusive'')
      else if rec = None \<and> retries = None then Inr None
      else
        and_then
          (case rec of
             None \<Rightarrow> Inr emptyPartial
           | Some b \<Rightarrow>
               if states_request b
               then Inl (Err ''recovery.budget.request is request-scoped and only valid in the top-level recovery block'')
               else buildRecoveryPartial b) (\<lambda>p.
        case retries of
          None \<Rightarrow> Inr (Some p)
        | Some r \<Rightarrow> and_then (buildLegacyRetries r) (\<lambda>rt. Inr (Some (p\<lparr>pa_Retry := Some rt\<rparr>)))))"

definition candidate_layers :: "Partial option \<Rightarrow> Partial option \<Rightarrow> Partial option \<Rightarrow> Layer list" where
  "candidate_layers provider model candidate =
     (case provider of None \<Rightarrow> [] | Some p \<Rightarrow> [\<lparr>l_Name = ''provider'', l_Partial = p\<rparr>])
     @ (case model of None \<Rightarrow> [] | Some p \<Rightarrow> [\<lparr>l_Name = ''model'', l_Partial = p\<rparr>])
     @ (case candidate of None \<Rightarrow> [] | Some p \<Rightarrow> [\<lparr>l_Name = ''candidate'', l_Partial = p\<rparr>])"

definition resolveCandidateRecovery ::
  "Policy \<Rightarrow> Partial option \<Rightarrow> Partial option \<Rightarrow> Partial option \<Rightarrow> Policy result" where
  "resolveCandidateRecovery g provider model candidate =
     Resolve g (candidate_layers provider model candidate)"

section \<open>Facts\<close>

lemma and_then_simps [simp]:
  "and_then (Inl e) f = Inl e" "and_then (Inr x) f = f x"
  by (simp_all add: and_then_def)

lemma and_then_Inr: "and_then r f = Inr y \<longleftrightarrow> (\<exists>x. r = Inr x \<and> f x = Inr y)"
  by (cases r) auto

lemma collect_cong:
  "(\<And>x. x \<in> set xs \<Longrightarrow> f x = g x) \<Longrightarrow> collect f xs = collect g xs"
  by (induction xs) auto

subsection \<open>Mappings in any order\<close>

definition same_map :: "yaml_map \<Rightarrow> yaml_map \<Rightarrow> bool" where
  "same_map m m' \<longleftrightarrow> distinct (map fst m) \<and> mset m = mset m'"

fun same_http :: "runtimeRecoveryHTTP option \<Rightarrow> runtimeRecoveryHTTP option \<Rightarrow> bool" where
  "same_http None None = True"
| "same_http (Some h) (Some h') = (same_map (rh_Exact h) (rh_Exact h') \<and> same_map (rh_Classes h) (rh_Classes h'))"
| "same_http _ _ = False"

definition same_block :: "runtimeRecoveryMatrix \<Rightarrow> runtimeRecoveryMatrix \<Rightarrow> bool" where
  "same_block rm rm' \<longleftrightarrow>
     same_http (rm_HTTP rm) (rm_HTTP rm') \<and> same_map (rm_Transport rm) (rm_Transport rm')
     \<and> same_map (rm_Protocol rm) (rm_Protocol rm') \<and> same_map (rm_Caller rm) (rm_Caller rm')
     \<and> same_map (rm_Credential rm) (rm_Credential rm')
     \<and> rm_Rules rm = rm_Rules rm' \<and> rm_Default rm = rm_Default rm'"

lemma same_map_keys:
  assumes "same_map m m'"
  shows "sortedRecoveryKeys m = sortedRecoveryKeys m'" and "at_key m = at_key m'"
proof -
  have ms: "mset m = mset m'" and d: "distinct (map fst m)" using assms by (simp_all add: same_map_def)
  have "mset (map fst m) = mset (map fst m')" unfolding mset_map ms by (rule refl)
  then show "sortedRecoveryKeys m = sortedRecoveryKeys m'"
    unfolding sortedRecoveryKeys_def by (metis sorted_list_of_multiset_mset)
  have "distinct (map fst m')" using d \<open>mset (map fst m) = mset (map fst m')\<close> using mset_eq_imp_distinct_iff by blast
  then have "map_of m = map_of m'" using d mset_eq_setD [OF ms] by (simp only: map_of_inject_set)
  then show "at_key m = at_key m'" by (simp add: at_key_def fun_eq_iff)
qed

lemma shorthand_same:
  assumes "same_map m m'" and "\<And>k. at_key m = at_key m' \<Longrightarrow> f m k = f m' k"
  shows "shorthand f m = shorthand f m'"
proof -
  have "f m = f m'" using assms(2) [OF same_map_keys(2) [OF assms(1)]] by (rule ext)
  then show ?thesis by (simp only: shorthand_def same_map_keys(1) [OF assms(1)])
qed

lemma buildRecoveryMatrix_same:
  assumes "same_block rm rm'"
  shows "buildRecoveryMatrix rm = buildRecoveryMatrix rm'"
proof -
  have m: "same_map (rm_Transport rm) (rm_Transport rm')" "same_map (rm_Protocol rm) (rm_Protocol rm')"
    "same_map (rm_Caller rm) (rm_Caller rm')" "same_map (rm_Credential rm) (rm_Credential rm')"
    and r: "rm_Rules rm = rm_Rules rm'" "rm_Default rm = rm_Default rm'"
    and h: "same_http (rm_HTTP rm) (rm_HTTP rm')"
    using assms by (simp_all add: same_block_def)
  have t: "shorthand transport_key_rule (rm_Transport rm) = shorthand transport_key_rule (rm_Transport rm')"
    by (rule shorthand_same [OF m(1)]) (simp add: transport_key_rule_def)
  have p: "shorthand protocol_key_rule (rm_Protocol rm) = shorthand protocol_key_rule (rm_Protocol rm')"
    by (rule shorthand_same [OF m(2)]) (simp add: protocol_key_rule_def)
  have c: "shorthand caller_key_rule (rm_Caller rm) = shorthand caller_key_rule (rm_Caller rm')"
    by (rule shorthand_same [OF m(3)]) (simp add: caller_key_rule_def)
  have k: "shorthand credential_key_rule (rm_Credential rm) = shorthand credential_key_rule (rm_Credential rm')"
    by (rule shorthand_same [OF m(4)]) (simp add: credential_key_rule_def)
  have ex: "shorthand exact_rule a = shorthand exact_rule b" if "same_map a b" for a b
    by (rule shorthand_same [OF that]) (simp add: exact_rule_def)
  have cl: "shorthand class_rule a = shorthand class_rule b" if "same_map a b" for a b
    by (rule shorthand_same [OF that]) (simp add: class_rule_def)
  show ?thesis
  proof (cases "(rm_HTTP rm, rm_HTTP rm')" rule: same_http.cases)
    case 1
    then show ?thesis by (simp add: buildRecoveryMatrix_def t p c k r)
  next
    case (2 h1 h2)
    then have "same_map (rh_Exact h1) (rh_Exact h2)" "same_map (rh_Classes h1) (rh_Classes h2)"
      using h by auto
    then show ?thesis using 2 ex cl by (simp add: buildRecoveryMatrix_def t p c k r)
  qed (use h in auto)
qed

subsection \<open>What a layer states\<close>

lemma if_stated_None [simp]: "if_stated f None = Inr None"
  by (simp add: if_stated_def)

lemma if_stated_Inr_None: "if_stated f p = Inr None \<longleftrightarrow> p = None"
  by (cases p) (auto simp: if_stated_def and_then_Inr)

lemma buildRecoveryBudget_request:
  "buildRecoveryBudget rb = Inr b \<Longrightarrow> rbu_Request rb = None \<Longrightarrow> bpp_Request b = None"
  by (auto simp: buildRecoveryBudget_def and_then_Inr)

definition leaves_request :: "Partial \<Rightarrow> bool" where
  "leaves_request p \<longleftrightarrow> (case pa_Budget p of None \<Rightarrow> True | Some b \<Rightarrow> bpp_Request b = None)"

lemma buildRecoveryPartial_fields:
  assumes "buildRecoveryPartial block = Inr p"
  shows "rr_Fallback block = None \<Longrightarrow> pa_Fallback p = None"
    and "rr_Stream block = None \<Longrightarrow> pa_Stream p = None"
    and "\<not> states_request block \<Longrightarrow> leaves_request p"
  using assms
  by (auto simp: buildRecoveryPartial_def and_then_Inr states_request_def leaves_request_def
      if_stated_def buildRecoveryBudget_request split: option.splits)

lemma buildRecoveryOverride_fields:
  assumes "buildRecoveryOverride block = Inr p"
  shows "pa_Fallback p = None" "pa_Stream p = None" "leaves_request p"
  using assms buildRecoveryPartial_fields
  by (auto simp: buildRecoveryOverride_def split: if_splits)

lemma buildModelRecovery_request:
  assumes "buildModelRecovery rec retries = Inr (Some p)"
  shows "leaves_request p"
  using assms buildRecoveryPartial_fields(3)
  by (fastforce simp: buildModelRecovery_def and_then_Inr leaves_request_def emptyPartial_def
      split: if_splits option.splits)

lemma Merge_fields:
  assumes "Merge base p = Inr q"
  shows "p_Fallback q = merge_fallback (pa_Fallback p) (p_Fallback base)"
    and "p_Stream q = merge_stream (pa_Stream p) (p_Stream base)"
    and "p_Budget q = merge_budget (pa_Budget p) (p_Budget base)"
  using assms by (auto simp: Merge_def merge_mechanics_def Let_def split: sum.splits option.splits)

lemma merge_none [simp]: "merge_fallback None x = x" "merge_stream None y = y"
  by (simp_all add: merge_fallback_def merge_stream_def)

lemma leaves_request_merge:
  "leaves_request p \<Longrightarrow> bp_Request (merge_budget (pa_Budget p) b) = bp_Request b"
  by (auto simp: leaves_request_def merge_budget_def merge_envelope_def split: option.splits)

lemma resolve_step_fields:
  assumes "resolve_step l base = Inr q" and "leaves_request (l_Partial l)"
  shows "bp_Request (p_Budget q) = bp_Request (p_Budget base)"
    and "pa_Fallback (l_Partial l) = None \<Longrightarrow> p_Fallback q = p_Fallback base"
    and "pa_Stream (l_Partial l) = None \<Longrightarrow> p_Stream q = p_Stream base"
  using assms Merge_fields [of base "l_Partial l"]
  by (auto simp: resolve_step_def leaves_request_merge split: sum.splits)


lemma fold_layers_fields:
  assumes "fold_result resolve_step ls base = Inr q" and "\<forall>l\<in>set ls. leaves_request (l_Partial l)"
  shows "bp_Request (p_Budget q) = bp_Request (p_Budget base)"
  using assms
proof (induction ls arbitrary: base)
  case (Cons l ls)
  then obtain mid where "resolve_step l base = Inr mid" "fold_result resolve_step ls mid = Inr q"
    by (auto split: sum.splits)
  then show ?case using Cons resolve_step_fields(1) [of l base mid] by simp
qed simp

subsection \<open>Durations\<close>

lemma digit_val_of_char: "n < 10 \<Longrightarrow> digit_val (char_of (48 + n)) = n"
  by (simp add: digit_val_def)

lemma leadingInt_run:
  assumes "list_all is_digit ds" and "int (digits_val x ds) \<le> 2 ^ 63"
    and "s = [] \<or> \<not> is_digit (hd s)"
  shows "leadingInt (int x) (ds @ s) = Some (int (digits_val x ds), s)"
  using assms
proof (induction ds arbitrary: x)
  case Nil
  then show ?case by (cases s) auto
next
  case (Cons c ds)
  have mono: "y \<le> digits_val y cs" for y cs
  proof (induction cs arbitrary: y)
    case (Cons a cs)
    have "y \<le> 10 * y + digit_val a" by simp
    also have "\<dots> \<le> digits_val (10 * y + digit_val a) cs" by (rule Cons.IH)
    finally show ?case by simp
  qed simp
  let ?y = "10 * x + digit_val c"
  have "int ?y \<le> 2 ^ 63" using Cons.prems(2) mono [of ?y ds] by simp
  moreover from this have "\<not> int x > 2 ^ 63 div 10" by simp
  moreover have "int x * 10 + int (digit_val c) = int ?y" by simp
  ultimately show ?case using Cons.IH [of ?y] Cons.prems by (simp add: Let_def ac_simps)
qed

lemma ParseDuration_ns:
  assumes "in_int64 n"
  shows "ParseDuration (itoa n @ ''ns'') = Some n"
proof -
  let ?ds = "nat_digits (nat \<bar>n\<bar>)"
  have le: "\<bar>n\<bar> \<le> 2 ^ 63" and neg: "\<not> n < 0 \<Longrightarrow> n \<le> 2 ^ 63 - 1" using assms by (auto simp: in_int64_def int64_min_def int64_max_def)
  have u: "unsigned_part (itoa n @ ''ns'') = ?ds @ ''ns''"
    using unsigned_part_itoa [of n] by (cases "itoa n") (auto simp: unsigned_part_def split: if_splits)
  have v: "leadingInt 0 (?ds @ ''ns'') = Some (\<bar>n\<bar>, ''ns'')"
    using leadingInt_run [of ?ds 0 "''ns''"] le nat_digits_is_digit [of "nat \<bar>n\<bar>"]
    by (simp add: digits_val_nat_digits)
  have hd: "is_digit (hd (?ds @ ''ns''))" using nat_digits_hd by simp
  have "\<not> is_digit (CHR ''s'')" by (simp add: is_digit_def)
  then have el: "duration_element (?ds @ ''ns'') = Some (\<bar>n\<bar>, [])"
    using v hd le by (simp add: duration_element_def unitMap_def unit_char_def)
  have s: "duration_sum (length (?ds @ ''ns'')) 0 (?ds @ ''ns'') = Some \<bar>n\<bar>"
  proof -
    obtain c cs where cs: "?ds @ ''ns'' = c # cs" by (cases "?ds @ ''ns''") auto
    show ?thesis using el le unfolding cs by simp
  qed
  have "?ds @ ''ns'' \<noteq> ''0''" by (cases ?ds) (auto simp: append_eq_Cons_conv)
  then show ?thesis
    using u s neg hd_itoa [of n]
    by (cases "n < 0") (simp_all add: ParseDuration_def Let_def)
qed

lemma parseRecoveryStatusKey_iff_aux:
  "100 \<le> n \<Longrightarrow> n \<le> 599 \<Longrightarrow> length (itoa n) = 3"
proof -
  assume n: "100 \<le> n" "n \<le> 599"
  then have "nat n div 10 div 10 < 10" "\<not> nat n div 10 < 10" "\<not> nat n < 10" "\<not> n < 0" by linarith+
  then show "length (itoa n) = 3"
    by (simp add: itoa_def nat_digits.simps [of "nat n"] nat_digits.simps [of "nat n div 10"]
        nat_digits.simps [of "nat n div 10 div 10"])
qed


lemma nat_digits_snoc: "1 \<le> y \<Longrightarrow> z \<le> 9 \<Longrightarrow> nat_digits (10 * y + z) = nat_digits y @ [char_of (48 + z)]"
  by (subst nat_digits.simps) simp

lemma three_digits:
  assumes "length key = 3" and "atoi key = Some n" and "100 \<le> n"
  shows "key = itoa n"
proof -
  obtain a b c where key: "key = [a, b, c]" using assms(1)
    by (auto simp: numeral_3_eq_3 length_Suc_conv)
  have dv: "digit_val d \<le> 9" if "is_digit d" for d
    using that unfolding is_digit_def digit_val_def by linarith
  have sgn: "\<not> (a = CHR ''-'' \<or> a = CHR ''+'')"
  proof
    assume sg: "a = CHR ''-'' \<or> a = CHR ''+''"
    then have "is_digit b" "is_digit c" and n: "n \<le> int (digits_val 0 [b, c])"
      using assms(2) by (auto simp: key atoi_def unsigned_part_def Let_def split: if_splits)
    then show False using dv [of b] dv [of c] assms(3) by simp
  qed
  then have d: "list_all is_digit key" and n: "n = int (digits_val 0 key)"
    using assms(2) by (auto simp: key atoi_def unsigned_part_def Let_def split: if_splits)
  have n3: "digits_val 0 key = 100 * digit_val a + 10 * digit_val b + digit_val c" by (simp add: key)
  have dg: "digit_val a \<le> 9" "digit_val b \<le> 9" "digit_val c \<le> 9" using d dv by (auto simp: key)
  have a0: "1 \<le> digit_val a" using n3 n assms(3) dg by linarith
  have ch: "char_of (48 + digit_val e) = e" if "is_digit e" for e
    using that by (simp add: is_digit_def digit_val_def)
  let ?n = "100 * digit_val a + 10 * digit_val b + digit_val c"
  let ?m = "10 * digit_val a + digit_val b"
  have n10: "?n = 10 * ?m + digit_val c" by simp
  have m1: "nat_digits (digit_val a) = [a]" using dg(1) d ch [of a] by (subst nat_digits.simps) (simp add: key)
  have m2: "nat_digits ?m = [a, b]"
    using nat_digits_snoc [OF a0 dg(2)] ch [of b] m1 d by (simp add: key)
  have "1 \<le> ?m" using a0 by simp
  then have "nat_digits ?n = [a, b, c]"
    unfolding n10 nat_digits_snoc [OF \<open>1 \<le> ?m\<close> dg(3)] m2 using d ch [of c] by (simp add: key)
  moreover have "nat n = ?n" and "\<not> n < 0" using n n3 by simp_all
  ultimately show ?thesis by (simp only: itoa_def key if_False)
qed

lemma status_key_iff:
  "parseRecoveryStatusKey key = Inr n \<longleftrightarrow> 100 \<le> n \<and> n \<le> 599 \<and> key = itoa n"
proof
  assume "parseRecoveryStatusKey key = Inr n"
  then have "length key = 3" "atoi key = Some n" "100 \<le> n" "n \<le> 599"
    by (auto simp: parseRecoveryStatusKey_def split: if_splits option.splits)
  then show "100 \<le> n \<and> n \<le> 599 \<and> key = itoa n" using three_digits by blast
next
  assume n: "100 \<le> n \<and> n \<le> 599 \<and> key = itoa n"
  then have "atoi key = Some n" using atoi_itoa [of n] by (simp add: in_int64_def int64_min_def int64_max_def)
  then show "parseRecoveryStatusKey key = Inr n"
    using n parseRecoveryStatusKey_iff_aux [of n] by (simp add: parseRecoveryStatusKey_def)
qed



section \<open>Properties\<close>

text \<open>Blocks for the witnesses.\<close>

definition ex_matrix_block :: "yaml_map \<Rightarrow> runtimeRecoveryMatrix" where
  "ex_matrix_block m =
     \<lparr>rm_HTTP = Some \<lparr>rh_Exact = m, rh_Classes = []\<rparr>, rm_Transport = [], rm_Protocol = [], rm_Caller = [],
      rm_Credential = [], rm_Rules = [], rm_Default = []\<rparr>"

definition ex_retries_block :: runtimeRecovery where
  "ex_retries_block =
     \<lparr>rr_Matrix = None,
      rr_Retries = Some \<lparr>rrt_MaxRetries = Some 1, rrt_MaxElapsed = [], rrt_Backoff = None, rrt_OnExhausted = []\<rparr>,
      rr_Fallback = None, rr_Budget = None, rr_RetryAfter = None, rr_Stream = None\<rparr>"

definition ex_pinned_block :: runtimeRecovery where
  "ex_pinned_block = ex_retries_block
     \<lparr>rr_Retries := None,
      rr_Fallback := Some \<lparr>rf_Enabled = Some False, rf_MaxCandidates = None, rf_OnExhausted = []\<rparr>\<rparr>"

definition ex_retry_partial :: Partial where
  "ex_retry_partial = emptyPartial
     \<lparr>pa_Retry := Some \<lparr>rpp_MaxRetries = Some 1, rpp_MaxElapsed = None, rpp_Backoff = None, rpp_OnExhausted = None\<rparr>\<rparr>"

definition ex_pinned_partial :: Partial where
  "ex_pinned_partial = emptyPartial
     \<lparr>pa_Fallback := Some \<lparr>fpp_Enabled = Some False, fpp_MaxCandidates = None, fpp_OnExhausted = None\<rparr>\<rparr>"

lemma ex_layers:
  "buildRecoveryOverride ex_retries_block = Inr ex_retry_partial"
  "buildModelRecovery (Some ex_pinned_block) None = Inr (Some ex_pinned_partial)"
  by (simp_all add: buildRecoveryOverride_def buildModelRecovery_def ex_retries_block_def ex_pinned_block_def
      ex_retry_partial_def ex_pinned_partial_def emptyPartial_def states_request_def buildRecoveryPartial_def
      if_stated_def buildRecoveryRetries_def buildRecoveryFallback_def duration_field_def action_field_def if_text_def)

lemma ex_resolves:
  "\<exists>q. resolveCandidateRecovery default_policy (Some ex_retry_partial) (Some ex_pinned_partial) None = Inr q"
proof -
  have v: "Validate (merge_mechanics default_policy ex_retry_partial (p_Matrix default_policy)) = Inr ()" (is "Validate ?p = _")
    using Validate_default
    by (simp add: Validate_parts merge_mechanics_def ex_retry_partial_def emptyPartial_def merge_retry_def
        merge_budget_def merge_retry_after_def merge_stream_def merge_fallback_def merge_backoff_def
        validate_retry_iff validate_budget_iff stated_def default_policy_def Default_def NewMatrix_default defaults caps)
  then have 1: "Merge default_policy ex_retry_partial = Inr ?p"
    by (simp add: Merge_def ex_retry_partial_def emptyPartial_def)
  have "Validate (merge_mechanics ?p ex_pinned_partial (p_Matrix default_policy)) = Inr ()"
    using v
    by (simp add: Validate_parts merge_mechanics_def ex_pinned_partial_def emptyPartial_def merge_retry_def
        merge_budget_def merge_retry_after_def merge_stream_def merge_fallback_def validate_fallback_iff)
  then have 2: "\<exists>q. Merge ?p ex_pinned_partial = Inr q"
    by (simp add: Merge_def ex_pinned_partial_def emptyPartial_def merge_mechanics_def)
  show ?thesis using 1 2 Validate_default
    by (auto simp: resolveCandidateRecovery_def candidate_layers_def Resolve_def resolve_step_def)
qed

text \<open>
  The layer a matrix block builds, its rules in their order and every rejection with its position,
  does not depend on the order in which Go iterates the mappings of the block.
\<close>

theorem matrix_block_order_independent:
  assumes "same_block rm rm'"
  shows "buildRecoveryMatrix rm = buildRecoveryMatrix rm'"
  by (rule buildRecoveryMatrix_same [OF assms])

theorem matrix_block_order_independent_witness:
  "buildRecoveryMatrix (ex_matrix_block [(''503'', ''retry''), (''429'', ''fallback'')])
   = buildRecoveryMatrix (ex_matrix_block [(''429'', ''fallback''), (''503'', ''retry'')])"
  by (rule matrix_block_order_independent) (simp add: same_block_def same_map_def ex_matrix_block_def)

text \<open>
  C14: Whatever a provider entry, a model entry and a candidate entry state, the policy resolved for a
  candidate has the request envelope of the global layer, and its candidate walk and its
  stream recovery are those the model entry makes of the global ones: a provider or candidate block
  never moves them.
\<close>

theorem request_scope_preserved:
  assumes "if_stated buildRecoveryOverride provider = Inr pp"
    and "buildModelRecovery rec retries = Inr mp"
    and "if_stated buildRecoveryOverride candidate = Inr cp"
    and "resolveCandidateRecovery g pp mp cp = Inr q"
  shows "bp_Request (p_Budget q) = bp_Request (p_Budget g)
         \<and> p_Fallback q = (case mp of None \<Rightarrow> p_Fallback g | Some m \<Rightarrow> merge_fallback (pa_Fallback m) (p_Fallback g))
         \<and> p_Stream q = (case mp of None \<Rightarrow> p_Stream g | Some m \<Rightarrow> merge_stream (pa_Stream m) (p_Stream g))"
proof -
  have ov: "case x of None \<Rightarrow> True | Some p \<Rightarrow> pa_Fallback p = None \<and> pa_Stream p = None \<and> leaves_request p"
    if "if_stated buildRecoveryOverride b = Inr x" for b x
    using that buildRecoveryOverride_fields by (cases b) (auto simp: if_stated_def and_then_Inr)
  have md: "case mp of None \<Rightarrow> True | Some m \<Rightarrow> leaves_request m"
    using assms(2) buildModelRecovery_request by (auto split: option.split)
  have f: "fold_result resolve_step (candidate_layers pp mp cp) g = Inr q"
    using assms(4) by (auto simp: resolveCandidateRecovery_def Resolve_def split: sum.splits)
  have rs: "resolve_step l b = Inr c \<Longrightarrow>
      p_Fallback c = merge_fallback (pa_Fallback (l_Partial l)) (p_Fallback b)
      \<and> p_Stream c = merge_stream (pa_Stream (l_Partial l)) (p_Stream b)" for l b c
    using Merge_fields [of b "l_Partial l"] by (auto simp: resolve_step_def split: sum.splits)
  have "bp_Request (p_Budget q) = bp_Request (p_Budget g)"
    using fold_layers_fields [OF f] ov [OF assms(1)] ov [OF assms(3)] md
    by (auto simp: candidate_layers_def split: option.splits)
  moreover have "p_Fallback q = (case mp of None \<Rightarrow> p_Fallback g | Some m \<Rightarrow> merge_fallback (pa_Fallback m) (p_Fallback g))
      \<and> p_Stream q = (case mp of None \<Rightarrow> p_Stream g | Some m \<Rightarrow> merge_stream (pa_Stream m) (p_Stream g))"
    using f ov [OF assms(1)] ov [OF assms(3)]
    by (cases pp; cases mp; cases cp) (auto simp: candidate_layers_def split: sum.splits dest!: rs)
  ultimately show ?thesis by simp
qed

theorem request_scope_preserved_witness:
  "\<exists>q. resolveCandidateRecovery default_policy (Some ex_retry_partial) (Some ex_pinned_partial) None = Inr q
     \<and> bp_Request (p_Budget q) = bp_Request (p_Budget default_policy) \<and> fp_MaxCandidates (p_Fallback q) = 1"
proof -
  obtain q where q: "resolveCandidateRecovery default_policy (Some ex_retry_partial) (Some ex_pinned_partial) None = Inr q"
    using ex_resolves by blast
  have "if_stated buildRecoveryOverride (Some ex_retries_block) = Inr (Some ex_retry_partial)"
    using ex_layers by (simp add: if_stated_def)
  from request_scope_preserved [OF this ex_layers(2) if_stated_None q] q show ?thesis
    by (simp add: ex_pinned_partial_def merge_fallback_def)
qed

text \<open>
  The nanosecond spelling of every duration the program can hold, the most negative included,
  is read back as that duration, in every field; and an exact-status key is accepted exactly when it
  is the decimal spelling of a status between 100 and 599.
\<close>

theorem config_text_roundtrip:
  assumes "in_int64 d"
  shows "parseRecoveryDuration (itoa d @ ''ns'') field = Inr d
         \<and> (parseRecoveryStatusKey key = Inr n \<longleftrightarrow> 100 \<le> n \<and> n \<le> 599 \<and> key = itoa n)"
  using ParseDuration_ns [OF assms] status_key_iff [of key n] by (simp add: parseRecoveryDuration_def)

theorem config_text_roundtrip_witness:
  "parseRecoveryDuration (itoa (- 9223372036854775808) @ ''ns'') ''f'' = Inr (- 9223372036854775808)
   \<and> parseRecoveryStatusKey ''+99'' \<noteq> Inr 99"
  using config_text_roundtrip [of "- 9223372036854775808" "''f''" "''+99''" 99]
  by (simp add: in_int64_def int64_min_def int64_max_def)

text \<open>
  The sum of the elements is taken in a \<open>uint64\<close>, and two elements of half its range wrap around: such a
  text is accepted as the duration nought.
\<close>

lemma duration_wraps_to_zero:
  "parseRecoveryDuration ''9223372036854775808ns9223372036854775808ns'' field = Inr 0"
proof -
  have "ParseDuration ''9223372036854775808ns9223372036854775808ns'' = Some 0" by code_simp
  then show ?thesis by (simp add: parseRecoveryDuration_def)
qed

text \<open>A disabled legacy block is a one-candidate walk whatever count it carries.\<close>

lemma legacy_disabled_pins:
  "rpf_Enabled rf = Some False \<Longrightarrow>
     fp_MaxCandidates (merge_fallback (Some (buildLegacyFallback rf)) f) = 1
     \<and> \<not> fp_Enabled (merge_fallback (Some (buildLegacyFallback rf)) f)"
  by (simp add: buildLegacyFallback_def merge_fallback_def stated_def)

end
