(* ===== verification/Inject_Request.thy ===== *)
theory Inject_Request
  imports Usage_Capture
begin

text \<open>
  The request side of \<open>internal/inject\<close>: \<open>Probe\<close> (\<open>inject.go\<close>), the transforms of a chat and of a
  responses body (\<open>chat.go\<close>, \<open>responses.go\<close>), the builders of continuation bodies
  (\<open>continuation.go\<close>, \<open>continuation_messages.go\<close>), the thinking signal and its plan
  (\<open>thinking.go\<close>) and the image scan (\<open>vision.go\<close>).

  A body is the JSON value its bytes decode to. Every body that reaches a transform or a builder
  has passed \<open>Probe\<close>, so it is valid JSON, and a \<open>json.RawMessage\<close> inside it is the value of its
  bytes: its first byte tells the constructor. Decoding into a map keeps the last of a repeated
  member; encoding a map sorts its keys.
\<close>

section \<open>Maps of raw members\<close>

definition jput :: "string \<Rightarrow> Json \<Rightarrow> members \<Rightarrow> members" where
  "jput k v obj = filter (\<lambda>kv. fst kv \<noteq> k) obj @ [(k, v)]"

text \<open>\<open>json.Marshal\<close> of a \<open>map[string]json.RawMessage\<close>.\<close>

definition marshal_map :: "members \<Rightarrow> Json" where
  "marshal_map obj = JObj (map (\<lambda>k. (k, the (jget obj k))) (sort (remdups (map fst obj))))"

section \<open>Probe\<close>

text \<open>The decoder's own text inside the wrapped error is left out.\<close>

definition Probe :: "decoder \<Rightarrow> string \<Rightarrow> (string \<times> bool) result" where
  "Probe decode body =
     (case decode body of
        None \<Rightarrow> Inl (Err ''probe: body is not valid JSON'')
      | Some v \<Rightarrow>
          (case as_object v of
             None \<Rightarrow> Inr ([], False)
           | Some flds \<Rightarrow>
               (let model = (case jget flds ''model'' of
                               None \<Rightarrow> []
                             | Some raw \<Rightarrow> (case as_string raw of Some name \<Rightarrow> name | None \<Rightarrow> []))
                in case jget flds ''stream'' of
                     None \<Rightarrow> Inr (model, False)
                   | Some (JBool b) \<Rightarrow> Inr (model, b)
                   | Some JNull \<Rightarrow> Inr (model, False)
                   | Some _ \<Rightarrow> Inl (Err ''probe: stream is not a bool''))))"

section \<open>The two transforms\<close>

record Target =
  tg_UpstreamModel :: string
  tg_InjectionPrompt :: string

definition chat_message :: "string \<Rightarrow> string \<Rightarrow> Json" where
  "chat_message role content = JObj [(''role'', JStr role), (''content'', JStr content)]"

definition Chat :: "Json \<Rightarrow> Target \<Rightarrow> Json result" where
  "Chat body m =
     (case body of
        JNull \<Rightarrow> Inl (Err ''chat: request body must be a JSON object'')
      | JObj kvs \<Rightarrow>
          (let req = jput ''model'' (JStr (tg_UpstreamModel m)) kvs;
               req = (if tg_InjectionPrompt m \<noteq> []
                      then (case jget req ''messages'' of
                              Some (JArr msgs) \<Rightarrow>
                                jput ''messages''
                                  (JArr (chat_message ''system'' (tg_InjectionPrompt m) # msgs)) req
                            | _ \<Rightarrow> req)
                      else req)
           in Inr (marshal_map req))
      | _ \<Rightarrow> Inl (Err ''chat: decode request''))"

definition responses_item :: "string \<Rightarrow> string \<Rightarrow> string \<Rightarrow> Json" where
  "responses_item role typ txt0 =
     JObj [(''type'', JStr ''message''), (''role'', JStr role),
           (''content'', JArr [JObj [(''type'', JStr typ), (''text'', JStr txt0)]])]"

definition Responses :: "Json \<Rightarrow> Target \<Rightarrow> Json result" where
  "Responses body m =
     (case body of
        JNull \<Rightarrow> Inl (Err ''responses: request body must be a JSON object'')
      | JObj kvs \<Rightarrow>
          (let req = jput ''model'' (JStr (tg_UpstreamModel m)) kvs; prompt = tg_InjectionPrompt m in
           if prompt = [] then Inr (marshal_map req)
           else Inr (marshal_map
             (case jget req ''instructions'' of
                None \<Rightarrow> jput ''instructions'' (JStr prompt) req
              | Some (JStr existing) \<Rightarrow>
                  jput ''instructions'' (JStr (prompt @ [CHR 0x0A, CHR 0x0A] @ existing)) req
              | Some (JArr items) \<Rightarrow>
                  jput ''instructions'' (JArr (responses_item ''developer'' ''input_text'' prompt # items)) req
              | Some _ \<Rightarrow> req)))
      | _ \<Rightarrow> Inl (Err ''responses: decode request''))"

section \<open>Continuation bodies\<close>

definition refusalNotObject :: string where "refusalNotObject = ''not_object''"
definition refusalNoMessages :: string where "refusalNoMessages = ''no_messages''"
definition refusalUnsupportedShape :: string where "refusalUnsupportedShape = ''unsupported_shape''"
definition refusalPreviousResponseID :: string where "refusalPreviousResponseID = ''previous_response_id''"
definition refusalNoOp :: string where "refusalNoOp = ''no_op''"

datatype ObjectDecode = DecodedObject members | DuplicateMember | NotAnObject

definition decodeContinuationObject :: "Json \<Rightarrow> ObjectDecode" where
  "decodeContinuationObject v =
     (case v of
        JObj kvs \<Rightarrow> if distinct (map fst kvs) then DecodedObject kvs else DuplicateMember
      | _ \<Rightarrow> NotAnObject)"

definition continuationInstruction :: string where
  "continuationInstruction =
     ''The previous assistant response was cut off mid-generation. ''
     @ ''Continue it from the exact point where it stopped. ''
     @ ''Do not repeat, rephrase, or summarize any text that was already produced, and do not restart the answer. ''
     @ ''If it was cut off in the middle of a sentence, a word, or a code block, resume from exactly there.''"

text \<open>The assistant turn at the end of the messages: appended, or the last one extended.\<close>

definition extend_tail :: "members \<Rightarrow> string \<Rightarrow> string + Json" where
  "extend_tail tail prefx =
     (case (case jmember tail ''content'' of None \<Rightarrow> Some [] | Some raw \<Rightarrow> as_string raw) of
        None \<Rightarrow> Inl refusalUnsupportedShape
      | Some existing \<Rightarrow> Inr (marshal_map (jput ''content'' (JStr (existing @ prefx)) tail)))"

definition continue_messages :: "Json list \<Rightarrow> string \<Rightarrow> string + Json list" where
  "continue_messages msgs prefx =
     (case decodeContinuationObject (last msgs) of
        DecodedObject tail \<Rightarrow>
          (case (case jget tail ''role'' of None \<Rightarrow> None | Some raw \<Rightarrow> as_string raw) of
             None \<Rightarrow> Inl refusalUnsupportedShape
           | Some role \<Rightarrow>
               (if role \<noteq> ''assistant'' then Inr (msgs @ [chat_message ''assistant'' prefx])
                else case extend_tail tail prefx of
                       Inl e \<Rightarrow> Inl e
                     | Inr t \<Rightarrow> Inr (msgs[length msgs - 1 := t])))
      | _ \<Rightarrow> Inl refusalUnsupportedShape)"

definition BuildContinuationChat :: "Json \<Rightarrow> string \<Rightarrow> string + Json" where
  "BuildContinuationChat orig prefx =
     (case decodeContinuationObject orig of
        DuplicateMember \<Rightarrow> Inl refusalUnsupportedShape
      | NotAnObject \<Rightarrow> Inl refusalNotObject
      | DecodedObject req \<Rightarrow>
          (if prefx = [] then Inl refusalNoOp
           else case jget req ''messages'' of
             Some (JArr msgs) \<Rightarrow>
               (if msgs = [] then Inl refusalNoMessages
                else case continue_messages msgs prefx of
                       Inl e \<Rightarrow> Inl e
                     | Inr out \<Rightarrow>
                         Inr (marshal_map (jput ''stream'' (JBool True) (jput ''messages'' (JArr out) req))))
           | _ \<Rightarrow> Inl refusalNoMessages))"

text \<open>The items the client's input stands for.\<close>

definition input_items :: "members \<Rightarrow> string + Json list" where
  "input_items req =
     (case jmember req ''input'' of
        None \<Rightarrow> Inr []
      | Some (JStr existing) \<Rightarrow> Inr [responses_item ''user'' ''input_text'' existing]
      | Some (JArr items) \<Rightarrow>
          if list_all (\<lambda>i. case decodeContinuationObject i of DecodedObject _ \<Rightarrow> True | _ \<Rightarrow> False) items
          then Inr items else Inl refusalUnsupportedShape
      | Some _ \<Rightarrow> Inl refusalUnsupportedShape)"

definition BuildContinuationResponses :: "Json \<Rightarrow> string \<Rightarrow> string + Json" where
  "BuildContinuationResponses orig prefx =
     (case decodeContinuationObject orig of
        DuplicateMember \<Rightarrow> Inl refusalUnsupportedShape
      | NotAnObject \<Rightarrow> Inl refusalNotObject
      | DecodedObject req \<Rightarrow>
          (if prefx = [] then Inl refusalNoOp
           else if jmember req ''previous_response_id'' \<noteq> None then Inl refusalPreviousResponseID
           else case input_items req of
             Inl e \<Rightarrow> Inl e
           | Inr items \<Rightarrow>
               (let out = items @ [responses_item ''assistant'' ''output_text'' prefx,
                                   responses_item ''user'' ''input_text'' continuationInstruction]
                in Inr (marshal_map (jput ''stream'' (JBool True) (jput ''input'' (JArr out) req))))))"

definition BuildContinuationMessages :: "Json \<Rightarrow> string \<Rightarrow> string + Json" where
  "BuildContinuationMessages orig prefx = Inl refusalUnsupportedShape"

section \<open>The thinking signal\<close>

definition jsonString :: "Json option \<Rightarrow> string option" where
  "jsonString raw = (case raw of Some (JStr s) \<Rightarrow> Some s | _ \<Rightarrow> None)"

definition inner_string :: "members \<Rightarrow> string \<Rightarrow> string \<Rightarrow> string option" where
  "inner_string flds k inner =
     (case jget flds k of Some (JObj kvs) \<Rightarrow> jsonString (jget kvs inner) | _ \<Rightarrow> None)"

definition ThinkingIntent :: "decoder \<Rightarrow> string \<Rightarrow> bool" where
  "ThinkingIntent decode body =
     (case decode body of
        Some (JObj flds) \<Rightarrow>
          (case jsonString (jget flds ''reasoning_effort'') of Some s \<Rightarrow> s \<noteq> ''none'' | None \<Rightarrow> False)
          \<or> (case inner_string flds ''reasoning'' ''effort'' of Some s \<Rightarrow> s \<noteq> ''none'' | None \<Rightarrow> False)
          \<or> jget flds ''enable_thinking'' = Some (JBool True)
          \<or> inner_string flds ''thinking'' ''type'' = Some ''enabled''
      | _ \<Rightarrow> False)"

datatype ThinkingMode = ThinkingOff | ThinkingAuto | ThinkingAlways

record ThinkingUsage =
  tu_Mode :: ThinkingMode
  tu_Lo :: f64
  tu_Hi :: f64

record ThinkingPlan =
  tp_Active :: bool
  tp_Share :: f64

text \<open>Sum and difference of \<open>float64\<close> values; a range and its draw are finite.\<close>

fun f64_add :: "f64 \<Rightarrow> f64 \<Rightarrow> f64" where
  "f64_add (F64 x) (F64 y) = f64_round (x + y)"
| "f64_add (F64Inf s) (F64Inf t) = (if s = t then F64Inf s else F64NaN)"
| "f64_add (F64Inf s) (F64 y) = F64Inf s"
| "f64_add (F64 x) (F64Inf t) = F64Inf t"
| "f64_add F64NaN _ = F64NaN"
| "f64_add _ F64NaN = F64NaN"

fun f64_neg :: "f64 \<Rightarrow> f64" where
  "f64_neg (F64 x) = F64 (- x)"
| "f64_neg (F64Inf s) = F64Inf (\<not> s)"
| "f64_neg F64NaN = F64NaN"

definition ThinkingPlanFor :: "ThinkingUsage \<Rightarrow> decoder \<Rightarrow> string \<Rightarrow> f64 \<Rightarrow> ThinkingPlan" where
  "ThinkingPlanFor cfg decode body drawn =
     (let off = \<lparr>tp_Active = False, tp_Share = F64 0\<rparr> in
      if tu_Mode cfg = ThinkingOff then off
      else if tu_Mode cfg = ThinkingAuto \<and> \<not> ThinkingIntent decode body then off
      else if tu_Lo cfg \<noteq> F64NaN \<and> tu_Lo cfg = tu_Hi cfg then \<lparr>tp_Active = True, tp_Share = tu_Lo cfg\<rparr>
      else \<lparr>tp_Active = True,
            tp_Share = f64_add (tu_Lo cfg) (f64_mul drawn (f64_add (tu_Hi cfg) (f64_neg (tu_Lo cfg))))\<rparr>)"

section \<open>The image scan\<close>

text \<open>\<open>encoding/json\<close> decoding into a struct with the fields \<open>type\<close>, \<open>content\<close> and \<open>images\<close>.\<close>

record Part =
  pp_Type :: string
  pp_Content :: "Json option"
  pp_Images :: "Json option"

fun decode_part :: "bool \<Rightarrow> members \<Rightarrow> Part \<Rightarrow> Part option" where
  "decode_part typed [] p = Some p"
| "decode_part typed ((k, v) # kvs) p =
     (if typed \<and> is_field ''type'' k
      then (case v of
              JStr s \<Rightarrow> decode_part typed kvs (p\<lparr>pp_Type := s\<rparr>)
            | JNull \<Rightarrow> decode_part typed kvs p
            | _ \<Rightarrow> None)
      else if is_field ''content'' k then decode_part typed kvs (p\<lparr>pp_Content := Some v\<rparr>)
      else if is_field ''images'' k then decode_part typed kvs (p\<lparr>pp_Images := Some v\<rparr>)
      else decode_part typed kvs p)"

definition unmarshal_part :: "bool \<Rightarrow> Json \<Rightarrow> Part option" where
  "unmarshal_part typed v =
     (let none = \<lparr>pp_Type = [], pp_Content = None, pp_Images = None\<rparr> in
      case v of JObj kvs \<Rightarrow> decode_part typed kvs none | JNull \<Rightarrow> Some none | _ \<Rightarrow> None)"

definition has_data_uri :: "string \<Rightarrow> bool" where
  "has_data_uri s \<longleftrightarrow> sublist ''data:image/'' s"

definition hasImageInContent :: "Json option \<Rightarrow> bool" where
  "hasImageInContent content =
     (case content of
        Some (JArr parts) \<Rightarrow>
          list_ex (\<lambda>part. case unmarshal_part True part of
                            None \<Rightarrow> False
                          | Some p \<Rightarrow> pp_Type p \<in> {''image_url'', ''input_image'', ''image''}) parts
      | Some (JStr s) \<Rightarrow> has_data_uri s
      | _ \<Rightarrow> False)"

definition hasImageInMessages :: "Json list \<Rightarrow> bool" where
  "hasImageInMessages msgs =
     list_ex (\<lambda>msg. case unmarshal_part False msg of
                      None \<Rightarrow> False
                    | Some m \<Rightarrow>
                        (case pp_Images m of Some (JArr arr) \<Rightarrow> arr \<noteq> [] | _ \<Rightarrow> False)
                        \<or> hasImageInContent (pp_Content m)) msgs"

definition hasImageInResponses :: "Json list \<Rightarrow> bool" where
  "hasImageInResponses items =
     list_ex (\<lambda>item. case unmarshal_part True item of
                       None \<Rightarrow> False
                     | Some p \<Rightarrow>
                         pp_Type p = ''input_image'' \<or> pp_Type p = ''image''
                         \<or> hasImageInContent (pp_Content p) \<or> hasImageInContent (Some item)) items"

definition HasImage :: "decoder \<Rightarrow> string \<Rightarrow> bool" where
  "HasImage decode body =
     (case decode body of
        Some v \<Rightarrow>
          sublist ''image'' body
          \<and> (case v of
               JObj flds \<Rightarrow>
                 (case jget flds ''messages'' of Some (JArr msgs) \<Rightarrow> hasImageInMessages msgs | _ \<Rightarrow> False)
                 \<or> (case jget flds ''input'' of Some (JArr items) \<Rightarrow> hasImageInResponses items | _ \<Rightarrow> False)
             | _ \<Rightarrow> False)
      | None \<Rightarrow> False)"

section \<open>Facts\<close>

definition jfield :: "Json \<Rightarrow> string \<Rightarrow> Json option" where
  "jfield v k = (case v of JObj kvs \<Rightarrow> jget kvs k | _ \<Rightarrow> None)"

lemma jget_snoc: "jget (kvs @ [(a, v)]) k = (if k = a then Some v else jget kvs k)"
  by (simp add: jget_def)

lemma jget_filter: "k \<noteq> a \<Longrightarrow> jget (filter (\<lambda>kv. fst kv \<noteq> a) kvs) k = jget kvs k"
  by (induction kvs rule: rev_induct) (auto simp: jget_def)

lemma jget_jput [simp]: "jget (jput a v kvs) k = (if k = a then Some v else jget kvs k)"
  by (simp add: jput_def jget_snoc jget_filter)

lemma jget_None: "jget kvs k = None \<longleftrightarrow> k \<notin> fst ` set kvs"
  by (simp add: jget_def map_of_eq_None_iff)

lemma map_of_keys: "map_of (map (\<lambda>k. (k, f k)) ks) k = (if k \<in> set ks then Some (f k) else None)"
  by (induction ks) auto

lemma map_of_distinct_rev: "distinct (map fst kvs) \<Longrightarrow> map_of (rev kvs) = map_of kvs"
  by (subst map_of_inject_set) (simp_all add: rev_map [symmetric])

lemma jfield_marshal [simp]: "jfield (marshal_map obj) k = jget obj k"
proof -
  let ?ks = "sort (remdups (map fst obj))"
  have d: "distinct (map fst (map (\<lambda>k. (k, the (jget obj k))) ?ks))" by (simp add: o_def)
  have "jget (map (\<lambda>k. (k, the (jget obj k))) ?ks) k = map_of (map (\<lambda>k. (k, the (jget obj k))) ?ks) k"
    using map_of_distinct_rev [OF d] by (simp add: jget_def)
  also have "\<dots> = (if k \<in> fst ` set obj then Some (the (jget obj k)) else None)"
    by (simp add: map_of_keys)
  also have "\<dots> = jget obj k" using jget_None [of obj k] by (cases "jget obj k") auto
  finally show ?thesis by (simp add: jfield_def marshal_map_def)
qed

lemma marshal_map_object: "\<exists>kvs. marshal_map obj = JObj kvs \<and> distinct (map fst kvs) \<and> (\<forall>k. jget kvs k = jget obj k)"
  using jfield_marshal [of obj] by (simp add: marshal_map_def jfield_def o_def)

subsection \<open>The transforms\<close>

definition injected :: "Target \<Rightarrow> Json option \<Rightarrow> Json option" where
  "injected m msgs =
     (case msgs of
        Some (JArr ms) \<Rightarrow>
          Some (JArr ((if tg_InjectionPrompt m = [] then [] else [chat_message ''system'' (tg_InjectionPrompt m)]) @ ms))
      | _ \<Rightarrow> msgs)"

lemma Chat_object:
  "\<exists>out. Chat (JObj kvs) m = Inr out \<and> jfield out ''model'' = Some (JStr (tg_UpstreamModel m))
     \<and> jfield out ''messages'' = injected m (jget kvs ''messages'')
     \<and> (\<forall>k. k \<noteq> ''model'' \<longrightarrow> k \<noteq> ''messages'' \<longrightarrow> jfield out k = jget kvs k)"
  by (cases "jget kvs ''messages''") (auto simp: Chat_def injected_def Let_def split: Json.split)

lemma Chat_Inr:
  assumes "Chat body m = Inr out"
  shows "\<exists>kvs. body = JObj kvs"
  using assms by (cases body) (auto simp: Chat_def)

text \<open>What a responses body carries as its instructions after the merge.\<close>

definition instructed :: "string \<Rightarrow> Json option \<Rightarrow> Json option" where
  "instructed prompt ins =
     (if prompt = [] then ins
      else case ins of
        None \<Rightarrow> Some (JStr prompt)
      | Some (JStr s) \<Rightarrow> Some (JStr (prompt @ [CHR 0x0A, CHR 0x0A] @ s))
      | Some (JArr items) \<Rightarrow> Some (JArr (responses_item ''developer'' ''input_text'' prompt # items))
      | _ \<Rightarrow> ins)"

lemma Responses_object:
  "\<exists>out. Responses (JObj kvs) m = Inr out \<and> jfield out ''model'' = Some (JStr (tg_UpstreamModel m))
     \<and> jfield out ''instructions'' = instructed (tg_InjectionPrompt m) (jget kvs ''instructions'')
     \<and> (\<forall>k. k \<noteq> ''model'' \<longrightarrow> k \<noteq> ''instructions'' \<longrightarrow> jfield out k = jget kvs k)"
  by (cases "jget kvs ''instructions''") (auto simp: Responses_def instructed_def Let_def split: Json.split)

lemma Responses_Inr:
  assumes "Responses body m = Inr out"
  shows "\<exists>kvs. body = JObj kvs"
  using assms by (cases body) (auto simp: Responses_def)

subsection \<open>The continuation bodies\<close>

text \<open>An assistant turn that is the client's last one with the prefix behind its text.\<close>

definition turn_extends :: "Json \<Rightarrow> string \<Rightarrow> Json \<Rightarrow> bool" where
  "turn_extends old prefx new \<longleftrightarrow>
     (\<exists>existing. jfield new ''content'' = Some (JStr (existing @ prefx))
        \<and> (jfield old ''content'' = Some (JStr existing)
           \<or> existing = [] \<and> (jfield old ''content'' = None \<or> jfield old ''content'' = Some JNull)))
     \<and> (\<forall>k. k \<noteq> ''content'' \<longrightarrow> jfield new k = jfield old k)"

text \<open>The messages of a continuation: the turn appended, or the last assistant turn extended.\<close>

definition continued :: "Json list \<Rightarrow> string \<Rightarrow> Json list \<Rightarrow> bool" where
  "continued msgs prefx out \<longleftrightarrow>
     (if jfield (last msgs) ''role'' = Some (JStr ''assistant'')
      then \<exists>t. out = butlast msgs @ [t] \<and> turn_extends (last msgs) prefx t
      else out = msgs @ [chat_message ''assistant'' prefx])"

lemma extend_tail_extends:
  assumes "extend_tail kvs prefx = Inr t"
  shows "turn_extends (JObj kvs) prefx t"
proof -
  obtain ex where ex: "(case jmember kvs ''content'' of None \<Rightarrow> Some [] | Some raw \<Rightarrow> as_string raw) = Some ex"
    and t: "t = marshal_map (jput ''content'' (JStr (ex @ prefx)) kvs)"
    using assms by (auto simp: extend_tail_def split: option.splits)
  have "jget kvs ''content'' = Some (JStr ex) \<or> ex = [] \<and> (jget kvs ''content'' = None \<or> jget kvs ''content'' = Some JNull)"
    using ex by (auto simp: jmember_def as_string_def split: option.splits if_splits Json.splits)
  then show ?thesis by (auto simp: turn_extends_def t jfield_def [of "JObj kvs"])
qed

lemma continue_messages_continued:
  assumes "continue_messages msgs prefx = Inr out" and "msgs \<noteq> []"
  shows "continued msgs prefx out"
proof -
  obtain kvs where l: "last msgs = JObj kvs"
    using assms by (auto simp: continue_messages_def decodeContinuationObject_def split: Json.splits if_splits)
  obtain role where role: "(case jget kvs ''role'' of None \<Rightarrow> None | Some raw \<Rightarrow> as_string raw) = Some role"
    and o: "(if role \<noteq> ''assistant'' then Inr (msgs @ [chat_message ''assistant'' prefx])
                else case extend_tail kvs prefx of
                       Inl e \<Rightarrow> Inl e
                     | Inr t \<Rightarrow> Inr (msgs[length msgs - 1 := t])) = Inr out"
    using assms by (auto simp: continue_messages_def decodeContinuationObject_def l split: option.splits if_splits)
  have r: "jfield (last msgs) ''role'' = Some (JStr ''assistant'') \<longleftrightarrow> role = ''assistant''"
    using role by (auto simp: l jfield_def as_string_def split: option.splits Json.splits)
  show ?thesis
  proof (cases "role = ''assistant''")
    case True
    then obtain t where t: "extend_tail kvs prefx = Inr t" "out = msgs[length msgs - 1 := t]"
      using o by (auto split: sum.splits)
    have "out = butlast msgs @ [t]" using assms(2) t(2) by (cases msgs rule: rev_cases) simp_all
    then show ?thesis using True r extend_tail_extends [OF t(1)] by (auto simp: continued_def l)
  next
    case False
    then show ?thesis using o r by (simp add: continued_def)
  qed
qed

lemma BuildContinuationChat_object:
  assumes "BuildContinuationChat orig prefx = Inr body"
  obtains req msgs out where "orig = JObj req" "prefx \<noteq> []" "msgs \<noteq> []" "jget req ''messages'' = Some (JArr msgs)"
    "continued msgs prefx out" "jfield body ''messages'' = Some (JArr out)" "jfield body ''stream'' = Some (JBool True)"
    "\<And>k. k \<noteq> ''messages'' \<Longrightarrow> k \<noteq> ''stream'' \<Longrightarrow> jfield body k = jget req k" "\<exists>kvs. body = JObj kvs"
proof -
  obtain req where req: "orig = JObj req" "distinct (map fst req)"
    using assms by (auto simp: BuildContinuationChat_def decodeContinuationObject_def split: Json.splits if_splits)
  then obtain msgs out where m: "prefx \<noteq> []" "jget req ''messages'' = Some (JArr msgs)" "msgs \<noteq> []"
    "continue_messages msgs prefx = Inr out"
    and b: "body = marshal_map (jput ''stream'' (JBool True) (jput ''messages'' (JArr out) req))"
    using assms by (auto simp: BuildContinuationChat_def decodeContinuationObject_def
        split: if_splits option.splits Json.splits sum.splits)
  show thesis
    by (rule that [OF req(1) m(1,3,2) continue_messages_continued [OF m(4,3)]])
      (simp_all add: b, simp add: marshal_map_def)
qed


lemma input_items_objects:
  "input_items req = Inr items \<Longrightarrow>
     (case jget req ''input'' of
        Some (JArr given) \<Rightarrow> items = given
      | Some (JStr existing) \<Rightarrow> items = [responses_item ''user'' ''input_text'' existing]
      | _ \<Rightarrow> items = [])"
  by (auto simp: input_items_def jmember_def split: option.splits if_splits Json.splits)

lemma BuildContinuationResponses_object:
  assumes "BuildContinuationResponses orig prefx = Inr body"
  obtains req items where "orig = JObj req" "prefx \<noteq> []" "jmember req ''previous_response_id'' = None"
    "input_items req = Inr items"
    "jfield body ''input'' = Some (JArr (items @ [responses_item ''assistant'' ''output_text'' prefx,
        responses_item ''user'' ''input_text'' continuationInstruction]))"
    "jfield body ''stream'' = Some (JBool True)"
    "\<And>k. k \<noteq> ''input'' \<Longrightarrow> k \<noteq> ''stream'' \<Longrightarrow> jfield body k = jget req k" "\<exists>kvs. body = JObj kvs"
proof -
  obtain req where req: "orig = JObj req" "distinct (map fst req)"
    using assms by (auto simp: BuildContinuationResponses_def decodeContinuationObject_def split: Json.splits if_splits)
  then obtain items where m: "prefx \<noteq> []" "jmember req ''previous_response_id'' = None" "input_items req = Inr items"
    and b: "body = marshal_map (jput ''stream'' (JBool True) (jput ''input'' (JArr (items @ [responses_item ''assistant'' ''output_text'' prefx,
        responses_item ''user'' ''input_text'' continuationInstruction])) req))"
    using assms by (auto simp: BuildContinuationResponses_def decodeContinuationObject_def Let_def
        split: if_splits option.splits Json.splits sum.splits)
  show thesis by (rule that [OF req(1) m]) (simp_all add: b, simp add: marshal_map_def)
qed

lemma Chat_fields:
  assumes "Chat body m = Inr out"
  shows "jfield out ''model'' = Some (JStr (tg_UpstreamModel m))"
    and "jfield out ''messages'' = injected m (jfield body ''messages'')"
    and "k \<noteq> ''model'' \<Longrightarrow> k \<noteq> ''messages'' \<Longrightarrow> jfield out k = jfield body k"
proof -
  obtain kvs where "body = JObj kvs" using Chat_Inr [OF assms] by blast
  then show "jfield out ''model'' = Some (JStr (tg_UpstreamModel m))"
    "jfield out ''messages'' = injected m (jfield body ''messages'')"
    "k \<noteq> ''model'' \<Longrightarrow> k \<noteq> ''messages'' \<Longrightarrow> jfield out k = jfield body k"
    using Chat_object [of kvs m] assms by (auto simp: jfield_def [of "JObj kvs"])
qed

lemma Responses_fields:
  assumes "Responses body m = Inr out"
  shows "jfield out ''model'' = Some (JStr (tg_UpstreamModel m))"
    and "jfield out ''instructions'' = instructed (tg_InjectionPrompt m) (jfield body ''instructions'')"
    and "k \<noteq> ''model'' \<Longrightarrow> k \<noteq> ''instructions'' \<Longrightarrow> jfield out k = jfield body k"
proof -
  obtain kvs where "body = JObj kvs" using Responses_Inr [OF assms] by blast
  then show "jfield out ''model'' = Some (JStr (tg_UpstreamModel m))"
    "jfield out ''instructions'' = instructed (tg_InjectionPrompt m) (jfield body ''instructions'')"
    "k \<noteq> ''model'' \<Longrightarrow> k \<noteq> ''instructions'' \<Longrightarrow> jfield out k = jfield body k"
    using Responses_object [of kvs m] assms by (auto simp: jfield_def [of "JObj kvs"])
qed

section \<open>Properties\<close>

definition ex_chat :: Json where
  "ex_chat = JObj [(''user'', JStr ''u''), (''messages'', JArr [JObj [(''role'', JStr ''user''), (''content'', JStr ''hi'')]])]"

definition ex_target :: Target where
  "ex_target = \<lparr>tg_UpstreamModel = ''up'', tg_InjectionPrompt = ''be brief''\<rparr>"

definition ex_responses :: Json where
  "ex_responses = JObj [(''input'', JStr ''hi''), (''user'', JStr ''u'')]"

text \<open>
  A transform rewrites the model, merges the prompt into its one slot and touches nothing else:
  every object is accepted, nothing but an object is; the upstream model is set; the chat prompt is
  put in front of the messages, all of them kept in order, and a body without a messages array
  is left alone; the responses prompt goes into the instructions; every other member keeps
  its value.
\<close>

theorem transforms_preserve_members:
  "((\<exists>out. Chat body m = Inr out) \<longleftrightarrow> (\<exists>kvs. body = JObj kvs))
   \<and> ((\<exists>out. Responses body m = Inr out) \<longleftrightarrow> (\<exists>kvs. body = JObj kvs))
   \<and> (\<forall>out. Chat body m = Inr out \<longrightarrow>
        jfield out ''model'' = Some (JStr (tg_UpstreamModel m))
        \<and> jfield out ''messages'' = injected m (jfield body ''messages'')
        \<and> (\<forall>k. k \<noteq> ''model'' \<and> k \<noteq> ''messages'' \<longrightarrow> jfield out k = jfield body k))
   \<and> (\<forall>out. Responses body m = Inr out \<longrightarrow>
        jfield out ''model'' = Some (JStr (tg_UpstreamModel m))
        \<and> jfield out ''instructions'' = instructed (tg_InjectionPrompt m) (jfield body ''instructions'')
        \<and> (\<forall>k. k \<noteq> ''model'' \<and> k \<noteq> ''instructions'' \<longrightarrow> jfield out k = jfield body k))"
proof (intro conjI)
  show "(\<exists>out. Chat body m = Inr out) \<longleftrightarrow> (\<exists>kvs. body = JObj kvs)"
    using Chat_object [of _ m] Chat_Inr [of body m] by metis
  show "(\<exists>out. Responses body m = Inr out) \<longleftrightarrow> (\<exists>kvs. body = JObj kvs)"
    using Responses_object [of _ m] Responses_Inr [of body m] by metis
qed (simp_all add: Chat_fields Responses_fields)

theorem transforms_preserve_members_witness:
  "\<exists>out. Chat ex_chat ex_target = Inr out \<and> jfield out ''user'' = Some (JStr ''u'')
     \<and> jfield out ''messages'' = Some (JArr [chat_message ''system'' ''be brief'',
          JObj [(''role'', JStr ''user''), (''content'', JStr ''hi'')]])"
proof -
  have "ex_chat = JObj [(''user'', JStr ''u''), (''messages'', JArr [JObj [(''role'', JStr ''user''), (''content'', JStr ''hi'')]])]"
    by (rule ex_chat_def)
  then obtain out where out: "Chat ex_chat ex_target = Inr out"
    using transforms_preserve_members [THEN conjunct1, of ex_chat ex_target] by metis
  have "jfield out ''messages'' = injected ex_target (jfield ex_chat ''messages'')
      \<and> jfield out ''user'' = jfield ex_chat ''user''"
    using transforms_preserve_members [THEN conjunct2, THEN conjunct2, THEN conjunct1, rule_format, OF out] by simp
  then show ?thesis using out
    by (simp add: ex_chat_def ex_target_def jfield_def [of "JObj xs" for xs] jget_def injected_def)
qed

text \<open>
  C34: The request of a chat continuation, the transform of the built body, differs from the first
  request, the transform of the client's body, in the assistant turn and the stream flag and
  in nothing else: the messages are those of the first request, the injected prompt included,
  and behind them the text the client has seen, either as a new assistant turn or at the end of
  the last turn, when that is the assistant's, whose other members stay.
\<close>

theorem chat_continuation_extends_request:
  assumes "Chat orig m = Inr first" and "BuildContinuationChat orig prefx = Inr body" and "Chat body m = Inr hop"
  shows "prefx \<noteq> []
    \<and> (\<exists>msgs out. jfield first ''messages'' = Some (JArr msgs) \<and> msgs \<noteq> []
         \<and> continued msgs prefx out \<and> jfield hop ''messages'' = Some (JArr out))
    \<and> jfield hop ''stream'' = Some (JBool True)
    \<and> (\<forall>k. k \<noteq> ''messages'' \<and> k \<noteq> ''stream'' \<longrightarrow> jfield hop k = jfield first k)"
proof -
  obtain req msgs out where o: "orig = JObj req" "prefx \<noteq> []" "msgs \<noteq> []" "jget req ''messages'' = Some (JArr msgs)"
    "continued msgs prefx out" "jfield body ''messages'' = Some (JArr out)" "jfield body ''stream'' = Some (JBool True)"
    "\<And>k. k \<noteq> ''messages'' \<Longrightarrow> k \<noteq> ''stream'' \<Longrightarrow> jfield body k = jget req k" "\<exists>kvs. body = JObj kvs"
    by (rule BuildContinuationChat_object [OF assms(2)]) blast
  let ?sys = "if tg_InjectionPrompt m = [] then [] else [chat_message ''system'' (tg_InjectionPrompt m)]"
  have f: "jfield first ''messages'' = Some (JArr (?sys @ msgs))"
    using Chat_fields(2) [OF assms(1)] o(1,4) by (simp add: injected_def jfield_def [of "JObj req"])
  have h: "jfield hop ''messages'' = Some (JArr (?sys @ out))"
    using Chat_fields(2) [OF assms(3)] o(6) by (simp add: injected_def)
  have "continued (?sys @ msgs) prefx (?sys @ out)"
    using o(3,5) by (auto simp: continued_def butlast_append split: if_splits)
  moreover have "jfield hop k = jfield first k" if "k \<noteq> ''messages''" "k \<noteq> ''stream''" for k
    using Chat_fields(1,3) [OF assms(1)] Chat_fields(1,3) [OF assms(3)] o(1,8) that
    by (cases "k = ''model''") (simp_all add: jfield_def [of "JObj req"])
  moreover have "jfield hop ''stream'' = Some (JBool True)" using Chat_fields(3) [OF assms(3)] o(7) by simp
  ultimately show ?thesis using o(2,3) f h by blast
qed

theorem chat_continuation_extends_request_witness:
  "\<exists>body hop. BuildContinuationChat ex_chat ''hel'' = Inr body \<and> Chat body ex_target = Inr hop
     \<and> jfield hop ''user'' = Some (JStr ''u'')"
proof -
  obtain first where f: "Chat ex_chat ex_target = Inr first" "jfield first ''user'' = Some (JStr ''u'')"
  proof -
    obtain out where "Chat ex_chat ex_target = Inr out" using Chat_object [of _ ex_target] unfolding ex_chat_def by metis
    moreover from Chat_fields(3) [OF this, of "''user''"] have "jfield out ''user'' = Some (JStr ''u'')"
      by (simp add: ex_chat_def jfield_def [of "JObj xs" for xs] jget_def)
    ultimately show thesis by (rule that)
  qed
  obtain body where b: "BuildContinuationChat ex_chat ''hel'' = Inr body" "\<exists>kvs. body = JObj kvs"
    by (simp add: BuildContinuationChat_def ex_chat_def decodeContinuationObject_def jget_def
        continue_messages_def as_string_def marshal_map_def)
  then obtain hop where h: "Chat body ex_target = Inr hop" using Chat_object by blast
  have "jfield hop ''user'' = jfield first ''user''"
    using chat_continuation_extends_request [OF f(1) b(1) h] by simp
  then show ?thesis using b(1) h f by auto
qed

text \<open>
  The request of a responses continuation differs from the first request in its input and the
  stream flag and in nothing else: the input is the client's, a string as the user turn it stands
  for, then the text the client has seen as an assistant turn, then the fixed instruction; a body
  that names a previous response is never continued.
\<close>

theorem responses_continuation_extends_request:
  assumes "Responses orig m = Inr first" and "BuildContinuationResponses orig prefx = Inr body"
    and "Responses body m = Inr hop"
  shows "prefx \<noteq> []
    \<and> (jfield first ''previous_response_id'' = None \<or> jfield first ''previous_response_id'' = Some JNull)
    \<and> (\<exists>items. (case jfield first ''input'' of
                  Some (JArr given) \<Rightarrow> items = given
                | Some (JStr existing) \<Rightarrow> items = [responses_item ''user'' ''input_text'' existing]
                | _ \<Rightarrow> items = [])
         \<and> jfield hop ''input'' = Some (JArr (items @ [responses_item ''assistant'' ''output_text'' prefx,
             responses_item ''user'' ''input_text'' continuationInstruction])))
    \<and> jfield hop ''stream'' = Some (JBool True)
    \<and> (\<forall>k. k \<noteq> ''input'' \<and> k \<noteq> ''stream'' \<longrightarrow> jfield hop k = jfield first k)"
proof -
  obtain req items where o: "orig = JObj req" "prefx \<noteq> []" "jmember req ''previous_response_id'' = None"
    "input_items req = Inr items"
    "jfield body ''input'' = Some (JArr (items @ [responses_item ''assistant'' ''output_text'' prefx,
        responses_item ''user'' ''input_text'' continuationInstruction]))"
    "jfield body ''stream'' = Some (JBool True)"
    "\<And>k. k \<noteq> ''input'' \<Longrightarrow> k \<noteq> ''stream'' \<Longrightarrow> jfield body k = jget req k"
    by (rule BuildContinuationResponses_object [OF assms(2)]) blast
  have g: "jfield first k = jget req k" if "k \<noteq> ''model''" "k \<noteq> ''instructions''" for k
    using Responses_fields(3) [OF assms(1) that] o(1) by (simp add: jfield_def [of "JObj req"])
  have "jfield hop k = jfield first k" if "k \<noteq> ''input''" "k \<noteq> ''stream''" for k
    using Responses_fields [OF assms(1)] Responses_fields [OF assms(3)] o(1,7) that
    by (cases "k = ''model''"; cases "k = ''instructions''") (simp_all add: jfield_def [of "JObj req"])
  moreover have "jfield hop ''stream'' = Some (JBool True)" using Responses_fields(3) [OF assms(3)] o(6) by simp
  moreover have "jfield hop ''input'' = jfield body ''input''" using Responses_fields(3) [OF assms(3)] by simp
  moreover have "jget req ''previous_response_id'' = None \<or> jget req ''previous_response_id'' = Some JNull"
    using o(3) by (auto simp: jmember_def split: option.splits if_splits)
  ultimately show ?thesis using o(2,5) g input_items_objects [OF o(4)] by auto
qed

theorem responses_continuation_extends_request_witness:
  "\<exists>body hop. BuildContinuationResponses ex_responses ''hel'' = Inr body \<and> Responses body ex_target = Inr hop
     \<and> jfield hop ''user'' = Some (JStr ''u'')"
proof -
  obtain first where f: "Responses ex_responses ex_target = Inr first" "jfield first ''user'' = Some (JStr ''u'')"
  proof -
    obtain out where "Responses ex_responses ex_target = Inr out"
      using Responses_object [of _ ex_target] unfolding ex_responses_def by metis
    moreover from Responses_fields(3) [OF this, of "''user''"] have "jfield out ''user'' = Some (JStr ''u'')"
      by (simp add: ex_responses_def jfield_def [of "JObj xs" for xs] jget_def)
    ultimately show thesis by (rule that)
  qed
  obtain body where b: "BuildContinuationResponses ex_responses ''hel'' = Inr body" "\<exists>kvs. body = JObj kvs"
    by (simp add: BuildContinuationResponses_def ex_responses_def decodeContinuationObject_def jget_def
        jmember_def input_items_def marshal_map_def Let_def)
  then obtain hop where h: "Responses body ex_target = Inr hop" using Responses_object by blast
  have "jfield hop ''user'' = jfield first ''user''"
    using responses_continuation_extends_request [OF f(1) b(1) h] by simp
  then show ?thesis using b(1) h f by auto
qed

text \<open>A retry of the same body is never built: the refusal of an empty prefix comes before all else.\<close>

lemma empty_prefix_refused:
  "BuildContinuationChat orig [] \<noteq> Inr body" "BuildContinuationResponses orig [] \<noteq> Inr body"
  "BuildContinuationMessages orig prefx \<noteq> Inr body"
  by (auto simp: BuildContinuationChat_def BuildContinuationResponses_def BuildContinuationMessages_def
      decodeContinuationObject_def split: Json.splits)

text \<open>
  The scan of a responses input walks an item a second time as if it were a content value, for the
  clients that send a flat array of parts; an item is an object there, which that walk never
  looks into, so a flat \<open>image_url\<close> part is not seen.
\<close>

lemma flat_image_part_unseen:
  "hasImageInContent (Some (JObj kvs)) = False"
  "\<not> hasImageInResponses [JObj [(''type'', JStr ''image_url''), (''image_url'', JStr ''https'')]]"
  by (simp_all add: hasImageInContent_def hasImageInResponses_def unmarshal_part_def is_field_def upper_def)

end
