(* ===== verification/Json_Text.thy ===== *)
theory Json_Text
  imports Prelude
begin

text \<open>
  JSON as text: the byte scanner that \<open>internal/inject/rewrite.go\<close>, \<open>usage.go\<close> and \<open>strip.go\<close>
  share (positions of white space, strings, collections and values inside a body), the walk over
  the members of an object, and the splice. \<open>json.Valid\<close> is a recursive-descent reader that
  returns the document with every byte it was written with, white space and escapes included, so
  that printing a document gives its text back. The lemmas relate the positions the scanner
  finds to the parts of the document.
\<close>

section \<open>Documents\<close>

abbreviation quot :: char where "quot \<equiv> CHR 0x22"
abbreviation bslash :: char where "bslash \<equiv> CHR 0x5C"

text \<open>
  A literal is a number or one of the three words; a string carries the bytes between its quotes.
  An empty collection holds the white space between its brackets.
\<close>

datatype Doc = Lit string | Str string | Arr string "DocElem list" | Obj string "DocMember list"
  and DocElem = Elem string Doc string
  and DocMember = Member string string string string Doc string

definition quoted :: "string \<Rightarrow> string" where
  "quoted s = quot # s @ [quot]"

fun render :: "Doc \<Rightarrow> string"
  and render_elems :: "DocElem list \<Rightarrow> string"
  and render_members :: "DocMember list \<Rightarrow> string" where
  "render (Lit t) = t"
| "render (Str s) = quoted s"
| "render (Arr w es) = CHR ''['' # (if es = [] then w else render_elems es) @ '']''"
| "render (Obj w ms) = CHR ''{'' # (if ms = [] then w else render_members ms) @ ''}''"
| "render_elems [] = []"
| "render_elems (Elem a v b # es) =
     a @ render v @ b @ (if es = [] then [] else CHR '','' # render_elems es)"
| "render_members [] = []"
| "render_members (Member a k b c v d # ms) =
     a @ quoted k @ b @ CHR '':'' # c @ render v @ d @ (if ms = [] then [] else CHR '','' # render_members ms)"

section \<open>The scanner\<close>

definition isWS :: "char \<Rightarrow> bool" where
  "isWS c \<longleftrightarrow> c = CHR '' '' \<or> c = CHR 0x09 \<or> c = CHR 0x0A \<or> c = CHR 0x0D"

function skipWS :: "string \<Rightarrow> nat \<Rightarrow> nat" where
  "skipWS body i = (if i < length body \<and> isWS (body ! i) then skipWS body (i + 1) else i)"
  by auto
termination by (relation "measure (\<lambda>(body, i). length body - i)") auto

declare skipWS.simps [simp del]

text \<open>The loop of \<open>valueEnd\<close> from \<open>k\<close>, the position behind the opening quote.\<close>

function string_end :: "string \<Rightarrow> nat \<Rightarrow> nat" where
  "string_end body k =
     (if k < length body
      then (if body ! k = bslash then string_end body (k + 2)
            else if body ! k = quot then k + 1
            else string_end body (k + 1))
      else k)"
  by auto
termination by (relation "measure (\<lambda>(body, k). length body - k)") auto

declare string_end.simps [simp del]

definition valueEnd :: "string \<Rightarrow> nat \<Rightarrow> nat" where
  "valueEnd body j = string_end body (j + 1)"

text \<open>The loop of \<open>collectionEnd\<close>, with its depth and its string flag.\<close>

function collection_end :: "string \<Rightarrow> nat \<Rightarrow> nat \<Rightarrow> int \<Rightarrow> bool \<Rightarrow> nat" where
  "collection_end body fin i depth inString =
     (if \<not> i < fin then fin
      else if inString
      then (if body ! i = bslash then collection_end body fin (i + 2) depth True
            else if body ! i = quot then collection_end body fin (i + 1) depth False
            else collection_end body fin (i + 1) depth True)
      else if body ! i = quot then collection_end body fin (i + 1) depth True
      else if body ! i = CHR ''{'' \<or> body ! i = CHR ''['' then collection_end body fin (i + 1) (depth + 1) False
      else if body ! i = CHR ''}'' \<or> body ! i = CHR '']''
      then (if depth - 1 = 0 then i + 1 else collection_end body fin (i + 1) (depth - 1) False)
      else collection_end body fin (i + 1) depth False)"
  by pat_completeness auto
termination by (relation "measure (\<lambda>(body, fin, i, d, s). fin - i)") auto

declare collection_end.simps [simp del]

definition collectionEnd :: "string \<Rightarrow> nat \<Rightarrow> nat \<Rightarrow> nat" where
  "collectionEnd body i fin = collection_end body fin i 0 False"

function scalar_end :: "string \<Rightarrow> nat \<Rightarrow> nat \<Rightarrow> nat" where
  "scalar_end body j fin =
     (if j < fin \<and> body ! j \<noteq> CHR '','' \<and> body ! j \<noteq> CHR ''}'' \<and> body ! j \<noteq> CHR '']''
      then scalar_end body (j + 1) fin else j)"
  by auto
termination by (relation "measure (\<lambda>(body, j, fin). fin - j)") auto

declare scalar_end.simps [simp del]

definition skipValue :: "string \<Rightarrow> nat \<Rightarrow> nat \<Rightarrow> nat" where
  "skipValue body i fin =
     (if body ! i = quot then valueEnd body i
      else if body ! i = CHR ''{'' \<or> body ! i = CHR ''['' then collectionEnd body i fin
      else scalar_end body i fin)"

text \<open>\<open>body[start:end]\<close>\<close>

definition slice :: "string \<Rightarrow> nat \<Rightarrow> nat \<Rightarrow> string" where
  "slice body i j = take (j - i) (drop i body)"

definition isKey :: "string \<Rightarrow> nat \<Rightarrow> nat \<Rightarrow> string \<Rightarrow> bool" where
  "isKey body i j name \<longleftrightarrow> slice body i j = quoted name"

text \<open>
  The member loop the three scanners have in common: the positions of a key and of its value are
  handed to \<open>act\<close>, which answers with what it has recorded and where the value ends. Each round
  moves past a key, so as many rounds as the body has bytes are enough.
\<close>

fun member_walk ::
  "nat \<Rightarrow> string \<Rightarrow> nat \<Rightarrow> (nat \<Rightarrow> nat \<Rightarrow> nat \<Rightarrow> 'a \<Rightarrow> 'a \<times> nat) \<Rightarrow> nat \<Rightarrow> 'a \<Rightarrow> 'a" where
  "member_walk 0 body fin act i acc = acc"
| "member_walk (Suc n) body fin act i acc =
     (let keyStart = skipWS body i in
      if fin \<le> keyStart \<or> body ! keyStart \<noteq> quot then acc
      else
        let keyEnd = valueEnd body keyStart; i = skipWS body keyEnd in
        if fin \<le> i \<or> body ! i \<noteq> CHR '':'' then acc
        else
          let i = skipWS body (i + 1) in
          if fin \<le> i then acc
          else
            let (acc', i) = act keyStart keyEnd i acc; i = skipWS body i in
            member_walk n body fin act (if i < fin \<and> body ! i = CHR '','' then i + 1 else i) acc')"

definition object_walk ::
  "string \<Rightarrow> nat \<Rightarrow> nat \<Rightarrow> (nat \<Rightarrow> nat \<Rightarrow> nat \<Rightarrow> 'a \<Rightarrow> 'a \<times> nat) \<Rightarrow> 'a \<Rightarrow> 'a" where
  "object_walk body start fin act acc =
     (let i = skipWS body start in
      if fin \<le> i \<or> body ! i \<noteq> CHR ''{'' then acc
      else member_walk (length body) body fin act (i + 1) acc)"

section \<open>Edits\<close>

record edit =
  ed_start :: nat
  ed_end :: nat
  ed_repl :: string

text \<open>
  \<open>body[prev:e.start]\<close> with \<open>prev\<close> behind \<open>e.start\<close> panics, as does a slice past the end: that
  is \<open>None\<close>.
\<close>

fun splice_from :: "string \<Rightarrow> nat \<Rightarrow> edit list \<Rightarrow> string option" where
  "splice_from body prev [] = (if prev \<le> length body then Some (drop prev body) else None)"
| "splice_from body prev (e # es) =
     (if prev \<le> ed_start e \<and> ed_start e \<le> length body
      then map_option (\<lambda>r. slice body prev (ed_start e) @ ed_repl e @ r) (splice_from body (ed_end e) es)
      else None)"

definition splice :: "string \<Rightarrow> edit list \<Rightarrow> string option" where
  "splice body edits = splice_from body 0 edits"

section \<open>Validity\<close>

type_synonym 'a reader = "string \<Rightarrow> ('a \<times> string) option"

definition read_ws :: "string \<Rightarrow> string \<times> string" where
  "read_ws s = (takeWhile isWS s, dropWhile isWS s)"

definition is_hex :: "char \<Rightarrow> bool" where
  "is_hex c \<longleftrightarrow> is_digit c \<or> (CHR ''a'' \<le> c \<and> c \<le> CHR ''f'') \<or> (CHR ''A'' \<le> c \<and> c \<le> CHR ''F'')"

text \<open>The bytes of a string up to its closing quote; control bytes and unknown escapes are refused.\<close>

fun read_string :: "string reader" where
  "read_string [] = None"
| "read_string (c # s) =
     (if c = quot then Some ([], s)
      else if c = bslash
      then (case s of
              e # r \<Rightarrow>
                if e \<in> set ''bfnrt/'' \<union> {quot, bslash}
                then map_option (\<lambda>(t, q). (c # e # t, q)) (read_string r)
                else if e = CHR ''u''
                then (case r of
                        h1 # h2 # h3 # h4 # q \<Rightarrow>
                          if is_hex h1 \<and> is_hex h2 \<and> is_hex h3 \<and> is_hex h4
                          then map_option (\<lambda>(t, z). (c # e # h1 # h2 # h3 # h4 # t, z)) (read_string q)
                          else None
                      | _ \<Rightarrow> None)
                else None
            | [] \<Rightarrow> None)
      else if c < CHR 0x20 then None
      else map_option (\<lambda>(t, q). (c # t, q)) (read_string s))"

definition read_digits :: "string reader" where
  "read_digits s = (let d = takeWhile is_digit s in if d = [] then None else Some (d, dropWhile is_digit s))"

definition read_fraction :: "string reader" where
  "read_fraction s =
     (case s of
        c # r \<Rightarrow> if c = CHR ''.'' then map_option (\<lambda>(d, q). (c # d, q)) (read_digits r) else Some ([], s)
      | [] \<Rightarrow> Some ([], s))"

definition read_exponent :: "string reader" where
  "read_exponent s =
     (case s of
        c # r \<Rightarrow>
          if c = CHR ''e'' \<or> c = CHR ''E''
          then (case r of
                  g # q \<Rightarrow>
                    if g = CHR ''+'' \<or> g = CHR ''-'' then map_option (\<lambda>(d, z). (c # g # d, z)) (read_digits q)
                    else map_option (\<lambda>(d, z). (c # d, z)) (read_digits r)
                | [] \<Rightarrow> None)
          else Some ([], s)
      | [] \<Rightarrow> Some ([], s))"

definition read_natural :: "string reader" where
  "read_natural s =
     (case s of
        c # r \<Rightarrow> if c = CHR ''0'' then Some ([c], r) else read_digits s
      | [] \<Rightarrow> None)"

definition read_number :: "string reader" where
  "read_number s =
     (let (sg, r) = (if s \<noteq> [] \<and> hd s = CHR ''-'' then (''-'', tl s) else ([], s)) in
      case read_natural r of
        None \<Rightarrow> None
      | Some (n, r1) \<Rightarrow>
          (case read_fraction r1 of
             None \<Rightarrow> None
           | Some (f, r2) \<Rightarrow> map_option (\<lambda>(e, r3). (sg @ n @ f @ e, r3)) (read_exponent r2)))"

definition read_word :: "string \<Rightarrow> string reader" where
  "read_word w s = (if take (length w) s = w then Some (w, drop (length w) s) else None)"

text \<open>
  \<open>checkValid\<close>: \<open>depth\<close> is how many collections may still be opened (\<open>maxNestingDepth\<close> is 10000),
  and \<open>n\<close> bounds the recursion: two steps open a collection and one passes a comma, each of which
  consumes a byte, so twice the length of the text is enough.
\<close>

fun read_value :: "nat \<Rightarrow> nat \<Rightarrow> Doc reader"
  and read_elems :: "nat \<Rightarrow> nat \<Rightarrow> DocElem list reader"
  and read_members :: "nat \<Rightarrow> nat \<Rightarrow> DocMember list reader" where
  "read_value 0 depth s = None"
| "read_value (Suc n) depth [] = None"
| "read_value (Suc n) depth (c # s) =
     (if c = quot then map_option (\<lambda>(t, r). (Str t, r)) (read_string s)
      else if c = CHR ''['' then
        (if depth = 0 then None
         else let (w, r) = read_ws s in
           if r \<noteq> [] \<and> hd r = CHR '']'' then Some (Arr w [], tl r)
           else map_option (\<lambda>(es, r). (Arr [] es, r)) (read_elems n (depth - 1) s))
      else if c = CHR ''{'' then
        (if depth = 0 then None
         else let (w, r) = read_ws s in
           if r \<noteq> [] \<and> hd r = CHR ''}'' then Some (Obj w [], tl r)
           else map_option (\<lambda>(ms, r). (Obj [] ms, r)) (read_members n (depth - 1) s))
      else if c = CHR ''t'' then map_option (\<lambda>(t, r). (Lit t, r)) (read_word ''true'' (c # s))
      else if c = CHR ''f'' then map_option (\<lambda>(t, r). (Lit t, r)) (read_word ''false'' (c # s))
      else if c = CHR ''n'' then map_option (\<lambda>(t, r). (Lit t, r)) (read_word ''null'' (c # s))
      else map_option (\<lambda>(t, r). (Lit t, r)) (read_number (c # s)))"
| "read_elems 0 depth s = None"
| "read_elems (Suc n) depth s =
     (let (a, r) = read_ws s in
      case read_value n depth r of
        None \<Rightarrow> None
      | Some (v, r) \<Rightarrow>
          (let (b, r) = read_ws r in
           case r of
             [] \<Rightarrow> None
           | c # q \<Rightarrow>
               if c = CHR '']'' then Some ([Elem a v b], q)
               else if c = CHR '','' then map_option (\<lambda>(es, z). (Elem a v b # es, z)) (read_elems n depth q)
               else None))"
| "read_members 0 depth s = None"
| "read_members (Suc n) depth s =
     (let (a, r) = read_ws s in
      if r = [] \<or> hd r \<noteq> quot then None
      else case read_string (tl r) of
        None \<Rightarrow> None
      | Some (k, r) \<Rightarrow>
          (let (b, r) = read_ws r in
           if r = [] \<or> hd r \<noteq> CHR '':'' then None
           else let (c, r) = read_ws (tl r) in
             case read_value n depth r of
               None \<Rightarrow> None
             | Some (v, r) \<Rightarrow>
                 (let (d, r) = read_ws r in
                  case r of
                    [] \<Rightarrow> None
                  | x # q \<Rightarrow>
                      if x = CHR ''}'' then Some ([Member a k b c v d], q)
                      else if x = CHR '','' then
                        map_option (\<lambda>(ms, z). (Member a k b c v d # ms, z)) (read_members n depth q)
                      else None)))"

definition maxNestingDepth :: nat where "maxNestingDepth = 10000"

text \<open>The document of a body, with the white space around it; \<open>json.Valid\<close> is that there is one.\<close>

definition read_body :: "string \<Rightarrow> (string \<times> Doc \<times> string) option" where
  "read_body body =
     (let (w, r) = read_ws body in
      case read_value (2 * length body + 2) maxNestingDepth r of
        Some (v, r) \<Rightarrow> if list_all isWS r then Some (w, v, r) else None
      | None \<Rightarrow> None)"

definition json_valid :: "string \<Rightarrow> bool" where
  "json_valid body \<longleftrightarrow> read_body body \<noteq> None"

section \<open>Well-formed documents\<close>

fun str_ok :: "string \<Rightarrow> bool" where
  "str_ok [] = True"
| "str_ok (c # s) =
     (if c = bslash then (case s of [] \<Rightarrow> False | e # r \<Rightarrow> str_ok r) else c \<noteq> quot \<and> str_ok s)"

definition lit_char :: "char \<Rightarrow> bool" where
  "lit_char c \<longleftrightarrow> \<not> isWS c \<and> c \<noteq> quot \<and> c \<notin> set ''[]{},:''"

definition lit_ok :: "string \<Rightarrow> bool" where
  "lit_ok t \<longleftrightarrow> t \<noteq> [] \<and> list_all lit_char t"

abbreviation ws_ok :: "string \<Rightarrow> bool" where "ws_ok \<equiv> list_all isWS"

fun doc_ok :: "Doc \<Rightarrow> bool"
  and elems_ok :: "DocElem list \<Rightarrow> bool"
  and members_ok :: "DocMember list \<Rightarrow> bool" where
  "doc_ok (Lit t) = lit_ok t"
| "doc_ok (Str s) = str_ok s"
| "doc_ok (Arr w es) = (ws_ok w \<and> elems_ok es)"
| "doc_ok (Obj w ms) = (ws_ok w \<and> members_ok ms)"
| "elems_ok [] = True"
| "elems_ok (Elem a v b # es) = (ws_ok a \<and> doc_ok v \<and> ws_ok b \<and> elems_ok es)"
| "members_ok [] = True"
| "members_ok (Member a k b c v d # ms) =
     (ws_ok a \<and> str_ok k \<and> ws_ok b \<and> ws_ok c \<and> doc_ok v \<and> ws_ok d \<and> members_ok ms)"

section \<open>The reader prints back\<close>

lemma read_ws_split: "read_ws s = (a, r) \<Longrightarrow> s = a @ r \<and> ws_ok a \<and> (r = [] \<or> \<not> isWS (hd r))"
  by (auto simp: read_ws_def list_all_iff dest: set_takeWhileD hd_dropWhile)

lemma bslash_neq_quot [simp]: "bslash \<noteq> quot" by simp

lemma read_string_sound:
  "read_string s = Some (t, r) \<Longrightarrow> s = t @ quot # r \<and> str_ok t"
proof (induction s arbitrary: t r rule: read_string.induct)
  case (2 c s)
  show ?case
  proof (cases "c = bslash")
    case False
    show ?thesis
    proof (cases "c = quot")
      case True
      then show ?thesis using 2(4) by simp
    next
      case q: False
      then have "\<not> c < CHR 0x20" using 2(4) False by (simp split: if_splits)
      moreover from this obtain t' where "read_string s = Some (t', r)" "t = c # t'"
        using 2(4) False q by (auto split: if_splits)
      ultimately show ?thesis using 2(3) [OF q False] False q by simp
    qed
  next
    case c: True
    obtain e q where s: "s = e # q" using 2 c by (cases s) auto
    show ?thesis
    proof (cases "e \<in> set ''bfnrt/'' \<union> {quot, bslash}")
      case True
      then obtain t' where "read_string q = Some (t', r)" "t = c # e # t'" using 2(4) c s by (auto split: if_splits)
      then show ?thesis using 2(1) c s True by simp
    next
      case False
      with 2(4) c s have u: "e = CHR ''u''" by (auto split: if_splits)
      from 2(4) False c s u obtain h1 h2 h3 h4 z t' where q: "q = h1 # h2 # h3 # h4 # z"
        "is_hex h1 \<and> is_hex h2 \<and> is_hex h3 \<and> is_hex h4" "read_string z = Some (t', r)" "t = c # e # h1 # h2 # h3 # h4 # t'"
        by (auto split: if_splits list.splits)
      have "\<And>h. is_hex h \<Longrightarrow> h \<noteq> quot \<and> h \<noteq> bslash" by (auto simp: is_hex_def is_digit_def less_eq_char_def)
      then show ?thesis using 2(2) [OF _ c s False u q(1)] q c s u by auto
    qed
  qed
qed simp

lemma digits_lit: "list_all is_digit d \<Longrightarrow> list_all lit_char d"
  by (auto simp: list_all_iff lit_char_def isWS_def is_digit_def)

lemma read_digits_sound: "read_digits s = Some (d, r) \<Longrightarrow> s = d @ r \<and> d \<noteq> [] \<and> list_all lit_char d"
  using digits_lit [of "takeWhile is_digit s"]
  by (auto simp: read_digits_def Let_def split: if_splits) (auto simp: list_all_iff dest: set_takeWhileD)

lemma lit_chars [simp]: "lit_char (CHR ''0'')" "lit_char (CHR ''.'')" "lit_char (CHR ''-'')" "lit_char (CHR ''+'')"
  "lit_char (CHR ''e'')" "lit_char (CHR ''E'')"
  by (simp_all add: lit_char_def isWS_def)

lemma read_number_sound:
  assumes "read_number s = Some (t, r)"
  shows "s = t @ r \<and> lit_ok t"
proof -
  obtain sg r0 where sg: "(if s \<noteq> [] \<and> hd s = CHR ''-'' then (''-'', tl s) else ([], s)) = (sg, r0)" by fastforce
  then have 0: "s = sg @ r0" "list_all lit_char sg" by (auto split: if_splits) (metis list.collapse)
  obtain n r1 f r2 e where 1: "read_natural r0 = Some (n, r1)" "read_fraction r1 = Some (f, r2)"
    "read_exponent r2 = Some (e, r)" "t = sg @ n @ f @ e"
    using assms by (auto simp: read_number_def sg split: option.splits)
  have n: "r0 = n @ r1 \<and> n \<noteq> [] \<and> list_all lit_char n"
    using 1(1) read_digits_sound by (auto simp: read_natural_def split: list.splits if_splits)
  have f: "r1 = f @ r2 \<and> list_all lit_char f"
    using 1(2) read_digits_sound by (auto simp: read_fraction_def split: list.splits if_splits)
  have e: "r2 = e @ r \<and> list_all lit_char e"
    using 1(3) read_digits_sound by (auto simp: read_exponent_def split: list.splits if_splits)
  show ?thesis using 0 1(4) n f e by (auto simp: lit_ok_def)
qed

lemma read_word_sound: "read_word w s = Some (t, r) \<Longrightarrow> t = w \<and> s = t @ r"
  by (auto simp: read_word_def split: if_splits) (metis append_take_drop_id)

lemma words_ok [simp]: "lit_ok ''true''" "lit_ok ''false''" "lit_ok ''null''"
  by (simp_all add: lit_ok_def lit_char_def isWS_def)

lemma hd_conv: "r \<noteq> [] \<Longrightarrow> hd r = c \<Longrightarrow> r = c # tl r"
  by (cases r) auto

lemma read_sound:
  "read_value n depth s = Some (v, r) \<Longrightarrow> s = render v @ r \<and> doc_ok v"
  "read_elems n depth s = Some (es, r) \<Longrightarrow> s = render_elems es @ CHR '']'' # r \<and> elems_ok es \<and> es \<noteq> []"
  "read_members n depth s = Some (ms, r) \<Longrightarrow> s = render_members ms @ CHR ''}'' # r \<and> members_ok ms \<and> ms \<noteq> []"
proof (induction n depth s and n depth s and n depth s arbitrary: v r and es r and ms r
    rule: read_value_read_elems_read_members.induct)
  case (3 n depth c s)
  obtain w q where w: "read_ws s = (w, q)" by fastforce
  note ws = read_ws_split [OF w]
  consider "c = quot" | "c = CHR ''[''" "q \<noteq> [] \<and> hd q = CHR '']''" | "c = CHR ''[''" "\<not> (q \<noteq> [] \<and> hd q = CHR '']'')"
    | "c = CHR ''{''" "q \<noteq> [] \<and> hd q = CHR ''}''" | "c = CHR ''{''" "\<not> (q \<noteq> [] \<and> hd q = CHR ''}'')"
    | "c \<noteq> quot" "c \<noteq> CHR ''[''" "c \<noteq> CHR ''{''" by blast
  then show ?case
  proof cases
    case 1
    then show ?thesis using 3(3) by (auto simp: quoted_def dest!: read_string_sound)
  next
    case 2
    then have "v = Arr w []" "r = tl q" using 3(3) w by (auto split: if_splits)
    then show ?thesis using ws 2 hd_conv [of q] by simp
  next
    case 3
    then obtain es where "read_elems n (depth - 1) s = Some (es, r)" "v = Arr [] es" "depth \<noteq> 0"
      using "3.prems" w by (auto split: if_splits)
    then show ?thesis using "3.IH"(1) 3 w by auto
  next
    case 4
    then have "v = Obj w []" "r = tl q" using 3(3) w by (auto split: if_splits)
    then show ?thesis using ws 4 hd_conv [of q] by simp
  next
    case 5
    then obtain ms where "read_members n (depth - 1) s = Some (ms, r)" "v = Obj [] ms" "depth \<noteq> 0"
      using "3.prems" w by (auto split: if_splits)
    then show ?thesis using "3.IH"(2) 5 w by auto
  next
    case 6
    then show ?thesis using "3.prems" by (auto split: if_splits dest!: read_word_sound read_number_sound)
  qed
next
  case (5 n depth s)
  obtain a q where a: "read_ws s = (a, q)" by fastforce
  obtain v q1 where v: "read_value n depth q = Some (v, q1)" using 5(3) a by (auto split: option.splits)
  obtain b q2 where b: "read_ws q1 = (b, q2)" by fastforce
  obtain c z where c: "q2 = c # z" using 5(3) a v b by (auto split: list.splits)
  have sv: "q = render v @ q1 \<and> doc_ok v" using 5(1) [OF _ _ v] a by auto
  note as = read_ws_split [OF a] and bs = read_ws_split [OF b]
  show ?case
  proof (cases "c = CHR '']''")
    case True
    then have "es = [Elem a v b]" "r = z" using 5(3) a v b c by auto
    then show ?thesis using as bs sv c True by simp
  next
    case False
    then obtain es' where es': "c = CHR '',''" "read_elems n depth z = Some (es', r)" "es = Elem a v b # es'"
      using 5(3) a v b c by (auto split: if_splits)
    then have "z = render_elems es' @ CHR '']'' # r \<and> elems_ok es' \<and> es' \<noteq> []"
      using 5(2) a v b c False by auto
    then show ?thesis using as bs sv c es' by simp
  qed
next
  case (7 n depth s)
  obtain a q where a: "read_ws s = (a, q)" by fastforce
  have q: "q \<noteq> []" "hd q = quot" using 7(3) a by (auto split: if_splits)
  obtain k q1 where k: "read_string (tl q) = Some (k, q1)" using 7(3) a q by (auto split: option.splits)
  obtain b q2 where b: "read_ws q1 = (b, q2)" by fastforce
  have q2: "q2 \<noteq> []" "hd q2 = CHR '':''" using 7(3) a q k b by (auto split: if_splits)
  obtain c q3 where c: "read_ws (tl q2) = (c, q3)" by fastforce
  obtain v q4 where v: "read_value n depth q3 = Some (v, q4)" using 7(3) a q k b q2 c by (auto split: option.splits)
  obtain d q5 where d: "read_ws q4 = (d, q5)" by fastforce
  obtain x z where x: "q5 = x # z" using 7(3) a q k b q2 c v d by (auto split: list.splits)
  have sv: "q3 = render v @ q4 \<and> doc_ok v" using 7(1) a q k b q2 c v by auto
  note as = read_ws_split [OF a] and bs = read_ws_split [OF b] and cs = read_ws_split [OF c] and ds = read_ws_split [OF d]
  have ks: "tl q = k @ quot # q1 \<and> str_ok k" by (rule read_string_sound [OF k])
  have s: "s = a @ quoted k @ b @ CHR '':'' # c @ render v @ d @ x # z"
    using as bs cs ds ks sv x hd_conv [OF q] hd_conv [OF q2] by (simp add: quoted_def)
  show ?case
  proof (cases "x = CHR ''}''")
    case True
    then have "ms = [Member a k b c v d]" "r = z" using 7(3) a q k b q2 c v d x by auto
    then show ?thesis using as bs cs ds ks sv s True by simp
  next
    case False
    then obtain ms' where ms': "x = CHR '',''" "read_members n depth z = Some (ms', r)" "ms = Member a k b c v d # ms'"
      using 7(3) a q k b q2 c v d x by (auto split: if_splits)
    then have "z = render_members ms' @ CHR ''}'' # r \<and> members_ok ms' \<and> ms' \<noteq> []"
      using 7(2) a q k b q2 c v d x False by auto
    then show ?thesis using as bs cs ds ks sv s ms' by simp
  qed
qed simp_all

lemma read_body_sound:
  assumes "read_body body = Some (w, v, z)"
  shows "body = w @ render v @ z" "ws_ok w" "ws_ok z" "doc_ok v"
proof -
  obtain w' r where w: "read_ws body = (w', r)" by fastforce
  then obtain q where "read_value (2 * length body + 2) maxNestingDepth r = Some (v, q)" "ws_ok q" "w' = w" "q = z"
    using assms by (auto simp: read_body_def split: option.splits if_splits)
  then show "body = w @ render v @ z" "ws_ok w" "ws_ok z" "doc_ok v"
    using read_sound(1) read_ws_split [OF w] by auto
qed

section \<open>Positions\<close>

text \<open>\<open>body\<close> carries \<open>X\<close> at position \<open>i\<close>, with \<open>r\<close> behind it.\<close>

lemma at_Cons: "drop i body = c # r \<Longrightarrow> i < length body \<and> body ! i = c \<and> drop (i + 1) body = r"
  by (metis Cons_nth_drop_Suc Suc_eq_plus1 drop_all leI list.discI list.inject)

lemma at_append: "drop i body = X @ r \<Longrightarrow> drop (i + length X) body = r"
  by (metis append_eq_conv_conj drop_drop add.commute)

lemma at_length: "drop i body = X @ r \<Longrightarrow> X @ r \<noteq> [] \<Longrightarrow> i + length X + length r = length body"
  by (metis drop_all leI le_add_diff_inverse length_append length_drop add.assoc less_imp_le)

lemma slice_at: "drop i body = X @ r \<Longrightarrow> slice body i (i + length X) = X"
  by (simp add: slice_def)

lemma skipWS_at:
  "drop i body = w @ r \<Longrightarrow> ws_ok w \<Longrightarrow> r \<noteq> [] \<Longrightarrow> \<not> isWS (hd r) \<Longrightarrow> skipWS body i = i + length w"
proof (induction w arbitrary: i)
  case Nil
  then obtain c z where "drop i body = c # z" "\<not> isWS c" by (cases r) auto
  then show ?case using at_Cons [of i body c z] by (subst skipWS.simps) simp
next
  case (Cons c w)
  then have "i < length body \<and> body ! i = c \<and> drop (i + 1) body = w @ r" by (intro at_Cons) simp
  then show ?case using Cons by (subst skipWS.simps) simp
qed

lemma string_end_at:
  "drop k body = s @ quot # r \<Longrightarrow> str_ok s \<Longrightarrow> string_end body k = k + length s + 1"
proof (induction s arbitrary: k rule: str_ok.induct)
  case 1
  then show ?case using at_Cons [of k body quot r] by (subst string_end.simps) simp
next
  case (2 c s)
  have k: "k < length body \<and> body ! k = c \<and> drop (k + 1) body = s @ quot # r"
    using 2(3) by (intro at_Cons) simp
  show ?case
  proof (cases "c = bslash")
    case True
    then obtain e q where s: "s = e # q" "str_ok q" using 2(4) by (auto split: list.splits)
    have "k + 1 < length body \<and> body ! (k + 1) = e \<and> drop (k + 1 + 1) body = q @ quot # r"
      using k s by (intro at_Cons) simp
    then have "string_end body (k + 2) = k + 2 + length q + 1" using 2(1) [OF True s(1)] s by simp
    then show ?thesis using k True s by (subst string_end.simps) simp
  next
    case False
    then show ?thesis using 2(2) [OF False] 2(4) k by (subst string_end.simps) simp
  qed
qed

lemma valueEnd_at:
  assumes "drop i body = quoted s @ r" and "str_ok s"
  shows "valueEnd body i = i + length (quoted s)"
proof -
  have "drop (i + 1) body = s @ quot # r" using at_Cons [of i body quot] assms(1) by (simp add: quoted_def)
  then show ?thesis using string_end_at [OF _ assms(2)] by (simp add: valueEnd_def quoted_def)
qed

subsection \<open>Collections\<close>

lemma collection_end_string:
  "drop i body = s @ quot # r \<Longrightarrow> str_ok s \<Longrightarrow> i + length s < fin \<Longrightarrow>
     collection_end body fin i d True = collection_end body fin (i + length s + 1) d False"
proof (induction s arbitrary: i rule: str_ok.induct)
  case 1
  then show ?case using at_Cons [of i body quot r] by (subst collection_end.simps) simp
next
  case (2 c s)
  have k: "i < length body \<and> body ! i = c \<and> drop (i + 1) body = s @ quot # r"
    using 2(3) by (intro at_Cons) simp
  show ?case
  proof (cases "c = bslash")
    case True
    then obtain e q where s: "s = e # q" "str_ok q" using 2(4) by (auto split: list.splits)
    have "i + 1 < length body \<and> body ! (i + 1) = e \<and> drop (i + 1 + 1) body = q @ quot # r"
      using k s by (intro at_Cons) simp
    then have "collection_end body fin (i + 2) d True = collection_end body fin (i + 2 + length q + 1) d False"
      using 2(1) [OF True s(1)] 2(5) s by simp
    then show ?thesis using k True s 2(5) by (subst collection_end.simps) simp
  next
    case False
    then show ?thesis using 2(2) [OF False] 2(4,5) k by (subst collection_end.simps) simp
  qed
qed

definition passed :: "string \<Rightarrow> nat \<Rightarrow> nat \<Rightarrow> string \<Rightarrow> bool" where
  "passed body fin i X \<longleftrightarrow>
     (\<forall>d\<ge>1. collection_end body fin i d False = collection_end body fin (i + length X) d False)"

lemma passed_append:
  "passed body fin i X \<Longrightarrow> passed body fin (i + length X) Y \<Longrightarrow> passed body fin i (X @ Y)"
  by (simp add: passed_def add.assoc)

lemma passed_plain:
  "drop i body = X @ r \<Longrightarrow> i + length X \<le> fin \<Longrightarrow> list_all (\<lambda>c. c \<noteq> quot \<and> c \<notin> set ''[]{}'') X \<Longrightarrow>
     passed body fin i X"
proof (induction X arbitrary: i)
  case Nil
  then show ?case by (simp add: passed_def)
next
  case (Cons c X)
  have k: "i < length body \<and> body ! i = c \<and> drop (i + 1) body = X @ r" using Cons.prems(1) by (intro at_Cons) simp
  then have "passed body fin (i + 1) X" using Cons by simp
  moreover have "collection_end body fin i d False = collection_end body fin (i + 1) d False" for d
    using k Cons.prems(2,3) by (subst collection_end.simps) simp
  ultimately show ?case by (simp add: passed_def)
qed

lemma passed_ws:
  "drop i body = w @ r \<Longrightarrow> ws_ok w \<Longrightarrow> i + length w \<le> fin \<Longrightarrow> passed body fin i w"
  by (erule passed_plain, assumption, erule list.pred_mono_strong) (auto simp: isWS_def)

lemma passed_char:
  "drop i body = c # r \<Longrightarrow> i < fin \<Longrightarrow> c \<noteq> quot \<Longrightarrow> c \<notin> set ''[]{}'' \<Longrightarrow> passed body fin i [c]"
  using passed_plain [of i body "[c]" r fin] by simp

lemma passed_quoted:
  assumes "drop i body = quoted s @ r" and "str_ok s" and "i + length (quoted s) \<le> fin"
  shows "passed body fin i (quoted s)"
proof -
  have k: "i < length body \<and> body ! i = quot \<and> drop (i + 1) body = s @ quot # r"
    using assms(1) by (intro at_Cons) (simp add: quoted_def)
  have "collection_end body fin i d False = collection_end body fin (i + 1) d True" for d
    using k assms(3) by (subst collection_end.simps) (simp add: quoted_def)
  moreover have "collection_end body fin (i + 1) d True = collection_end body fin (i + 1 + length s + 1) d False" for d
    using k assms(2,3) by (intro collection_end_string) (auto simp: quoted_def)
  ultimately show ?thesis by (simp add: passed_def quoted_def)
qed

lemma passed_bracketed:
  assumes k: "drop i body = c # X @ e # r" and "c = CHR ''['' \<or> c = CHR ''{''" "e = CHR '']'' \<or> e = CHR ''}''"
    and "i + length X + 2 \<le> fin" and "passed body fin (i + 1) X"
  shows "passed body fin i (c # X @ [e])"
    and "collection_end body fin i 0 False = i + length X + 2"
proof -
  have c: "i < length body \<and> body ! i = c \<and> drop (i + 1) body = X @ e # r" using k by (intro at_Cons) simp
  have e: "i + 1 + length X < length body \<and> body ! (i + 1 + length X) = e"
    using c at_append [of "i + 1" body X "e # r"] at_Cons [of "i + 1 + length X" body e r] by simp
  have o: "collection_end body fin i d False = collection_end body fin (i + 1) (d + 1) False" for d
    using c assms(2,4) by (subst collection_end.simps) auto
  have x: "collection_end body fin (i + 1) (d + 1) False = collection_end body fin (i + 1 + length X) (d + 1) False"
    if "0 \<le> d" for d using assms(5) that by (simp add: passed_def)
  show "collection_end body fin i 0 False = i + length X + 2"
    unfolding o x [OF order_refl] using e assms(3,4) by (subst collection_end.simps) auto
  have "collection_end body fin (i + 1 + length X) (d + 1) False = collection_end body fin (i + length X + 2) d False"
    if "1 \<le> d" for d
    using e assms(3,4) that by (subst collection_end.simps) auto
  then show "passed body fin i (c # X @ [e])"
    using o x by (simp add: passed_def add.assoc)
qed

lemma passed_doc:
  "drop i body = render v @ r \<Longrightarrow> doc_ok v \<Longrightarrow> i + length (render v) \<le> fin \<Longrightarrow> passed body fin i (render v)"
  "drop i body = render_elems es @ r \<Longrightarrow> elems_ok es \<Longrightarrow> i + length (render_elems es) \<le> fin \<Longrightarrow>
     passed body fin i (render_elems es)"
  "drop i body = render_members ms @ r \<Longrightarrow> members_ok ms \<Longrightarrow> i + length (render_members ms) \<le> fin \<Longrightarrow>
     passed body fin i (render_members ms)"
proof (induction v and es and ms arbitrary: i r and i r and i r rule: render_render_elems_render_members.induct)
  case (1 t)
  then show ?case by (intro passed_plain) (auto simp: lit_ok_def lit_char_def list_all_iff)
next
  case (2 s)
  then show ?case by (simp add: passed_quoted)
next
  case (3 w es)
  let ?X = "if es = [] then w else render_elems es"
  have k: "drop i body = CHR ''['' # ?X @ CHR '']'' # r" using 3(2) by simp
  have d: "drop (i + 1) body = ?X @ CHR '']'' # r" using at_Cons [OF k] by simp
  have "passed body fin (i + 1) ?X"
    using passed_ws [of "i + 1" body w] 3(1) [of "i + 1" "CHR '']'' # r"] d 3(3,4) by (cases "es = []") auto
  then have "passed body fin i (CHR ''['' # ?X @ [CHR '']''])" using 3(4) by (intro passed_bracketed(1) [OF k]) auto
  then show ?case by simp
next
  case (4 w ms)
  let ?X = "if ms = [] then w else render_members ms"
  have k: "drop i body = CHR ''{'' # ?X @ CHR ''}'' # r" using 4(2) by simp
  have d: "drop (i + 1) body = ?X @ CHR ''}'' # r" using at_Cons [OF k] by simp
  have "passed body fin (i + 1) ?X"
    using passed_ws [of "i + 1" body w] 4(1) [of "i + 1" "CHR ''}'' # r"] d 4(3,4) by (cases "ms = []") auto
  then have "passed body fin i (CHR ''{'' # ?X @ [CHR ''}''])" using 4(4) by (intro passed_bracketed(1) [OF k]) auto
  then show ?case by simp
next
  case 5
  then show ?case by (simp add: passed_def)
next
  case (6 a v b es)
  let ?T = "if es = [] then [] else CHR '','' # render_elems es"
  have 0: "drop i body = a @ render v @ b @ ?T @ r" using 6(3) by simp
  note 1 = at_append [OF 0] note 2 = at_append [OF 1] note 3 = at_append [OF 2]
  have fit: "i + length a + length (render v) + length b + length ?T \<le> fin" using 6(5) by (simp add: add.assoc)
  have pa: "passed body fin i a" using 6(4) fit by (intro passed_ws [OF 0]) auto
  have pv: "passed body fin (i + length a) (render v)" using 6(1) [OF 1] 6(4) fit by simp
  have pb: "passed body fin (i + length a + length (render v)) b" using 6(4) fit by (intro passed_ws [OF 2]) auto
  have pt: "passed body fin (i + length a + length (render v) + length b) ?T"
  proof (cases "es = []")
    case True
    then show ?thesis by (simp add: passed_def)
  next
    case False
    let ?j = "i + length a + length (render v) + length b"
    have c: "drop ?j body = CHR '','' # render_elems es @ r" using 3 False by simp
    have "passed body fin ?j [CHR '','']" using fit False by (intro passed_char [OF c]) auto
    moreover have "passed body fin (?j + 1) (render_elems es)"
      using 6(2) [of "?j + 1" r] at_Cons [OF c] 6(4) fit False by simp
    ultimately show ?thesis using passed_append [of body fin ?j "[CHR '','']"] False by simp
  qed
  show ?case using pa pv pb pt by (simp add: passed_def add.assoc)
next
  case 7
  then show ?case by (simp add: passed_def)
next
  case (8 a k b c v d ms)
  let ?T = "if ms = [] then [] else CHR '','' # render_members ms"
  have 0: "drop i body = a @ quoted k @ b @ [CHR '':''] @ c @ render v @ d @ ?T @ r" using 8(3) by simp
  note 1 = at_append [OF 0] note 2 = at_append [OF 1] note 3 = at_append [OF 2] note 4 = at_append [OF 3]
  note 5 = at_append [OF 4] note 6 = at_append [OF 5] note 7 = at_append [OF 6]
  let ?j = "i + length a + length (quoted k) + length b + length [CHR '':''] + length c + length (render v) + length d"
  have fit: "?j + length ?T \<le> fin" using 8(5) by (simp add: add.assoc)
  have p1: "passed body fin i a" using 8(4) fit by (intro passed_ws [OF 0]) auto
  have p2: "passed body fin (i + length a) (quoted k)" using 8(4) fit by (intro passed_quoted [OF 1]) auto
  have p3: "passed body fin (i + length a + length (quoted k)) b" using 8(4) fit by (intro passed_ws [OF 2]) auto
  have p4: "passed body fin (i + length a + length (quoted k) + length b) [CHR '':'']"
    using fit 3 by (intro passed_char) auto
  have p5: "passed body fin (i + length a + length (quoted k) + length b + length [CHR '':'']) c"
    using 8(4) fit by (intro passed_ws [OF 4]) auto
  have p6: "passed body fin (i + length a + length (quoted k) + length b + length [CHR '':''] + length c) (render v)"
    using 8(1) [OF 5] 8(4) fit by simp
  have p7: "passed body fin (i + length a + length (quoted k) + length b + length [CHR '':''] + length c + length (render v)) d"
    using 8(4) fit by (intro passed_ws [OF 6]) auto
  have pt: "passed body fin ?j ?T"
  proof (cases "ms = []")
    case True
    then show ?thesis by (simp add: passed_def)
  next
    case False
    have c: "drop ?j body = CHR '','' # render_members ms @ r" using 7 False by simp
    have "passed body fin ?j [CHR '','']" using fit False by (intro passed_char [OF c]) auto
    moreover have "passed body fin (?j + 1) (render_members ms)"
      using 8(2) [of "?j + 1" r] at_Cons [OF c] 8(4) fit False by simp
    ultimately show ?thesis using passed_append [of body fin ?j "[CHR '','']"] False by simp
  qed
  show ?case using p1 p2 p3 p4 p5 p6 p7 pt by (simp add: passed_def add.assoc)
qed

section \<open>Values and members\<close>

lemma render_hd:
  assumes "doc_ok v"
  shows "render v \<noteq> []" "\<not> isWS (hd (render v))"
    and "hd (render v) = CHR ''{'' \<longleftrightarrow> (\<exists>w ms. v = Obj w ms)"
    and "hd (render v) = quot \<longleftrightarrow> (\<exists>s. v = Str s)"
    and "hd (render v) = CHR ''['' \<longleftrightarrow> (\<exists>w es. v = Arr w es)"
  using assms by (cases v; simp add: lit_ok_def quoted_def isWS_def; case_tac x1; simp add: lit_char_def isWS_def; blast?)+

lemma drop_hd: "drop i body = X @ r \<Longrightarrow> X \<noteq> [] \<Longrightarrow> i < length body \<and> body ! i = hd X"
  using at_Cons [of i body "hd X" "tl X @ r"] by (cases X) auto

lemma scalar_end_at:
  "drop j body = t @ x # r \<Longrightarrow> list_all (\<lambda>c. c \<notin> set '',}]'') t \<Longrightarrow> x \<in> set '',}]'' \<Longrightarrow> j + length t < fin \<Longrightarrow>
     scalar_end body j fin = j + length t"
proof (induction t arbitrary: j)
  case Nil
  then show ?case using at_Cons [of j body x r] by (subst scalar_end.simps) auto
next
  case (Cons c t)
  then have "j < length body \<and> body ! j = c \<and> drop (j + 1) body = t @ x # r" by (intro at_Cons) simp
  then show ?case using Cons by (subst scalar_end.simps) simp
qed

text \<open>Where the scan leaves a value: behind it, or, behind a literal, at the next delimiter.\<close>

definition value_width :: "Doc \<Rightarrow> string \<Rightarrow> nat" where
  "value_width v d = length (render v) + (case v of Lit _ \<Rightarrow> length d | _ \<Rightarrow> 0)"

lemma collectionEnd_at:
  assumes "drop i body = render v @ r" and "doc_ok v" and "i + length (render v) \<le> fin"
    and "hd (render v) = CHR ''{'' \<or> hd (render v) = CHR ''[''"
  shows "collectionEnd body i fin = i + length (render v)"
proof -
  obtain c X e where v: "render v = c # X @ [e]" "c = CHR ''['' \<or> c = CHR ''{''" "e = CHR '']'' \<or> e = CHR ''}''"
    and X: "passed body fin (i + 1) X"
  proof (cases v)
    case (Arr w es)
    let ?X = "if es = [] then w else render_elems es"
    have "drop (i + 1) body = ?X @ CHR '']'' # r" using at_Cons [of i body "CHR ''[''"] assms(1) Arr by simp
    then have "passed body fin (i + 1) ?X"
      using passed_ws [of "i + 1" body w] passed_doc(2) [of "i + 1" body es] assms(2,3) Arr by (cases "es = []") auto
    then show thesis using Arr by (intro that [of "CHR ''[''" ?X "CHR '']''"]) auto
  next
    case (Obj w ms)
    let ?X = "if ms = [] then w else render_members ms"
    have "drop (i + 1) body = ?X @ CHR ''}'' # r" using at_Cons [of i body "CHR ''{''"] assms(1) Obj by simp
    then have "passed body fin (i + 1) ?X"
      using passed_ws [of "i + 1" body w] passed_doc(3) [of "i + 1" body ms] assms(2,3) Obj by (cases "ms = []") auto
    then show thesis using Obj by (intro that [of "CHR ''{''" ?X "CHR ''}''"]) auto
  next
    case (Lit t)
    then show thesis using assms(4) render_hd(3,5) [OF assms(2)] by simp
  next
    case (Str t)
    then show thesis using assms(4) by (simp add: quoted_def)
  qed
  then show ?thesis
    using passed_bracketed(2) [of i body c X e r fin] assms(1,3) by (simp add: collectionEnd_def)
qed

lemma skipValue_at:
  assumes "drop i body = render v @ d @ x # r" and "doc_ok v" "ws_ok d" and "x \<in> set '',}]''"
    and "i + length (render v) + length d < fin"
  shows "skipValue body i fin = i + value_width v d"
proof -
  have i: "body ! i = hd (render v)" using drop_hd [OF assms(1)] render_hd(1) [OF assms(2)] by simp
  show ?thesis
  proof (cases v)
    case (Lit t)
    have "list_all (\<lambda>c. c \<notin> set '',}]'') (t @ d)"
    proof -
      have "list_all (\<lambda>c. c \<notin> set '',}]'') t"
        using assms(2) Lit by (auto simp: lit_ok_def lit_char_def elim!: list.pred_mono_strong)
      moreover have "list_all (\<lambda>c. c \<notin> set '',}]'') d"
        using assms(3) by (rule list.pred_mono_strong) (auto simp: isWS_def)
      ultimately show ?thesis by simp
    qed
    then have "scalar_end body i fin = i + length (t @ d)"
      using assms(1,4,5) Lit by (intro scalar_end_at) auto
    moreover have "hd (render v) \<noteq> quot" "hd (render v) \<noteq> CHR ''{''" "hd (render v) \<noteq> CHR ''[''"
      using render_hd [OF assms(2)] Lit by auto
    ultimately show ?thesis using i Lit by (simp add: skipValue_def value_width_def)
  next
    case (Str s)
    then show ?thesis using i valueEnd_at [of i body s] assms(1,2) render_hd(4) [OF assms(2)]
      by (simp add: skipValue_def value_width_def)
  next
    case (Arr w es)
    have h: "hd (render v) = CHR ''[''" using Arr by simp
    show ?thesis using i collectionEnd_at [OF assms(1,2)] assms(5) h Arr by (simp add: skipValue_def value_width_def)
  next
    case (Obj w ms)
    have h: "hd (render v) = CHR ''{''" using Obj by simp
    show ?thesis using i collectionEnd_at [OF assms(1,2)] assms(5) h Obj by (simp add: skipValue_def value_width_def)
  qed
qed

lemma skipWS_value:
  assumes "drop i body = render v @ d @ x # r" and "doc_ok v" "ws_ok d" and "\<not> isWS x"
  shows "skipWS body (i + value_width v d) = i + length (render v) + length d"
proof -
  have 1: "drop (i + length (render v)) body = d @ x # r" by (rule at_append [OF assms(1)])
  have 2: "drop (i + length (render v) + length d) body = x # r" by (rule at_append [OF 1])
  show ?thesis
  proof (cases v)
    case (Lit t)
    then show ?thesis using skipWS_at [of "i + length t + length d" body "[]" "x # r"] 2 assms(4)
      by (simp add: value_width_def add.assoc)
  qed (use skipWS_at [OF 1 assms(3)] assms(4) in \<open>simp_all add: value_width_def add.assoc\<close>)
qed

text \<open>What the walk does, member by member.\<close>

fun fold_members ::
  "(nat \<Rightarrow> nat \<Rightarrow> nat \<Rightarrow> 'a \<Rightarrow> 'a \<times> nat) \<Rightarrow> nat \<Rightarrow> DocMember list \<Rightarrow> 'a \<Rightarrow> 'a" where
  "fold_members act p [] acc = acc"
| "fold_members act p (Member a k b c v d # ms) acc =
     (let ks = p + length a; ke = ks + length (quoted k); vs = ke + length b + 1 + length c in
      fold_members act (vs + length (render v) + length d + 1) ms (fst (act ks ke vs acc)))"

lemma member_walk_fold:
  assumes "\<And>ks ke vs acc. snd (act ks ke vs acc) = skipValue body vs fin"
  shows "drop p body = render_members ms @ CHR ''}'' # r \<Longrightarrow> members_ok ms \<Longrightarrow>
    p + length (render_members ms) < fin \<Longrightarrow> length ms < n \<Longrightarrow>
    member_walk n body fin act p acc = fold_members act p ms acc"
proof (induction ms arbitrary: p n acc)
  case Nil
  then obtain m where n: "n = Suc m" by (cases n) auto
  have "p < length body \<and> body ! p = CHR ''}'' \<and> drop (p + 1) body = r" using Nil.prems(1) by (intro at_Cons) simp
  moreover have "skipWS body p = p" using skipWS_at [of p body "[]" "CHR ''}'' # r"] Nil.prems(1) by (simp add: isWS_def)
  ultimately show ?case by (simp add: n Let_def)
next
  case (Cons m ms)
  obtain a k b c v d where m: "m = Member a k b c v d" by (cases m)
  obtain n' where n: "n = Suc n'" "length ms < n'" using Cons.prems(4) by (cases n) auto
  let ?T = "if ms = [] then CHR ''}'' # r else CHR '','' # render_members ms @ CHR ''}'' # r"
  obtain x z where T: "?T = x # z" "x \<in> set '',}]''" "\<not> isWS x" "(x = CHR '','') = (ms \<noteq> [])" by (cases "ms = []") (auto simp: isWS_def)
  have 0: "drop p body = a @ quoted k @ b @ [CHR '':''] @ c @ render v @ d @ x # z"
    using Cons.prems(1) T(1) by (auto simp: m split: if_splits)
  note 1 = at_append [OF 0] note 2 = at_append [OF 1] note 3 = at_append [OF 2] note 4 = at_append [OF 3]
  note 5 = at_append [OF 4] note 6 = at_append [OF 5] note 7 = at_append [OF 6]
  let ?ks = "p + length a"
  let ?ke = "?ks + length (quoted k)"
  let ?co = "?ke + length b"
  let ?vs = "?co + 1 + length c"
  let ?nx = "?vs + length (render v) + length d"
  have ok: "ws_ok a" "str_ok k" "ws_ok b" "ws_ok c" "doc_ok v" "ws_ok d" "members_ok ms" using Cons.prems(2) m by auto
  have fit: "?nx < fin" using Cons.prems(3) by (auto simp: m)
  have ks: "skipWS body p = ?ks" "body ! ?ks = quot" "?ks < fin"
    using skipWS_at [OF 0 ok(1)] drop_hd [OF 1] fit by (auto simp: quoted_def isWS_def)
  have ke: "valueEnd body ?ks = ?ke" using valueEnd_at [OF 1 ok(2)] by simp
  have co: "skipWS body ?ke = ?co" "body ! ?co = CHR '':''" "?co < fin"
    using skipWS_at [OF 2 ok(3)] drop_hd [OF 3] fit by (auto simp: isWS_def)
  have v5: "drop ?vs body = render v @ d @ x # z" using 5 by simp
  have "drop (?co + 1) body = c @ render v @ d @ x # z" using 4 by simp
  then have vs: "skipWS body (?co + 1) = ?vs" "?vs < fin"
    using skipWS_at [of "?co + 1" body c] ok(4,5) render_hd [OF ok(5)] fit by auto
  have sv: "skipValue body ?vs fin = ?vs + value_width v d" by (rule skipValue_at [OF v5 ok(5,6) T(2) fit])
  have nx: "skipWS body (?vs + value_width v d) = ?nx" by (rule skipWS_value [OF v5 ok(5,6) T(3)])
  have bx: "body ! ?nx = x" "drop (?nx + 1) body = z" using 7 at_Cons [of ?nx body x z] by (auto simp: add.assoc)
  obtain acc' where act: "act ?ks ?ke ?vs acc = (acc', ?vs + value_width v d)"
    using assms sv by (metis surjective_pairing)
  have step: "member_walk n body fin act p acc =
      member_walk n' body fin act (if ?nx < fin \<and> body ! ?nx = CHR '','' then ?nx + 1 else ?nx) acc'"
    unfolding n(1) member_walk.simps Let_def ks(1) ke co(1) vs(1) act prod.case nx
    using ks(2,3) co(2,3) vs(2) by simp
  have fold: "fold_members act p (m # ms) acc = fold_members act (?nx + 1) ms acc'"
    by (simp only: m fold_members.simps Let_def act fst_conv)
  show ?case
  proof (cases "ms = []")
    case True
    then have "x = CHR ''}''" "z = r" using T(1) by auto
    then have "member_walk n' body fin act ?nx acc' = acc'"
      using Cons.IH [of ?nx n' acc'] True 7 n(2) fit by (simp add: add.assoc)
    then show ?thesis unfolding step fold using True bx T(4) by simp
  next
    case False
    then have x: "x = CHR '',''" "z = render_members ms @ CHR ''}'' # r" using T(1) by auto
    have "?nx + 1 + length (render_members ms) < fin" using Cons.prems(3) False by (auto simp: m)
    then have "member_walk n' body fin act (?nx + 1) acc' = fold_members act (?nx + 1) ms acc'"
      using Cons.IH [of "?nx + 1" n' acc'] bx x ok(7) n(2) by simp
    then show ?thesis unfolding step fold using bx x fit by simp
  qed
qed

lemma length_members: "length ms \<le> length (render_members ms)"
proof (induction ms)
  case (Cons m ms)
  then show ?case by (cases m) (auto simp: quoted_def)
qed simp

lemma object_walk_fold:
  assumes "\<And>ks ke vs acc. snd (act ks ke vs acc) = skipValue body vs fin"
    and "drop i body = lead @ render (Obj w ms) @ r" and "ws_ok lead" and "doc_ok (Obj w ms)"
    and "i + length lead + length (render (Obj w ms)) \<le> fin"
  shows "object_walk body i fin act acc = fold_members act (i + length lead + 1) ms acc"
proof -
  let ?j = "i + length lead"
  have s: "skipWS body i = ?j" using skipWS_at [OF assms(2,3)] by (simp add: isWS_def)
  have 1: "drop ?j body = CHR ''{'' # (if ms = [] then w else render_members ms) @ CHR ''}'' # r"
    using at_append [OF assms(2)] by simp
  have b: "?j < length body" "body ! ?j = CHR ''{''" "drop (?j + 1) body = (if ms = [] then w else render_members ms) @ CHR ''}'' # r"
    using at_Cons [OF 1] by auto
  have L: "length (render_members ms) + 1 \<le> length body"
    using at_length [of "?j + 1" body] b(3) by (cases "ms = []") (force, force)
  have "member_walk (length body) body fin act (?j + 1) acc = fold_members act (?j + 1) ms acc"
  proof (cases "ms = []")
    case True
    obtain m where m: "length body = Suc m" using L by (cases "length body") auto
    have w: "drop (?j + 1) body = w @ CHR ''}'' # r" using b(3) True by simp
    have e: "skipWS body (?j + 1) = ?j + 1 + length w" using skipWS_at [OF w] assms(4) by (simp add: isWS_def)
    have "body ! (?j + 1 + length w) = CHR ''}''" using at_append [OF w] at_Cons by fastforce
    then show ?thesis using True e by (simp add: m Let_def)
  next
    case False
    then show ?thesis using b(3) assms(4,5) L length_members [of ms]
      by (intro member_walk_fold [where r = r] assms(1)) auto
  qed
  then show ?thesis using s b assms(5) by (simp add: object_walk_def Let_def)
qed

lemma object_walk_other:
  assumes "drop i body = lead @ render v @ r" and "ws_ok lead" and "doc_ok v" and "\<nexists>w ms. v = Obj w ms"
  shows "object_walk body i fin act acc = acc"
proof -
  have "skipWS body i = i + length lead" using skipWS_at [OF assms(1,2)] render_hd [OF assms(3)] by simp
  moreover have "body ! (i + length lead) \<noteq> CHR ''{''"
    using drop_hd [OF at_append [OF assms(1)]] render_hd [OF assms(3)] assms(4) by simp
  ultimately show ?thesis by (simp add: object_walk_def Let_def)
qed

section \<open>Splices\<close>

text \<open>At position \<open>p\<close>, the edits turn \<open>X\<close> into \<open>Y\<close>.\<close>

inductive edits_to :: "nat \<Rightarrow> string \<Rightarrow> edit list \<Rightarrow> string \<Rightarrow> bool" where
  untouched: "edits_to p X [] X"
| edited: "edits_to p X [\<lparr>ed_start = p, ed_end = p + length X, ed_repl = R\<rparr>] R"
| beside: "edits_to p X es X' \<Longrightarrow> edits_to (p + length X) Y fs Y' \<Longrightarrow> edits_to p (X @ Y) (es @ fs) (X' @ Y')"

lemma slice_split: "p \<le> q \<Longrightarrow> q \<le> s \<Longrightarrow> slice body p s = slice body p q @ slice body q s"
proof -
  assume "p \<le> q" "q \<le> s"
  then obtain k m where "q = p + k" "s = p + k + m" by (metis le_Suc_ex add.assoc)
  then show ?thesis by (simp add: slice_def take_add drop_drop add.commute)
qed

lemma splice_from_move:
  assumes "case es of [] \<Rightarrow> q \<le> length body | e # _ \<Rightarrow> q \<le> ed_start e" and "p \<le> q" and "q \<le> length body"
  shows "splice_from body p es = map_option (\<lambda>r. slice body p q @ r) (splice_from body q es)"
proof (cases es)
  case Nil
  then show ?thesis using assms by (simp add: slice_def) (metis append_take_drop_id drop_drop le_add_diff_inverse2 add.commute)
next
  case (Cons e fs)
  have "slice body p (ed_start e) = slice body p q @ slice body q (ed_start e)" if "q \<le> ed_start e"
    by (rule slice_split [OF assms(2) that])
  then show ?thesis using Cons assms by (auto simp: option.map_comp o_def)
qed

lemma edits_to_bounds:
  "edits_to p X es Y \<Longrightarrow> e \<in> set es \<Longrightarrow> p \<le> ed_start e \<and> ed_end e \<le> p + length X"
  by (induction rule: edits_to.induct) auto

lemma splice_from_edits:
  "edits_to p X es Y \<Longrightarrow> drop p body = X @ r \<Longrightarrow> p + length X \<le> length body \<Longrightarrow>
   (case fs of [] \<Rightarrow> True | e # _ \<Rightarrow> p + length X \<le> ed_start e) \<Longrightarrow>
   splice_from body p (es @ fs) = map_option (\<lambda>z. Y @ z) (splice_from body (p + length X) fs)"
proof (induction arbitrary: fs r rule: edits_to.induct)
  case (untouched p X)
  then show ?case using splice_from_move [where es = fs and q = "p + length X" and body = body and p = p]
    by (cases fs) (simp_all add: slice_def)
next
  case (edited p X R)
  then show ?case by (simp add: slice_def)
next
  case (beside p X es X' Y gs Y')
  have Y: "drop (p + length X) body = Y @ r" using beside.prems(1) by (intro at_append) simp
  have "case gs @ fs of [] \<Rightarrow> True | e # _ \<Rightarrow> p + length X \<le> ed_start e"
    using edits_to_bounds [OF beside.hyps(2)] beside.prems(3) by (cases gs) (auto split: list.splits)
  then have "splice_from body p (es @ gs @ fs) = map_option ((@) X') (splice_from body (p + length X) (gs @ fs))"
    using beside.IH(1) [of "Y @ r" "gs @ fs"] beside.prems(1,2) by simp
  also have "splice_from body (p + length X) (gs @ fs) = map_option ((@) Y') (splice_from body (p + length X + length Y) fs)"
  proof -
    have "case fs of [] \<Rightarrow> True | e # _ \<Rightarrow> p + length X + length Y \<le> ed_start e"
      using beside.prems(3) by (cases fs) auto
    then show ?thesis using beside.IH(2) [OF Y, of fs] beside.prems(2) by (simp add: add.assoc)
  qed
  finally show ?case by (simp add: option.map_comp o_def add.assoc)
qed

lemma splice_edits:
  assumes "edits_to (length P) X es Y"
  shows "splice (P @ X @ S) es = Some (P @ Y @ S)"
proof -
  let ?b = "P @ X @ S"
  have "splice_from ?b 0 es = map_option ((@) P) (splice_from ?b (length P) es)"
    using splice_from_move [where es = es and q = "length P" and body = ?b and p = 0] edits_to_bounds [OF assms]
    by (cases es) (auto simp: slice_def)
  also have "splice_from ?b (length P) es = map_option ((@) Y) (splice_from ?b (length P + length X) [])"
    using splice_from_edits [OF assms, of ?b S "[]"] by simp
  finally show ?thesis by (simp add: splice_def)
qed

lemma edits_to_around:
  assumes "edits_to (p + length A) X es Y"
  shows "edits_to p (A @ X @ B) es (A @ Y @ B)"
  using beside [OF untouched [of p A] beside [OF assms untouched [of _ B]]] by simp

section \<open>Recording edits along a walk\<close>

fun update_member :: "(string \<Rightarrow> Doc \<Rightarrow> Doc) \<Rightarrow> DocMember \<Rightarrow> DocMember" where
  "update_member f (Member a k b c v d) = Member a k b c (f k v) d"

text \<open>One member of the body at the positions the walk hands over.\<close>

definition member_at :: "string \<Rightarrow> nat \<Rightarrow> nat \<Rightarrow> nat \<Rightarrow> nat \<Rightarrow> string \<Rightarrow> Doc \<Rightarrow> bool" where
  "member_at body fin ks ke vs k v \<longleftrightarrow>
     (\<exists>r. drop ks body = quoted k @ r) \<and> ke = ks + length (quoted k) \<and> str_ok k
     \<and> (\<exists>r. drop vs body = render v @ r) \<and> doc_ok v \<and> vs + length (render v) \<le> fin"

lemma quoted_inject [simp]: "quoted s = quoted t \<longleftrightarrow> s = t"
  by (simp add: quoted_def)

lemma member_at_facts:
  assumes "member_at body fin ks ke vs k v"
  shows "isKey body ks ke name \<longleftrightarrow> k = name"
    and "body ! vs = quot \<longleftrightarrow> (\<exists>s. v = Str s)"
    and "body ! vs = CHR ''{'' \<longleftrightarrow> (\<exists>w ms. v = Obj w ms)"
    and "v = Str s \<Longrightarrow> valueEnd body vs = vs + length (render v)"
    and "v = Obj w ms \<Longrightarrow> collectionEnd body vs fin = vs + length (render v)"
proof -
  obtain r r' where a: "drop ks body = quoted k @ r" "ke = ks + length (quoted k)" "drop vs body = render v @ r'"
    "doc_ok v" "vs + length (render v) \<le> fin"
    using assms by (auto simp: member_at_def)
  show "isKey body ks ke name \<longleftrightarrow> k = name" using slice_at [OF a(1)] a(2) by (simp add: isKey_def)
  have h: "body ! vs = hd (render v)" using drop_hd [OF a(3)] render_hd(1) [OF a(4)] by simp
  show "body ! vs = quot \<longleftrightarrow> (\<exists>s. v = Str s)" "body ! vs = CHR ''{'' \<longleftrightarrow> (\<exists>w ms. v = Obj w ms)"
    unfolding h using render_hd [OF a(4)] by auto
  show "v = Str s \<Longrightarrow> valueEnd body vs = vs + length (render v)"
    using valueEnd_at a(3,4) by simp
  show "v = Obj w ms \<Longrightarrow> collectionEnd body vs fin = vs + length (render v)"
    using collectionEnd_at [OF a(3,4,5)] by simp
qed

lemma fold_members_edits:
  assumes "\<And>ks ke vs k v acc. member_at body fin ks ke vs k v \<Longrightarrow>
      \<exists>es. fst (act ks ke vs acc) = acc @ es \<and> edits_to vs (render v) (map mk es) (render (f k v))"
  shows "drop p body = render_members ms @ CHR ''}'' # r \<Longrightarrow> members_ok ms \<Longrightarrow> p + length (render_members ms) < fin \<Longrightarrow>
    \<exists>es. fold_members act p ms acc = acc @ es
       \<and> edits_to p (render_members ms) (map mk es) (render_members (map (update_member f) ms))"
proof (induction ms arbitrary: p acc)
  case Nil
  then show ?case by (auto intro: untouched)
next
  case (Cons m ms)
  obtain a k b c v d where m: "m = Member a k b c v d" by (cases m)
  let ?A = "a @ quoted k @ b @ CHR '':'' # c"
  let ?D = "d @ (if ms = [] then [] else [CHR '',''])"
  let ?M = "render_members ms"
  have X: "render_members (m # ms) = ?A @ render v @ ?D @ ?M" by (simp add: m)
  let ?ks = "p + length a"
  let ?ke = "?ks + length (quoted k)"
  let ?vs = "?ke + length b + 1 + length c"
  have ks: "drop ?ks body = quoted k @ b @ CHR '':'' # c @ render v @ ?D @ ?M @ CHR ''}'' # r"
    using Cons.prems(1) unfolding X by (intro at_append [of _ _ a]) simp
  have vs: "drop ?vs body = render v @ ?D @ ?M @ CHR ''}'' # r"
    using at_append [of p body ?A] Cons.prems(1) unfolding X by (simp add: add.assoc)
  have fit: "?vs + length (render v) + length ?D + length ?M < fin"
    using Cons.prems(3) unfolding X by simp
  have at: "member_at body fin ?ks ?ke ?vs k v"
    using ks vs fit Cons.prems(2) by (auto simp: member_at_def m)
  obtain es where es: "fst (act ?ks ?ke ?vs acc) = acc @ es" "edits_to ?vs (render v) (map mk es) (render (f k v))"
    using assms [OF at] by blast
  have here: "edits_to p (?A @ render v @ ?D) (map mk es) (?A @ render (f k v) @ ?D)"
    using es(2) by (intro edits_to_around) (simp add: add.assoc)
  show ?case
  proof (cases "ms = []")
    case True
    then show ?thesis using here es(1) X by (auto simp: m Let_def)
  next
    case False
    let ?q = "?vs + length (render v) + length d + 1"
    have q: "?q = p + length (?A @ render v @ ?D)" using False by simp
    have "drop ?q body = ?M @ CHR ''}'' # r" using at_append [of ?vs body "render v @ d @ '',''" "?M @ CHR ''}'' # r"] vs False by (simp add: add.assoc)
    then obtain fs where fs: "fold_members act ?q ms (acc @ es) = (acc @ es) @ fs"
      "edits_to ?q ?M (map mk fs) (render_members (map (update_member f) ms))"
      using Cons.IH [of ?q "acc @ es"] Cons.prems(2) fit False by (auto simp: m)
    have "edits_to p ((?A @ render v @ ?D) @ ?M) (map mk es @ map mk fs)
        ((?A @ render (f k v) @ ?D) @ render_members (map (update_member f) ms))"
      using fs(2) by (intro beside [OF here]) (simp only: q)
    then show ?thesis using fs(1) es(1) X False
      by (intro exI [of _ "es @ fs"]) (simp add: m Let_def)
  qed
qed

text \<open>The walk over an object, and over anything else.\<close>

fun update_object :: "(string \<Rightarrow> Doc \<Rightarrow> Doc) \<Rightarrow> Doc \<Rightarrow> Doc" where
  "update_object f (Obj w ms) = Obj w (map (update_member f) ms)"
| "update_object f v = v"

lemma object_walk_edits:
  assumes "\<And>ks ke vs acc. snd (act ks ke vs acc) = skipValue body vs fin"
    and "\<And>ks ke vs k v acc. member_at body fin ks ke vs k v \<Longrightarrow>
      \<exists>es. fst (act ks ke vs acc) = acc @ es \<and> edits_to vs (render v) (map mk es) (render (f k v))"
    and "drop i body = lead @ render v @ r" and "ws_ok lead" and "doc_ok v" and "i + length lead + length (render v) \<le> fin"
  shows "\<exists>es. object_walk body i fin act acc = acc @ es
     \<and> edits_to (i + length lead) (render v) (map mk es) (render (update_object f v))"
proof (cases "\<exists>w ms. v = Obj w ms")
  case False
  then have "update_object f v = v" by (cases v) auto
  then show ?thesis using object_walk_other [OF assms(3-5)] False
    by (intro exI [of _ "[]"]) (simp add: untouched)
next
  case True
  then obtain w ms where v: "v = Obj w ms" by blast
  let ?p = "i + length lead + 1"
  have walk: "object_walk body i fin act acc = fold_members act ?p ms acc"
    using assms(3-6) v by (intro object_walk_fold [OF assms(1)]) auto
  have b: "drop ?p body = (if ms = [] then w else render_members ms) @ CHR ''}'' # r"
    using at_Cons [of "i + length lead" body "CHR ''{''"] at_append [OF assms(3)] v by simp
  show ?thesis
  proof (cases "ms = []")
    case True
    then show ?thesis using walk v by (intro exI [of _ "[]"]) (simp add: untouched)
  next
    case False
    then obtain es where es: "fold_members act ?p ms acc = acc @ es"
      "edits_to ?p (render_members ms) (map mk es) (render_members (map (update_member f) ms))"
    proof -
      have "\<exists>es. fold_members act ?p ms acc = acc @ es
          \<and> edits_to ?p (render_members ms) (map mk es) (render_members (map (update_member f) ms))"
        by (rule fold_members_edits [where body = body and fin = fin and r = r, OF assms(2)])
          (use b assms(5,6) v False in auto)
      then show thesis using that by blast
    qed
    have "edits_to (i + length lead) (''{'' @ render_members ms @ ''}'') (map mk es)
        (''{'' @ render_members (map (update_member f) ms) @ ''}'')"
      using es(2) by (intro edits_to_around) simp
    then show ?thesis using walk es(1) v False by (intro exI [of _ es]) simp
  qed
qed

end
