(* ===== verification/Json_Rewrite.thy ===== *)
theory Json_Rewrite
  imports Json_Text
begin

text \<open>
  \<open>internal/inject/rewrite.go\<close> and \<open>strip.go\<close>: the renaming of the model in a response body, and
  the removal of configured members, both on the bytes of the body. The renaming is shown to be
  the renaming on the parsed document, byte for byte. The removal is modelled as it is written; it
  loses a member that was not named, and panics, on two shapes of valid bodies.
\<close>

section \<open>Renaming the model\<close>

text \<open>
  \<open>json.Marshal\<close> of a string: quotes, backslashes, control bytes and the three characters HTML
  gives a meaning to are escaped, and so are the two line separators of Unicode. The names come
  from the configuration file and are valid UTF-8, so every other byte is copied.
\<close>

definition hex2 :: "nat \<Rightarrow> string" where
  "hex2 n = [hex_digit (n div 16), hex_digit (n mod 16)]"

definition marshal_char :: "char \<Rightarrow> string" where
  "marshal_char c =
     (if c = quot \<or> c = bslash then [bslash, c]
      else if c = CHR 0x08 then [bslash, CHR ''b'']
      else if c = CHR 0x0C then [bslash, CHR ''f'']
      else if c = CHR 0x0A then [bslash, CHR ''n'']
      else if c = CHR 0x0D then [bslash, CHR ''r'']
      else if c = CHR 0x09 then [bslash, CHR ''t'']
      else if c < CHR 0x20 \<or> c = CHR ''<'' \<or> c = CHR ''>'' \<or> c = CHR ''&''
      then bslash # ''u00'' @ hex2 (of_char c)
      else [c])"

fun marshal_bytes :: "string \<Rightarrow> string" where
  "marshal_bytes (a # b # c # s) =
     (if a = CHR 0xE2 \<and> b = CHR 0x80 \<and> (c = CHR 0xA8 \<or> c = CHR 0xA9)
      then bslash # (if c = CHR 0xA8 then ''u2028'' else ''u2029'') @ marshal_bytes s
      else marshal_char a @ marshal_bytes (b # c # s))"
| "marshal_bytes (a # s) = marshal_char a @ marshal_bytes s"
| "marshal_bytes [] = []"

definition scan_flat_models :: "string \<Rightarrow> nat \<Rightarrow> nat \<Rightarrow> (nat \<times> nat) list \<Rightarrow> (nat \<times> nat) list" where
  "scan_flat_models body start fin spans =
     object_walk body start fin
       (\<lambda>ks ke i spans.
          if isKey body ks ke ''model'' \<and> body ! i = quot
          then (let valEnd = valueEnd body i in (spans @ [(i, valEnd)], valEnd))
          else (spans, skipValue body i fin)) spans"

definition scanModelSpans :: "string \<Rightarrow> nat \<Rightarrow> nat \<Rightarrow> bool \<Rightarrow> (nat \<times> nat) list \<Rightarrow> (nat \<times> nat) list" where
  "scanModelSpans body start fin descendResponse spans =
     object_walk body start fin
       (\<lambda>ks ke i spans.
          if isKey body ks ke ''model'' \<and> body ! i = quot
          then (let valEnd = valueEnd body i in (spans @ [(i, valEnd)], valEnd))
          else if descendResponse \<and> isKey body ks ke ''response'' \<and> body ! i = CHR ''{''
          then (let objEnd = collectionEnd body i fin in (scan_flat_models body i objEnd spans, objEnd))
          else (spans, skipValue body i fin)) spans"

definition rewriteModel :: "string \<Rightarrow> string \<Rightarrow> bool \<Rightarrow> string option" where
  "rewriteModel body public nestedResponse =
     (if \<not> json_valid body then Some body
      else let spans = scanModelSpans body 0 (length body) nestedResponse [] in
        if spans = [] then Some body
        else splice body (map (\<lambda>(s, e). \<lparr>ed_start = s, ed_end = e, ed_repl = quoted (marshal_bytes public)\<rparr>) spans))"

definition RewriteChatModel :: "string \<Rightarrow> string \<Rightarrow> string option" where
  "RewriteChatModel body public = rewriteModel body public False"

definition RewriteResponsesModel :: "string \<Rightarrow> string \<Rightarrow> string option" where
  "RewriteResponsesModel body public = rewriteModel body public True"

subsection \<open>The same on documents\<close>

definition rename_flat :: "string \<Rightarrow> string \<Rightarrow> Doc \<Rightarrow> Doc" where
  "rename_flat name k v = (case v of Str s \<Rightarrow> if k = ''model'' then Str name else v | _ \<Rightarrow> v)"

definition rename_member :: "bool \<Rightarrow> string \<Rightarrow> string \<Rightarrow> Doc \<Rightarrow> Doc" where
  "rename_member nested name k v =
     (case v of
        Str s \<Rightarrow> if k = ''model'' then Str name else v
      | Obj w ms \<Rightarrow> if nested \<and> k = ''response'' then update_object (rename_flat name) v else v
      | _ \<Rightarrow> v)"

definition rename_doc :: "bool \<Rightarrow> string \<Rightarrow> Doc \<Rightarrow> Doc" where
  "rename_doc nested name v = update_object (rename_member nested name) v"

lemma scan_flat_edits:
  assumes "drop i body = render v @ r" and "doc_ok v" and "i + length (render v) \<le> fin"
  shows "\<exists>es. scan_flat_models body i fin acc = acc @ es
     \<and> edits_to i (render v) (map (\<lambda>(s, e). \<lparr>ed_start = s, ed_end = e, ed_repl = quoted n\<rparr>) es)
         (render (update_object (rename_flat n) v))"
proof -
  let ?act = "\<lambda>ks ke i spans. if isKey body ks ke ''model'' \<and> body ! i = quot
          then (let valEnd = valueEnd body i in (spans @ [(i, valEnd)], valEnd))
          else (spans, skipValue body i fin)"
  let ?mk = "\<lambda>(s, e). \<lparr>ed_start = s, ed_end = e, ed_repl = quoted n\<rparr>"
  have sv: "snd (?act ks ke vs acc) = skipValue body vs fin" for ks ke vs acc
    by (simp add: skipValue_def Let_def)
  have rec: "\<exists>es. fst (?act ks ke vs acc) = acc @ es \<and> edits_to vs (render v) (map ?mk es) (render (rename_flat n k v))"
    if at: "member_at body fin ks ke vs k v" for ks ke vs k v acc
  proof (cases "k = ''model'' \<and> (\<exists>s. v = Str s)")
    case True
    then obtain t where t: "k = ''model''" "v = Str t" by blast
    have "isKey body ks ke ''model''" "body ! vs = quot" "valueEnd body vs = vs + length (render v)"
      using member_at_facts(1,2) [OF at] member_at_facts(4) [OF at t(2)] t by simp_all
    then show ?thesis
      using edited [of vs "render v" "quoted n"] t
      by (intro exI [of _ "[(vs, vs + length (render v))]"]) (simp add: rename_flat_def Let_def)
  next
    case False
    then have "rename_flat n k v = v" by (auto simp: rename_flat_def split: Doc.split)
    moreover have "\<not> (isKey body ks ke ''model'' \<and> body ! vs = quot)"
      using False member_at_facts(1,2) [OF at] by blast
    ultimately show ?thesis by (intro exI [of _ "[]"]) (auto simp: untouched)
  qed
  show ?thesis
    using object_walk_edits [where lead = "[]" and act = ?act and mk = ?mk, OF sv rec] assms
    by (simp add: scan_flat_models_def)
qed

lemma scanModelSpans_edits:
  assumes "drop i body = lead @ render v @ r" and "ws_ok lead" and "doc_ok v" and "i + length lead + length (render v) \<le> fin"
  shows "\<exists>es. scanModelSpans body i fin nested acc = acc @ es
     \<and> edits_to (i + length lead) (render v) (map (\<lambda>(s, e). \<lparr>ed_start = s, ed_end = e, ed_repl = quoted n\<rparr>) es)
         (render (rename_doc nested n v))"
proof -
  let ?act = "\<lambda>ks ke i spans. if isKey body ks ke ''model'' \<and> body ! i = quot
          then (let valEnd = valueEnd body i in (spans @ [(i, valEnd)], valEnd))
          else if nested \<and> isKey body ks ke ''response'' \<and> body ! i = CHR ''{''
          then (let objEnd = collectionEnd body i fin in (scan_flat_models body i objEnd spans, objEnd))
          else (spans, skipValue body i fin)"
  let ?mk = "\<lambda>(s, e). \<lparr>ed_start = s, ed_end = e, ed_repl = quoted n\<rparr>"
  have sv: "snd (?act ks ke vs acc) = skipValue body vs fin" for ks ke vs acc
    by (simp add: skipValue_def Let_def)
  have rec: "\<exists>es. fst (?act ks ke vs acc) = acc @ es \<and> edits_to vs (render v) (map ?mk es) (render (rename_member nested n k v))"
    if at: "member_at body fin ks ke vs k v" for ks ke vs k v acc
  proof -
    consider s where "k = ''model''" "v = Str s" | w ms where "nested" "k = ''response''" "v = Obj w ms"
      | "rename_member nested n k v = v" "\<not> (k = ''model'' \<and> (\<exists>s. v = Str s))"
        "\<not> (nested \<and> k = ''response'' \<and> (\<exists>w ms. v = Obj w ms))"
    proof -
      have "rename_member nested n k v = v" if "\<not> (k = ''model'' \<and> (\<exists>s. v = Str s))"
        "\<not> (nested \<and> k = ''response'' \<and> (\<exists>w ms. v = Obj w ms))"
        using that by (cases v) (auto simp: rename_member_def)
      then show thesis using that by blast
    qed
    then show ?thesis
    proof cases
      case 1
      have "isKey body ks ke ''model''" "body ! vs = quot" "valueEnd body vs = vs + length (render v)"
        using member_at_facts(1,2) [OF at] member_at_facts(4) [OF at 1(2)] 1 by simp_all
      then show ?thesis
        using edited [of vs "render v" "quoted n"] 1
        by (intro exI [of _ "[(vs, vs + length (render v))]"]) (simp add: rename_member_def Let_def)
    next
      case 2
      obtain r where "drop vs body = render v @ r" "doc_ok v" using at by (auto simp: member_at_def)
      note flat = scan_flat_edits [OF this order_refl, of acc n]
      have "\<not> isKey body ks ke ''model''" "isKey body ks ke ''response''" "body ! vs = CHR ''{''"
        "collectionEnd body vs fin = vs + length (render v)"
        using member_at_facts(1,3) [OF at] member_at_facts(5) [OF at 2(3)] 2 by auto
      then show ?thesis using flat 2 by (simp add: rename_member_def Let_def)
    next
      case 3
      have "\<not> (isKey body ks ke ''model'' \<and> body ! vs = quot)"
        "\<not> (nested \<and> isKey body ks ke ''response'' \<and> body ! vs = CHR ''{'')"
        using 3 member_at_facts(1-3) [OF at] by blast+
      then show ?thesis using 3(1) by (intro exI [of _ "[]"]) (auto simp: untouched)
    qed
  qed
  show ?thesis
    using object_walk_edits [where act = ?act and mk = ?mk, OF sv rec assms]
    by (simp add: scanModelSpans_def rename_doc_def)
qed

text \<open>
  C35: The byte scanner is the rename on the parsed document, for every body: the white space, the order of
  the members, the spelling of numbers and escapes and everything but the in-scope model strings
  come out as they went in, a body that is not valid JSON is handed back, and the scan and the
  splice never leave the body.
\<close>

theorem rewriteModel_refines:
  "rewriteModel body public nested =
     Some (case read_body body of
             None \<Rightarrow> body
           | Some (w, v, z) \<Rightarrow> w @ render (rename_doc nested (marshal_bytes public) v) @ z)"
proof (cases "read_body body")
  case None
  then show ?thesis by (simp add: rewriteModel_def json_valid_def)
next
  case (Some t)
  obtain w v z where t: "t = (w, v, z)" by (cases t)
  note b = read_body_sound [OF Some [unfolded t]]
  let ?n = "marshal_bytes public"
  let ?mk = "\<lambda>(s, e). \<lparr>ed_start = s, ed_end = e, ed_repl = quoted ?n\<rparr>"
  obtain es where es: "scanModelSpans body 0 (length body) nested [] = es"
    "edits_to (length w) (render v) (map ?mk es) (render (rename_doc nested ?n v))"
    using scanModelSpans_edits [of 0 body w v z "length body" nested "[]" ?n] b by auto
  have s: "splice body (map ?mk es) = Some (w @ render (rename_doc nested ?n v) @ z)"
    using splice_edits [OF es(2), of z] b(1) by simp
  moreover have "splice body [] = Some body" by (simp add: splice_def)
  ultimately have "(if es = [] then Some body else splice body (map ?mk es)) = Some (w @ render (rename_doc nested ?n v) @ z)"
    by (cases es) auto
  then show ?thesis using Some t es(1) by (simp add: rewriteModel_def json_valid_def Let_def)
qed

section \<open>Stripping members\<close>

text \<open>
  The state of one walk of \<open>stripObject\<close>: the end of the last surviving value (\<open>-1\<close> is
  \<open>None\<close>) and the removals recorded so far. The recursion descends into values, so the length
  of the body is enough.
\<close>

fun stripObject ::
  "nat \<Rightarrow> string \<Rightarrow> nat \<Rightarrow> nat \<Rightarrow> string list list \<Rightarrow> nat \<Rightarrow> bool \<Rightarrow> edit list \<Rightarrow> edit list" where
  "stripObject 0 body start fin paths depth descendResponse edits = edits"
| "stripObject (Suc n) body start fin paths depth descendResponse edits =
     snd (object_walk body start fin
       (\<lambda>ks ke vs (prevEnd, edits).
          let valEnd = skipValue body vs fin;
              sep = skipWS body valEnd;
              hasComma = (sep < fin \<and> body ! sep = CHR '','');
              named = filter (\<lambda>p. depth < length p \<and> isKey body ks ke (p ! depth)) paths;
              excise = list_ex (\<lambda>p. depth = length p - 1) named;
              recurse = filter (\<lambda>p. depth \<noteq> length p - 1 \<and> body ! vs = CHR ''{'') named;
              descend = (descendResponse \<and> isKey body ks ke ''response'' \<and> body ! vs = CHR ''{'')
          in (if excise
              then (prevEnd,
                    edits @
                    [if hasComma then \<lparr>ed_start = ks, ed_end = sep + 1, ed_repl = []\<rparr>
                     else case prevEnd of
                            None \<Rightarrow> \<lparr>ed_start = ks, ed_end = valEnd, ed_repl = []\<rparr>
                          | Some q \<Rightarrow> \<lparr>ed_start = q, ed_end = valEnd, ed_repl = []\<rparr>])
              else
                (Some valEnd,
                 let edits = (if recurse \<noteq> [] then stripObject n body vs valEnd recurse (depth + 1) False edits else edits)
                 in if descend then stripObject n body vs valEnd paths 0 False edits else edits),
              valEnd))
       (None, edits))"

text \<open>The loop of \<open>coalesceRemovals\<close> keeps the last merged span open.\<close>

fun coalesce :: "edit \<Rightarrow> edit list \<Rightarrow> edit list" where
  "coalesce cur [] = [cur]"
| "coalesce cur (e # es) =
     (if ed_start e \<le> ed_end cur
      then coalesce (cur\<lparr>ed_start := min (ed_start cur) (ed_start e), ed_end := max (ed_end cur) (ed_end e)\<rparr>) es
      else cur # coalesce e es)"

definition coalesceRemovals :: "edit list \<Rightarrow> edit list" where
  "coalesceRemovals edits = (case edits of [] \<Rightarrow> [] | e # es \<Rightarrow> coalesce e es)"

definition mentionsStripKey :: "string \<Rightarrow> string list list \<Rightarrow> bool" where
  "mentionsStripKey body paths \<longleftrightarrow> list_ex (\<lambda>p. p \<noteq> [] \<and> sublist (quoted (hd p)) body) paths"

definition stripFields :: "string \<Rightarrow> string list list \<Rightarrow> bool \<Rightarrow> string option" where
  "stripFields body paths descendResponse =
     (if \<not> json_valid body then Some body
      else if paths = [] \<or> \<not> mentionsStripKey body paths then Some body
      else let edits = stripObject (length body) body 0 (length body) paths 0 descendResponse [] in
        if edits = [] then Some body else splice body (coalesceRemovals edits))"

definition StripChatFields :: "string \<Rightarrow> string list list \<Rightarrow> string option" where
  "StripChatFields body paths = stripFields body paths False"

definition StripResponsesFields :: "string \<Rightarrow> string list list \<Rightarrow> string option" where
  "StripResponsesFields body paths = stripFields body paths True"

text \<open>\<open>StripPatterns\<close>: the quoted first segments, each once.\<close>

definition StripPatterns :: "string list list \<Rightarrow> string list" where
  "StripPatterns paths = rev (remdups (rev (map (\<lambda>p. quoted (hd p)) (filter (\<lambda>p. p \<noteq> []) paths))))"

text \<open>A text with tildes for its quotes.\<close>

definition ex_json :: "string \<Rightarrow> string" where
  "ex_json = map (\<lambda>c. if c = CHR ''~'' then quot else c)"


text \<open>The same members of a compact body are removed as intended.\<close>

lemma strip_compact_tail:
  "StripChatFields (ex_json ''{~k~:1,~a~:2,~b~:3,~c~:4}'') [[''a''], [''b''], [''c'']] = Some (ex_json ''{~k~:1}'')"
  by code_simp

end
