(* ===== verification/Error_Envelope.thy ===== *)
theory Error_Envelope
  imports Json_Text Partial_Text Transport_Errors Http_Headers
begin

text \<open>
  What the proxy answers when it answers by itself, and what it keeps of an upstream's error:
  the envelopes of \<open>internal/proxy/handler.go\<close> and \<open>envelope_dialect.go\<close> with Go's JSON string
  encoder, and the bounded capture and classification of an error body in \<open>upstream_error.go\<close>.
  SHA-256 and \<open>mime.ParseMediaType\<close> are arguments, and JSON decoding is the decoder argument. The
  theorems show that every envelope is valid JSON that carries the interpolated name unchanged, and
  that what a log or a decision sees of a provider's error body is bounded and printable.
\<close>

section \<open>Go's JSON strings\<close>

text \<open>\<open>utf8.DecodeRune\<close>: the width of the rune at the front, \<open>None\<close> for an invalid byte.\<close>

definition cont_byte :: "char \<Rightarrow> bool" where
  "cont_byte c \<longleftrightarrow> CHR 0x80 \<le> c \<and> c \<le> CHR 0xBF"

definition second_byte :: "char \<Rightarrow> char \<Rightarrow> bool" where
  "second_byte a b \<longleftrightarrow>
     (if a = CHR 0xE0 then CHR 0xA0 else if a = CHR 0xF0 then CHR 0x90 else CHR 0x80) \<le> b
     \<and> b \<le> (if a = CHR 0xED then CHR 0x9F else if a = CHR 0xF4 then CHR 0x8F else CHR 0xBF)"

fun rune_width :: "string \<Rightarrow> nat option" where
  "rune_width [] = None"
| "rune_width (a # s) =
     (if a < CHR 0x80 then Some 1
      else if CHR 0xC2 \<le> a \<and> a \<le> CHR 0xDF
      then (case s of b # _ \<Rightarrow> if second_byte a b then Some 2 else None | _ \<Rightarrow> None)
      else if CHR 0xE0 \<le> a \<and> a \<le> CHR 0xEF
      then (case s of b # c # _ \<Rightarrow> if second_byte a b \<and> cont_byte c then Some 3 else None | _ \<Rightarrow> None)
      else if CHR 0xF0 \<le> a \<and> a \<le> CHR 0xF4
      then (case s of b # c # d # _ \<Rightarrow> if second_byte a b \<and> cont_byte c \<and> cont_byte d then Some 4 else None
            | _ \<Rightarrow> None)
      else None)"

definition escape_byte :: "char \<Rightarrow> string" where
  "escape_byte c =
     (if CHR 0x20 \<le> c \<and> c \<noteq> quot \<and> c \<noteq> bslash then [c]
      else if c = quot \<or> c = bslash then [bslash, c]
      else if c = CHR 0x08 then [bslash, CHR ''b'']
      else if c = CHR 0x0C then [bslash, CHR ''f'']
      else if c = CHR 0x0A then [bslash, CHR ''n'']
      else if c = CHR 0x0D then [bslash, CHR ''r'']
      else if c = CHR 0x09 then [bslash, CHR ''t'']
      else [bslash, CHR ''u'', CHR ''0'', CHR ''0''] @ hex_encode [c])"

definition line_separator :: string where "line_separator = [CHR 0xE2, CHR 0x80, CHR 0xA8]"
definition paragraph_separator :: string where "paragraph_separator = [CHR 0xE2, CHR 0x80, CHR 0xA9]"

text \<open>The string encoder with HTML escaping off.\<close>

function json_escape :: "string \<Rightarrow> string" where
  "json_escape [] = []"
| "json_escape (c # s) =
     (if c < CHR 0x80 then escape_byte c @ json_escape s
      else case rune_width (c # s) of
             None \<Rightarrow> (bslash # ''ufffd'') @ json_escape s
           | Some w \<Rightarrow>
               (let r = take w (c # s) in
                (if r = line_separator then bslash # ''u2028''
                 else if r = paragraph_separator then bslash # ''u2029'' else r)
                @ json_escape (drop (w - 1) s)))"
  by pat_completeness auto
termination by (relation "measure length") (auto simp: less_Suc_eq_le)

section \<open>Envelopes\<close>

definition jstring :: "string \<Rightarrow> Doc" where "jstring s = Str (json_escape s)"
definition jnull :: Doc where "jnull = Lit ''null''"

definition plain_member :: "string \<times> Doc \<Rightarrow> DocMember" where
  "plain_member kv = Member [] (fst kv) [] [] (snd kv) []"

definition jobject :: "(string \<times> Doc) list \<Rightarrow> Doc" where
  "jobject kvs = Obj [] (map plain_member kvs)"

definition marshalEnvelopeJSON :: "Doc \<Rightarrow> string" where
  "marshalEnvelopeJSON v = render v"

definition openAIError :: "string \<Rightarrow> string \<Rightarrow> string option \<Rightarrow> Doc" where
  "openAIError message typ code =
     jobject [(''error'',
       jobject [(''message'', jstring message), (''type'', jstring typ), (''param'', jnull),
                (''code'', case code of None \<Rightarrow> jnull | Some c \<Rightarrow> jstring c)])]"

definition anthropicErrorEnvelope :: "string \<Rightarrow> string \<Rightarrow> Doc" where
  "anthropicErrorEnvelope typ message =
     jobject [(''type'', jstring ''error''),
              (''error'', jobject [(''type'', jstring typ), (''message'', jstring message)])]"

definition model_message :: "string \<Rightarrow> string" where
  "model_message model = ''The model '' @ [CHR 0x27] @ model @ [CHR 0x27] @ '' does not exist or you do not have access to it.''"

definition modelNotFoundEnvelope :: "string \<Rightarrow> string" where
  "modelNotFoundEnvelope model =
     marshalEnvelopeJSON (openAIError (model_message model) ''invalid_request_error'' (Some ''model_not_found''))"

definition anthropicModelNotFound :: "string \<Rightarrow> string" where
  "anthropicModelNotFound model = marshalEnvelopeJSON (anthropicErrorEnvelope ''not_found_error'' (model_message model))"

text \<open>The body of the catch-all 404.\<close>

definition notFound_body :: "string \<Rightarrow> string \<Rightarrow> string" where
  "notFound_body verb path =
     marshalEnvelopeJSON (openAIError (''Invalid URL ('' @ verb @ '' '' @ path @ '')'') ''invalid_request_error'' None)"

definition envelopeInvalidReq :: string where
  "envelopeInvalidReq = ''{\"error\":{\"message\":\"invalid JSON in request body\",\"type\":\"invalid_request_error\",\"param\":null,\"code\":null}}''"

definition envelopeMissingMod :: string where
  "envelopeMissingMod = ''{\"error\":{\"message\":\"you must provide a model parameter\",\"type\":\"invalid_request_error\",\"param\":null,\"code\":null}}''"

definition envelopeTooLarge :: string where
  "envelopeTooLarge = ''{\"error\":{\"message\":\"request body too large\",\"type\":\"invalid_request_error\",\"param\":null,\"code\":null}}''"

definition envelopeAtCapacity :: string where
  "envelopeAtCapacity = ''{\"error\":{\"message\":\"server is out of buffering capacity\",\"type\":\"server_error\",\"code\":\"capacity_exceeded\"}}''"

definition envelopeUpInvalid :: string where
  "envelopeUpInvalid = ''{\"error\":{\"message\":\"upstream returned an invalid response\",\"type\":\"upstream_error\",\"code\":\"upstream_invalid_response\"}}''"

definition envelopeUpUnreach :: string where
  "envelopeUpUnreach = ''{\"error\":{\"message\":\"upstream request failed\",\"type\":\"upstream_error\",\"code\":\"upstream_unreachable\"}}''"

definition envelopeBadMethod :: string where
  "envelopeBadMethod = ''{\"error\":{\"message\":\"method not allowed\",\"type\":\"invalid_request_error\",\"param\":null,\"code\":null}}''"

definition envelopeAuthMissing :: string where
  "envelopeAuthMissing = ''{\"error\":{\"message\":\"you must provide an API key in the Authorization header (Bearer <key>)\",\"type\":\"invalid_request_error\",\"param\":null,\"code\":null}}''"

definition envelopeAuthInvalid :: string where
  "envelopeAuthInvalid = ''{\"error\":{\"message\":\"invalid API key\",\"type\":\"invalid_request_error\",\"param\":null,\"code\":\"invalid_api_key\"}}''"

section \<open>Evidence of an upstream error\<close>

definition maxUpstreamErrorBodyBytes :: int where "maxUpstreamErrorBodyBytes = 65536"
definition maxProviderTokenBytes :: nat where "maxProviderTokenBytes = 64"
definition maxRateLimitHeaderBytes :: nat where "maxRateLimitHeaderBytes = 128"
definition maxLogContentTypeBytes :: nat where "maxLogContentTypeBytes = 128"

definition evidenceRateLimitFields :: "(string \<times> string) list" where
  "evidenceRateLimitFields =
     [(''Retry-After'', ''retry_after''), (''X-RateLimit-Limit'', ''x_ratelimit_limit''),
      (''X-RateLimit-Remaining'', ''x_ratelimit_remaining''), (''X-RateLimit-Reset'', ''x_ratelimit_reset''),
      (''X-RateLimit-Reset-Requests'', ''x_ratelimit_reset_requests''),
      (''X-RateLimit-Reset-Tokens'', ''x_ratelimit_reset_tokens'')]"

definition isUpstreamHTTPError :: "int \<Rightarrow> bool" where
  "isUpstreamHTTPError status \<longleftrightarrow> status \<ge> 400 \<and> status \<le> 599"

definition shapeEmpty :: string where "shapeEmpty = ''empty''"
definition shapeJSONObject :: string where "shapeJSONObject = ''json_error_object''"
definition shapeJSON :: string where "shapeJSON = ''json''"
definition shapeText :: string where "shapeText = ''text''"
definition shapeMalformed :: string where "shapeMalformed = ''malformed_json''"
definition shapeTruncated :: string where "shapeTruncated = ''truncated''"

lemmas shapes = shapeEmpty_def shapeJSONObject_def shapeJSON_def shapeText_def shapeMalformed_def shapeTruncated_def

record upstreamErrorEvidence =
  ue_status :: int
  ue_contentType :: string
  ue_class :: string
  ue_shape :: string
  ue_bodyBytes :: nat
  ue_truncated :: bool
  ue_fingerprint :: string
  ue_providerType :: string
  ue_providerCode :: string
  ue_rateLimit :: "(string \<times> string) list"

definition zeroEvidence :: upstreamErrorEvidence where
  "zeroEvidence = \<lparr>ue_status = 0, ue_contentType = [], ue_class = [], ue_shape = [], ue_bodyBytes = 0,
     ue_truncated = False, ue_fingerprint = [], ue_providerType = [], ue_providerCode = [], ue_rateLimit = []\<rparr>"

datatype captureError = captureOK | captureCallerEnded | captureDeadline | captureEnvelopeElapsed | captureReadFailed

definition printableToken :: "string \<Rightarrow> string" where
  "printableToken s =
     (if s = [] \<or> length s > maxProviderTokenBytes then []
      else if list_ex (\<lambda>c. c < CHR 0x21 \<or> c > CHR 0x7E) s then [] else s)"

definition rawValue :: "Json option \<Rightarrow> string" where
  "rawValue raw = (case raw of None \<Rightarrow> [] | Some v \<Rightarrow> (case as_string v of None \<Rightarrow> [] | Some s \<Rightarrow> s))"

definition classifyErrorBody :: "(string \<Rightarrow> Json option) \<Rightarrow> string \<Rightarrow> string \<times> string \<times> string" where
  "classifyErrorBody decode body =
     (if body = [] then (shapeEmpty, [], [])
      else case decode body of
        None \<Rightarrow>
          (let trimmed = dropWhile isWS body in
           if trimmed \<noteq> [] \<and> (hd trimmed = CHR ''{'' \<or> hd trimmed = CHR ''['') then (shapeMalformed, [], [])
           else (shapeText, [], []))
      | Some v \<Rightarrow>
          (case as_object v of
             None \<Rightarrow> (shapeJSON, [], [])
           | Some obj \<Rightarrow>
               (case jget obj ''error'' of
                  None \<Rightarrow> (shapeJSON, [], [])
                | Some m \<Rightarrow>
                    (case as_object m of
                       None \<Rightarrow> (shapeJSON, [], [])
                     | Some errObj \<Rightarrow>
                         (shapeJSONObject, printableToken (rawValue (jget errObj ''type'')),
                          printableToken (rawValue (jget errObj ''code'')))))))"

definition logSafeContentType :: "(string \<Rightarrow> string option) \<Rightarrow> string \<Rightarrow> string" where
  "logSafeContentType parseMedia v =
     (if v = [] then []
      else if length v > maxLogContentTypeBytes then ''oversized''
      else case parseMedia v of None \<Rightarrow> ''invalid'' | Some mt \<Rightarrow> if mt = [] then ''invalid'' else mt)"

text \<open>
  What the body held before it ended, how it ended, whether the caller's context had ended when the
  error was examined, and whether the capture's own deadline had passed.
\<close>

record BodyCapture =
  bc_bytes :: string
  bc_err :: "err option"
  bc_gone :: bool
  bc_deadline :: bool

text \<open>\<open>io.ReadAll\<close> over the limit of one byte more than the cap: an end behind the limit is not met.\<close>

definition read_limited :: "int \<Rightarrow> string \<Rightarrow> err option \<Rightarrow> string \<times> err option" where
  "read_limited limit bytes e = (if int (length bytes) \<ge> limit then (take (nat limit) bytes, None) else (bytes, e))"

definition evidence_head :: "(string \<Rightarrow> string option) \<Rightarrow> int \<Rightarrow> headers \<Rightarrow> upstreamErrorEvidence" where
  "evidence_head parseMedia status h =
     zeroEvidence\<lparr>ue_status := status,
       ue_contentType := logSafeContentType parseMedia (hget h contentTypeHeader),
       ue_class := (if status \<ge> 500 then ''upstream_http_5xx'' else ''upstream_http_4xx''),
       ue_rateLimit := filter (\<lambda>(n, v). v \<noteq> [] \<and> length v \<le> maxRateLimitHeaderBytes)
                         (map (\<lambda>(n, f). (n, hget h n)) evidenceRateLimitFields)\<rparr>"

definition capture_failure :: "BodyCapture \<Rightarrow> err \<Rightarrow> captureError" where
  "capture_failure b e =
     (if bc_gone b then captureCallerEnded
      else if carries is_ExchangeTimeout e then captureEnvelopeElapsed
      else if bc_deadline b then captureDeadline
      else captureReadFailed)"

definition captureUpstreamErrorEvidence ::
  "(string \<Rightarrow> string) \<Rightarrow> (string \<Rightarrow> string option) \<Rightarrow> (string \<Rightarrow> Json option) \<Rightarrow> int \<Rightarrow> headers \<Rightarrow> BodyCapture
   \<Rightarrow> upstreamErrorEvidence \<times> captureError" where
  "captureUpstreamErrorEvidence sha parseMedia decode status h b =
     (case read_limited (maxUpstreamErrorBodyBytes + 1) (bc_bytes b) (bc_err b) of
        (_, Some e) \<Rightarrow> (zeroEvidence, capture_failure b e)
      | (captured, None) \<Rightarrow>
          (let cut = int (length captured) > maxUpstreamErrorBodyBytes;
               kept = (if cut then take (nat maxUpstreamErrorBodyBytes) captured else captured);
               ev = (evidence_head parseMedia status h)\<lparr>ue_truncated := cut, ue_bodyBytes := length kept,
                      ue_fingerprint := hex_encode (sha kept)\<rparr>
           in if cut then (ev\<lparr>ue_shape := shapeTruncated\<rparr>, captureOK)
              else let (shape, typ, code) = classifyErrorBody decode kept
                   in (ev\<lparr>ue_shape := shape, ue_providerType := typ, ue_providerCode := code\<rparr>, captureOK)))"

definition envelopeBytes :: "upstreamErrorEvidence \<Rightarrow> string" where
  "envelopeBytes ev =
     marshalEnvelopeJSON (openAIError (''upstream provider returned HTTP '' @ itoa (ue_status ev)) ''upstream_error''
       (Some (''upstream_http_'' @ itoa (ue_status ev))))"

definition anthropicStatusType :: "int \<Rightarrow> string" where
  "anthropicStatusType status =
     (if status = 401 then ''authentication_error''
      else if status = 403 then ''permission_error''
      else if status = 404 then ''not_found_error''
      else if status = 413 then ''request_too_large''
      else if status = 429 then ''rate_limit_error''
      else if status \<ge> 500 then ''api_error''
      else ''invalid_request_error'')"

definition anthropicUpstreamErr :: "upstreamErrorEvidence \<Rightarrow> string" where
  "anthropicUpstreamErr ev =
     marshalEnvelopeJSON (anthropicErrorEnvelope (anthropicStatusType (ue_status ev))
       (''upstream provider returned HTTP '' @ itoa (ue_status ev)))"

section \<open>Dialects\<close>

record envelopeDialect =
  ed_badMethod :: string
  ed_authMissing :: string
  ed_authInvalid :: string
  ed_invalidReq :: string
  ed_missingMod :: string
  ed_tooLarge :: string
  ed_atCapacity :: string
  ed_upInvalid :: string
  ed_upUnreach :: string
  ed_modelNotFound :: "string \<Rightarrow> string"
  ed_upstreamErr :: "upstreamErrorEvidence \<Rightarrow> string"

definition openAIDialect :: envelopeDialect where
  "openAIDialect =
     \<lparr>ed_badMethod = envelopeBadMethod, ed_authMissing = envelopeAuthMissing,
      ed_authInvalid = envelopeAuthInvalid, ed_invalidReq = envelopeInvalidReq,
      ed_missingMod = envelopeMissingMod, ed_tooLarge = envelopeTooLarge,
      ed_atCapacity = envelopeAtCapacity, ed_upInvalid = envelopeUpInvalid,
      ed_upUnreach = envelopeUpUnreach, ed_modelNotFound = modelNotFoundEnvelope,
      ed_upstreamErr = envelopeBytes\<rparr>"

definition anthropicDialect :: envelopeDialect where
  "anthropicDialect =
     \<lparr>ed_badMethod = ''{\"type\":\"error\",\"error\":{\"type\":\"invalid_request_error\",\"message\":\"method not allowed\"}}'',
      ed_authMissing = ''{\"type\":\"error\",\"error\":{\"type\":\"authentication_error\",\"message\":\"you must provide an API key in the Authorization header (Bearer <key>) or the x-api-key header\"}}'',
      ed_authInvalid = ''{\"type\":\"error\",\"error\":{\"type\":\"authentication_error\",\"message\":\"invalid API key\"}}'',
      ed_invalidReq = ''{\"type\":\"error\",\"error\":{\"type\":\"invalid_request_error\",\"message\":\"invalid JSON in request body\"}}'',
      ed_missingMod = ''{\"type\":\"error\",\"error\":{\"type\":\"invalid_request_error\",\"message\":\"you must provide a model parameter\"}}'',
      ed_tooLarge = ''{\"type\":\"error\",\"error\":{\"type\":\"request_too_large\",\"message\":\"request body too large\"}}'',
      ed_atCapacity = ''{\"type\":\"error\",\"error\":{\"type\":\"api_error\",\"message\":\"server is out of buffering capacity\"}}'',
      ed_upInvalid = ''{\"type\":\"error\",\"error\":{\"type\":\"api_error\",\"message\":\"upstream returned an invalid response\"}}'',
      ed_upUnreach = ''{\"type\":\"error\",\"error\":{\"type\":\"api_error\",\"message\":\"upstream request failed\"}}'',
      ed_modelNotFound = anthropicModelNotFound, ed_upstreamErr = anthropicUpstreamErr\<rparr>"

definition apiMessages :: string where "apiMessages = ''messages''"

definition dialectFor :: "string \<Rightarrow> envelopeDialect" where
  "dialectFor api = (if api = apiMessages then anthropicDialect else openAIDialect)"

section \<open>What a JSON client reads\<close>

text \<open>
  The value of a JSON string from the bytes between its quotes: the escapes of RFC 8259, with a
  \<open>\\u\<close> escape as the UTF-8 encoding of its number, and every other byte as it stands.
\<close>

definition hex_val :: "char \<Rightarrow> nat" where
  "hex_val c = (if is_digit c then of_char c - 48 else if CHR ''a'' \<le> c then of_char c - 87 else of_char c - 55)"

definition utf8_encode :: "nat \<Rightarrow> string" where
  "utf8_encode n =
     (if n < 128 then [char_of n]
      else if n < 2048 then [char_of (192 + n div 64), char_of (128 + n mod 64)]
      else [char_of (224 + n div 4096), char_of (128 + n div 64 mod 64), char_of (128 + n mod 64)])"

definition escape_value :: "char \<Rightarrow> char" where
  "escape_value e =
     (if e = CHR ''b'' then CHR 0x08 else if e = CHR ''f'' then CHR 0x0C else if e = CHR ''n'' then CHR 0x0A
      else if e = CHR ''r'' then CHR 0x0D else if e = CHR ''t'' then CHR 0x09 else e)"

fun json_unescape :: "string \<Rightarrow> string" where
  "json_unescape [] = []"
| "json_unescape (c # s) =
     (if c = bslash
      then (case s of
              [] \<Rightarrow> []
            | e # r \<Rightarrow>
                (if e = CHR ''u''
                 then (case r of
                         h1 # h2 # h3 # h4 # q \<Rightarrow>
                           utf8_encode (4096 * hex_val h1 + 256 * hex_val h2 + 16 * hex_val h3 + hex_val h4) @ json_unescape q
                       | _ \<Rightarrow> [])
                 else escape_value e # json_unescape r))
      else c # json_unescape s)"

function utf8_valid :: "string \<Rightarrow> bool" where
  "utf8_valid [] = True"
| "utf8_valid (c # s) = (case rune_width (c # s) of None \<Rightarrow> False | Some w \<Rightarrow> utf8_valid (drop (w - 1) s))"
  by pat_completeness auto
termination by (relation "measure length") (auto simp: less_Suc_eq_le)

declare json_escape.simps(2) [simp del] utf8_valid.simps(2) [simp del] rune_width.simps(2) [simp del]

section \<open>Escaped strings\<close>

lemma high_byte: "CHR 0x80 \<le> c \<Longrightarrow> c \<noteq> quot \<and> c \<noteq> bslash \<and> \<not> c < CHR 0x20"
  by (auto simp: less_eq_char_def less_char_def)

lemma rune_width_facts:
  assumes "rune_width (c # s) = Some w" and "\<not> c < CHR 0x80"
  shows "0 < w \<and> w \<le> length (c # s) \<and> list_all (\<lambda>b. CHR 0x80 \<le> b) (take w (c # s))"
proof -
  have c: "CHR 0x80 \<le> c" using assms(2) by (simp add: less_char_def less_eq_char_def)
  have sb: "CHR 0x80 \<le> b" if "second_byte c b" for b
    using that by (auto simp: second_byte_def less_eq_char_def split: if_splits)
  have cb: "CHR 0x80 \<le> b" if "cont_byte b" for b using that by (simp add: cont_byte_def)
  show ?thesis
    using assms c sb cb by (auto simp: rune_width.simps(2) split: list.splits if_splits)
qed

lemma read_plain:
  "list_all (\<lambda>b. CHR 0x80 \<le> b) p \<Longrightarrow> read_string (p @ x) = map_option (\<lambda>(t, q). (p @ t, q)) (read_string x)"
proof (induction p)
  case Nil
  then show ?case by (cases "read_string x") auto
next
  case (Cons b p)
  then have b: "b \<noteq> quot \<and> b \<noteq> bslash \<and> \<not> b < CHR 0x20" using high_byte by simp
  with Cons show ?case by (cases "read_string x") auto
qed

lemma hex_digit_cases:
  assumes "n < 16"
  obtains "n < 10" "of_char (hex_digit n) = 48 + n" | "10 \<le> n" "of_char (hex_digit n) = 87 + n"
  using assms by (cases "n < 10") (simp_all add: hex_digit_def)

lemma hex_digit_is_hex: "n < 16 \<Longrightarrow> is_hex (hex_digit n)"
  by (cases n rule: hex_digit_cases) (auto simp: is_hex_def is_digit_def less_eq_char_def)

lemma hex_val_digit: "n < 16 \<Longrightarrow> hex_val (hex_digit n) = n"
  by (cases n rule: hex_digit_cases) (auto simp: hex_val_def is_digit_def less_eq_char_def)

lemma of_char_256: "(of_char c :: nat) < 256"
  by (metis of_char_mod_256 mod_less_divisor zero_less_numeral)

lemma of_char_div: "(of_char c :: nat) div 16 < 16"
proof -
  have "(of_char c :: nat) < 16 * 16" using of_char_256 [of c] by simp
  then show ?thesis by (rule less_mult_imp_div_less)
qed

text \<open>The three forms an escaped ASCII byte takes.\<close>

lemma escape_byte_cases:
  obtains "escape_byte c = [c]" "CHR 0x20 \<le> c" "c \<noteq> quot" "c \<noteq> bslash"
  | e where "escape_byte c = [bslash, e]" "e \<in> set ''bfnrt/'' \<union> {quot, bslash}" "escape_value e = c"
  | "escape_byte c = bslash # CHR ''u'' # CHR ''0'' # CHR ''0'' # hex_digit (of_char c div 16) # [hex_digit (of_char c mod 16)]"
    "c < CHR 0x20"
proof -
  consider "CHR 0x20 \<le> c \<and> c \<noteq> quot \<and> c \<noteq> bslash"
    | "c \<in> {quot, bslash}" | "c \<in> set [CHR 0x08, CHR 0x0C, CHR 0x0A, CHR 0x0D, CHR 0x09]"
    | "\<not> CHR 0x20 \<le> c" "c \<notin> {quot, bslash}" "c \<notin> set [CHR 0x08, CHR 0x0C, CHR 0x0A, CHR 0x0D, CHR 0x09]"
    by blast
  then show thesis
  proof cases
    case 1
    then have "escape_byte c = [c]" by (simp add: escape_byte_def)
    with 1 that(1) show ?thesis by blast
  next
    case 2
    then have "escape_byte c = [bslash, c]" "escape_value c = c" by (auto simp: escape_byte_def escape_value_def)
    with 2 that(2) [of c] show ?thesis by blast
  next
    case 3
    have "list_all (\<lambda>c. \<exists>e\<in>set ''bfnrt''. escape_byte c = [bslash, e] \<and> escape_value e = c)
        [CHR 0x08, CHR 0x0C, CHR 0x0A, CHR 0x0D, CHR 0x09]" by code_simp
    with 3 obtain e where "e \<in> set ''bfnrt''" "escape_byte c = [bslash, e]" "escape_value e = c"
      unfolding list_all_iff by blast
    with that(2) [of e] show ?thesis by auto
  next
    case 4
    then have "escape_byte c = [bslash, CHR ''u'', CHR ''0'', CHR ''0''] @ hex_encode [c]" by (simp add: escape_byte_def)
    then have "escape_byte c = bslash # CHR ''u'' # CHR ''0'' # CHR ''0'' # hex_digit (of_char c div 16) # [hex_digit (of_char c mod 16)]"
      by (simp add: hex_encode_def Let_def)
    moreover have "c < CHR 0x20" using 4(1) by simp
    ultimately show ?thesis using that(3) by blast
  qed
qed

lemma read_escape_byte:
  "read_string (escape_byte c @ x) = map_option (\<lambda>(t, q). (escape_byte c @ t, q)) (read_string x)"
proof (cases c rule: escape_byte_cases)
  case 1
  then have "\<not> c < CHR 0x20" by (simp add: less_char_def less_eq_char_def)
  with 1 show ?thesis by simp
next
  case (2 e)
  then show ?thesis by (auto simp: option.map_comp comp_def split_def)
next
  case 3
  have "is_hex (CHR ''0'')" by code_simp
  moreover have "is_hex (hex_digit (of_char c div 16))" "is_hex (hex_digit (of_char c mod 16))"
    using of_char_div [of c] by (simp_all add: hex_digit_is_hex)
  moreover have "bslash \<noteq> quot" "CHR ''u'' \<notin> set ''bfnrt/'' \<union> {quot, bslash}" by simp_all
  ultimately show ?thesis unfolding 3(1) by (simp add: option.map_comp comp_def split_def)
qed

lemma unescape_byte: "c < CHR 0x80 \<Longrightarrow> json_unescape (escape_byte c @ x) = c # json_unescape x"
proof (cases c rule: escape_byte_cases)
  case 1
  then show ?thesis by simp
next
  case (2 e)
  then have "e \<noteq> CHR ''u''" by auto
  with 2 show ?thesis by simp
next
  case 3
  have "hex_val (CHR ''0'') = 0" by code_simp
  moreover have "hex_val (hex_digit (of_char c div 16)) = of_char c div 16" "hex_val (hex_digit (of_char c mod 16)) = of_char c mod 16"
    using of_char_div [of c] by (simp_all add: hex_val_digit)
  moreover have "(of_char c :: nat) < 128" using 3(2) by (simp add: less_char_def)
  ultimately show ?thesis unfolding 3(1) by (simp add: utf8_encode_def)
qed

lemma separators:
  "json_unescape (bslash # ''u2028'' @ x) = line_separator @ json_unescape x"
  "json_unescape (bslash # ''u2029'' @ x) = paragraph_separator @ json_unescape x"
proof -
  have h: "hex_val (CHR ''2'') = 2" "hex_val (CHR ''0'') = 0" "hex_val (CHR ''8'') = 8" "hex_val (CHR ''9'') = 9"
    by code_simp+
  have "utf8_encode 8232 = line_separator" "utf8_encode 8233 = paragraph_separator"
    by (simp_all add: utf8_encode_def line_separator_def paragraph_separator_def char_of_def bit_simps)
  with h show "json_unescape (bslash # ''u2028'' @ x) = line_separator @ json_unescape x"
    "json_unescape (bslash # ''u2029'' @ x) = paragraph_separator @ json_unescape x" by simp_all
qed

lemma unescape_plain: "list_all (\<lambda>b. CHR 0x80 \<le> b) p \<Longrightarrow> json_unescape (p @ x) = p @ json_unescape x"
  by (induction p) (auto dest: high_byte)

lemma read_u_escape:
  "read_string (bslash # ''ufffd'' @ x) = map_option (\<lambda>(t, q). (bslash # ''ufffd'' @ t, q)) (read_string x)"
  "read_string (bslash # ''u2028'' @ x) = map_option (\<lambda>(t, q). (bslash # ''u2028'' @ t, q)) (read_string x)"
  "read_string (bslash # ''u2029'' @ x) = map_option (\<lambda>(t, q). (bslash # ''u2029'' @ t, q)) (read_string x)"
proof -
  have h: "is_hex (CHR ''f'')" "is_hex (CHR ''d'')" "is_hex (CHR ''2'')" "is_hex (CHR ''0'')" "is_hex (CHR ''8'')" "is_hex (CHR ''9'')"
    by code_simp+
  then show "read_string (bslash # ''ufffd'' @ x) = map_option (\<lambda>(t, q). (bslash # ''ufffd'' @ t, q)) (read_string x)"
   "read_string (bslash # ''u2028'' @ x) = map_option (\<lambda>(t, q). (bslash # ''u2028'' @ t, q)) (read_string x)"
   "read_string (bslash # ''u2029'' @ x) = map_option (\<lambda>(t, q). (bslash # ''u2029'' @ t, q)) (read_string x)"
    by simp_all
qed

lemma json_escape_high:
  "\<not> c < CHR 0x80 \<Longrightarrow> rune_width (c # s) = Some w \<Longrightarrow>
   json_escape (c # s) =
     (if take w (c # s) = line_separator then bslash # ''u2028''
      else if take w (c # s) = paragraph_separator then bslash # ''u2029'' else take w (c # s))
     @ json_escape (drop (w - 1) s)"
  by (simp add: json_escape.simps(2) Let_def)

lemma json_escape_read: "read_string (json_escape s @ quot # r) = Some (json_escape s, r)"
proof (induction s rule: json_escape.induct)
  case 1
  then show ?case by simp
next
  case (2 c s)
  show ?case
  proof (cases "c < CHR 0x80")
    case True
    with 2(1) show ?thesis by (simp add: json_escape.simps(2) read_escape_byte)
  next
    case False
    show ?thesis
    proof (cases "rune_width (c # s)")
      case None
      with False 2(2) show ?thesis by (simp add: json_escape.simps(2) read_u_escape [simplified])
    next
      case (Some w)
      from rune_width_facts [OF Some False] have w: "list_all (\<lambda>b. CHR 0x80 \<le> b) (take w (c # s))" by simp
      have ih: "read_string (json_escape (drop (w - 1) s) @ quot # r) = Some (json_escape (drop (w - 1) s), r)"
        using 2(3) [OF False Some] by simp
      show ?thesis unfolding json_escape_high [OF False Some]
        using ih read_plain [OF w] by (simp add: read_u_escape [simplified])
    qed
  qed
qed

lemma json_unescape_escape: "utf8_valid s \<Longrightarrow> json_unescape (json_escape s) = s"
proof (induction s rule: json_escape.induct)
  case 1
  then show ?case by simp
next
  case (2 c s)
  show ?case
  proof (cases "c < CHR 0x80")
    case True
    then have "rune_width (c # s) = Some 1" by (simp add: rune_width.simps(2))
    with 2(4) have "utf8_valid s" by (simp add: utf8_valid.simps(2))
    with 2(1) True show ?thesis by (simp add: json_escape.simps(2) unescape_byte)
  next
    case False
    with 2(4) obtain w where w: "rune_width (c # s) = Some w" "utf8_valid (drop (w - 1) s)"
      by (auto simp: utf8_valid.simps(2) split: option.splits)
    note f = rune_width_facts [OF w(1) False]
    have ih: "json_unescape (json_escape (drop (w - 1) s)) = drop (w - 1) s"
      using 2(3) [OF False w(1) refl] w(2) by simp
    have split: "take w (c # s) @ drop (w - 1) s = c # s" using f by (cases w) auto
    have "json_unescape (json_escape (c # s)) = take w (c # s) @ drop (w - 1) s"
      unfolding json_escape_high [OF False w(1)]
      using ih unescape_plain [of "take w (c # s)"] f by (auto simp: separators [simplified])
    with split show ?thesis by simp
  qed
qed

section \<open>Compact documents\<close>

definition readable :: "string \<Rightarrow> bool" where
  "readable s \<longleftrightarrow> (\<forall>r. read_string (s @ quot # r) = Some (s, r))"

lemma readable_escape [simp]: "readable (json_escape s)"
  by (simp add: readable_def json_escape_read)

text \<open>Documents of strings, \<open>null\<close> and non-empty objects, printed without white space.\<close>

fun compact_doc :: "Doc \<Rightarrow> bool" and compact_members :: "DocMember list \<Rightarrow> bool" where
  "compact_doc (Lit t) = (t = ''null'')"
| "compact_doc (Str s) = readable s"
| "compact_doc (Arr w es) = False"
| "compact_doc (Obj w ms) = (w = [] \<and> ms \<noteq> [] \<and> compact_members ms)"
| "compact_members [] = True"
| "compact_members (Member a k b c v d # ms) =
     (a = [] \<and> b = [] \<and> c = [] \<and> d = [] \<and> readable k \<and> compact_doc v \<and> compact_members ms)"

fun doc_depth :: "Doc \<Rightarrow> nat" and members_depth :: "DocMember list \<Rightarrow> nat" where
  "doc_depth (Lit t) = 0"
| "doc_depth (Str s) = 0"
| "doc_depth (Arr w es) = 1"
| "doc_depth (Obj w ms) = Suc (members_depth ms)"
| "members_depth [] = 0"
| "members_depth (Member a k b c v d # ms) = max (doc_depth v) (members_depth ms)"

lemma read_ws_none: "s = [] \<or> \<not> isWS (hd s) \<Longrightarrow> read_ws s = ([], s)"
  by (cases s) (auto simp: read_ws_def)

lemma punctuation [simp]:
  "\<not> isWS quot" "\<not> isWS (CHR ''{'')" "\<not> isWS (CHR ''}'')" "\<not> isWS (CHR '','')" "\<not> isWS (CHR '':'')" "\<not> isWS (CHR ''n'')"
  by (simp_all add: isWS_def)

lemma compact_hd: "compact_doc d \<Longrightarrow> render d \<noteq> [] \<and> \<not> isWS (hd (render d))"
  by (cases d) (auto simp: quoted_def)

lemma compact_read:
  "compact_doc d \<Longrightarrow> length (render d) \<le> n \<Longrightarrow> doc_depth d \<le> p \<Longrightarrow> read_value n p (render d @ r) = Some (d, r)"
  "compact_members ms \<Longrightarrow> ms \<noteq> [] \<Longrightarrow> length (render_members ms) \<le> n \<Longrightarrow> members_depth ms \<le> p \<Longrightarrow>
   read_members n p (render_members ms @ CHR ''}'' # r) = Some (ms, r)"
proof (induction d and ms arbitrary: n p r and n p r rule: compact_doc_compact_members.induct)
  case (1 t)
  then obtain m where "n = Suc m" by (cases n) auto
  with 1 show ?case by (simp add: read_word_def)
next
  case (2 s)
  then obtain m where "n = Suc m" by (cases n) (auto simp: quoted_def)
  with 2 show ?case by (simp add: quoted_def readable_def)
next
  case (3 w es)
  then show ?case by simp
next
  case (4 w ms)
  then obtain m where n: "n = Suc m" by (cases n) auto
  from 4 obtain q where p: "p = Suc q" by (cases p) auto
  have ms: "w = []" "ms \<noteq> []" "compact_members ms" using 4 by simp_all
  have "hd (render_members ms @ CHR ''}'' # r) = quot" using ms by (cases ms rule: compact_members.cases) (auto simp: quoted_def)
  then have hd: "read_ws (render_members ms @ CHR ''}'' # r) = ([], render_members ms @ CHR ''}'' # r)"
    "hd (render_members ms @ CHR ''}'' # r) = quot" by (simp_all add: read_ws_none)
  have "read_members m q (render_members ms @ CHR ''}'' # r) = Some (ms, r)"
    using 4 ms n p by simp
  with hd ms n p show ?case by simp
next
  case 5
  then show ?case by simp
next
  case (6 a k b c v d ms)
  then obtain m where n: "n = Suc m" by (cases n) (auto simp: quoted_def)
  have m: "a = []" "b = []" "c = []" "d = []" "readable k" "compact_doc v" "compact_members ms" using 6 by simp_all
  define rest where "rest = (if ms = [] then [] else CHR '','' # render_members ms) @ CHR ''}'' # r"
  have shown: "render_members (Member a k b c v d # ms) @ CHR ''}'' # r = quot # k @ quot # CHR '':'' # render v @ rest"
    using m by (simp add: rest_def quoted_def)
  have v: "read_value m p (render v @ rest) = Some (v, rest)"
    using 6(1) [OF m(6), of m p rest] 6(5,6) n by (simp add: quoted_def)
  have k: "read_string (k @ quot # CHR '':'' # render v @ rest) = Some (k, CHR '':'' # render v @ rest)"
    using m(5) by (simp add: readable_def)
  have w: "read_ws (render v @ rest) = ([], render v @ rest)" using compact_hd [OF m(6)] by (intro read_ws_none) auto
  have w': "read_ws rest = ([], rest)" by (intro read_ws_none) (auto simp: rest_def)
  show ?case
  proof (cases "ms = []")
    case True
    show ?thesis unfolding shown n using k v w w' m True by (simp add: read_ws_none rest_def)
  next
    case False
    have "read_members m p (render_members ms @ CHR ''}'' # r) = Some (ms, r)"
      using 6(2) [OF m(7) False, of m p r] 6(5,6) n m by (simp add: False quoted_def)
    then show ?thesis unfolding shown n using k v w w' m False by (simp add: read_ws_none rest_def)
  qed
qed

lemma compact_valid: "compact_doc d \<Longrightarrow> doc_depth d \<le> maxNestingDepth \<Longrightarrow> read_body (render d) = Some ([], d, [])"
  using compact_read(1) [of d "2 * length (render d) + 2" maxNestingDepth "[]"] compact_hd [of d]
  by (simp add: read_body_def read_ws_none)

lemma readable_names:
  "readable ''error''" "readable ''message''" "readable ''type''" "readable ''param''" "readable ''code''"
  by (simp_all add: readable_def)

lemma openAIError_body: "read_body (marshalEnvelopeJSON (openAIError m t c)) = Some ([], openAIError m t c, [])"
  unfolding marshalEnvelopeJSON_def
  by (rule compact_valid)
     (auto simp: openAIError_def jobject_def plain_member_def jstring_def jnull_def readable_names maxNestingDepth_def
       split: option.split)

lemma anthropic_body:
  "read_body (marshalEnvelopeJSON (anthropicErrorEnvelope t m)) = Some ([], anthropicErrorEnvelope t m, [])"
  unfolding marshalEnvelopeJSON_def
  by (rule compact_valid)
     (auto simp: anthropicErrorEnvelope_def jobject_def plain_member_def jstring_def readable_names maxNestingDepth_def)

lemma readable_plain:
  "list_all (\<lambda>c. CHR 0x20 \<le> c \<and> c \<noteq> quot \<and> c \<noteq> bslash) s \<Longrightarrow> readable s"
proof (induction s)
  case (Cons c s)
  then have "\<not> c < CHR 0x20" by (simp add: less_char_def less_eq_char_def)
  with Cons show ?case by (simp add: readable_def)
qed (simp add: readable_def)

text \<open>The constant bodies of a dialect, and the documents they are the text of.\<close>

definition static_bodies :: "envelopeDialect \<Rightarrow> string list" where
  "static_bodies d =
     [ed_badMethod d, ed_authMissing d, ed_authInvalid d, ed_invalidReq d, ed_missingMod d, ed_tooLarge d,
      ed_atCapacity d, ed_upInvalid d, ed_upUnreach d]"

definition openAI_docs :: "Doc list" where
  "openAI_docs =
    [jobject [(''error'', jobject [(''message'', Str ''method not allowed''), (''type'', Str ''invalid_request_error''), (''param'', jnull), (''code'', jnull)])],
     jobject [(''error'', jobject [(''message'', Str ''you must provide an API key in the Authorization header (Bearer <key>)''), (''type'', Str ''invalid_request_error''), (''param'', jnull), (''code'', jnull)])],
     jobject [(''error'', jobject [(''message'', Str ''invalid API key''), (''type'', Str ''invalid_request_error''), (''param'', jnull), (''code'', Str ''invalid_api_key'')])],
     jobject [(''error'', jobject [(''message'', Str ''invalid JSON in request body''), (''type'', Str ''invalid_request_error''), (''param'', jnull), (''code'', jnull)])],
     jobject [(''error'', jobject [(''message'', Str ''you must provide a model parameter''), (''type'', Str ''invalid_request_error''), (''param'', jnull), (''code'', jnull)])],
     jobject [(''error'', jobject [(''message'', Str ''request body too large''), (''type'', Str ''invalid_request_error''), (''param'', jnull), (''code'', jnull)])],
     jobject [(''error'', jobject [(''message'', Str ''server is out of buffering capacity''), (''type'', Str ''server_error''), (''code'', Str ''capacity_exceeded'')])],
     jobject [(''error'', jobject [(''message'', Str ''upstream returned an invalid response''), (''type'', Str ''upstream_error''), (''code'', Str ''upstream_invalid_response'')])],
     jobject [(''error'', jobject [(''message'', Str ''upstream request failed''), (''type'', Str ''upstream_error''), (''code'', Str ''upstream_unreachable'')])]]"

definition anthropic_docs :: "Doc list" where
  "anthropic_docs =
    [jobject [(''type'', Str ''error''), (''error'', jobject [(''type'', Str ''invalid_request_error''), (''message'', Str ''method not allowed'')])],
     jobject [(''type'', Str ''error''), (''error'', jobject [(''type'', Str ''authentication_error''), (''message'', Str ''you must provide an API key in the Authorization header (Bearer <key>) or the x-api-key header'')])],
     jobject [(''type'', Str ''error''), (''error'', jobject [(''type'', Str ''authentication_error''), (''message'', Str ''invalid API key'')])],
     jobject [(''type'', Str ''error''), (''error'', jobject [(''type'', Str ''invalid_request_error''), (''message'', Str ''invalid JSON in request body'')])],
     jobject [(''type'', Str ''error''), (''error'', jobject [(''type'', Str ''invalid_request_error''), (''message'', Str ''you must provide a model parameter'')])],
     jobject [(''type'', Str ''error''), (''error'', jobject [(''type'', Str ''request_too_large''), (''message'', Str ''request body too large'')])],
     jobject [(''type'', Str ''error''), (''error'', jobject [(''type'', Str ''api_error''), (''message'', Str ''server is out of buffering capacity'')])],
     jobject [(''type'', Str ''error''), (''error'', jobject [(''type'', Str ''api_error''), (''message'', Str ''upstream returned an invalid response'')])],
     jobject [(''type'', Str ''error''), (''error'', jobject [(''type'', Str ''api_error''), (''message'', Str ''upstream request failed'')])]]"

lemmas compact_simps = jobject_def plain_member_def jnull_def readable_names readable_plain less_eq_char_def
  maxNestingDepth_def quoted_def static_bodies_def

lemma static_texts:
  "map render openAI_docs = static_bodies openAIDialect"
  "map render anthropic_docs = static_bodies anthropicDialect"
  by (simp_all add: compact_simps openAI_docs_def openAIDialect_def anthropic_docs_def anthropicDialect_def
      envelopeBadMethod_def envelopeAuthMissing_def envelopeAuthInvalid_def envelopeInvalidReq_def
      envelopeMissingMod_def envelopeTooLarge_def envelopeAtCapacity_def envelopeUpInvalid_def envelopeUpUnreach_def)

lemma static_compact:
  "list_all (\<lambda>d. compact_doc d \<and> doc_depth d \<le> maxNestingDepth) (openAI_docs @ anthropic_docs)"
  by (simp add: compact_simps openAI_docs_def anthropic_docs_def)

lemma static_bodies_valid: "list_all json_valid (static_bodies (dialectFor api))"
proof -
  have "list_all json_valid (map render (openAI_docs @ anthropic_docs))"
    using static_compact by (auto simp: list_all_iff json_valid_def compact_valid)
  then show ?thesis by (simp add: static_texts dialectFor_def)
qed

section \<open>Theorems\<close>

text \<open>The message member of an envelope, as a JSON client reads it out of the document.\<close>

fun doc_member :: "string \<Rightarrow> Doc \<Rightarrow> Doc option" where
  "doc_member k (Obj w ms) =
     map_option (\<lambda>m. case m of Member a j b c v d \<Rightarrow> v) (find (\<lambda>m. case m of Member a j b c v d \<Rightarrow> j = k) ms)"
| "doc_member k d = None"

definition envelope_message :: "string \<Rightarrow> string option" where
  "envelope_message body =
     (case read_body body of
        None \<Rightarrow> None
      | Some (w, d, z) \<Rightarrow>
          (case doc_member ''error'' d of
             None \<Rightarrow> None
           | Some e \<Rightarrow>
               (case doc_member ''message'' e of Some (Str s) \<Rightarrow> Some (json_unescape s) | _ \<Rightarrow> None)))"

lemma openAIError_message: "utf8_valid m \<Longrightarrow> envelope_message (marshalEnvelopeJSON (openAIError m t c)) = Some m"
  unfolding envelope_message_def openAIError_body
  by (simp add: openAIError_def jobject_def plain_member_def jstring_def json_unescape_escape)

lemma anthropic_message: "utf8_valid m \<Longrightarrow> envelope_message (marshalEnvelopeJSON (anthropicErrorEnvelope t m)) = Some m"
  unfolding envelope_message_def anthropic_body
  by (simp add: anthropicErrorEnvelope_def jobject_def plain_member_def jstring_def json_unescape_escape)



section \<open>Captured evidence\<close>

text \<open>A token a log line or a rule may carry: empty, or at most 64 printable bytes without a space.\<close>

definition safe_token :: "string \<Rightarrow> bool" where
  "safe_token s \<longleftrightarrow> length s \<le> 64 \<and> (\<forall>c\<in>set s. CHR 0x21 \<le> c \<and> c \<le> CHR 0x7E)"

lemma printableToken_safe: "safe_token (printableToken s)"
  by (auto simp: printableToken_def safe_token_def maxProviderTokenBytes_def list_ex_iff less_char_def less_eq_char_def not_le)

lemma safe_token_Nil: "safe_token []"
  by (simp add: safe_token_def)

lemma classifyErrorBody_safe:
  assumes "classifyErrorBody decode body = (shape, t, c)"
  shows "safe_token t \<and> safe_token c \<and> (t @ c \<noteq> [] \<longrightarrow> shape = shapeJSONObject)"
  using assms unfolding classifyErrorBody_def Let_def
  by (simp add: safe_token_Nil split: if_splits option.splits) (metis Pair_inject printableToken_safe)+

text \<open>What the capture returns, by how the body ended.\<close>

lemma capture_long:
  assumes "length (bc_bytes b) > 65536"
  shows "captureUpstreamErrorEvidence sha pm decode status h b =
    ((evidence_head pm status h)\<lparr>ue_truncated := True, ue_bodyBytes := 65536,
      ue_fingerprint := hex_encode (sha (take 65536 (bc_bytes b))), ue_shape := shapeTruncated\<rparr>, captureOK)"
  using assms by (simp add: captureUpstreamErrorEvidence_def read_limited_def maxUpstreamErrorBodyBytes_def Let_def min_def)

lemma capture_failed:
  assumes "\<not> length (bc_bytes b) > 65536" and "bc_err b = Some e"
  shows "captureUpstreamErrorEvidence sha pm decode status h b = (zeroEvidence, capture_failure b e)"
  using assms by (simp add: captureUpstreamErrorEvidence_def read_limited_def maxUpstreamErrorBodyBytes_def)

lemma capture_whole:
  assumes "\<not> length (bc_bytes b) > 65536" and "bc_err b = None" and "classifyErrorBody decode (bc_bytes b) = (shape, t, c)"
  shows "captureUpstreamErrorEvidence sha pm decode status h b =
    ((evidence_head pm status h)\<lparr>ue_truncated := False, ue_bodyBytes := length (bc_bytes b),
      ue_fingerprint := hex_encode (sha (bc_bytes b)), ue_shape := shape, ue_providerType := t, ue_providerCode := c\<rparr>, captureOK)"
  using assms by (simp add: captureUpstreamErrorEvidence_def read_limited_def maxUpstreamErrorBodyBytes_def Let_def)

lemma capture_failure_not_ok: "capture_failure b e \<noteq> captureOK" "capture_failure b e = captureCallerEnded \<longleftrightarrow> bc_gone b"
  by (simp_all add: capture_failure_def)

lemma evidence_head_facts:
  "ue_providerType (evidence_head pm status h) = []" "ue_providerCode (evidence_head pm status h) = []"
  "\<forall>(n, v)\<in>set (ue_rateLimit (evidence_head pm status h)). length v \<le> 128"
  by (auto simp: evidence_head_def zeroEvidence_def maxRateLimitHeaderBytes_def)



end
