(* ===== verification/Provider_Walk.thy ===== *)
theory Provider_Walk
  imports Recovery_Engine Attempt_Observation Egress_Pool Error_Envelope
begin

text \<open>
  The provider walk of \<open>serve\<close> in \<open>internal/proxy/handler.go\<close>: the chain of candidates, the attempts on
  each, the credential of an attempt, its exchange, the reading of its answer, and what is left for
  the client when the walk ends. What the clocks, the transports, the bodies, the caller and other
  requests do during one turn of the attempt loop is an environment record with one field per reading.
  The theorems show that the walk returns, what it may spend, whose credential a request carries,
  and when an answer that arrived is the one the client gets.
\<close>

section \<open>Candidates, answers and the environment\<close>

record Candidate =
  cn_Label :: string
  cn_UpstreamModel :: string
  cn_Origin :: string
  cn_Path :: string
  cn_Recovery :: Policy
  cn_RecoveryHash :: string
  cn_Cred :: "Provider option"
  cn_Vision :: bool
  cn_Strip :: "string list list"

record Response =
  rs_status :: int
  rs_header :: headers
  rs_body :: nat

datatype answerKind = answerSSE | answerVerbatim | answerBuffered | answerHTTPError | answerInvalid

datatype invalidFlavor = invalidNone | invalidBody | invalidReadFailed | invalidBodyTimeout

record walkAnswer =
  wa_kind :: answerKind
  wa_resp :: "Response option"
  wa_body :: string
  wa_header :: headers
  wa_status :: int
  wa_ev :: upstreamErrorEvidence
  wa_invalid :: invalidFlavor
  wa_cand :: Candidate
  wa_candIndex :: int
  wa_egressKind :: string
  wa_credKey :: string
  wa_pool :: "nat option"

definition newAnswer :: "answerKind \<Rightarrow> Candidate \<Rightarrow> int \<Rightarrow> string \<Rightarrow> walkAnswer" where
  "newAnswer kind cand i key =
     \<lparr>wa_kind = kind, wa_resp = None, wa_body = [], wa_header = [], wa_status = 0, wa_ev = zeroEvidence,
      wa_invalid = invalidNone, wa_cand = cand, wa_candIndex = i, wa_egressKind = [], wa_credKey = key, wa_pool = None\<rparr>"

text \<open>What the transport returned: an error, neither error nor response, or a response.\<close>

datatype DialResult = DialFailed err | DialNothing | DialResponse Response

text \<open>The admitted read of a buffered answer: the budget refused it, it failed, or it ended.\<close>

datatype BodyRead = BodyRefused | BodyFailed err | BodyDone string

text \<open>
  One turn of the attempt loop: whether \<open>http.NewRequest\<close> failed; what other requests did to the key
  pool before this one took a key, and the clock then; the clock of \<open>NextReady\<close>; the clock of the
  observation; the clocks of the two envelope questions and of a direct claim; whether the transport is
  a pool, the clocks at which it claimed exchanges and its report; the transport's result; the
  caller's context at the classification; the engine's readings; whether the caller outlived the
  wait; the two clocks of a rate limit and the one of the directive; the captured error body; the
  buffered body and whether the caller was gone when its read failed.
\<close>

record AttEnv =
  ae_reqErr :: bool
  ae_ops :: "pool_op list"
  ae_keyNow :: "time"
  ae_readyNow :: "time"
  ae_obsNow :: "time"
  ae_refusalNow :: "time"
  ae_spentNow :: "time"
  ae_claimNow :: "time"
  ae_pooled :: bool
  ae_claims :: "time list"
  ae_info :: AttemptInfo
  ae_result :: DialResult
  ae_ctx :: ctx_err
  ae_env :: Env
  ae_live :: bool
  ae_markNow :: "time"
  ae_markParse :: "time"
  ae_directiveNow :: "time"
  ae_capture :: BodyCapture
  ae_read :: BodyRead
  ae_gone :: bool

text \<open>What the request fixes before the walk.\<close>

record WalkCfg =
  wc_body :: string
  wc_transform :: "Candidate \<Rightarrow> string \<Rightarrow> string result"
  wc_suffix :: string
  wc_stream :: bool
  wc_client :: headers
  wc_requestID :: string
  wc_dialect :: envelopeDialect
  wc_creds :: bool
  wc_sha :: "string \<Rightarrow> string"
  wc_httpDate :: "string \<Rightarrow> time option"
  wc_parseMedia :: "string \<Rightarrow> string option"
  wc_decode :: "string \<Rightarrow> Json option"

section \<open>The state of a walk\<close>

text \<open>A request handed to a transport: the candidate, its attempt, the URL, the headers, the body and the key's id.\<close>

record Asked =
  ak_cand :: int
  ak_attempt :: int
  ak_url :: string
  ak_header :: headers
  ak_body :: string
  ak_credKey :: string

text \<open>
  An attempt-scoped log event: its message, the closed-set tokens, the decision's disposition,
  reason and rule, and the indexes of \<open>withPolicyFields\<close>, \<open>withAttemptFields\<close> and
  \<open>withCredentialFields\<close>. Free text, origins and times are left out.
\<close>

record AttemptEvent =
  av_msg :: string
  av_class :: string
  av_cause :: string
  av_origin :: string
  av_disposition :: string
  av_reason :: string
  av_rule :: string
  av_hash :: string
  av_exchange :: int
  av_remaining :: int
  av_attempt :: int
  av_cand :: int
  av_candAttempt :: int
  av_egress :: int
  av_sendState :: string
  av_credKey :: string

record Walk =
  wk_engine :: Engine
  wk_registry :: Registry
  wk_answer :: "walkAnswer option"
  wk_retained :: "walkAnswer option"
  wk_lastUerr :: "err option"
  wk_lastEgressAttempt :: int
  wk_lastFailureCause :: string
  wk_lastSendState :: string
  wk_lastAttemptBlocked :: bool
  wk_lastRuleID :: string
  wk_budgetStopped :: bool
  wk_lastCand :: "Candidate option"
  wk_lastCandIndex :: int
  wk_lastPolicyHash :: string
  wk_finalProvider :: string
  wk_egress :: "AttemptInfo option"
  wk_lastCredentialID :: string
  wk_ansEgressKind :: string
  wk_providerAttempts :: int
  wk_retriesTotal :: int
  wk_providerExhausted :: bool
  wk_meterEvent :: bool
  wk_handed :: "nat list"
  wk_asked :: "Asked list"
  wk_events :: "AttemptEvent list"

definition newWalk :: "Engine \<Rightarrow> Registry \<Rightarrow> Walk" where
  "newWalk e r =
     \<lparr>wk_engine = e, wk_registry = r, wk_answer = None, wk_retained = None, wk_lastUerr = None,
      wk_lastEgressAttempt = 0, wk_lastFailureCause = [], wk_lastSendState = [], wk_lastAttemptBlocked = False,
      wk_lastRuleID = [], wk_budgetStopped = False, wk_lastCand = None, wk_lastCandIndex = 0,
      wk_lastPolicyHash = [], wk_finalProvider = [], wk_egress = None, wk_lastCredentialID = [],
      wk_ansEgressKind = [], wk_providerAttempts = 0, wk_retriesTotal = 0, wk_providerExhausted = False,
      wk_meterEvent = False, wk_handed = [], wk_asked = [], wk_events = []\<rparr>"

text \<open>
  What the loop over the attempts of one candidate holds: its place in the chain and whether another
  follows, its pool, the sticky key, the attempts made, and when it was entered.
\<close>

record CandState =
  cl_cand :: Candidate
  cl_index :: int
  cl_hasNext :: bool
  cl_pool :: "nat option"
  cl_credKey :: string
  cl_attempt :: int
  cl_start :: "time"

text \<open>How a turn ends, and how \<open>serve\<close> returns out of the walk.\<close>

datatype WalkReturn = Reject string int string | Disconnected | Panicked

datatype Turn = TurnContinue | TurnBreak | TurnBreakWalk | TurnReturn WalkReturn

abbreviation budget_of :: "Walk \<Rightarrow> Budget" where "budget_of w \<equiv> e_budget (wk_engine w)"

definition set_budget :: "Budget \<Rightarrow> Walk \<Rightarrow> Walk" where
  "set_budget b w = w\<lparr>wk_engine := (wk_engine w)\<lparr>e_budget := b\<rparr>\<rparr>"

definition log_event :: "AttemptEvent \<Rightarrow> Walk \<Rightarrow> Walk" where
  "log_event ev w = w\<lparr>wk_events := wk_events w @ [ev]\<rparr>"

definition zeroEvent :: AttemptEvent where
  "zeroEvent =
     \<lparr>av_msg = [], av_class = [], av_cause = [], av_origin = [], av_disposition = [], av_reason = [], av_rule = [],
      av_hash = [], av_exchange = 0, av_remaining = 0, av_attempt = 0, av_cand = 0, av_candAttempt = 0,
      av_egress = 0, av_sendState = [], av_credKey = []\<rparr>"

text \<open>
  Events that name the attempt and the candidate only, and events with every field of an attempt. The
  egress index is set where the event carries one.
\<close>

definition brief_event :: "CandState \<Rightarrow> Walk \<Rightarrow> string \<Rightarrow> string \<Rightarrow> string \<Rightarrow> AttemptEvent" where
  "brief_event cl w msg class origin =
     zeroEvent\<lparr>av_msg := msg, av_class := class, av_origin := origin, av_attempt := wk_providerAttempts w,
       av_cand := cl_index cl\<rparr>"

definition attempt_event ::
  "CandState \<Rightarrow> Walk \<Rightarrow> string \<Rightarrow> string \<Rightarrow> string \<Rightarrow> string \<Rightarrow> int \<Rightarrow> AttemptEvent" where
  "attempt_event cl w msg class cause origin exchange =
     (brief_event cl w msg class origin)\<lparr>av_cause := cause, av_hash := wk_lastPolicyHash w, av_exchange := exchange,
       av_remaining := RequestRemaining (budget_of w), av_candAttempt := cl_attempt cl, av_credKey := cl_credKey cl\<rparr>"

definition decided_by :: "Decision \<Rightarrow> Action \<Rightarrow> AttemptEvent \<Rightarrow> AttemptEvent" where
  "decided_by dec act ev =
     ev\<lparr>av_disposition := Action_String act, av_reason := d_Reason dec, av_rule := d_RuleID dec\<rparr>"

section \<open>Observations and decisions\<close>

definition Milliseconds :: "duration \<Rightarrow> int" where
  "Milliseconds d = (if d < 0 then - (- d div Millisecond) else d div Millisecond)"

definition position :: "WalkCfg \<Rightarrow> CandState \<Rightarrow> AttEnv \<Rightarrow> Walk \<Rightarrow> Position" where
  "position cfg cl e w =
     \<lparr>at_stream = wc_stream cfg, at_committed = wk_answer w \<noteq> None, at_candidate = cl_index cl,
      at_attempt = cl_attempt cl, at_retry = cl_attempt cl - 1,
      at_elapsed = Milliseconds (time_sub (ae_obsNow e) (cl_start cl))\<rparr>"

definition protocol_observation :: "Position \<Rightarrow> string \<Rightarrow> Observation" where
  "protocol_observation a cause = (located a)\<lparr>o_Class := FailureProtocol, o_ProtocolCause := cause\<rparr>"

text \<open>The decision, its identity, and the disposition folded against the chain.\<close>

definition decide_attempt :: "CandState \<Rightarrow> AttEnv \<Rightarrow> Observation \<Rightarrow> Walk \<Rightarrow> Decision \<times> Action \<times> Walk" where
  "decide_attempt cl e ob w =
     (let dec = Observe (wk_engine w) (ae_env e) ob
      in (dec, walkAction (d_Action dec) (cl_hasNext cl), w\<lparr>wk_lastRuleID := d_RuleID dec\<rparr>))"

definition waitOut :: "AttEnv \<Rightarrow> Decision \<Rightarrow> bool" where
  "waitOut e dec = (if d_Action dec \<noteq> ActionRetry then True else ae_live e)"

text \<open>
  The end of every failed attempt: the wait, then the disposition. \<open>left\<close> is the answer the attempt
  leaves when one arrived: it is retained on a fallback and committed at the end of the walk.
\<close>

definition follow :: "AttEnv \<Rightarrow> Decision \<Rightarrow> Action \<Rightarrow> (walkAnswer \<times> walkAnswer) option \<Rightarrow> Walk \<Rightarrow> Turn \<times> Walk" where
  "follow e dec act left w =
     (if \<not> waitOut e dec then (TurnReturn Disconnected, w)
      else case act of
             ActionRetry \<Rightarrow> (TurnContinue, w)
           | ActionFallback \<Rightarrow>
               (TurnBreak, (case left of None \<Rightarrow> w | Some (r, a) \<Rightarrow> w\<lparr>wk_retained := Some r\<rparr>))
           | ActionTerminal \<Rightarrow>
               (TurnBreakWalk, (case left of None \<Rightarrow> w | Some (r, a) \<Rightarrow> w\<lparr>wk_answer := Some a\<rparr>)))"

section \<open>The credential of an attempt\<close>

text \<open>
  The key the attempt goes out with: none without a pool, else what the pool hands out to a caller that
  prefers its last key; other requests may have used the pool since.
\<close>

definition acquire_key :: "AttEnv \<Rightarrow> CandState \<Rightarrow> Walk \<Rightarrow> Key option option \<times> Walk" where
  "acquire_key e cl w =
     (case cl_pool cl of
        None \<Rightarrow> (Some None, w)
      | Some loc \<Rightarrow>
          (let p = run_ops Acquire MarkRateLimited (rg_store (wk_registry w) ! loc) (ae_ops e);
               (p', k) = Acquire p (ae_keyNow e) (cl_credKey cl);
               w' = w\<lparr>wk_registry := (wk_registry w)\<lparr>rg_store := (rg_store (wk_registry w))[loc := p']\<rparr>\<rparr>
           in case k of None \<Rightarrow> (None, w') | Some k \<Rightarrow> (Some (Some k), w')))"

definition blocked_observation :: "WalkCfg \<Rightarrow> CandState \<Rightarrow> AttEnv \<Rightarrow> Walk \<Rightarrow> Observation" where
  "blocked_observation cfg cl e w =
     (let ob = (located (position cfg cl e w))\<lparr>o_Class := FailureCredential, o_CredentialCause := CredentialCooldown\<rparr>
      in case cl_pool cl of
           None \<Rightarrow> ob
         | Some loc \<Rightarrow>
             (case NextReady (rg_store (wk_registry w) ! loc) (ae_readyNow e) of
                None \<Rightarrow> ob
              | Some t \<Rightarrow> ob\<lparr>o_CredentialReadyIn := time_sub t (ae_readyNow e)\<rparr>))"

definition blocked_turn :: "WalkCfg \<Rightarrow> AttEnv \<Rightarrow> CandState \<Rightarrow> Walk \<Rightarrow> Turn \<times> Walk" where
  "blocked_turn cfg e cl w =
     (let w = w\<lparr>wk_lastAttemptBlocked := True, wk_lastEgressAttempt := 0, wk_lastSendState := [], wk_egress := None\<rparr>;
          (dec, act, w) = decide_attempt cl e (blocked_observation cfg cl e w) w;
          w = log_event (decided_by dec act
                (attempt_event cl w ''credential_unavailable'' ''credential'' CredentialCooldown ''credential'' 0)) w
      in follow e dec act None w)"

section \<open>The exchange of an attempt\<close>

definition trim_slashes :: "string \<Rightarrow> string" where
  "trim_slashes s = rev (dropWhile (\<lambda>c. c = CHR ''/'') (rev s))"

definition upstream_url :: "WalkCfg \<Rightarrow> Candidate \<Rightarrow> string" where
  "upstream_url cfg cand = cn_Origin cand @ trim_slashes (cn_Path cand) @ wc_suffix cfg"

definition ask :: "WalkCfg \<Rightarrow> CandState \<Rightarrow> string \<Rightarrow> Key option \<Rightarrow> Walk \<Rightarrow> Walk" where
  "ask cfg cl out k w =
     w\<lparr>wk_asked := wk_asked w @
        [\<lparr>ak_cand = cl_index cl, ak_attempt = cl_attempt cl, ak_url = upstream_url cfg (cl_cand cl),
          ak_header = outbound_headers (wc_client cfg) (wc_requestID cfg)
            (case (cn_Cred (cl_cand cl), k) of (Some p, Some k) \<Rightarrow> Some (pv_Spec p, k) | _ \<Rightarrow> None),
          ak_body = out, ak_credKey = cl_credKey cl\<rparr>]\<rparr>"

text \<open>\<open>fallBackOnSpentCandidate\<close>, with the stop its callers make of a refusal.\<close>

definition spent_turn :: "AttEnv \<Rightarrow> CandState \<Rightarrow> Walk \<Rightarrow> Turn \<times> Walk" where
  "spent_turn e cl w =
     (if Exhausted (budget_of w) (ae_refusalNow e) = ExhaustionRequest
      then (TurnBreakWalk, w\<lparr>wk_budgetStopped := True\<rparr>)
      else let dec = CandidateSpent (wk_engine w) (ae_spentNow e) CauseExchangeBudget;
               act = walkAction (d_Action dec) (cl_hasNext cl);
               w = log_event (decided_by dec act
                     (attempt_event cl w ''candidate_exchange_budget_spent'' ''provider_exhausted'' CauseExchangeBudget
                        ''envelope'' 0)) w
           in if act = ActionFallback then (TurnBreak, w) else (TurnBreakWalk, w\<lparr>wk_budgetStopped := True\<rparr>))"

text \<open>One record per member the pool dialed in vain.\<close>

definition member_event :: "CandState \<Rightarrow> Walk \<Rightarrow> int \<Rightarrow> nat \<times> AttemptFailure \<Rightarrow> AttemptEvent" where
  "member_event cl w exchangeBefore jf =
     (case jf of (j, f) \<Rightarrow>
        (attempt_event cl w ''egress_attempt_failed'' (af_Class f) (af_Cause f) ''transport'' (exchangeBefore + int j + 1))
          \<lparr>av_egress := int j + 1, av_sendState := af_SendState f\<rparr>)"

text \<open>
  The outbound hop. A pool claims its own exchanges and may refuse the attempt; a direct transport is
  one claimed exchange. \<open>Inl\<close> is a turn that ended without a result to read.
\<close>

definition pooled_exchange ::
  "WalkCfg \<Rightarrow> AttEnv \<Rightarrow> CandState \<Rightarrow> string \<Rightarrow> Key option \<Rightarrow> Walk \<Rightarrow> (Turn \<times> Walk) + DialResult \<times> Walk" where
  "pooled_exchange cfg e cl out k w =
     (let exchangeBefore = RequestExchanges (budget_of w);
          w = ask cfg cl out k w;
          w = set_budget (fold (\<lambda>t b. fst (AcquireExchange b t)) (ae_claims e) (budget_of w)) w;
          w = w\<lparr>wk_egress := Some (ae_info e), wk_lastEgressAttempt := ai_Attempts (ae_info e)\<rparr>;
          w = fold (\<lambda>jf w. log_event (member_event cl w exchangeBefore jf) w)
                (enumerate 0 (ai_Failures (ae_info e))) w
      in if ai_BudgetExhausted (ae_info e)
         then (if Exhausted (budget_of w) (ae_refusalNow e) = ExhaustionRequest
               then Inl (TurnBreakWalk, w\<lparr>wk_budgetStopped := True\<rparr>)
               else (case ae_result e of
                       DialFailed err \<Rightarrow> Inr (ae_result e, w)
                     | _ \<Rightarrow> Inl (spent_turn e cl w)))
         else Inr (ae_result e, w))"

definition direct_exchange ::
  "WalkCfg \<Rightarrow> AttEnv \<Rightarrow> CandState \<Rightarrow> string \<Rightarrow> Key option \<Rightarrow> Walk \<Rightarrow> (Turn \<times> Walk) + DialResult \<times> Walk" where
  "direct_exchange cfg e cl out k w =
     (case AcquireExchange (budget_of w) (ae_claimNow e) of
        (b, g) \<Rightarrow>
          (if \<not> ex_Granted g then Inl (spent_turn e cl (set_budget b w))
           else Inr (ae_result e, (ask cfg cl out k (set_budget b w))\<lparr>wk_lastEgressAttempt := 1\<rparr>)))"

definition exchange ::
  "WalkCfg \<Rightarrow> AttEnv \<Rightarrow> CandState \<Rightarrow> string \<Rightarrow> Key option \<Rightarrow> Walk \<Rightarrow> (Turn \<times> Walk) + DialResult \<times> Walk" where
  "exchange cfg e cl out k w =
     (let w = w\<lparr>wk_lastEgressAttempt := 0, wk_lastSendState := []\<rparr>
      in if ae_pooled e then pooled_exchange cfg e cl out k w else direct_exchange cfg e cl out k w)"

section \<open>A failed exchange\<close>

text \<open>\<open>errors.As\<close> for \<open>RequestBuildError\<close>, and \<open>dialedAttempt\<close>.\<close>

fun is_RequestBuild :: "err \<Rightarrow> bool" where
  "is_RequestBuild (RequestBuildError e) = True" | "is_RequestBuild e = False"

definition dialedAttempt :: "bool \<Rightarrow> AttemptInfo option \<Rightarrow> bool" where
  "dialedAttempt pooled info =
     (case info of None \<Rightarrow> True | Some i \<Rightarrow> if \<not> pooled then True else ai_Attempts i > 0)"

definition kindHere :: "AttEnv \<Rightarrow> string" where
  "kindHere e = (if ae_pooled e then ai_Kind (ae_info e) else ''direct'')"

definition upUnreach_reject :: "WalkCfg \<Rightarrow> WalkReturn" where
  "upUnreach_reject cfg = Reject ''upstream_unreachable'' 502 (ed_upUnreach (wc_dialect cfg))"

definition failed_turn :: "WalkCfg \<Rightarrow> AttEnv \<Rightarrow> CandState \<Rightarrow> int \<Rightarrow> err \<Rightarrow> Walk \<Rightarrow> Turn \<times> Walk" where
  "failed_turn cfg e cl exchangeBefore err w =
     (if carries is_RequestBuild err
      then (TurnReturn (upUnreach_reject cfg),
            log_event (brief_event cl w ''upstream_request_build_failed'' ''request_build'' []) w)
      else
        let f = ClassifyAttempt (ae_ctx e) (Some err);
            exhausted = ae_pooled e \<and> ai_Exhausted (ae_info e);
            (class, cause) = (if \<not> f_CallerTerminated f \<and> exhausted
                              then (''egress_exhausted'', CauseNoEligibleEndpoint)
                              else (Class_String (f_Class f), f_Cause f));
            w = w\<lparr>wk_lastUerr := Some err, wk_lastFailureCause := cause,
                  wk_lastSendState := (if dialedAttempt (ae_pooled e) (wk_egress w) \<and> \<not> f_CallerTerminated f
                                       then SendState_String (f_SendState f) else wk_lastSendState w)\<rparr>;
            (dec, act, w) = decide_attempt cl e (transport_observation (position cfg cl e w) f exhausted) w;
            ev = (\<lambda>msg origin n. (decided_by dec act (attempt_event cl w msg class cause origin n))
                    \<lparr>av_egress := wk_lastEgressAttempt w\<rparr>)
        in if f_CallerTerminated f
           then (TurnReturn Disconnected,
                 log_event (ev ''upstream_request_failed'' ''caller'' (exchangeBefore + wk_lastEgressAttempt w)) w)
           else
             let w = (if ae_pooled e then w
                      else log_event ((attempt_event cl w ''egress_attempt_failed'' class cause ''transport'' (exchangeBefore + 1))
                             \<lparr>av_rule := d_RuleID dec, av_egress := 1, av_sendState := wk_lastSendState w\<rparr>) w);
                 w = log_event ((ev ''provider_attempt_failed'' ''transport'' (exchangeBefore + wk_lastEgressAttempt w))
                       \<lparr>av_sendState := wk_lastSendState w\<rparr>) w
             in follow e dec act None w)"

section \<open>An HTTP error\<close>

text \<open>A 429 takes the attempt's key out of rotation, before anything of the body is read.\<close>

definition mark_key :: "WalkCfg \<Rightarrow> AttEnv \<Rightarrow> CandState \<Rightarrow> Response \<Rightarrow> Walk \<Rightarrow> Walk" where
  "mark_key cfg e cl r w =
     (case (cl_pool cl, cn_Cred (cl_cand cl)) of
        (Some loc, Some p) \<Rightarrow>
          (if rs_status r = 429 \<and> cl_credKey cl \<noteq> []
           then w\<lparr>wk_registry := (wk_registry w)\<lparr>rg_store := (rg_store (wk_registry w))
                    [loc := MarkRateLimited (rg_store (wk_registry w) ! loc) (ae_markNow e) (cl_credKey cl)
                       (credentialCooldown (parseRetryAfter (wc_httpDate cfg) (hget (rs_header r) ''Retry-After'') (ae_markParse e))
                          (pv_RateLimit p))]\<rparr>\<rparr>
           else w)
      | _ \<Rightarrow> w)"

definition answerFor :: "captureError \<Rightarrow> upstreamErrorEvidence \<Rightarrow> Response \<Rightarrow> CandState \<Rightarrow> string \<Rightarrow> walkAnswer" where
  "answerFor cerr ev r cl egressKind =
     (let a = (newAnswer answerInvalid (cl_cand cl) (cl_index cl) (cl_credKey cl))\<lparr>wa_egressKind := egressKind\<rparr>
      in if cerr = captureOK
         then a\<lparr>wa_kind := answerHTTPError, wa_ev := ev, wa_header := rs_header r, wa_status := rs_status r\<rparr>
         else if cerr = captureDeadline \<or> cerr = captureEnvelopeElapsed
         then a\<lparr>wa_invalid := invalidBodyTimeout\<rparr>
         else a\<lparr>wa_invalid := invalidReadFailed\<rparr>)"

definition http_observation :: "WalkCfg \<Rightarrow> AttEnv \<Rightarrow> Position \<Rightarrow> Response \<Rightarrow> captureError \<Rightarrow> upstreamErrorEvidence \<Rightarrow> Observation" where
  "http_observation cfg e a r cerr ev =
     (let directive = parseRetryAfter (wc_httpDate cfg) (hget (rs_header r) ''Retry-After'') (ae_directiveNow e)
      in case cerr of
           captureOK \<Rightarrow>
             (located a)\<lparr>o_Class := FailureHTTP, o_HTTPStatus := rs_status r, o_StatusClass := StatusClassOf (rs_status r),
                o_ProviderErrorType := ue_providerType ev, o_ProviderErrorCode := ue_providerCode ev, o_RetryAfter := directive\<rparr>
         | captureDeadline \<Rightarrow> (protocol_observation a ProtocolBodyTimeout)\<lparr>o_RetryAfter := directive\<rparr>
         | captureEnvelopeElapsed \<Rightarrow> (protocol_observation a ProtocolBodyTimeout)\<lparr>o_RetryAfter := directive\<rparr>
         | _ \<Rightarrow> (protocol_observation a ProtocolBodyReadFailed)\<lparr>o_RetryAfter := directive\<rparr>)"

definition error_turn :: "WalkCfg \<Rightarrow> AttEnv \<Rightarrow> CandState \<Rightarrow> int \<Rightarrow> Response \<Rightarrow> Walk \<Rightarrow> Turn \<times> Walk" where
  "error_turn cfg e cl exchangeBefore r w =
     (let w = mark_key cfg e cl r w;
          (ev, cerr) = captureUpstreamErrorEvidence (wc_sha cfg) (wc_parseMedia cfg) (wc_decode cfg) (rs_status r)
                         (rs_header r) (ae_capture e)
      in if cerr = captureCallerEnded then (TurnReturn Disconnected, w)
         else
           let (dec, act, w) = decide_attempt cl e (http_observation cfg e (position cfg cl e w) r cerr ev) w;
               note = (\<lambda>msg class cause origin n.
                         log_event ((decided_by dec act
                           (attempt_event cl w msg class cause origin (exchangeBefore + wk_lastEgressAttempt w)))
                             \<lparr>av_egress := n\<rparr>) w);
               w = (case cerr of
                      captureOK \<Rightarrow>
                        note ''upstream_http_error'' ''upstream_error'' (ue_class ev) ''upstream_http'' (wk_lastEgressAttempt w)
                    | captureDeadline \<Rightarrow>
                        note ''upstream_body_read_failed'' ''upstream_error_body_timeout'' ''capture_deadline_exceeded'' ''protocol'' 0
                    | captureEnvelopeElapsed \<Rightarrow>
                        note ''upstream_body_read_failed'' ''upstream_error_body_timeout'' ''exchange_elapsed'' ''envelope'' 0
                    | _ \<Rightarrow> note ''upstream_body_read_failed'' ''upstream_error'' ''body_read_failed'' ''protocol'' 0);
               a = answerFor cerr ev r cl (kindHere e)
           in follow e dec act (Some (a, a)) w)"

section \<open>A buffered answer\<close>

definition maxBufferedResponseBytes :: int where "maxBufferedResponseBytes = 67108864"

text \<open>The caller's context surfacing through a read; a write failure cannot.\<close>

definition clientSide :: "err \<Rightarrow> bool" where
  "clientSide e \<longleftrightarrow> errors_Is e CtxCanceled \<or> errors_Is e CtxDeadlineExceeded"

definition invalid_answer :: "invalidFlavor \<Rightarrow> CandState \<Rightarrow> walkAnswer" where
  "invalid_answer flavor cl =
     (newAnswer answerInvalid (cl_cand cl) (cl_index cl) (cl_credKey cl))\<lparr>wa_invalid := flavor\<rparr>"

text \<open>A buffered body that cannot be used: the retained answer names its egress, the final one does not.\<close>

definition unusable_turn ::
  "WalkCfg \<Rightarrow> AttEnv \<Rightarrow> CandState \<Rightarrow> int \<Rightarrow> string \<Rightarrow> string \<Rightarrow> string \<Rightarrow> string \<Rightarrow> string \<Rightarrow> invalidFlavor \<Rightarrow> Walk \<Rightarrow> Turn \<times> Walk" where
  "unusable_turn cfg e cl exchangeBefore protocolCause msg class cause origin flavor w =
     (let (dec, act, w) = decide_attempt cl e (protocol_observation (position cfg cl e w) protocolCause) w;
          w = log_event (decided_by dec act
                (attempt_event cl w msg class cause origin (exchangeBefore + wk_lastEgressAttempt w))) w
      in follow e dec act
           (Some ((invalid_answer flavor cl)\<lparr>wa_egressKind := kindHere e\<rparr>, invalid_answer flavor cl)) w)"

definition buffered_turn :: "WalkCfg \<Rightarrow> AttEnv \<Rightarrow> CandState \<Rightarrow> int \<Rightarrow> Response \<Rightarrow> Walk \<Rightarrow> Turn \<times> Walk" where
  "buffered_turn cfg e cl exchangeBefore r w =
     (case ae_read e of
        BodyRefused \<Rightarrow>
          (TurnReturn (Reject ''capacity_exceeded'' 503 (ed_atCapacity (wc_dialect cfg))),
           log_event (brief_event cl w ''buffer_capacity_exceeded'' ''capacity_exceeded'' ''envelope'') w)
      | BodyFailed err \<Rightarrow>
          (if ae_gone e \<or> clientSide err then (TurnReturn Disconnected, w)
           else if carries is_ExchangeTimeout err
           then unusable_turn cfg e cl exchangeBefore ProtocolBodyTimeout ''upstream_body_read_failed'' ''upstream_error''
                  ''exchange_elapsed'' ''envelope'' invalidReadFailed w
           else unusable_turn cfg e cl exchangeBefore ProtocolBodyReadFailed ''upstream_body_read_failed'' ''upstream_error''
                  ''body_read_failed'' ''protocol'' invalidReadFailed w)
      | BodyDone body \<Rightarrow>
          (let bytes = take (nat (maxBufferedResponseBytes + 1)) body
           in if int (length bytes) > maxBufferedResponseBytes
              then unusable_turn cfg e cl exchangeBefore ProtocolOversizedResponse ''upstream_invalid_response''
                     ''upstream_invalid_response'' ProtocolOversizedResponse ''protocol'' invalidBody w
              else if \<not> json_valid bytes
              then unusable_turn cfg e cl exchangeBefore ProtocolInvalidResponse ''upstream_invalid_response''
                     ''upstream_invalid_response'' ProtocolInvalidResponse ''protocol'' invalidBody w
              else (TurnBreakWalk, w\<lparr>wk_answer := Some ((newAnswer answerBuffered (cl_cand cl) (cl_index cl) (cl_credKey cl))
                      \<lparr>wa_body := bytes, wa_header := rs_header r, wa_status := rs_status r\<rparr>)\<rparr>)))"

section \<open>One turn\<close>

text \<open>A response committed live: its exchange window is handed off.\<close>

definition commit_live :: "answerKind \<Rightarrow> CandState \<Rightarrow> Response \<Rightarrow> Walk \<Rightarrow> Turn \<times> Walk" where
  "commit_live kind cl r w =
     (TurnBreakWalk,
      w\<lparr>wk_handed := wk_handed w @ [rs_body r],
        wk_answer := Some ((newAnswer kind (cl_cand cl) (cl_index cl) (cl_credKey cl))
          \<lparr>wa_resp := Some r, wa_header := rs_header r, wa_status := rs_status r,
           wa_pool := (if kind = answerSSE then cl_pool cl else None)\<rparr>)\<rparr>)"

definition answered_turn :: "WalkCfg \<Rightarrow> AttEnv \<Rightarrow> CandState \<Rightarrow> int \<Rightarrow> Response \<Rightarrow> Walk \<Rightarrow> Turn \<times> Walk" where
  "answered_turn cfg e cl exchangeBefore r w =
     (if isUpstreamHTTPError (rs_status r) then error_turn cfg e cl exchangeBefore r w
      else if rs_status r \<ge> 300 \<or> rs_status r = 204 \<or> rs_status r = 304 then commit_live answerVerbatim cl r w
      else if wc_stream cfg \<and> is_event_stream (hget (rs_header r) contentTypeHeader) then commit_live answerSSE cl r w
      else buffered_turn cfg e cl exchangeBefore r w)"

definition read_result :: "WalkCfg \<Rightarrow> AttEnv \<Rightarrow> CandState \<Rightarrow> int \<Rightarrow> DialResult \<Rightarrow> Walk \<Rightarrow> Turn \<times> Walk" where
  "read_result cfg e cl exchangeBefore d w =
     (case d of
        DialFailed err \<Rightarrow> failed_turn cfg e cl exchangeBefore err w
      | DialNothing \<Rightarrow> (TurnReturn Panicked, w)
      | DialResponse r \<Rightarrow> answered_turn cfg e cl exchangeBefore r w)"

text \<open>The two counters, after the request is built and before the credential and the transport.\<close>

definition count_attempt :: "CandState \<Rightarrow> Walk \<Rightarrow> CandState \<times> Walk" where
  "count_attempt cl w =
     (let cl = cl\<lparr>cl_attempt := cl_attempt cl + 1\<rparr>
      in (cl, w\<lparr>wk_providerAttempts := wk_providerAttempts w + 1,
                wk_retriesTotal := (if cl_attempt cl > 1 then wk_retriesTotal w + 1 else wk_retriesTotal w),
                wk_lastAttemptBlocked := False, wk_meterEvent := True\<rparr>))"

definition attempt_turn :: "WalkCfg \<Rightarrow> AttEnv \<Rightarrow> CandState \<Rightarrow> Walk \<Rightarrow> Turn \<times> CandState \<times> Walk" where
  "attempt_turn cfg e cl w =
     (case wc_transform cfg (cl_cand cl) (wc_body cfg) of
        Inl _ \<Rightarrow> (TurnReturn (Reject ''transform_error'' 400 (ed_invalidReq (wc_dialect cfg))), cl, w)
      | Inr out \<Rightarrow>
          (if ae_reqErr e
           then (TurnReturn (upUnreach_reject cfg), cl,
                 log_event (zeroEvent\<lparr>av_msg := ''upstream_request_build_failed'', av_class := ''request_build''\<rparr>) w)
           else
             let (cl, w) = count_attempt cl w
             in case acquire_key e cl w of
                  (None, w) \<Rightarrow> (case blocked_turn cfg e cl w of (t, w) \<Rightarrow> (t, cl, w))
                | (Some k, w) \<Rightarrow>
                    (let cl = (case k of None \<Rightarrow> cl | Some k \<Rightarrow> cl\<lparr>cl_credKey := k_ID k\<rparr>);
                         w = (case k of None \<Rightarrow> w | Some k \<Rightarrow> w\<lparr>wk_lastCredentialID := k_ID k\<rparr>);
                         exchangeBefore = RequestExchanges (budget_of w)
                     in case exchange cfg e cl out k w of
                          Inl (t, w) \<Rightarrow> (t, cl, w)
                        | Inr (d, w) \<Rightarrow> (case read_result cfg e cl exchangeBefore d w of (t, w) \<Rightarrow> (t, cl, w)))))"

section \<open>The walk\<close>

text \<open>The attempts on one candidate: one environment per turn. \<open>None\<close> is an environment cut short.\<close>

fun attempts_loop :: "WalkCfg \<Rightarrow> CandState \<Rightarrow> AttEnv list \<Rightarrow> Walk \<Rightarrow> (Turn \<times> Walk \<times> AttEnv list) option" where
  "attempts_loop cfg cl [] w = None"
| "attempts_loop cfg cl (e # es) w =
     (case attempt_turn cfg e cl w of
        (TurnContinue, cl', w') \<Rightarrow> attempts_loop cfg cl' es w'
      | (t, _, w') \<Rightarrow> Some (t, w', es))"

text \<open>The clocks of one candidate's entry: the engine's two and the handler's own.\<close>

record EnterEnv =
  ee_nowCand :: "time"
  ee_nowBudget :: "time"
  ee_start :: "time"

definition enter :: "Candidate \<Rightarrow> int \<Rightarrow> Engine \<Rightarrow> Walk \<Rightarrow> Walk" where
  "enter cand i eng w =
     w\<lparr>wk_engine := eng, wk_lastCandIndex := i, wk_finalProvider := cn_Label cand, wk_lastCand := Some cand,
       wk_lastPolicyHash := cn_RecoveryHash cand, wk_egress := None, wk_lastCredentialID := []\<rparr>"

text \<open>The candidate's pool, resolved once; a spec without keys panics in \<open>NewPool\<close>.\<close>

definition resolve_pool :: "WalkCfg \<Rightarrow> Candidate \<Rightarrow> Walk \<Rightarrow> (nat option \<times> Walk) option" where
  "resolve_pool cfg cand w =
     (if \<not> wc_creds cfg then Some (None, w)
      else case cn_Cred cand of
             None \<Rightarrow> Some (None, w)
           | Some p \<Rightarrow>
               (case Registry_Pool (wc_sha cfg) (wk_registry w) p of
                  Inl _ \<Rightarrow> None
                | Inr (r, loc) \<Rightarrow> Some (Some loc, w\<lparr>wk_registry := r\<rparr>)))"

fun chain_loop :: "WalkCfg \<Rightarrow> int \<Rightarrow> (Candidate \<times> EnterEnv) list \<Rightarrow> AttEnv list \<Rightarrow> Walk \<Rightarrow> (WalkReturn option \<times> Walk) option" where
  "chain_loop cfg i [] es w = Some (None, w)"
| "chain_loop cfg i ((cand, ee) # rest) es w =
     (case EnterCandidate (wk_engine w) (cn_Recovery cand) (ee_nowCand ee) (ee_nowBudget ee) of
        (False, _) \<Rightarrow> Some (None, w)
      | (True, eng) \<Rightarrow>
          (case resolve_pool cfg cand (enter cand i eng w) of
             None \<Rightarrow> Some (Some Panicked, enter cand i eng w)
           | Some (pool, w1) \<Rightarrow>
               (case attempts_loop cfg \<lparr>cl_cand = cand, cl_index = i, cl_hasNext = (rest \<noteq> []), cl_pool = pool,
                       cl_credKey = [], cl_attempt = 0, cl_start = ee_start ee\<rparr> es w1 of
                  None \<Rightarrow> None
                | Some (TurnReturn r, w2, _) \<Rightarrow> Some (Some r, w2)
                | Some (TurnBreak, w2, es') \<Rightarrow> chain_loop cfg (i + 1) rest es' w2
                | Some (_, w2, _) \<Rightarrow> Some (None, w2))))"

section \<open>After the walk\<close>

text \<open>A retained answer becomes the client's when nothing was committed.\<close>

definition take_retained :: "Walk \<Rightarrow> Walk" where
  "take_retained w =
     (case (wk_answer w, wk_retained w) of
        (None, Some a) \<Rightarrow>
          w\<lparr>wk_answer := Some a, wk_finalProvider := cn_Label (wa_cand a), wk_lastCand := Some (wa_cand a),
            wk_lastCandIndex := wa_candIndex a, wk_lastPolicyHash := cn_RecoveryHash (wa_cand a),
            wk_lastCredentialID := wa_credKey a, wk_ansEgressKind := wa_egressKind a\<rparr>
      | _ \<Rightarrow> w)"

text \<open>The class, cause, origin and rule of a walk that received nothing.\<close>

definition exhaustion_report :: "time \<Rightarrow> Walk \<Rightarrow> string \<times> string \<times> string \<times> string" where
  "exhaustion_report now w =
     (if wk_budgetStopped w \<or> (case wk_egress w of None \<Rightarrow> False | Some i \<Rightarrow> ai_BudgetExhausted i)
      then (''provider_exhausted'', CauseExchangeBudget, ''envelope'',
            if Exhausted (budget_of w) now = ExhaustionRequest then RuleIDBudgetRequest else RuleIDBudgetCandidate)
      else if wk_lastAttemptBlocked w
      then (''credential_exhausted'', CredentialCooldown, ''credential'', wk_lastRuleID w)
      else if (case wk_egress w of None \<Rightarrow> False | Some i \<Rightarrow> ai_Exhausted i)
      then (''egress_exhausted'', CauseNoEligibleEndpoint, ''transport'', wk_lastRuleID w)
      else (''provider_exhausted'', wk_lastFailureCause w, ''transport'', wk_lastRuleID w))"

definition exhaustion_event :: "time \<Rightarrow> Walk \<Rightarrow> AttemptEvent" where
  "exhaustion_event now w =
     (case exhaustion_report now w of
        (class, cause, origin, rule) \<Rightarrow>
          zeroEvent\<lparr>av_msg := ''upstream_request_failed'', av_class := class, av_cause := cause, av_origin := origin,
            av_rule := rule, av_attempt := wk_providerAttempts w, av_egress := wk_lastEgressAttempt w,
            av_sendState := (if origin = ''transport'' then wk_lastSendState w else [])\<rparr>)"

datatype WalkEnd = WalkReturned WalkReturn | WalkAnswered walkAnswer

text \<open>The end of the walk: the clock of the report and whether the caller is gone are its last readings.\<close>

definition finish_walk :: "WalkCfg \<Rightarrow> time \<Rightarrow> bool \<Rightarrow> WalkReturn option \<times> Walk \<Rightarrow> WalkEnd \<times> Walk" where
  "finish_walk cfg now gone rw =
     (case rw of
        (Some r, w) \<Rightarrow> (WalkReturned r, w)
      | (None, w) \<Rightarrow>
          (let w = take_retained w
           in case wk_answer w of
                Some a \<Rightarrow> (WalkAnswered a, w)
              | None \<Rightarrow>
                  (let w = log_event (exhaustion_event now w) (w\<lparr>wk_providerExhausted := True\<rparr>)
                   in (WalkReturned (if gone then Disconnected else upUnreach_reject cfg), w))))"

definition provider_walk ::
  "WalkCfg \<Rightarrow> Policy \<Rightarrow> time \<Rightarrow> time \<Rightarrow> (Candidate \<times> EnterEnv) list \<Rightarrow> AttEnv list \<Rightarrow> time \<Rightarrow> bool \<Rightarrow> Registry
   \<Rightarrow> (WalkEnd \<times> Walk) option" where
  "provider_walk cfg primary nowBudget nowCand cands es now gone r =
     map_option (finish_walk cfg now gone)
       (chain_loop cfg 1 cands es (newWalk (NewEngine primary nowBudget nowCand) r))"

section \<open>What a turn changes\<close>

text \<open>The part of the state that the reading of a result leaves alone.\<close>

definition walk_core where
  "walk_core w =
     (wk_engine w, wk_asked w, wk_providerAttempts w, wk_retriesTotal w,
      (wk_lastCandIndex w, wk_finalProvider w, wk_lastCand w, wk_lastPolicyHash w, wk_lastCredentialID w),
      rg_pools (wk_registry w), map cp_spec (rg_store (wk_registry w)))"

text \<open>An answer of the candidate under way, under the key of its attempt.\<close>

definition answer_of :: "CandState \<Rightarrow> walkAnswer \<Rightarrow> bool" where
  "answer_of cl a \<longleftrightarrow> wa_cand a = cl_cand cl \<and> wa_candIndex a = cl_index cl \<and> wa_credKey a = cl_credKey cl"

text \<open>The events that report an answer that arrived.\<close>

definition answered :: "AttemptEvent \<Rightarrow> bool" where
  "answered ev \<longleftrightarrow> av_msg ev \<in> {''upstream_http_error'', ''upstream_body_read_failed'', ''upstream_invalid_response''}"

text \<open>How a turn ends, in terms of the answers it leaves and the decision it reports.\<close>

definition turn_ends :: "CandState \<Rightarrow> Turn \<Rightarrow> Walk \<Rightarrow> Walk \<Rightarrow> bool" where
  "turn_ends cl t w w' \<longleftrightarrow>
     (case t of
        TurnBreak \<Rightarrow> wk_answer w' = wk_answer w
          \<and> (wk_retained w' = wk_retained w \<or> (\<exists>a. wk_retained w' = Some a \<and> answer_of cl a))
      | TurnBreakWalk \<Rightarrow> wk_retained w' = wk_retained w
          \<and> (wk_answer w' = wk_answer w \<or> (\<exists>a. wk_answer w' = Some a \<and> answer_of cl a))
      | _ \<Rightarrow> wk_answer w' = wk_answer w \<and> wk_retained w' = wk_retained w)
     \<and> (\<exists>evs. wk_events w' = wk_events w @ evs
          \<and> (\<forall>ev\<in>set evs. answered ev \<and> av_disposition ev \<noteq> ''retry'' \<longrightarrow>
               t = TurnBreak \<and> wk_retained w' \<noteq> None \<or> t = TurnBreakWalk \<and> wk_answer w' \<noteq> None))"

lemma core_log [simp]: "walk_core (log_event ev w) = walk_core w"
  by (simp add: walk_core_def log_event_def)

lemma log_event_simps [simp]:
  "wk_answer (log_event ev w) = wk_answer w" "wk_retained (log_event ev w) = wk_retained w"
  "wk_events (log_event ev w) = wk_events w @ [ev]" "wk_engine (log_event ev w) = wk_engine w"
  "wk_egress (log_event ev w) = wk_egress w" "wk_lastEgressAttempt (log_event ev w) = wk_lastEgressAttempt w"
  by (simp_all add: log_event_def)

lemma core_updates [simp]:
  "walk_core (w\<lparr>wk_lastRuleID := a\<rparr>) = walk_core w" "walk_core (w\<lparr>wk_retained := b\<rparr>) = walk_core w"
  "walk_core (w\<lparr>wk_answer := b\<rparr>) = walk_core w" "walk_core (w\<lparr>wk_budgetStopped := c\<rparr>) = walk_core w"
  "walk_core (w\<lparr>wk_handed := d\<rparr>) = walk_core w"
  "walk_core (w\<lparr>wk_lastUerr := u, wk_lastFailureCause := f, wk_lastSendState := s\<rparr>) = walk_core w"
  "walk_core (w\<lparr>wk_lastAttemptBlocked := c, wk_lastEgressAttempt := i, wk_lastSendState := s, wk_egress := g\<rparr>) = walk_core w"
  "walk_core (w\<lparr>wk_lastEgressAttempt := i\<rparr>) = walk_core w"
  "walk_core (w\<lparr>wk_lastEgressAttempt := i, wk_lastSendState := s\<rparr>) = walk_core w"
  "walk_core (w\<lparr>wk_egress := g, wk_lastEgressAttempt := i\<rparr>) = walk_core w"
  by (simp_all add: walk_core_def)

text \<open>The common end of the failed turns: one decision, one event, one disposition.\<close>

lemma follow_core: "follow e dec act left w = (t, w') \<Longrightarrow> walk_core w' = walk_core w"
  by (auto simp: follow_def split: if_splits Action.splits option.splits)

lemma follow_continue: "follow e dec act left w = (TurnContinue, w') \<Longrightarrow> act = ActionRetry"
  by (auto simp: follow_def split: if_splits Action.splits)

lemma walkAction_retry: "walkAction a n = ActionRetry \<longleftrightarrow> a = ActionRetry"
  by (simp add: walkAction_def)

lemma disposition_retry: "Action_String ActionRetry = ''retry''" "Action_String a = ''retry'' \<longleftrightarrow> a = ActionRetry"
  by (cases a; simp)+

lemma follow_ends:
  assumes "follow e dec act left w1 = (t, w')" and "act = walkAction (d_Action dec) n"
    and "wk_answer w1 = wk_answer w" "wk_retained w1 = wk_retained w" "wk_events w1 = wk_events w @ evs"
    and "\<And>ev. ev \<in> set evs \<Longrightarrow> answered ev \<Longrightarrow> left \<noteq> None \<and> av_disposition ev = Action_String act"
    and "\<And>r a. left = Some (r, a) \<Longrightarrow> answer_of cl r \<and> answer_of cl a"
  shows "turn_ends cl t w w'"
proof -
  have wait: "act = ActionRetry" if "\<not> waitOut e dec"
    using that assms(2) by (simp add: waitOut_def walkAction_retry split: if_splits)
  have quiet: "act \<noteq> ActionRetry \<Longrightarrow> left \<noteq> None" if "\<exists>ev\<in>set evs. answered ev \<and> av_disposition ev \<noteq> ''retry''"
    using that assms(6) by blast
  have ret: "\<not> (\<exists>ev\<in>set evs. answered ev \<and> av_disposition ev \<noteq> ''retry'')" if "act = ActionRetry"
    using that assms(6) disposition_retry by fastforce
  show ?thesis
  proof (cases "waitOut e dec")
    case False
    with assms(1) have "t = TurnReturn Disconnected" "w' = w1" by (simp_all add: follow_def)
    with wait [OF False] ret assms(3-5) show ?thesis by (auto simp: turn_ends_def)
  next
    case True
    show ?thesis
    proof (cases act)
      case ActionRetry
      with assms(1) True have "t = TurnContinue" "w' = w1" by (simp_all add: follow_def)
      with ret [OF ActionRetry] assms(3-5) show ?thesis by (auto simp: turn_ends_def)
    next
      case ActionFallback
      with assms(1) True have t: "t = TurnBreak" and w': "w' = (case left of None \<Rightarrow> w1 | Some (r, a) \<Rightarrow> w1\<lparr>wk_retained := Some r\<rparr>)"
        by (simp_all add: follow_def)
      show ?thesis
      proof (cases left)
        case None
        with t w' assms(3-6) show ?thesis by (auto simp: turn_ends_def)
      next
        case (Some ra)
        with t w' assms(3-5,7) show ?thesis by (cases ra) (auto simp: turn_ends_def)
      qed
    next
      case ActionTerminal
      with assms(1) True have t: "t = TurnBreakWalk" and w': "w' = (case left of None \<Rightarrow> w1 | Some (r, a) \<Rightarrow> w1\<lparr>wk_answer := Some a\<rparr>)"
        by (simp_all add: follow_def)
      show ?thesis
      proof (cases left)
        case None
        with t w' assms(3-6) show ?thesis by (auto simp: turn_ends_def)
      next
        case (Some ra)
        with t w' assms(3-5,7) show ?thesis by (cases ra) (auto simp: turn_ends_def)
      qed
    qed
  qed
qed

text \<open>The attempt bound: the engine allows another attempt only below the retry limit.\<close>

lemma decide_retry:
  assumes "decide_attempt cl e ob w = (dec, act, w')" and "act = ActionRetry" and "o_CandidateAttempt ob = cl_attempt cl"
  shows "cl_attempt cl \<le> rp_MaxRetries (p_Retry (e_policy (wk_engine w)))"
proof -
  from assms(1,2) have "d_Action (Observe (wk_engine w) (ae_env e) ob) = ActionRetry"
    by (auto simp: decide_attempt_def Let_def walkAction_retry)
  then obtain rid where "d_Action (retry (wk_engine w) (ae_env e) ob rid (Reason ob)) = ActionRetry"
    by (rule Observe_retryD)
  from retry_action(1) [OF this] assms(3) show ?thesis by simp
qed

definition turn_ok :: "CandState \<Rightarrow> Turn \<Rightarrow> Walk \<Rightarrow> Walk \<Rightarrow> bool" where
  "turn_ok cl t w w' \<longleftrightarrow> walk_core w' = walk_core w \<and> turn_ends cl t w w'
     \<and> (t = TurnContinue \<longrightarrow> cl_attempt cl \<le> rp_MaxRetries (p_Retry (e_policy (wk_engine w))))"

lemma decide_attempt_frame:
  "decide_attempt cl e ob w = (dec, act, w') \<Longrightarrow>
     w' = w\<lparr>wk_lastRuleID := d_RuleID dec\<rparr> \<and> act = walkAction (d_Action dec) (cl_hasNext cl)"
  by (auto simp: decide_attempt_def Let_def)

text \<open>
  The shape all decided turns share: bookkeeping, a decision on an observation of this attempt,
  events, and the disposition.
\<close>

lemma decided_turn:
  assumes "walk_core w1 = walk_core w" "wk_answer w1 = wk_answer w" "wk_retained w1 = wk_retained w" "wk_events w1 = wk_events w"
    and "decide_attempt cl e ob w1 = (dec, act, w2)" and "o_CandidateAttempt ob = cl_attempt cl"
    and "walk_core w3 = walk_core w2" "wk_answer w3 = wk_answer w2" "wk_retained w3 = wk_retained w2" "wk_events w3 = wk_events w2 @ evs"
    and "follow e dec act left w3 = (t, w')"
    and "\<And>ev. ev \<in> set evs \<Longrightarrow> answered ev \<Longrightarrow> left \<noteq> None \<and> av_disposition ev = Action_String act"
    and "\<And>r a. left = Some (r, a) \<Longrightarrow> answer_of cl r \<and> answer_of cl a"
  shows "turn_ok cl t w w'"
proof -
  note d = decide_attempt_frame [OF assms(5)]
  have "walk_core w' = walk_core w" using follow_core [OF assms(11)] assms(1,7) d by simp
  moreover have "turn_ends cl t w w'"
    by (rule follow_ends [OF assms(11), where n = "cl_hasNext cl" and evs = evs]) (use assms d in auto)
  moreover have "cl_attempt cl \<le> rp_MaxRetries (p_Retry (e_policy (wk_engine w)))" if "t = TurnContinue"
    using decide_retry [OF assms(5) _ assms(6)] follow_continue assms(11) that assms(1) by (simp add: walk_core_def)
  ultimately show ?thesis by (simp add: turn_ok_def)
qed

lemma quiet_turn:
  assumes "walk_core w' = walk_core w" "wk_answer w' = wk_answer w" "wk_retained w' = wk_retained w"
    and "wk_events w' = wk_events w @ evs" and "\<And>ev. ev \<in> set evs \<Longrightarrow> \<not> answered ev" and "t \<noteq> TurnContinue"
  shows "turn_ok cl t w w'"
  using assms by (auto simp: turn_ok_def turn_ends_def split: Turn.splits)

lemma located_attempt [simp]: "o_CandidateAttempt (located a) = at_attempt a" "o_Committed (located a) = at_committed a"
  by (simp_all add: located_def)

lemma observation_attempt [simp]:
  "o_CandidateAttempt (transport_observation a f x) = at_attempt a"
  "o_CandidateAttempt (protocol_observation a c) = at_attempt a"
  "o_CandidateAttempt (http_observation cfg e a r cerr ev) = at_attempt a"
  "o_CandidateAttempt (blocked_observation cfg cl e w) = cl_attempt cl"
  by (simp_all add: transport_observation_def protocol_observation_def http_observation_def blocked_observation_def
      position_def Let_def split: captureError.split option.split)

lemma position_attempt [simp]: "at_attempt (position cfg cl e w) = cl_attempt cl"
  by (simp add: position_def)

lemma event_msg [simp]:
  "av_msg (decided_by dec act ev) = av_msg ev" "av_disposition (decided_by dec act ev) = Action_String act"
  "av_msg (attempt_event cl w msg class cause origin n) = msg" "av_msg (brief_event cl w msg class origin) = msg"
  by (simp_all add: decided_by_def attempt_event_def brief_event_def)

lemma blocked_turn_ok: "blocked_turn cfg e cl w = (t, w') \<Longrightarrow> turn_ok cl t w w'"
proof -
  assume a: "blocked_turn cfg e cl w = (t, w')"
  define w1 where "w1 = w\<lparr>wk_lastAttemptBlocked := True, wk_lastEgressAttempt := 0, wk_lastSendState := [], wk_egress := None\<rparr>"
  obtain dec act w2 where d: "decide_attempt cl e (blocked_observation cfg cl e w1) w1 = (dec, act, w2)"
    by (metis prod_cases3)
  define ev where "ev = decided_by dec act
      (attempt_event cl w2 ''credential_unavailable'' ''credential'' CredentialCooldown ''credential'' 0)"
  have f: "follow e dec act None (log_event ev w2) = (t, w')"
    using a unfolding blocked_turn_def w1_def [symmetric] Let_def ev_def by (simp add: d)
  show ?thesis
    by (rule decided_turn [OF _ _ _ _ d _ _ _ _ _ f, where evs = "[ev]"])
       (simp_all add: w1_def ev_def answered_def)
qed

lemma spent_turn_ok: "spent_turn e cl w = (t, w') \<Longrightarrow> turn_ok cl t w w'"
proof -
  assume a: "spent_turn e cl w = (t, w')"
  show ?thesis
  proof (cases "Exhausted (budget_of w) (ae_refusalNow e) = ExhaustionRequest")
    case True
    with a have "t = TurnBreakWalk" "w' = w\<lparr>wk_budgetStopped := True\<rparr>" by (simp_all add: spent_turn_def)
    then show ?thesis by (intro quiet_turn [where evs = "[]"]) simp_all
  next
    case False
    define dec where "dec = CandidateSpent (wk_engine w) (ae_spentNow e) CauseExchangeBudget"
    define act where "act = walkAction (d_Action dec) (cl_hasNext cl)"
    define ev where "ev = decided_by dec act (attempt_event cl w ''candidate_exchange_budget_spent''
        ''provider_exhausted'' CauseExchangeBudget ''envelope'' 0)"
    have "t = (if act = ActionFallback then TurnBreak else TurnBreakWalk)"
      "w' = (if act = ActionFallback then log_event ev w else (log_event ev w)\<lparr>wk_budgetStopped := True\<rparr>)"
      using a False unfolding spent_turn_def Let_def dec_def [symmetric] act_def [symmetric] ev_def [symmetric]
      by (simp_all split: if_splits)
    then show ?thesis by (intro quiet_turn [where evs = "[ev]"]) (simp_all add: ev_def answered_def)
  qed
qed

lemma failed_turn_ok: "failed_turn cfg e cl n err w = (t, w') \<Longrightarrow> turn_ok cl t w w'"
proof -
  assume a: "failed_turn cfg e cl n err w = (t, w')"
  show ?thesis
  proof (cases "carries is_RequestBuild err")
    case True
    with a show ?thesis
      by (intro quiet_turn [where evs = "[brief_event cl w ''upstream_request_build_failed'' ''request_build'' []]"])
         (auto simp: failed_turn_def answered_def)
  next
    case False
    define f where "f = ClassifyAttempt (ae_ctx e) (Some err)"
    define x where "x \<longleftrightarrow> ae_pooled e \<and> ai_Exhausted (ae_info e)"
    obtain cls cause where cc: "(if \<not> f_CallerTerminated f \<and> x then (''egress_exhausted'', CauseNoEligibleEndpoint)
        else (Class_String (f_Class f), f_Cause f)) = (cls, cause)" by fastforce
    define w1 where "w1 = w\<lparr>wk_lastUerr := Some err, wk_lastFailureCause := cause,
        wk_lastSendState := (if dialedAttempt (ae_pooled e) (wk_egress w) \<and> \<not> f_CallerTerminated f
                             then SendState_String (f_SendState f) else wk_lastSendState w)\<rparr>"
    obtain dec act w2 where d: "decide_attempt cl e (transport_observation (position cfg cl e w1) f x) w1 = (dec, act, w2)"
      by (metis prod_cases3)
    note d' = decide_attempt_frame [OF d]
    define ev where "ev = (\<lambda>msg origin n. (decided_by dec act (attempt_event cl w2 msg cls cause origin n))\<lparr>av_egress := wk_lastEgressAttempt w2\<rparr>)"
    show ?thesis
    proof (cases "f_CallerTerminated f")
      case True
      have "t = TurnReturn Disconnected" "w' = log_event (ev ''upstream_request_failed'' ''caller'' (n + wk_lastEgressAttempt w2)) w2"
        using a False True unfolding failed_turn_def Let_def f_def [symmetric] x_def [symmetric] cc prod.case w1_def [symmetric] d ev_def
        by simp_all
      with d' show ?thesis
        by (intro quiet_turn [where evs = "[ev ''upstream_request_failed'' ''caller'' (n + wk_lastEgressAttempt w2)]"])
           (simp_all add: w1_def ev_def answered_def)
    next
      case live: False
      define m where "m = (if ae_pooled e then []
          else [(attempt_event cl w2 ''egress_attempt_failed'' cls cause ''transport'' (n + 1))
                 \<lparr>av_rule := d_RuleID dec, av_egress := 1, av_sendState := wk_lastSendState w2\<rparr>])"
      define p where "p = (ev ''provider_attempt_failed'' ''transport'' (n + wk_lastEgressAttempt w2))\<lparr>av_sendState := wk_lastSendState w2\<rparr>"
      define w3 where "w3 = log_event p (if ae_pooled e then w2 else log_event (hd m) w2)"
      have ss: "wk_lastSendState (log_event x w2) = wk_lastSendState w2" for x by (simp add: log_event_def)
      have f3: "follow e dec act None w3 = (t, w')"
        using a False live unfolding failed_turn_def Let_def f_def [symmetric] x_def [symmetric] cc prod.case w1_def [symmetric] d
        by (simp add: w3_def m_def p_def ev_def ss split: if_splits)
      show ?thesis
        by (rule decided_turn [OF _ _ _ _ d _ _ _ _ _ f3, where evs = "m @ [p]"])
           (auto simp: w1_def w3_def m_def p_def ev_def answered_def split: if_splits)
    qed
  qed
qed


lemma map_list_update_same: "f y = f (xs ! i) \<Longrightarrow> map f (xs[i := y]) = map f xs"
  by (cases "i < length xs") (simp_all add: map_update list_update_same_conv list_update_beyond)

lemma MarkRateLimited_spec: "cp_spec (MarkRateLimited p t i c) = cp_spec p"
  by (simp add: MarkRateLimited_def Let_def split: option.split)

lemma mark_key_frame:
  "walk_core (mark_key cfg e cl r w) = walk_core w" "wk_answer (mark_key cfg e cl r w) = wk_answer w"
  "wk_retained (mark_key cfg e cl r w) = wk_retained w" "wk_events (mark_key cfg e cl r w) = wk_events w"
  by (auto simp: mark_key_def walk_core_def map_list_update_same MarkRateLimited_spec split: option.split)

lemma answer_of_new:
  "answer_of cl (answerFor cerr ev r cl kind)" "answer_of cl (invalid_answer flavor cl)"
  "answer_of cl ((invalid_answer flavor cl)\<lparr>wa_egressKind := kind\<rparr>)"
  by (simp_all add: answer_of_def answerFor_def invalid_answer_def newAnswer_def Let_def)

lemma error_turn_ok:
  assumes "error_turn cfg e cl n r w = (t, w')"
  shows "turn_ok cl t w w'"
proof -
  define w1 where "w1 = mark_key cfg e cl r w"
  obtain ev cerr where c: "captureUpstreamErrorEvidence (wc_sha cfg) (wc_parseMedia cfg) (wc_decode cfg) (rs_status r)
      (rs_header r) (ae_capture e) = (ev, cerr)" by fastforce
  show ?thesis
  proof (cases "cerr = captureCallerEnded")
    case True
    with assms c have "t = TurnReturn Disconnected" "w' = w1" by (simp_all add: error_turn_def w1_def)
    then show ?thesis by (intro quiet_turn [where evs = "[]"]) (simp_all add: w1_def mark_key_frame)
  next
    case False
    obtain dec act w2 where d: "decide_attempt cl e (http_observation cfg e (position cfg cl e w1) r cerr ev) w1 = (dec, act, w2)"
      by (metis prod_cases3)
    define mk where "mk = (\<lambda>msg cls cause origin i. (decided_by dec act
        (attempt_event cl w2 msg cls cause origin (n + wk_lastEgressAttempt w2)))\<lparr>av_egress := i\<rparr>)"
    define x where "x = (case cerr of
        captureOK \<Rightarrow> mk ''upstream_http_error'' ''upstream_error'' (ue_class ev) ''upstream_http'' (wk_lastEgressAttempt w2)
      | captureDeadline \<Rightarrow> mk ''upstream_body_read_failed'' ''upstream_error_body_timeout'' ''capture_deadline_exceeded'' ''protocol'' 0
      | captureEnvelopeElapsed \<Rightarrow> mk ''upstream_body_read_failed'' ''upstream_error_body_timeout'' ''exchange_elapsed'' ''envelope'' 0
      | _ \<Rightarrow> mk ''upstream_body_read_failed'' ''upstream_error'' ''body_read_failed'' ''protocol'' 0)"
    define a where "a = answerFor cerr ev r cl (kindHere e)"
    have f: "follow e dec act (Some (a, a)) (log_event x w2) = (t, w')"
      using assms False unfolding error_turn_def Let_def w1_def [symmetric] c prod.case d a_def [symmetric] x_def mk_def
      by (cases cerr) simp_all
    have "av_disposition x = Action_String act" by (simp add: x_def mk_def split: captureError.split)
    moreover have "answer_of cl a" by (simp add: a_def answer_of_new)
    ultimately show ?thesis
      by (intro decided_turn [OF _ _ _ _ d _ _ _ _ _ f, where evs = "[x]"])
         (auto simp: w1_def mark_key_frame)
  qed
qed

lemma unusable_turn_ok:
  assumes "unusable_turn cfg e cl n pc msg cls cause origin flavor w = (t, w')"
  shows "turn_ok cl t w w'"
proof -
  obtain dec act w2 where d: "decide_attempt cl e (protocol_observation (position cfg cl e w) pc) w = (dec, act, w2)"
    by (metis prod_cases3)
  define x where "x = decided_by dec act (attempt_event cl w2 msg cls cause origin (n + wk_lastEgressAttempt w2))"
  have f: "follow e dec act (Some ((invalid_answer flavor cl)\<lparr>wa_egressKind := kindHere e\<rparr>, invalid_answer flavor cl))
      (log_event x w2) = (t, w')"
    using assms unfolding unusable_turn_def Let_def d prod.case x_def by simp
  show ?thesis
    by (rule decided_turn [OF refl refl refl refl d _ _ _ _ _ f, where evs = "[x]"])
       (auto simp: x_def answer_of_new)
qed

lemma answer_turn:
  assumes "walk_core w' = walk_core w" "wk_retained w' = wk_retained w" "wk_events w' = wk_events w"
    and "wk_answer w' = Some a" "answer_of cl a"
  shows "turn_ok cl TurnBreakWalk w w'"
  using assms by (simp add: turn_ok_def turn_ends_def)

lemma buffered_turn_ok:
  assumes "buffered_turn cfg e cl n r w = (t, w')"
  shows "turn_ok cl t w w'"
proof (cases "ae_read e")
  case BodyRefused
  with assms show ?thesis
    by (intro quiet_turn [where evs = "[brief_event cl w ''buffer_capacity_exceeded'' ''capacity_exceeded'' ''envelope'']"])
       (auto simp: buffered_turn_def answered_def)
next
  case (BodyFailed err)
  show ?thesis
  proof (cases "ae_gone e \<or> clientSide err")
    case True
    with assms BodyFailed show ?thesis by (intro quiet_turn [where evs = "[]"]) (auto simp: buffered_turn_def)
  next
    case False
    with assms BodyFailed show ?thesis
      by (cases "carries is_ExchangeTimeout err") (auto simp: buffered_turn_def intro: unusable_turn_ok)
  qed
next
  case (BodyDone body)
  define b where "b = take (nat (maxBufferedResponseBytes + 1)) body"
  note run = assms [unfolded buffered_turn_def BodyDone BodyRead.case Let_def b_def [symmetric]]
  consider "int (length b) > maxBufferedResponseBytes" | "\<not> int (length b) > maxBufferedResponseBytes" "\<not> json_valid b"
    | "\<not> int (length b) > maxBufferedResponseBytes" "json_valid b" by blast
  then show ?thesis
  proof cases
    case 3
    define a where "a = (newAnswer answerBuffered (cl_cand cl) (cl_index cl) (cl_credKey cl))
        \<lparr>wa_body := b, wa_header := rs_header r, wa_status := rs_status r\<rparr>"
    from run 3 have "t = TurnBreakWalk" "w' = w\<lparr>wk_answer := Some a\<rparr>" unfolding a_def by simp_all
    moreover have "answer_of cl a" by (simp add: a_def answer_of_def newAnswer_def)
    ultimately show ?thesis using answer_turn [of w' w a cl] by simp
  qed (use run in \<open>auto intro: unusable_turn_ok\<close>)
qed

lemma commit_live_ok: "commit_live kind cl r w = (t, w') \<Longrightarrow> turn_ok cl t w w'"
  by (auto simp: commit_live_def answer_of_def newAnswer_def intro!: answer_turn)

lemma read_result_ok: "read_result cfg e cl n d w = (t, w') \<Longrightarrow> turn_ok cl t w w'"
  by (auto simp: read_result_def answered_turn_def split: DialResult.splits if_splits
      intro: failed_turn_ok error_turn_ok commit_live_ok buffered_turn_ok quiet_turn [where evs = "[]"])

section \<open>What an attempt changes\<close>

text \<open>The place of the walk, with the pools as far as their specs go.\<close>

definition walk_place where
  "walk_place w =
     (wk_lastCandIndex w, wk_finalProvider w, wk_lastCand w, wk_lastPolicyHash w,
      rg_pools (wk_registry w), map cp_spec (rg_store (wk_registry w)))"

definition budget_moves :: "Budget \<Rightarrow> Budget \<Rightarrow> bool" where
  "budget_moves b b' \<longleftrightarrow> (budget_inv b \<longrightarrow> budget_inv b') \<and> b_req b' = b_req b"

definition engine_moves :: "Engine \<Rightarrow> Engine \<Rightarrow> bool" where
  "engine_moves e e' \<longleftrightarrow> (\<exists>b. e' = e\<lparr>e_budget := b\<rparr> \<and> budget_moves (e_budget e) b)"

text \<open>The candidate's pool is registered under the candidate's own identity, and the last key is the loop's.\<close>

definition own_pool :: "WalkCfg \<Rightarrow> Candidate \<Rightarrow> nat \<Rightarrow> Walk \<Rightarrow> bool" where
  "own_pool cfg cand loc w \<longleftrightarrow>
     (\<exists>p q. cn_Cred cand = Some p \<and> PoolKey (wc_sha cfg) q = PoolKey (wc_sha cfg) p
        \<and> loc < length (rg_store (wk_registry w)) \<and> cp_spec (rg_store (wk_registry w) ! loc) = pv_Spec q)"

definition cand_inv :: "WalkCfg \<Rightarrow> CandState \<Rightarrow> Walk \<Rightarrow> bool" where
  "cand_inv cfg cl w \<longleftrightarrow> wk_lastCredentialID w = cl_credKey cl
     \<and> (case cl_pool cl of None \<Rightarrow> cl_credKey cl = [] | Some loc \<Rightarrow> own_pool cfg (cl_cand cl) loc w)"

text \<open>A request that carries its candidate's own credential and nothing of anybody else's.\<close>

definition asked_by :: "WalkCfg \<Rightarrow> Candidate \<Rightarrow> int \<Rightarrow> Asked \<Rightarrow> bool" where
  "asked_by cfg cand i a \<longleftrightarrow>
     ak_cand a = i \<and> ak_url a = upstream_url cfg cand \<and> wc_transform cfg cand (wc_body cfg) = Inr (ak_body a)
     \<and> (ak_header a = outbound_headers (wc_client cfg) (wc_requestID cfg) None \<and> ak_credKey a = []
        \<or> (\<exists>p q k. cn_Cred cand = Some p \<and> PoolKey (wc_sha cfg) q = PoolKey (wc_sha cfg) p
             \<and> k \<in> set (cs_Keys (pv_Spec q)) \<and> ak_credKey a = k_ID k
             \<and> ak_header a = outbound_headers (wc_client cfg) (wc_requestID cfg) (Some (pv_Spec p, k))))"

lemma core_place: "walk_core w' = walk_core w \<Longrightarrow> walk_place w' = walk_place w \<and> wk_engine w' = wk_engine w
    \<and> wk_asked w' = wk_asked w \<and> wk_providerAttempts w' = wk_providerAttempts w \<and> wk_retriesTotal w' = wk_retriesTotal w
    \<and> wk_lastCredentialID w' = wk_lastCredentialID w"
  by (simp add: walk_core_def walk_place_def)

lemma own_pool_place: "walk_place w' = walk_place w \<Longrightarrow> own_pool cfg cand loc w' = own_pool cfg cand loc w"
proof -
  assume "walk_place w' = walk_place w"
  then have m: "map cp_spec (rg_store (wk_registry w')) = map cp_spec (rg_store (wk_registry w))" by (simp add: walk_place_def)
  then have "length (rg_store (wk_registry w')) = length (rg_store (wk_registry w))" using map_eq_imp_length_eq by blast
  moreover have "loc < length (rg_store (wk_registry w)) \<Longrightarrow> cp_spec (rg_store (wk_registry w') ! loc) = cp_spec (rg_store (wk_registry w) ! loc)"
    using m calculation by (metis nth_map)
  ultimately show ?thesis by (simp add: own_pool_def cong: conj_cong)
qed

lemma budget_moves_refl: "budget_moves b b" by (simp add: budget_moves_def)

lemma budget_moves_acquire: "AcquireExchange b t = (b', g) \<Longrightarrow> budget_moves b b'"
  using AcquireExchange_inv by (auto simp: budget_moves_def AcquireExchange_def Let_def split: if_splits)

lemma budget_moves_claims: "budget_moves b (fold (\<lambda>t b. fst (AcquireExchange b t)) ts b)"
proof (induction ts arbitrary: b)
  case (Cons t ts)
  have "budget_moves b (fst (AcquireExchange b t))" using budget_moves_acquire by (metis prod.collapse)
  with Cons [of "fst (AcquireExchange b t)"] show ?case by (simp add: budget_moves_def)
qed (simp add: budget_moves_refl)

lemma engine_moves_refl: "engine_moves e e"
  by (auto simp: engine_moves_def budget_moves_refl intro: exI [of _ "e_budget e"])

lemma engine_moves_trans: "engine_moves a b \<Longrightarrow> engine_moves b c \<Longrightarrow> engine_moves a c"
  by (auto simp: engine_moves_def budget_moves_def)

lemma engine_moves_policy: "engine_moves e e' \<Longrightarrow> e_policy e' = e_policy e"
  by (auto simp: engine_moves_def)

text \<open>The exchange of an attempt, up to its result.\<close>

definition exchanged :: "WalkCfg \<Rightarrow> CandState \<Rightarrow> string \<Rightarrow> Key option \<Rightarrow> Walk \<Rightarrow> Walk \<Rightarrow> bool" where
  "exchanged cfg cl out k w w' \<longleftrightarrow>
     walk_place w' = walk_place w \<and> wk_providerAttempts w' = wk_providerAttempts w \<and> wk_retriesTotal w' = wk_retriesTotal w
     \<and> wk_lastCredentialID w' = wk_lastCredentialID w \<and> wk_answer w' = wk_answer w \<and> wk_retained w' = wk_retained w
     \<and> engine_moves (wk_engine w) (wk_engine w')
     \<and> (wk_asked w' = wk_asked w \<or> wk_asked w' = wk_asked (ask cfg cl out k w))
     \<and> (\<exists>evs. wk_events w' = wk_events w @ evs \<and> (\<forall>ev\<in>set evs. \<not> answered ev))"

lemma member_events:
  "\<exists>evs. fold (\<lambda>jf w. log_event (member_event cl w n jf) w) jfs w = w\<lparr>wk_events := wk_events w @ evs\<rparr>
     \<and> (\<forall>ev\<in>set evs. \<not> answered ev)"
proof (induction jfs arbitrary: w)
  case (Cons jf jfs)
  obtain evs where e: "fold (\<lambda>jf w. log_event (member_event cl w n jf) w) jfs (log_event (member_event cl w n jf) w)
      = (log_event (member_event cl w n jf) w)\<lparr>wk_events := wk_events (log_event (member_event cl w n jf) w) @ evs\<rparr>"
    "\<forall>ev\<in>set evs. \<not> answered ev" using Cons by blast
  have "\<not> answered (member_event cl w n jf)" by (cases jf) (simp add: member_event_def answered_def)
  with e show ?case by (intro exI [of _ "member_event cl w n jf # evs"]) (simp add: log_event_def)
qed (auto intro: exI [of _ "[]"])

lemma set_budget_simps [simp]:
  "wk_events (set_budget b w) = wk_events w" "wk_asked (set_budget b w) = wk_asked w"
  "wk_answer (set_budget b w) = wk_answer w" "wk_retained (set_budget b w) = wk_retained w"
  "walk_place (set_budget b w) = walk_place w" "wk_engine (set_budget b w) = (wk_engine w)\<lparr>e_budget := b\<rparr>"
  "wk_providerAttempts (set_budget b w) = wk_providerAttempts w" "wk_retriesTotal (set_budget b w) = wk_retriesTotal w"
  "wk_lastCredentialID (set_budget b w) = wk_lastCredentialID w"
  by (simp_all add: set_budget_def walk_place_def)

lemma ask_simps [simp]:
  "wk_events (ask cfg cl out k w) = wk_events w" "wk_answer (ask cfg cl out k w) = wk_answer w"
  "wk_retained (ask cfg cl out k w) = wk_retained w" "walk_place (ask cfg cl out k w) = walk_place w"
  "wk_engine (ask cfg cl out k w) = wk_engine w" "wk_providerAttempts (ask cfg cl out k w) = wk_providerAttempts w"
  "wk_retriesTotal (ask cfg cl out k w) = wk_retriesTotal w" "wk_lastCredentialID (ask cfg cl out k w) = wk_lastCredentialID w"
  by (simp_all add: ask_def walk_place_def)

lemma walk_place_updates [simp]:
  "walk_place (w\<lparr>wk_lastEgressAttempt := i\<rparr>) = walk_place w"
  "walk_place (w\<lparr>wk_lastEgressAttempt := i, wk_lastSendState := s\<rparr>) = walk_place w"
  "walk_place (w\<lparr>wk_egress := g, wk_lastEgressAttempt := i\<rparr>) = walk_place w"
  "walk_place (w\<lparr>wk_egress := g\<rparr>) = walk_place w"
  "walk_place (w\<lparr>wk_events := evs\<rparr>) = walk_place w" "walk_place (w\<lparr>wk_budgetStopped := c\<rparr>) = walk_place w"
  "walk_place (w\<lparr>wk_lastCredentialID := k\<rparr>) = walk_place w"
  "walk_place (w\<lparr>wk_providerAttempts := i, wk_retriesTotal := j, wk_lastAttemptBlocked := c, wk_meterEvent := d\<rparr>) = walk_place w"
  by (simp_all add: walk_place_def)

lemma engine_moves_budget: "budget_moves (e_budget e) b \<Longrightarrow> engine_moves e (e\<lparr>e_budget := b\<rparr>)"
  by (auto simp: engine_moves_def)

lemma ask_congr: "wk_asked w' = wk_asked w \<Longrightarrow> wk_asked (ask cfg cl out k w') = wk_asked (ask cfg cl out k w)"
  by (simp add: ask_def)

lemma ask_set_budget: "ask cfg cl out k (set_budget b w) = set_budget b (ask cfg cl out k w)"
  by (simp add: ask_def set_budget_def)

lemma direct_exchange_ok:
  assumes "direct_exchange cfg e cl out k w = r"
  shows "case r of Inl (t, w') \<Rightarrow> \<exists>v. exchanged cfg cl out k w v \<and> turn_ok cl t v w' \<and> wk_asked v = wk_asked w
                  | Inr (d, w') \<Rightarrow> exchanged cfg cl out k w w'"
proof -
  obtain b g where a: "AcquireExchange (budget_of w) (ae_claimNow e) = (b, g)" by fastforce
  note m = engine_moves_budget [OF budget_moves_acquire [OF a]]
  show ?thesis
  proof (cases "ex_Granted g")
    case False
    obtain t w' where s: "spent_turn e cl (set_budget b w) = (t, w')" by fastforce
    have "exchanged cfg cl out k w (set_budget b w)" using m by (simp add: exchanged_def)
    with spent_turn_ok [OF s] assms a False s show ?thesis by (force simp: direct_exchange_def)
  next
    case True
    have "exchanged cfg cl out k w ((ask cfg cl out k (set_budget b w))\<lparr>wk_lastEgressAttempt := 1\<rparr>)"
      using m by (simp add: exchanged_def ask_set_budget)
    with assms a True show ?thesis by (auto simp: direct_exchange_def)
  qed
qed

lemma pooled_exchange_ok:
  assumes "pooled_exchange cfg e cl out k w = r"
  shows "case r of Inl (t, w') \<Rightarrow> \<exists>v. exchanged cfg cl out k w v \<and> turn_ok cl t v w'
                  | Inr (d, w') \<Rightarrow> exchanged cfg cl out k w w'"
proof -
  define b where "b = fold (\<lambda>t b. fst (AcquireExchange b t)) (ae_claims e) (budget_of w)"
  define w1 where "w1 = (set_budget b (ask cfg cl out k w))\<lparr>wk_egress := Some (ae_info e), wk_lastEgressAttempt := ai_Attempts (ae_info e)\<rparr>"
  define w2 where "w2 = fold (\<lambda>jf w'. log_event (member_event cl w' (RequestExchanges (budget_of w)) jf) w') (enumerate 0 (ai_Failures (ae_info e))) w1"
  obtain evs where evs: "w2 = w1\<lparr>wk_events := wk_events w1 @ evs\<rparr>" "\<forall>ev\<in>set evs. \<not> answered ev"
    using member_events unfolding w2_def by blast
  have m: "engine_moves (wk_engine w) ((wk_engine w)\<lparr>e_budget := b\<rparr>)"
    unfolding b_def by (rule engine_moves_budget [OF budget_moves_claims])
  have x: "exchanged cfg cl out k w w2" unfolding exchanged_def evs(1) w1_def using m evs(2) by auto
  have r: "r = (if ai_BudgetExhausted (ae_info e)
         then (if Exhausted (budget_of w2) (ae_refusalNow e) = ExhaustionRequest
               then Inl (TurnBreakWalk, w2\<lparr>wk_budgetStopped := True\<rparr>)
               else (case ae_result e of DialFailed err \<Rightarrow> Inr (ae_result e, w2) | _ \<Rightarrow> Inl (spent_turn e cl w2)))
         else Inr (ae_result e, w2))"
    using assms [symmetric] unfolding pooled_exchange_def Let_def w2_def w1_def b_def ask_simps .
  have q: "turn_ok cl TurnBreakWalk w2 (w2\<lparr>wk_budgetStopped := True\<rparr>)" by (rule quiet_turn [where evs = "[]"]) simp_all
  obtain t w' where s: "spent_turn e cl w2 = (t, w')" by fastforce
  from r x q spent_turn_ok [OF s] s show ?thesis by (auto split: DialResult.splits)
qed

lemma exchanged_reset:
  "exchanged cfg cl out k (w\<lparr>wk_lastEgressAttempt := 0, wk_lastSendState := []\<rparr>) v = exchanged cfg cl out k w v"
  by (simp add: exchanged_def ask_def)

lemma exchange_ok:
  assumes "exchange cfg e cl out k w = r"
  shows "case r of Inl (t, w') \<Rightarrow> \<exists>v. exchanged cfg cl out k w v \<and> turn_ok cl t v w'
                  | Inr (d, w') \<Rightarrow> exchanged cfg cl out k w w'"
proof -
  define w1 where "w1 = w\<lparr>wk_lastEgressAttempt := 0, wk_lastSendState := []\<rparr>"
  show ?thesis
  proof (cases "ae_pooled e")
    case True
    then have "pooled_exchange cfg e cl out k w1 = r" using assms by (simp add: exchange_def w1_def)
    from pooled_exchange_ok [OF this] show ?thesis unfolding w1_def exchanged_reset .
  next
    case False
    then have "direct_exchange cfg e cl out k w1 = r" using assms by (simp add: exchange_def w1_def)
    from direct_exchange_ok [OF this] show ?thesis unfolding w1_def exchanged_reset
      by (auto split: sum.splits)
  qed
qed


text \<open>The whole attempt.\<close>

definition same_cand :: "CandState \<Rightarrow> CandState \<Rightarrow> bool" where
  "same_cand cl cl' \<longleftrightarrow> cl_cand cl' = cl_cand cl \<and> cl_index cl' = cl_index cl \<and> cl_hasNext cl' = cl_hasNext cl
     \<and> cl_pool cl' = cl_pool cl \<and> cl_start cl' = cl_start cl"

text \<open>What one turn adds to the counters: nothing before the request is built, one attempt after that.\<close>

definition counted :: "CandState \<Rightarrow> CandState \<Rightarrow> Walk \<Rightarrow> Walk \<Rightarrow> bool" where
  "counted cl cl' w w' \<longleftrightarrow> cl_attempt cl' = cl_attempt cl + 1 \<and> wk_providerAttempts w' = wk_providerAttempts w + 1
     \<and> wk_retriesTotal w' = wk_retriesTotal w + of_bool (cl_attempt cl > 0)"

definition asked_turn :: "WalkCfg \<Rightarrow> CandState \<Rightarrow> Turn \<Rightarrow> CandState \<Rightarrow> Walk \<Rightarrow> Walk \<Rightarrow> bool" where
  "asked_turn cfg cl t cl' w w' \<longleftrightarrow>
     same_cand cl cl' \<and> walk_place w' = walk_place w \<and> engine_moves (wk_engine w) (wk_engine w')
     \<and> (counted cl cl' w w' \<and> (\<exists>as. wk_asked w' = wk_asked w @ as \<and> length as \<le> 1 \<and> (\<forall>a\<in>set as. asked_by cfg (cl_cand cl) (cl_index cl) a))
        \<or> (\<exists>r. t = TurnReturn r) \<and> wk_asked w' = wk_asked w \<and> wk_providerAttempts w' = wk_providerAttempts w
          \<and> wk_retriesTotal w' = wk_retriesTotal w)
     \<and> (t = TurnContinue \<longrightarrow> cl_attempt cl' \<le> rp_MaxRetries (p_Retry (e_policy (wk_engine w))))
     \<and> cand_inv cfg cl' w' \<and> turn_ends cl' t w w'"

lemma run_ops_spec: "cp_spec (run_ops Acquire MarkRateLimited p ops) = cp_spec p"
proof (induction ops arbitrary: p)
  case (Cons op ops)
  then show ?case by (cases op) (simp_all add: Acquire_frame MarkRateLimited_spec)
qed simp

lemma Acquire_key: "Acquire p now pref = (p', Some k) \<Longrightarrow> k \<in> set (cs_Keys (cp_spec p))"
  using Acquire_SomeD(1) [of p now pref p' k]
  by (cases "cs_Keys (cp_spec p) = []") (simp_all add: Acquire_def preferred_key_def split: if_splits)

lemma acquire_key_ok:
  assumes "acquire_key e cl w = (r, w')" and "cand_inv cfg cl w"
  shows "\<exists>reg. w' = w\<lparr>wk_registry := reg\<rparr> \<and> walk_place w' = walk_place w"
    and "r = Some None \<Longrightarrow> cl_pool cl = None"
    and "r = Some (Some k) \<Longrightarrow> \<exists>p q. cn_Cred (cl_cand cl) = Some p \<and> PoolKey (wc_sha cfg) q = PoolKey (wc_sha cfg) p
           \<and> k \<in> set (cs_Keys (pv_Spec q))"
proof -
  have *: "(\<exists>reg. w' = w\<lparr>wk_registry := reg\<rparr> \<and> walk_place w' = walk_place w) \<and> (r = Some None \<longrightarrow> cl_pool cl = None)
    \<and> (r = Some (Some k) \<longrightarrow> (\<exists>p q. cn_Cred (cl_cand cl) = Some p \<and> PoolKey (wc_sha cfg) q = PoolKey (wc_sha cfg) p
           \<and> k \<in> set (cs_Keys (pv_Spec q))))" for k
  proof (cases "cl_pool cl")
    case None
    with assms(1) have "r = Some None" "w' = w" by (simp_all add: acquire_key_def)
    with None show ?thesis by (auto intro: exI [of _ "wk_registry w"])
  next
    case (Some loc)
    define p where "p = run_ops Acquire MarkRateLimited (rg_store (wk_registry w) ! loc) (ae_ops e)"
    obtain p' ko where a: "Acquire p (ae_keyNow e) (cl_credKey cl) = (p', ko)" by fastforce
    have spec: "cp_spec p' = cp_spec (rg_store (wk_registry w) ! loc)"
      using Acquire_frame [of p "ae_keyNow e" "cl_credKey cl"] a run_ops_spec by (simp add: p_def)
    define reg where "reg = (wk_registry w)\<lparr>rg_store := (rg_store (wk_registry w))[loc := p']\<rparr>"
    have w': "w' = w\<lparr>wk_registry := reg\<rparr>" and r: "r = (case ko of None \<Rightarrow> None | Some k \<Rightarrow> Some (Some k))"
      using assms(1) Some a unfolding acquire_key_def p_def [symmetric] reg_def by (auto simp: Let_def p_def split: option.splits)
    have "walk_place w' = walk_place w" using spec by (simp add: w' reg_def walk_place_def map_list_update_same)
    moreover have "\<exists>p q. cn_Cred (cl_cand cl) = Some p \<and> PoolKey (wc_sha cfg) q = PoolKey (wc_sha cfg) p \<and> k \<in> set (cs_Keys (pv_Spec q))"
      if "r = Some (Some k)"
    proof -
      have "ko = Some k" using that r by (simp split: option.splits)
      with Acquire_key [of p "ae_keyNow e" "cl_credKey cl"] a
      have "k \<in> set (cs_Keys (cp_spec (rg_store (wk_registry w) ! loc)))" by (simp add: p_def run_ops_spec)
      with assms(2) Some show ?thesis by (auto simp: cand_inv_def own_pool_def)
    qed
    moreover have "r \<noteq> Some None" using r by (simp split: option.splits)
    ultimately show ?thesis using w' by blast
  qed
  from * show "\<exists>reg. w' = w\<lparr>wk_registry := reg\<rparr> \<and> walk_place w' = walk_place w"
    "r = Some None \<Longrightarrow> cl_pool cl = None"
    "r = Some (Some k) \<Longrightarrow> \<exists>p q. cn_Cred (cl_cand cl) = Some p \<and> PoolKey (wc_sha cfg) q = PoolKey (wc_sha cfg) p
           \<and> k \<in> set (cs_Keys (pv_Spec q))" by blast+
qed

lemma turn_ends_before:
  assumes "turn_ends cl t v w'" "wk_answer v = wk_answer w" "wk_retained v = wk_retained w"
    "wk_events v = wk_events w @ evs" "\<forall>ev\<in>set evs. \<not> answered ev"
  shows "turn_ends cl t w w'"
proof -
  obtain es where e: "wk_events w' = wk_events v @ es" "\<forall>ev\<in>set es. answered ev \<and> av_disposition ev \<noteq> ''retry'' \<longrightarrow>
      t = TurnBreak \<and> wk_retained w' \<noteq> None \<or> t = TurnBreakWalk \<and> wk_answer w' \<noteq> None"
    using assms(1) by (auto simp: turn_ends_def)
  then have "wk_events w' = wk_events w @ (evs @ es)" "\<forall>ev\<in>set (evs @ es). answered ev \<and> av_disposition ev \<noteq> ''retry'' \<longrightarrow>
      t = TurnBreak \<and> wk_retained w' \<noteq> None \<or> t = TurnBreakWalk \<and> wk_answer w' \<noteq> None"
    using assms(4,5) by auto
  then have "\<exists>evs. wk_events w' = wk_events w @ evs \<and> (\<forall>ev\<in>set evs. answered ev \<and> av_disposition ev \<noteq> ''retry'' \<longrightarrow>
      t = TurnBreak \<and> wk_retained w' \<noteq> None \<or> t = TurnBreakWalk \<and> wk_answer w' \<noteq> None)" by blast
  moreover note assms(1) [unfolded turn_ends_def assms(2,3), THEN conjunct1]
  ultimately show ?thesis unfolding turn_ends_def by (rule conjI [rotated])
qed


lemma count_attempt_simps:
  assumes "count_attempt cl w = (cl', w')"
  shows "cl' = cl\<lparr>cl_attempt := cl_attempt cl + 1\<rparr>" "counted cl cl' w w'" "walk_place w' = walk_place w"
    "wk_engine w' = wk_engine w" "wk_asked w' = wk_asked w" "wk_answer w' = wk_answer w" "wk_retained w' = wk_retained w"
    "wk_events w' = wk_events w" "wk_lastCredentialID w' = wk_lastCredentialID w"
  using assms by (auto simp: count_attempt_def Let_def counted_def)

lemma turn_ok_parts:
  "turn_ok cl t v w' \<Longrightarrow> walk_place w' = walk_place v \<and> wk_engine w' = wk_engine v \<and> wk_asked w' = wk_asked v
     \<and> wk_providerAttempts w' = wk_providerAttempts v \<and> wk_retriesTotal w' = wk_retriesTotal v
     \<and> wk_lastCredentialID w' = wk_lastCredentialID v \<and> turn_ends cl t v w'
     \<and> (t = TurnContinue \<longrightarrow> cl_attempt cl \<le> rp_MaxRetries (p_Retry (e_policy (wk_engine v))))"
  unfolding turn_ok_def using core_place by blast

text \<open>The part of an attempt behind the credential: the exchange and the reading of its result.\<close>

lemma dialed_turn_ok:
  assumes "exchanged cfg cl out k w v" and "turn_ok cl t v w'" and "cand_inv cfg cl w"
    and "wc_transform cfg (cl_cand cl) (wc_body cfg) = Inr out"
    and "k = None \<Longrightarrow> cl_pool cl = None"
    and "\<And>x. k = Some x \<Longrightarrow> k_ID x = cl_credKey cl \<and> (\<exists>p q. cn_Cred (cl_cand cl) = Some p
           \<and> PoolKey (wc_sha cfg) q = PoolKey (wc_sha cfg) p \<and> x \<in> set (cs_Keys (pv_Spec q)))"
  shows "walk_place w' = walk_place w \<and> engine_moves (wk_engine w) (wk_engine w')
    \<and> wk_providerAttempts w' = wk_providerAttempts w \<and> wk_retriesTotal w' = wk_retriesTotal w
    \<and> (\<exists>as. wk_asked w' = wk_asked w @ as \<and> length as \<le> 1 \<and> (\<forall>a\<in>set as. asked_by cfg (cl_cand cl) (cl_index cl) a))
    \<and> (t = TurnContinue \<longrightarrow> cl_attempt cl \<le> rp_MaxRetries (p_Retry (e_policy (wk_engine w))))
    \<and> cand_inv cfg cl w' \<and> turn_ends cl t w w'"
proof -
  note t = turn_ok_parts [OF assms(2)]
  note x = assms(1) [unfolded exchanged_def]
  have pl: "walk_place w' = walk_place w" and en: "engine_moves (wk_engine w) (wk_engine w')" using t x by simp_all
  define a where "a = \<lparr>ak_cand = cl_index cl, ak_attempt = cl_attempt cl, ak_url = upstream_url cfg (cl_cand cl),
          ak_header = outbound_headers (wc_client cfg) (wc_requestID cfg)
            (case (cn_Cred (cl_cand cl), k) of (Some p, Some k) \<Rightarrow> Some (pv_Spec p, k) | _ \<Rightarrow> None),
          ak_body = out, ak_credKey = cl_credKey cl\<rparr>"
  have "asked_by cfg (cl_cand cl) (cl_index cl) a"
  proof (cases k)
    case None
    with assms(3,5) have "cl_credKey cl = []" by (simp add: cand_inv_def)
    with None assms(4) show ?thesis by (auto simp: asked_by_def a_def split: option.split)
  next
    case (Some x)
    with assms(4,6) show ?thesis by (fastforce simp: asked_by_def a_def)
  qed
  moreover have "wk_asked w' = wk_asked w \<or> wk_asked w' = wk_asked w @ [a]" using t x by (auto simp: ask_def a_def)
  ultimately have asked: "\<exists>as. wk_asked w' = wk_asked w @ as \<and> length as \<le> 1 \<and> (\<forall>a\<in>set as. asked_by cfg (cl_cand cl) (cl_index cl) a)"
    by force
  have inv: "cand_inv cfg cl w'"
    using assms(3) t x own_pool_place [OF pl] by (cases "cl_pool cl") (simp_all add: cand_inv_def)
  obtain evs where "wk_events v = wk_events w @ evs" "\<forall>ev\<in>set evs. \<not> answered ev" using x by blast
  with t x have "turn_ends cl t w w'" by (intro turn_ends_before [where v = v and w = w]) simp_all
  moreover have "e_policy (wk_engine v) = e_policy (wk_engine w)" using x engine_moves_policy by blast
  ultimately show ?thesis using pl en asked inv t x by simp
qed


lemma attempt_turn_ok:
  assumes "attempt_turn cfg e cl w = (t, cl', w')" and "cand_inv cfg cl w"
  shows "asked_turn cfg cl t cl' w w'"
proof (cases "wc_transform cfg (cl_cand cl) (wc_body cfg)")
  case (Inl err)
  with assms show ?thesis
    by (auto simp: attempt_turn_def asked_turn_def same_cand_def turn_ends_def engine_moves_refl)
next
  case (Inr out)
  show ?thesis
  proof (cases "ae_reqErr e")
    case True
    with assms Inr show ?thesis
      by (auto simp: attempt_turn_def asked_turn_def same_cand_def turn_ends_def engine_moves_refl answered_def upUnreach_reject_def
          cand_inv_def walk_place_def log_event_def own_pool_def zeroEvent_def split: option.splits)
  next
    case False
    obtain c1 w1 where c: "count_attempt cl w = (c1, w1)" by fastforce
    note f1 = count_attempt_simps [OF c]
    have inv1: "cand_inv cfg c1 w1" using assms(2) own_pool_place [OF f1(3)] f1 by (cases "cl_pool cl") (simp_all add: cand_inv_def)
    obtain r w2 where k: "acquire_key e c1 w1 = (r, w2)" by fastforce
    note f2 = acquire_key_ok [OF k inv1]
    obtain reg where w2: "w2 = w1\<lparr>wk_registry := reg\<rparr>" and pl2: "walk_place w2 = walk_place w1" using f2(1) by blast
    have inv2: "cand_inv cfg c1 w2" using inv1 own_pool_place [OF pl2] w2 by (cases "cl_pool c1") (simp_all add: cand_inv_def)
    have cnt: "counted cl c1 w w2" "wk_asked w2 = wk_asked w" "wk_engine w2 = wk_engine w" "walk_place w2 = walk_place w"
      "wk_answer w2 = wk_answer w" "wk_retained w2 = wk_retained w" "wk_events w2 = wk_events w"
      using f1 w2 pl2 by (simp_all add: counted_def)
    show ?thesis
    proof (cases r)
      case None
      obtain u where b: "blocked_turn cfg e c1 w2 = (u, w')" and t: "t = u" "cl' = c1"
        using assms(1) Inr False c k None by (auto simp: attempt_turn_def split: prod.splits)
      note p = turn_ok_parts [OF blocked_turn_ok [OF b]]
      have "cand_inv cfg c1 w'" using inv2 p own_pool_place [of w' w2] by (cases "cl_pool c1") (simp_all add: cand_inv_def)
      moreover have "turn_ends c1 u w w'" using p cnt by (intro turn_ends_before [where v = w2 and w = w and evs = "[]"]) simp_all
      moreover have "same_cand cl c1" using f1(1) by (simp add: same_cand_def)
      ultimately show ?thesis using p cnt t by (simp add: asked_turn_def counted_def engine_moves_refl)
    next
      case (Some ko)
      define c2 where "c2 = (case ko of None \<Rightarrow> c1 | Some x \<Rightarrow> c1\<lparr>cl_credKey := k_ID x\<rparr>)"
      define w3 where "w3 = (case ko of None \<Rightarrow> w2 | Some x \<Rightarrow> w2\<lparr>wk_lastCredentialID := k_ID x\<rparr>)"
      have c2: "same_cand cl c2" "cl_attempt c2 = cl_attempt cl + 1" "cl_cand c2 = cl_cand cl" "cl_index c2 = cl_index cl" "cl_pool c2 = cl_pool c1"
        using f1(1) by (simp_all add: c2_def same_cand_def split: option.split)
      have w3: "walk_place w3 = walk_place w2" "wk_asked w3 = wk_asked w2" "wk_engine w3 = wk_engine w2" "wk_answer w3 = wk_answer w2"
        "wk_retained w3 = wk_retained w2" "wk_events w3 = wk_events w2" "wk_providerAttempts w3 = wk_providerAttempts w2"
        "wk_retriesTotal w3 = wk_retriesTotal w2"
        by (simp_all add: w3_def split: option.split)
      have inv3: "cand_inv cfg c2 w3"
      proof (cases ko)
        case None
        with inv2 show ?thesis by (simp add: c2_def w3_def)
      next
        case (Some x)
        with f2(3) \<open>r = Some ko\<close> obtain loc where "cl_pool c1 = Some loc"
          using k by (auto simp: acquire_key_def split: option.splits)
        with inv2 Some own_pool_place [OF w3(1)] show ?thesis by (simp add: cand_inv_def c2_def w3_def)
      qed
      have key: "ko = None \<Longrightarrow> cl_pool c2 = None"
        "\<And>x. ko = Some x \<Longrightarrow> k_ID x = cl_credKey c2 \<and> (\<exists>p q. cn_Cred (cl_cand c2) = Some p
           \<and> PoolKey (wc_sha cfg) q = PoolKey (wc_sha cfg) p \<and> x \<in> set (cs_Keys (pv_Spec q)))"
        using f2(2,3) Some f1(1) c2 by (simp_all add: c2_def)
      have tr: "wc_transform cfg (cl_cand c2) (wc_body cfg) = Inr out" using Inr c2 by simp
      have run: "(case exchange cfg e c2 out ko w3 of Inl (t, w) \<Rightarrow> (t, c2, w)
          | Inr (d, w) \<Rightarrow> (case read_result cfg e c2 (RequestExchanges (budget_of w3)) d w of (t, w) \<Rightarrow> (t, c2, w))) = (t, cl', w')"
        using assms(1) Inr False c k Some unfolding attempt_turn_def c2_def w3_def by (simp add: Let_def)
      have "\<exists>v. exchanged cfg c2 out ko w3 v \<and> turn_ok c2 t v w' \<and> cl' = c2"
      proof (cases "exchange cfg e c2 out ko w3")
        case (Inl tw)
        with run exchange_ok [OF Inl] show ?thesis by (cases tw) auto
      next
        case (Inr dw)
        obtain d v where dw: "dw = (d, v)" by fastforce
        obtain u x where rr: "read_result cfg e c2 (RequestExchanges (budget_of w3)) d v = (u, x)" by fastforce
        with run Inr dw have "t = u" "cl' = c2" "w' = x" by simp_all
        with exchange_ok [OF Inr] dw read_result_ok [OF rr] show ?thesis by auto
      qed
      then obtain v where v: "exchanged cfg c2 out ko w3 v" "turn_ok c2 t v w'" "cl' = c2" by blast
      note d = dialed_turn_ok [OF v(1,2) inv3 tr key]
      have "turn_ends c2 t w w'" using d cnt w3 by (intro turn_ends_before [where v = w3 and w = w and evs = "[]"]) simp_all
      then show ?thesis using d v(3) cnt w3 c2 by (simp add: asked_turn_def counted_def)
    qed
  qed
qed

section \<open>The attempts on one candidate\<close>

text \<open>
  What the loop over one candidate's attempts adds up to: attempts and retries within the policy, its
  own requests, and an end that leaves an answer of this candidate or none.
\<close>

definition loop_ok :: "WalkCfg \<Rightarrow> CandState \<Rightarrow> int \<Rightarrow> Turn \<Rightarrow> Walk \<Rightarrow> Walk \<Rightarrow> bool" where
  "loop_ok cfg cl R t w w' \<longleftrightarrow>
     t \<noteq> TurnContinue \<and> walk_place w' = walk_place w \<and> engine_moves (wk_engine w) (wk_engine w')
     \<and> wk_providerAttempts w \<le> wk_providerAttempts w' \<and> wk_providerAttempts w' \<le> wk_providerAttempts w + (R + 1 - cl_attempt cl)
     \<and> wk_retriesTotal w' - wk_retriesTotal w = wk_providerAttempts w' - wk_providerAttempts w
         - of_bool (cl_attempt cl = 0 \<and> wk_providerAttempts w < wk_providerAttempts w')
     \<and> (\<exists>as. wk_asked w' = wk_asked w @ as \<and> int (length as) \<le> wk_providerAttempts w' - wk_providerAttempts w
          \<and> (\<forall>a\<in>set as. asked_by cfg (cl_cand cl) (cl_index cl) a))
     \<and> (case t of
          TurnBreak \<Rightarrow> wk_answer w' = None \<and> (wk_retained w' = wk_retained w \<or>
            (\<exists>a. wk_retained w' = Some a \<and> wa_cand a = cl_cand cl \<and> wa_candIndex a = cl_index cl))
        | TurnBreakWalk \<Rightarrow> wk_retained w' = wk_retained w \<and> (\<forall>a. wk_answer w' = Some a \<longrightarrow>
            wa_cand a = cl_cand cl \<and> wa_candIndex a = cl_index cl \<and> wa_credKey a = wk_lastCredentialID w')
        | _ \<Rightarrow> wk_answer w' = None \<and> wk_retained w' = wk_retained w)
     \<and> (\<exists>evs. wk_events w' = wk_events w @ evs
          \<and> (\<forall>ev\<in>set evs. answered ev \<and> av_disposition ev \<noteq> ''retry'' \<longrightarrow>
               t = TurnBreak \<and> wk_retained w' \<noteq> None \<or> t = TurnBreakWalk \<and> wk_answer w' \<noteq> None))"

lemma asked_turn_end:
  assumes "asked_turn cfg cl t cl' w w'" and "t \<noteq> TurnContinue" and "wk_answer w = None"
    and "0 \<le> cl_attempt cl" and "cl_attempt cl \<le> R"
  shows "loop_ok cfg cl R t w w'"
proof -
  note a = assms(1) [unfolded asked_turn_def]
  have cnt: "wk_providerAttempts w \<le> wk_providerAttempts w' \<and> wk_providerAttempts w' \<le> wk_providerAttempts w + (R + 1 - cl_attempt cl)
     \<and> wk_retriesTotal w' - wk_retriesTotal w = wk_providerAttempts w' - wk_providerAttempts w
         - of_bool (cl_attempt cl = 0 \<and> wk_providerAttempts w < wk_providerAttempts w')
     \<and> (\<exists>as. wk_asked w' = wk_asked w @ as \<and> int (length as) \<le> wk_providerAttempts w' - wk_providerAttempts w
          \<and> (\<forall>a\<in>set as. asked_by cfg (cl_cand cl) (cl_index cl) a))"
  proof -
    from a consider "counted cl cl' w w'" "\<exists>as. wk_asked w' = wk_asked w @ as \<and> length as \<le> 1 \<and> (\<forall>a\<in>set as. asked_by cfg (cl_cand cl) (cl_index cl) a)"
      | "wk_asked w' = wk_asked w" "wk_providerAttempts w' = wk_providerAttempts w" "wk_retriesTotal w' = wk_retriesTotal w"
      by blast
    then show ?thesis
    proof cases
      case 1
      then obtain as where "wk_asked w' = wk_asked w @ as" "length as \<le> 1" "\<forall>a\<in>set as. asked_by cfg (cl_cand cl) (cl_index cl) a" by blast
      with 1(1) assms(4,5) show ?thesis by (auto simp: counted_def intro!: exI [of _ as])
    next
      case 2
      with assms(5) show ?thesis by simp
    qed
  qed
  have ends: "turn_ends cl' t w w'" and c: "same_cand cl cl'" and i: "cand_inv cfg cl' w'" using a by simp_all
  have "case t of
          TurnBreak \<Rightarrow> wk_answer w' = None \<and> (wk_retained w' = wk_retained w \<or>
            (\<exists>a. wk_retained w' = Some a \<and> wa_cand a = cl_cand cl \<and> wa_candIndex a = cl_index cl))
        | TurnBreakWalk \<Rightarrow> wk_retained w' = wk_retained w \<and> (\<forall>a. wk_answer w' = Some a \<longrightarrow>
            wa_cand a = cl_cand cl \<and> wa_candIndex a = cl_index cl \<and> wa_credKey a = wk_lastCredentialID w')
        | _ \<Rightarrow> wk_answer w' = None \<and> wk_retained w' = wk_retained w"
    using ends [unfolded turn_ends_def, THEN conjunct1] c i assms(3)
    by (cases t) (auto simp: same_cand_def answer_of_def cand_inv_def)
  moreover note ends [unfolded turn_ends_def, THEN conjunct2]
  ultimately show ?thesis using a assms(2) cnt unfolding loop_ok_def by blast
qed

lemma loop_ok_continue:
  assumes "asked_turn cfg cl TurnContinue cl' w w1" and "loop_ok cfg cl' R t w1 w'" and "0 \<le> cl_attempt cl"
  shows "loop_ok cfg cl R t w w'"
proof -
  note a = assms(1) [unfolded asked_turn_def] and b = assms(2) [unfolded loop_ok_def]
  have c: "counted cl cl' w w1" and s: "same_cand cl cl'" and e: "turn_ends cl' TurnContinue w w1" using a by simp_all
  obtain as1 as2 where as: "wk_asked w1 = wk_asked w @ as1" "length as1 \<le> 1" "\<forall>a\<in>set as1. asked_by cfg (cl_cand cl) (cl_index cl) a"
    "wk_asked w' = wk_asked w1 @ as2" "int (length as2) \<le> wk_providerAttempts w' - wk_providerAttempts w1"
    "\<forall>a\<in>set as2. asked_by cfg (cl_cand cl') (cl_index cl') a"
    using a b by blast
  obtain ev1 where ev1: "wk_events w1 = wk_events w @ ev1" "\<forall>ev\<in>set ev1. answered ev \<longrightarrow> av_disposition ev = ''retry''"
    using e by (auto simp: turn_ends_def)
  obtain ev2 where ev2: "wk_events w' = wk_events w1 @ ev2" "\<forall>ev\<in>set ev2. answered ev \<and> av_disposition ev \<noteq> ''retry'' \<longrightarrow>
               t = TurnBreak \<and> wk_retained w' \<noteq> None \<or> t = TurnBreakWalk \<and> wk_answer w' \<noteq> None"
    using b by blast
  have asked: "\<exists>as. wk_asked w' = wk_asked w @ as \<and> int (length as) \<le> wk_providerAttempts w' - wk_providerAttempts w
          \<and> (\<forall>a\<in>set as. asked_by cfg (cl_cand cl) (cl_index cl) a)"
    using as c s by (intro exI [of _ "as1 @ as2"]) (auto simp: counted_def same_cand_def)
  have events: "\<exists>evs. wk_events w' = wk_events w @ evs
          \<and> (\<forall>ev\<in>set evs. answered ev \<and> av_disposition ev \<noteq> ''retry'' \<longrightarrow>
               t = TurnBreak \<and> wk_retained w' \<noteq> None \<or> t = TurnBreakWalk \<and> wk_answer w' \<noteq> None)"
    using ev1 ev2 by (intro exI [of _ "ev1 @ ev2"]) auto
  have ra: "wk_retained w1 = wk_retained w" using e by (simp add: turn_ends_def)
  have pl: "walk_place w' = walk_place w" "engine_moves (wk_engine w) (wk_engine w')" using a b engine_moves_trans by (simp, blast)
  have cnt: "wk_providerAttempts w \<le> wk_providerAttempts w' \<and> wk_providerAttempts w' \<le> wk_providerAttempts w + (R + 1 - cl_attempt cl)
     \<and> wk_retriesTotal w' - wk_retriesTotal w = wk_providerAttempts w' - wk_providerAttempts w
         - of_bool (cl_attempt cl = 0 \<and> wk_providerAttempts w < wk_providerAttempts w')"
    using b c assms(3) by (auto simp: counted_def)
  have "case t of
          TurnBreak \<Rightarrow> wk_answer w' = None \<and> (wk_retained w' = wk_retained w1 \<or>
            (\<exists>a. wk_retained w' = Some a \<and> wa_cand a = cl_cand cl' \<and> wa_candIndex a = cl_index cl'))
        | TurnBreakWalk \<Rightarrow> wk_retained w' = wk_retained w1 \<and> (\<forall>a. wk_answer w' = Some a \<longrightarrow>
            wa_cand a = cl_cand cl' \<and> wa_candIndex a = cl_index cl' \<and> wa_credKey a = wk_lastCredentialID w')
        | _ \<Rightarrow> wk_answer w' = None \<and> wk_retained w' = wk_retained w1" and t: "t \<noteq> TurnContinue"
    using b by blast+
  moreover have "cl_cand cl' = cl_cand cl" "cl_index cl' = cl_index cl" using s by (simp_all add: same_cand_def)
  ultimately have mid: "case t of
          TurnBreak \<Rightarrow> wk_answer w' = None \<and> (wk_retained w' = wk_retained w \<or>
            (\<exists>a. wk_retained w' = Some a \<and> wa_cand a = cl_cand cl \<and> wa_candIndex a = cl_index cl))
        | TurnBreakWalk \<Rightarrow> wk_retained w' = wk_retained w \<and> (\<forall>a. wk_answer w' = Some a \<longrightarrow>
            wa_cand a = cl_cand cl \<and> wa_candIndex a = cl_index cl \<and> wa_credKey a = wk_lastCredentialID w')
        | _ \<Rightarrow> wk_answer w' = None \<and> wk_retained w' = wk_retained w" unfolding ra by (cases t) simp_all
  show ?thesis unfolding loop_ok_def using t pl cnt asked mid events by blast
qed

lemma attempts_loop_ok:
  assumes "attempts_loop cfg cl es w = Some (t, w', es')" and "cand_inv cfg cl w" and "wk_answer w = None"
    and "0 \<le> cl_attempt cl" and "cl_attempt cl \<le> rp_MaxRetries (p_Retry (e_policy (wk_engine w)))"
  shows "loop_ok cfg cl (rp_MaxRetries (p_Retry (e_policy (wk_engine w)))) t w w'
    \<and> int (length es) \<le> int (length es') + (rp_MaxRetries (p_Retry (e_policy (wk_engine w))) + 1 - cl_attempt cl)"
  using assms
proof (induction es arbitrary: cl w)
  case (Cons e es)
  obtain t1 c1 w1 where r: "attempt_turn cfg e cl w = (t1, c1, w1)" by (metis prod_cases3)
  note ok = attempt_turn_ok [OF r Cons.prems(2)]
  show ?case
  proof (cases "t1 = TurnContinue")
    case True
    with Cons.prems(1) r have run: "attempts_loop cfg c1 es w1 = Some (t, w', es')" by simp
    have f: "cand_inv cfg c1 w1" "wk_answer w1 = None" "cl_attempt c1 = cl_attempt cl + 1"
      "cl_attempt c1 \<le> rp_MaxRetries (p_Retry (e_policy (wk_engine w)))" "e_policy (wk_engine w1) = e_policy (wk_engine w)"
      using ok True Cons.prems(3) engine_moves_policy by (auto simp: asked_turn_def counted_def turn_ends_def)
    from Cons.IH [OF run f(1,2)] f Cons.prems(4)
    have ih: "loop_ok cfg c1 (rp_MaxRetries (p_Retry (e_policy (wk_engine w)))) t w1 w'"
      "int (length es) \<le> int (length es') + (rp_MaxRetries (p_Retry (e_policy (wk_engine w))) + 1 - cl_attempt c1)"
      by simp_all
    with loop_ok_continue [OF ok [unfolded True] ih(1) Cons.prems(4)] f(3) show ?thesis by simp
  next
    case False
    with Cons.prems(1) r have "t = t1" "w' = w1" "es' = es" by (cases t1; simp)+
    with asked_turn_end [OF ok False Cons.prems(3,4,5)] Cons.prems(5) show ?thesis by simp
  qed
qed simp

lemma attempts_loop_returns:
  assumes "cand_inv cfg cl w" and "wk_answer w = None"
    and "0 \<le> cl_attempt cl" and "cl_attempt cl \<le> rp_MaxRetries (p_Retry (e_policy (wk_engine w)))"
    and "rp_MaxRetries (p_Retry (e_policy (wk_engine w))) + 1 - cl_attempt cl \<le> int (length es)"
  shows "attempts_loop cfg cl es w \<noteq> None"
  using assms
proof (induction es arbitrary: cl w)
  case (Cons e es)
  obtain t1 c1 w1 where r: "attempt_turn cfg e cl w = (t1, c1, w1)" by (metis prod_cases3)
  note ok = attempt_turn_ok [OF r Cons.prems(1)]
  show ?case
  proof (cases "t1 = TurnContinue")
    case True
    have "cand_inv cfg c1 w1" "wk_answer w1 = None" "cl_attempt c1 = cl_attempt cl + 1"
      "cl_attempt c1 \<le> rp_MaxRetries (p_Retry (e_policy (wk_engine w)))" "e_policy (wk_engine w1) = e_policy (wk_engine w)"
      using ok True Cons.prems(2) engine_moves_policy by (auto simp: asked_turn_def counted_def turn_ends_def)
    with Cons.IH [of c1 w1] Cons.prems(3,5) r True show ?thesis by simp
  next
    case False
    with r show ?thesis by (cases t1) simp_all
  qed
qed simp

end
