(* ===== verification/Walk_Chain.thy ===== *)
theory Walk_Chain
  imports Provider_Walk
begin

text \<open>
  The provider walk of \<open>serve\<close> as a whole: the invariant that holds from candidate to candidate along the
  chain, the walk's end, and the properties of a walk: it returns within its policies' bounds, each
  request goes out with its own candidate's credential, the completion record names the answer that
  the client gets, and a decided answer is not replaced by a synthesized 502.
\<close>

section \<open>The chain\<close>

text \<open>Every registered pool holds the keys of a provider with the identity it is registered under.\<close>

definition pools_ok :: "(string \<Rightarrow> string) \<Rightarrow> Registry \<Rightarrow> bool" where
  "pools_ok sha r \<longleftrightarrow> (\<forall>(key, loc)\<in>set (rg_pools r). loc < length (rg_store r)
     \<and> (\<exists>q. key = PoolKey sha q \<and> cp_spec (rg_store r ! loc) = pv_Spec q))"

text \<open>The completion facts are those of the answer the client gets.\<close>

definition walk_accounted :: "Walk \<Rightarrow> walkAnswer \<Rightarrow> bool" where
  "walk_accounted w a \<longleftrightarrow> wk_lastCand w = Some (wa_cand a) \<and> wk_lastCandIndex w = wa_candIndex a
     \<and> wk_lastPolicyHash w = cn_RecoveryHash (wa_cand a) \<and> wk_finalProvider w = cn_Label (wa_cand a)
     \<and> wk_lastCredentialID w = wa_credKey a"

definition in_chain :: "Candidate list \<Rightarrow> Candidate \<Rightarrow> int \<Rightarrow> bool" where
  "in_chain cs c i \<longleftrightarrow> 1 \<le> i \<and> i \<le> int (length cs) \<and> cs ! nat (i - 1) = c"

definition walk_ok :: "WalkCfg \<Rightarrow> Policy \<Rightarrow> Candidate list \<Rightarrow> int \<Rightarrow> Walk \<Rightarrow> bool" where
  "walk_ok cfg primary cs n w \<longleftrightarrow>
     pools_ok (wc_sha cfg) (wk_registry w)
     \<and> e_primary (wk_engine w) = primary \<and> budget_inv (budget_of w) \<and> b_req (budget_of w) = bp_Request (p_Budget primary)
     \<and> 0 \<le> e_entered (wk_engine w) \<and> e_entered (wk_engine w) \<le> n
     \<and> e_entered (wk_engine w) \<le> fp_MaxCandidates (p_Fallback primary)
     \<and> wk_providerAttempts w \<le> e_entered (wk_engine w) * (MaxRetriesCap + 1)
     \<and> 0 \<le> wk_retriesTotal w \<and> wk_retriesTotal w \<le> wk_providerAttempts w
     \<and> wk_providerAttempts w - wk_retriesTotal w \<le> e_entered (wk_engine w)
     \<and> int (length (wk_asked w)) \<le> wk_providerAttempts w
     \<and> (\<forall>a\<in>set (wk_asked w). \<exists>c i. in_chain cs c i \<and> asked_by cfg c i a)
     \<and> (\<forall>a. wk_retained w = Some a \<longrightarrow> in_chain cs (wa_cand a) (wa_candIndex a))
     \<and> (\<forall>a. wk_answer w = Some a \<longrightarrow> in_chain cs (wa_cand a) (wa_candIndex a) \<and> walk_accounted w a)
     \<and> (wk_retained w = None \<and> wk_answer w = None \<longrightarrow>
          (\<forall>ev\<in>set (wk_events w). answered ev \<longrightarrow> av_disposition ev = ''retry''))"

lemma pools_ok_place: "walk_place w' = walk_place w \<Longrightarrow> pools_ok sha (wk_registry w') = pools_ok sha (wk_registry w)"
proof -
  assume "walk_place w' = walk_place w"
  then have m: "map cp_spec (rg_store (wk_registry w')) = map cp_spec (rg_store (wk_registry w))"
    and p: "rg_pools (wk_registry w') = rg_pools (wk_registry w)" by (simp_all add: walk_place_def)
  have l: "length (rg_store (wk_registry w')) = length (rg_store (wk_registry w))" using m map_eq_imp_length_eq by blast
  have "cp_spec (rg_store (wk_registry w') ! loc) = cp_spec (rg_store (wk_registry w) ! loc)"
    if "loc < length (rg_store (wk_registry w))" for loc
    using m l that by (metis nth_map)
  with p l show ?thesis by (simp add: pools_ok_def case_prod_unfold cong: conj_cong)
qed

lemma update_fresh: "map_of xs k = None \<Longrightarrow> AList.update k v xs = xs @ [(k, v)]"
  by (induction xs) (auto split: if_splits)

lemma Registry_Pool_ok:
  assumes "Registry_Pool sha r p = Inr (r', loc)" and "pools_ok sha r"
  shows "pools_ok sha r'" and "\<exists>q. PoolKey sha q = PoolKey sha p \<and> loc < length (rg_store r') \<and> cp_spec (rg_store r' ! loc) = pv_Spec q"
proof -
  have "pools_ok sha r' \<and> (\<exists>q. PoolKey sha q = PoolKey sha p \<and> loc < length (rg_store r') \<and> cp_spec (rg_store r' ! loc) = pv_Spec q)"
  proof (cases "map_of (rg_pools r) (PoolKey sha p)")
    case (Some l)
    then have "r' = r" "loc = l" using assms(1) by (simp_all add: Registry_Pool_def)
    with assms(2) map_of_SomeD [OF Some] show ?thesis by (fastforce simp: pools_ok_def)
  next
    case None
    then have run: "(case NewPool (pv_Spec p) of Inl e \<Rightarrow> Inl e
        | Inr pool \<Rightarrow> Inr (\<lparr>rg_pools = AList.update (PoolKey sha p) (length (rg_store r)) (rg_pools r),
             rg_store = rg_store r @ [pool]\<rparr>, length (rg_store r))) = Inr (r', loc)"
      using assms(1) by (simp add: Registry_Pool_def)
    then obtain pool where new: "NewPool (pv_Spec p) = Inr pool" by (cases "NewPool (pv_Spec p)") simp_all
    have pool: "NewPool (pv_Spec p) = Inr pool"
      "r' = \<lparr>rg_pools = AList.update (PoolKey sha p) (length (rg_store r)) (rg_pools r), rg_store = rg_store r @ [pool]\<rparr>"
      "loc = length (rg_store r)"
      using run [unfolded new sum.case Inr_inject prod.inject] new by auto
    have spec: "cp_spec pool = pv_Spec p" using pool(1) by (cases "cs_Keys (pv_Spec p) = []"; simp add: NewPool_def) auto
    have pools: "rg_pools r' = rg_pools r @ [(PoolKey sha p, length (rg_store r))]"
      using pool(2) update_fresh [OF None] by simp
    have each: "l < length (rg_store r') \<and> (\<exists>q. key = PoolKey sha q \<and> cp_spec (rg_store r' ! l) = pv_Spec q)"
      if "(key, l) \<in> set (rg_pools r')" for key l
    proof -
      from that have "(key, l) \<in> set (rg_pools r) \<or> key = PoolKey sha p \<and> l = length (rg_store r)" by (auto simp: pools)
      then show ?thesis
      proof
        assume "(key, l) \<in> set (rg_pools r)"
        with assms(2) have "l < length (rg_store r)" "\<exists>q. key = PoolKey sha q \<and> cp_spec (rg_store r ! l) = pv_Spec q"
          unfolding pools_ok_def by blast+
        with pool(2) show ?thesis by (simp add: nth_append)
      next
        assume "key = PoolKey sha p \<and> l = length (rg_store r)"
        with pool(2) spec show ?thesis by auto
      qed
    qed
    then have "pools_ok sha r'" unfolding pools_ok_def by blast
    with pool spec show ?thesis by (intro conjI exI [of _ p]) simp_all
  qed
  then show "pools_ok sha r'" "\<exists>q. PoolKey sha q = PoolKey sha p \<and> loc < length (rg_store r') \<and> cp_spec (rg_store r' ! loc) = pv_Spec q" by blast+
qed

lemma resolve_pool_ok:
  assumes "resolve_pool cfg cand w = Some (pool, w')" and "pools_ok (wc_sha cfg) (wk_registry w)"
  shows "\<exists>r. w' = w\<lparr>wk_registry := r\<rparr> \<and> pools_ok (wc_sha cfg) r" and "pool = Some loc \<Longrightarrow> own_pool cfg cand loc w'"
proof -
  have "(\<exists>r. w' = w\<lparr>wk_registry := r\<rparr> \<and> pools_ok (wc_sha cfg) r) \<and> (\<forall>loc. pool = Some loc \<longrightarrow> own_pool cfg cand loc w')"
  proof (cases "wc_creds cfg \<and> cn_Cred cand \<noteq> None")
    case False
    with assms(1) have "pool = None" "w' = w" by (cases "wc_creds cfg"; simp add: resolve_pool_def)+
    with assms(2) show ?thesis by (auto intro: exI [of _ "wk_registry w"])
  next
    case True
    then obtain p r loc where p: "cn_Cred cand = Some p" "Registry_Pool (wc_sha cfg) (wk_registry w) p = Inr (r, loc)"
      "pool = Some loc" "w' = w\<lparr>wk_registry := r\<rparr>"
      using assms(1) by (auto simp: resolve_pool_def split: sum.splits)
    with Registry_Pool_ok [OF p(2) assms(2)] show ?thesis by (auto simp: own_pool_def)
  qed
  then show "\<exists>r. w' = w\<lparr>wk_registry := r\<rparr> \<and> pools_ok (wc_sha cfg) r" "pool = Some loc \<Longrightarrow> own_pool cfg cand loc w'" by blast+
qed


lemma enter_simps [simp]:
  "wk_answer (enter cand i eng w) = wk_answer w" "wk_retained (enter cand i eng w) = wk_retained w"
  "wk_events (enter cand i eng w) = wk_events w" "wk_asked (enter cand i eng w) = wk_asked w"
  "wk_registry (enter cand i eng w) = wk_registry w" "wk_engine (enter cand i eng w) = eng"
  "wk_providerAttempts (enter cand i eng w) = wk_providerAttempts w" "wk_retriesTotal (enter cand i eng w) = wk_retriesTotal w"
  "wk_lastCredentialID (enter cand i eng w) = []" "wk_lastCand (enter cand i eng w) = Some cand"
  "wk_lastCandIndex (enter cand i eng w) = i" "wk_lastPolicyHash (enter cand i eng w) = cn_RecoveryHash cand"
  "wk_finalProvider (enter cand i eng w) = cn_Label cand"
  by (simp_all add: enter_def)

text \<open>Entering a candidate, and the attempts on it, keep the invariant.\<close>

lemma walk_ok_enter:
  assumes "walk_ok cfg primary cs (i - 1) w" and "wk_answer w = None"
    and "EnterCandidate (wk_engine w) p u u' = (True, eng)" and "Validate primary = Inr ()" and "Validate p = Inr ()"
  shows "walk_ok cfg primary cs i (enter cand i eng w)"
    and "e_entered eng = e_entered (wk_engine w) + 1" and "e_policy eng = p"
proof -
  note w = assms(1) [unfolded walk_ok_def]
  from assms(3) have eng: "canEnter (wk_engine w)"
    "eng = (wk_engine w)\<lparr>e_entered := wrap64 (e_entered (wk_engine w) + 1), e_policy := p, e_candAt := u,
       e_budget := BeginCandidate (budget_of w) (bp_Candidate (p_Budget p)) u'\<rparr>"
    unfolding EnterCandidate_iff by blast+
  have b: "1 \<le> fp_MaxCandidates (p_Fallback primary)" "fp_MaxCandidates (p_Fallback primary) \<le> MaxCandidatesCap"
    using Validate_fallback_bounds [OF assms(4)] by simp_all
  have prim: "e_primary (wk_engine w) = primary" and en: "0 \<le> e_entered (wk_engine w)"
    "e_entered (wk_engine w) \<le> fp_MaxCandidates (p_Fallback primary)" using w by simp_all
  have n: "e_entered (wk_engine w) + 1 \<le> fp_MaxCandidates (p_Fallback primary)"
    using eng(1) prim b by (auto simp: canEnter_def split: if_splits)
  have wr: "wrap64 (e_entered (wk_engine w) + 1) = e_entered (wk_engine w) + 1"
    using n b en by (intro wrap64_id) (auto simp: in_int64_iff caps)
  show e1: "e_entered eng = e_entered (wk_engine w) + 1" and "e_policy eng = p" using eng(2) wr by simp_all
  have bi: "budget_inv (e_budget eng)" "b_req (e_budget eng) = bp_Request (p_Budget primary)" "e_primary eng = primary"
    using w eng(2) Validate_envelopes_ok [OF assms(5)] by (simp_all add: BeginCandidate_inv BeginCandidate_req)
  have mono: "e_entered (wk_engine w) * (MaxRetriesCap + 1) \<le> e_entered eng * (MaxRetriesCap + 1)"
    unfolding e1 by (intro mult_right_mono) (simp_all add: caps)
  have cnt: "wk_providerAttempts w \<le> e_entered eng * (MaxRetriesCap + 1)" "wk_providerAttempts w - wk_retriesTotal w \<le> e_entered eng"
    "0 \<le> e_entered eng" "e_entered eng \<le> i" "e_entered eng \<le> fp_MaxCandidates (p_Fallback primary)"
    using w mono e1 n by simp_all
  show "walk_ok cfg primary cs i (enter cand i eng w)"
    unfolding walk_ok_def enter_simps using w bi cnt assms(2) by simp
qed

lemma walk_ok_loop:
  assumes "walk_ok cfg primary cs i w" and "loop_ok cfg cl R t w w'" and "wk_answer w = None"
    and "cl_attempt cl = 0" and "0 \<le> R" and "R \<le> MaxRetriesCap" and "in_chain cs (cl_cand cl) (cl_index cl)"
    and "wk_providerAttempts w \<le> (e_entered (wk_engine w) - 1) * (MaxRetriesCap + 1)"
    and "wk_providerAttempts w - wk_retriesTotal w \<le> e_entered (wk_engine w) - 1"
    and "wk_lastCand w = Some (cl_cand cl)" "wk_lastCandIndex w = cl_index cl"
    "wk_lastPolicyHash w = cn_RecoveryHash (cl_cand cl)" "wk_finalProvider w = cn_Label (cl_cand cl)"
  shows "walk_ok cfg primary cs i w'" and "t \<noteq> TurnBreakWalk \<Longrightarrow> wk_answer w' = None"
proof -
  note w = assms(1) [unfolded walk_ok_def] and l = assms(2) [unfolded loop_ok_def]
  have pl: "walk_place w' = walk_place w" using l by simp
  have eng: "e_primary (wk_engine w') = e_primary (wk_engine w)" "e_entered (wk_engine w') = e_entered (wk_engine w)"
    "budget_inv (budget_of w')" "b_req (budget_of w') = bp_Request (p_Budget primary)"
    using l w by (auto simp: engine_moves_def budget_moves_def)
  have reg: "pools_ok (wc_sha cfg) (wk_registry w')" using w pools_ok_place [OF pl] by simp
  obtain as where as: "wk_asked w' = wk_asked w @ as" "int (length as) \<le> wk_providerAttempts w' - wk_providerAttempts w"
    "\<forall>a\<in>set as. asked_by cfg (cl_cand cl) (cl_index cl) a" using l by blast
  have asked: "int (length (wk_asked w')) \<le> wk_providerAttempts w'" "\<forall>a\<in>set (wk_asked w'). \<exists>c i. in_chain cs c i \<and> asked_by cfg c i a"
    using w as assms(7) by auto
  obtain evs where evs: "wk_events w' = wk_events w @ evs" "\<forall>ev\<in>set evs. answered ev \<and> av_disposition ev \<noteq> ''retry'' \<longrightarrow>
      t = TurnBreak \<and> wk_retained w' \<noteq> None \<or> t = TurnBreakWalk \<and> wk_answer w' \<noteq> None" using l by blast
  have mid: "case t of
          TurnBreak \<Rightarrow> wk_answer w' = None \<and> (wk_retained w' = wk_retained w \<or>
            (\<exists>a. wk_retained w' = Some a \<and> wa_cand a = cl_cand cl \<and> wa_candIndex a = cl_index cl))
        | TurnBreakWalk \<Rightarrow> wk_retained w' = wk_retained w \<and> (\<forall>a. wk_answer w' = Some a \<longrightarrow>
            wa_cand a = cl_cand cl \<and> wa_candIndex a = cl_index cl \<and> wa_credKey a = wk_lastCredentialID w')
        | _ \<Rightarrow> wk_answer w' = None \<and> wk_retained w' = wk_retained w" using l by blast
  have place: "wk_lastCand w' = Some (cl_cand cl)" "wk_lastCandIndex w' = cl_index cl"
    "wk_lastPolicyHash w' = cn_RecoveryHash (cl_cand cl)" "wk_finalProvider w' = cn_Label (cl_cand cl)"
    using pl assms(10-13) by (simp_all add: walk_place_def)
  have ret: "\<forall>a. wk_retained w' = Some a \<longrightarrow> in_chain cs (wa_cand a) (wa_candIndex a)"
    using mid w assms(7) by (cases t) auto
  have ans: "\<forall>a. wk_answer w' = Some a \<longrightarrow> in_chain cs (wa_cand a) (wa_candIndex a) \<and> walk_accounted w' a"
    using mid assms(7) place by (cases t) (auto simp: walk_accounted_def)
  have keep: "wk_retained w' = None \<Longrightarrow> wk_retained w = None" using mid by (cases t) auto
  have ev: "wk_retained w' = None \<and> wk_answer w' = None \<longrightarrow> (\<forall>ev\<in>set (wk_events w'). answered ev \<longrightarrow> av_disposition ev = ''retry'')"
    using evs keep w assms(3) by auto
  have cnt: "wk_providerAttempts w' \<le> e_entered (wk_engine w') * (MaxRetriesCap + 1)"
    "0 \<le> wk_retriesTotal w'" "wk_retriesTotal w' \<le> wk_providerAttempts w'"
    "wk_providerAttempts w' - wk_retriesTotal w' \<le> e_entered (wk_engine w')"
  proof -
    have "wk_providerAttempts w' \<le> wk_providerAttempts w + (R + 1)" using l assms(4) by simp
    also have "\<dots> \<le> (e_entered (wk_engine w) - 1) * (MaxRetriesCap + 1) + (MaxRetriesCap + 1)" using assms(6,8) by simp
    also have "\<dots> = e_entered (wk_engine w) * (MaxRetriesCap + 1)" by (simp add: algebra_simps)
    finally show "wk_providerAttempts w' \<le> e_entered (wk_engine w') * (MaxRetriesCap + 1)" by (simp add: eng(2))
    have r: "wk_retriesTotal w' - wk_retriesTotal w = wk_providerAttempts w' - wk_providerAttempts w
        - of_bool (wk_providerAttempts w < wk_providerAttempts w')" "wk_providerAttempts w \<le> wk_providerAttempts w'"
      using l assms(4) by simp_all
    have w0: "0 \<le> wk_retriesTotal w" "wk_retriesTotal w \<le> wk_providerAttempts w" using w by simp_all
    from r w0 assms(9) show "0 \<le> wk_retriesTotal w'" "wk_retriesTotal w' \<le> wk_providerAttempts w'"
      "wk_providerAttempts w' - wk_retriesTotal w' \<le> e_entered (wk_engine w')"
      unfolding eng(2) by (cases "wk_providerAttempts w < wk_providerAttempts w'"; simp; linarith)+
  qed
  show "walk_ok cfg primary cs i w'"
    unfolding walk_ok_def using reg eng w asked ret ans ev cnt by simp
  show "t \<noteq> TurnBreakWalk \<Longrightarrow> wk_answer w' = None" using mid by (cases t) simp_all
qed


lemma walk_ok_mono: "walk_ok cfg primary cs n w \<Longrightarrow> n \<le> m \<Longrightarrow> walk_ok cfg primary cs m w"
  unfolding walk_ok_def by (elim conjE, intro conjI) (assumption | linarith)+

lemma walk_ok_registry: "walk_ok cfg primary cs n w \<Longrightarrow> pools_ok (wc_sha cfg) r \<Longrightarrow> walk_ok cfg primary cs n (w\<lparr>wk_registry := r\<rparr>)"
  unfolding walk_ok_def walk_accounted_def by simp

text \<open>One candidate of the chain.\<close>

lemma walk_ok_candidate:
  assumes "walk_ok cfg primary cs (i - 1) w" and "wk_answer w = None" and "in_chain cs cand i"
    and "EnterCandidate (wk_engine w) (cn_Recovery cand) u u' = (True, eng)"
    and "Validate primary = Inr ()" and "Validate (cn_Recovery cand) = Inr ()"
    and "resolve_pool cfg cand (enter cand i eng w) = Some (pool, w1)"
    and "cl = \<lparr>cl_cand = cand, cl_index = i, cl_hasNext = h, cl_pool = pool, cl_credKey = [], cl_attempt = 0, cl_start = s\<rparr>"
  shows "cand_inv cfg cl w1" and "wk_answer w1 = None"
    and "rp_MaxRetries (p_Retry (e_policy (wk_engine w1))) = rp_MaxRetries (p_Retry (cn_Recovery cand))"
    and "attempts_loop cfg cl es w1 = Some (t, w2, es') \<Longrightarrow> walk_ok cfg primary cs i w2 \<and> (t \<noteq> TurnBreakWalk \<longrightarrow> wk_answer w2 = None)
      \<and> t \<noteq> TurnContinue \<and> int (length es) \<le> int (length es') + (MaxRetriesCap + 1)"
proof -
  note en = walk_ok_enter [OF assms(1,2,4,5,6)]
  have "pools_ok (wc_sha cfg) (wk_registry (enter cand i eng w))" using assms(1) by (simp add: walk_ok_def)
  note pool = resolve_pool_ok [OF assms(7) this]
  then obtain r where r: "w1 = (enter cand i eng w)\<lparr>wk_registry := r\<rparr>" "pools_ok (wc_sha cfg) r" by blast
  have ok1: "walk_ok cfg primary cs i w1" unfolding r(1) by (rule walk_ok_registry [OF en(1) r(2)])
  show ci: "cand_inv cfg cl w1"
    using pool(2) r(1) assms(8) by (cases pool) (simp_all add: cand_inv_def)
  show a1: "wk_answer w1 = None" using r(1) assms(2) by simp
  show pol: "rp_MaxRetries (p_Retry (e_policy (wk_engine w1))) = rp_MaxRetries (p_Retry (cn_Recovery cand))"
    using r(1) en(3) by simp
  have R: "0 \<le> rp_MaxRetries (p_Retry (cn_Recovery cand))" "rp_MaxRetries (p_Retry (cn_Recovery cand)) \<le> MaxRetriesCap"
    using Validate_retries [OF assms(6)] by simp_all
  have w: "wk_providerAttempts w \<le> e_entered (wk_engine w) * (MaxRetriesCap + 1)"
    "wk_providerAttempts w - wk_retriesTotal w \<le> e_entered (wk_engine w)" using assms(1) by (simp_all add: walk_ok_def)
  assume run: "attempts_loop cfg cl es w1 = Some (t, w2, es')"
  have lo: "loop_ok cfg cl (rp_MaxRetries (p_Retry (cn_Recovery cand))) t w1 w2"
    "int (length es) \<le> int (length es') + (rp_MaxRetries (p_Retry (cn_Recovery cand)) + 1)"
    using attempts_loop_ok [OF run ci a1] R(1) assms(8) unfolding pol by simp_all
  have "walk_ok cfg primary cs i w2" "t \<noteq> TurnBreakWalk \<Longrightarrow> wk_answer w2 = None"
    by (rule walk_ok_loop [OF ok1 lo(1) a1 _ R]; use assms(3,8) r(1) w en(2) in simp)+
  moreover have "t \<noteq> TurnContinue" using lo(1) by (simp add: loop_ok_def)
  ultimately show "walk_ok cfg primary cs i w2 \<and> (t \<noteq> TurnBreakWalk \<longrightarrow> wk_answer w2 = None)
      \<and> t \<noteq> TurnContinue \<and> int (length es) \<le> int (length es') + (MaxRetriesCap + 1)" using lo(2) R(2) by simp
qed

lemma chain_step:
  assumes "drop (nat (i - 1)) cs = map fst ((cand, ee) # rest)" and "1 \<le> i"
  shows "in_chain cs cand i" and "drop (nat (i + 1 - 1)) cs = map fst rest" and "cand \<in> set cs" and "i \<le> int (length cs)"
proof -
  have l: "nat (i - 1) < length cs" using assms(1) by (metis drop_all list.simps(3,9) not_le)
  with assms have c: "cs ! nat (i - 1) = cand" by (metis Cons_nth_drop_Suc fst_conv list.inject list.simps(9))
  with l assms(2) show "in_chain cs cand i" "i \<le> int (length cs)" by (simp_all add: in_chain_def)
  show "cand \<in> set cs" using c l by auto
  have "nat (i + 1 - 1) = Suc (nat (i - 1))" using assms(2) by simp
  then show "drop (nat (i + 1 - 1)) cs = map fst rest" using assms(1) l by (metis Cons_nth_drop_Suc list.inject list.simps(9))
qed

lemma chain_loop_ok:
  assumes "chain_loop cfg i cands es w = Some (rw, w')" and "walk_ok cfg primary cs (i - 1) w" and "wk_answer w = None"
    and "Validate primary = Inr ()" and "\<forall>c\<in>set cs. Validate (cn_Recovery c) = Inr ()"
    and "1 \<le> i" and "drop (nat (i - 1)) cs = map fst cands" and "i - 1 + int (length cands) = int (length cs)"
  shows "walk_ok cfg primary cs (int (length cs)) w' \<and> (rw \<noteq> None \<longrightarrow> wk_answer w' = None)"
  using assms
proof (induction cands arbitrary: i es w)
  case Nil
  then show ?case by simp
next
  case (Cons ce rest)
  obtain cand ee where ce: "ce = (cand, ee)" by fastforce
  note prems = Cons.prems [unfolded ce]
  note c = chain_step [OF prems(7,6)]
  have here: "walk_ok cfg primary cs (int (length cs)) w" by (rule walk_ok_mono [OF prems(2)]) (use c(4) in simp)
  have V: "Validate (cn_Recovery cand) = Inr ()" using prems(5) c(3) by blast
  obtain b eng where en: "EnterCandidate (wk_engine w) (cn_Recovery cand) (ee_nowCand ee) (ee_nowBudget ee) = (b, eng)" by fastforce
  show ?case
  proof (cases b)
    case False
    with prems(1) en have "rw = None" "w' = w" by simp_all
    with here show ?thesis by simp
  next
    case True
    with en have entered: "EnterCandidate (wk_engine w) (cn_Recovery cand) (ee_nowCand ee) (ee_nowBudget ee) = (True, eng)" by simp
    note ok1 = walk_ok_enter(1) [OF prems(2,3) entered prems(4) V]
    show ?thesis
    proof (cases "resolve_pool cfg cand (enter cand i eng w)")
      case None
      with prems(1) entered have "w' = enter cand i eng w" by simp
      with walk_ok_mono [OF ok1 c(4)] prems(3) show ?thesis by simp
    next
      case (Some pw)
      obtain pool w1 where pw: "pw = (pool, w1)" by fastforce
      let ?cl = "\<lparr>cl_cand = cand, cl_index = i, cl_hasNext = (rest \<noteq> []), cl_pool = pool,
                       cl_credKey = [], cl_attempt = 0, cl_start = ee_start ee\<rparr>"
      note res = Some [unfolded pw]
      note one = walk_ok_candidate [OF prems(2,3) c(1) entered prems(4) V res refl [of ?cl]]
      obtain t w2 es' where lo: "attempts_loop cfg ?cl es w1 = Some (t, w2, es')"
        using prems(1) entered res by (cases "attempts_loop cfg ?cl es w1") auto
      note w2 = one(4) [OF lo]
      then have ok2: "walk_ok cfg primary cs i w2" by blast
      show ?thesis
      proof (cases "t = TurnBreak")
        case True
        have step: "chain_loop cfg (i + 1) rest es' w2 = Some (rw, w')"
          using prems(1) entered res lo True by simp
        show ?thesis
          by (rule Cons.IH [OF step]) (use ok2 w2 True prems(4-6,8) c(2) in simp_all)
      next
        case False
        with prems(1) entered res lo w2 have "w' = w2" "rw \<noteq> None \<Longrightarrow> t \<noteq> TurnBreakWalk" by (cases t; simp)+
        with walk_ok_mono [OF ok2 c(4)] w2 show ?thesis by auto
      qed
    qed
  qed
qed

lemma chain_loop_returns:
  assumes "walk_ok cfg primary cs (i - 1) w" and "wk_answer w = None"
    and "Validate primary = Inr ()" and "\<forall>c\<in>set cs. Validate (cn_Recovery c) = Inr ()"
    and "1 \<le> i" and "drop (nat (i - 1)) cs = map fst cands"
    and "int (length cands) * (MaxRetriesCap + 1) \<le> int (length es)"
  shows "chain_loop cfg i cands es w \<noteq> None"
  using assms
proof (induction cands arbitrary: i es w)
  case (Cons ce rest)
  obtain cand ee where ce: "ce = (cand, ee)" by fastforce
  note prems = Cons.prems [unfolded ce]
  note c = chain_step [OF prems(6,5)]
  have V: "Validate (cn_Recovery cand) = Inr ()" using prems(4) c(3) by blast
  have es: "int (length rest) * (MaxRetriesCap + 1) + (MaxRetriesCap + 1) \<le> int (length es)"
    using prems(7) by (simp add: algebra_simps)
  obtain b eng where en: "EnterCandidate (wk_engine w) (cn_Recovery cand) (ee_nowCand ee) (ee_nowBudget ee) = (b, eng)" by fastforce
  show ?case
  proof (cases "b \<and> resolve_pool cfg cand (enter cand i eng w) \<noteq> None")
    case False
    with en show ?thesis
      by (cases b; cases "resolve_pool cfg cand (enter cand i eng w)") (simp_all add: ce)
  next
    case True
    then obtain pool w1 where res: "resolve_pool cfg cand (enter cand i eng w) = Some (pool, w1)" by auto
    from True en have entered: "EnterCandidate (wk_engine w) (cn_Recovery cand) (ee_nowCand ee) (ee_nowBudget ee) = (True, eng)" by simp
    let ?cl = "\<lparr>cl_cand = cand, cl_index = i, cl_hasNext = (rest \<noteq> []), cl_pool = pool,
                     cl_credKey = [], cl_attempt = 0, cl_start = ee_start ee\<rparr>"
    note one = walk_ok_candidate [OF prems(1,2) c(1) entered prems(3) V res refl [of ?cl]]
    have "0 \<le> int (length rest) * (MaxRetriesCap + 1)" by (simp add: caps)
    with es have "MaxRetriesCap + 1 \<le> int (length es)" by linarith
    with Validate_retries [OF V] one(3)
    have "attempts_loop cfg ?cl es w1 \<noteq> None" by (intro attempts_loop_returns [OF one(1,2)]) simp_all
    then obtain t w2 es' where lo: "attempts_loop cfg ?cl es w1 = Some (t, w2, es')" by auto
    note w2 = one(4) [OF lo]
    have "t = TurnBreak \<Longrightarrow> chain_loop cfg (i + 1) rest es' w2 \<noteq> None"
      by (rule Cons.IH) (use w2 prems(3-5) c(2) es in simp_all)
    with entered res lo show ?thesis by (cases t) (simp_all add: ce)
  qed
qed simp

lemma walk_ok_start:
  assumes "Validate primary = Inr ()" and "pools_ok (wc_sha cfg) r"
  shows "walk_ok cfg primary cs 0 (newWalk (NewEngine primary nowBudget nowCand) r)"
  using assms Validate_envelopes_ok [OF assms(1)] Validate_fallback_bounds [OF assms(1)]
    NewBudget_inv [of "bp_Request (p_Budget primary)" nowBudget]
  by (simp add: walk_ok_def newWalk_def NewEngine_def walk_accounted_def) (simp add: NewBudget_def)

text \<open>The walk on a whole chain.\<close>

lemma provider_walk_chain:
  assumes "provider_walk cfg primary nowBudget nowCand cands es now gone r = Some (end, w')"
    and "Validate primary = Inr ()" and "\<forall>c\<in>set cands. Validate (cn_Recovery (fst c)) = Inr ()" and "pools_ok (wc_sha cfg) r"
  obtains rw w where "finish_walk cfg now gone (rw, w) = (end, w')"
    and "walk_ok cfg primary (map fst cands) (int (length cands)) w" and "rw \<noteq> None \<Longrightarrow> wk_answer w = None"
proof -
  from assms(1) obtain rw w where run: "chain_loop cfg 1 cands es (newWalk (NewEngine primary nowBudget nowCand) r) = Some (rw, w)"
    and fin: "finish_walk cfg now gone (rw, w) = (end, w')" by (auto simp: provider_walk_def)
  have "walk_ok cfg primary (map fst cands) (int (length (map fst cands))) w \<and> (rw \<noteq> None \<longrightarrow> wk_answer w = None)"
    by (rule chain_loop_ok [OF run _ _ assms(2)])
      (use walk_ok_start [OF assms(2,4)] assms(3) in \<open>simp_all add: newWalk_def\<close>)
  with fin that show ?thesis by simp
qed

lemma provider_walk_some:
  assumes "Validate primary = Inr ()" and "\<forall>c\<in>set cands. Validate (cn_Recovery (fst c)) = Inr ()" and "pools_ok (wc_sha cfg) r"
    and "int (length cands) * (MaxRetriesCap + 1) \<le> int (length es)"
  shows "provider_walk cfg primary nowBudget nowCand cands es now gone r \<noteq> None"
proof -
  have "chain_loop cfg 1 cands es (newWalk (NewEngine primary nowBudget nowCand) r) \<noteq> None"
    by (rule chain_loop_returns [where cs = "map fst cands"])
      (use walk_ok_start [OF assms(1,3)] assms in \<open>simp_all add: newWalk_def\<close>)
  then show ?thesis by (simp add: provider_walk_def)
qed

text \<open>What the end of the walk leaves of its state.\<close>

lemma finish_walk_frame:
  assumes "finish_walk cfg now gone (rw, w) = (end, w')"
  shows "wk_asked w' = wk_asked w" "wk_engine w' = wk_engine w" "wk_providerAttempts w' = wk_providerAttempts w"
    "wk_retriesTotal w' = wk_retriesTotal w"
  using assms by (auto simp: finish_walk_def take_retained_def Let_def log_event_def split: option.splits)

lemma finish_walk_answer:
  assumes "finish_walk cfg now gone (rw, w) = (WalkAnswered a, w')" and "walk_ok cfg primary cs n w"
  shows "in_chain cs (wa_cand a) (wa_candIndex a) \<and> walk_accounted w' a"
proof -
  have rw: "rw = None" using assms(1) by (cases rw) (simp_all add: finish_walk_def)
  have w: "\<forall>a. wk_retained w = Some a \<longrightarrow> in_chain cs (wa_cand a) (wa_candIndex a)"
    "\<forall>a. wk_answer w = Some a \<longrightarrow> in_chain cs (wa_cand a) (wa_candIndex a) \<and> walk_accounted w a"
    using assms(2) by (simp_all add: walk_ok_def)
  show ?thesis
  proof (cases "wk_answer w")
    case (Some b)
    with assms(1) rw w show ?thesis by (simp add: finish_walk_def take_retained_def Let_def)
  next
    case None
    with assms(1) rw w show ?thesis
      by (cases "wk_retained w") (auto simp: finish_walk_def take_retained_def Let_def walk_accounted_def)
  qed
qed

section \<open>Example\<close>

text \<open>A policy that retries a 503 once and ends on anything else, and a candidate with two keys.\<close>

definition walk_policy :: Policy where
  "walk_policy =
     \<lparr>p_Matrix = \<lparr>mx_rules = [status_rule ActionRetry 503], mx_def = ActionTerminal\<rparr>,
      p_Retry = \<lparr>rp_MaxRetries = 1, rp_MaxElapsed = 10000000000,
                 rp_Backoff = \<lparr>bo_Initial = 250000000, bo_Max = 2000000000, bo_Jitter = F64 0\<rparr>, rp_OnExhausted = ActionFallback\<rparr>,
      p_Fallback = \<lparr>fp_Enabled = True, fp_MaxCandidates = 2, fp_OnExhausted = ActionTerminal\<rparr>,
      p_Budget = \<lparr>bp_Request = \<lparr>en_MaxExchanges = 32, en_MaxElapsed = 60000000000\<rparr>,
                  bp_Candidate = \<lparr>en_MaxExchanges = 16, en_MaxElapsed = 60000000000\<rparr>\<rparr>,
      p_RetryAfter = \<lparr>ra_Enabled = True, ra_Mode = RetryAfterMax, ra_MaxDelay = 5000000000\<rparr>,
      p_Stream = \<lparr>sp_Enabled = False, sp_MaxRecoveries = 0, sp_MaxElapsed = 20000000000, sp_MaxPartialBytes = 262144\<rparr>\<rparr>"

definition ex_provider :: Provider where
  "ex_provider = \<lparr>pv_Identity = ''p'', pv_Spec = ex_spec, pv_RateLimit = \<lparr>rl_Cooldown = 3, rl_MaxCooldown = 6\<rparr>\<rparr>"

definition ex_cand :: Candidate where
  "ex_cand =
     \<lparr>cn_Label = ''p/m'', cn_UpstreamModel = ''m'', cn_Origin = ''https://up'', cn_Path = ''/v1/'', cn_Recovery = walk_policy,
      cn_RecoveryHash = ''h'', cn_Cred = Some ex_provider, cn_Vision = False, cn_Strip = []\<rparr>"

definition ex_cfg :: WalkCfg where
  "ex_cfg =
     \<lparr>wc_body = ''{}'', wc_transform = (\<lambda>_ b. Inr b), wc_suffix = ''/chat/completions'', wc_stream = True, wc_client = [],
      wc_requestID = ''r1'', wc_dialect = openAIDialect, wc_creds = True, wc_sha = (\<lambda>_. ''k''), wc_httpDate = (\<lambda>_. None),
      wc_parseMedia = (\<lambda>_. None), wc_decode = (\<lambda>_. None)\<rparr>"

definition ex_att :: "DialResult \<Rightarrow> AttEnv" where
  "ex_att d =
     \<lparr>ae_reqErr = False, ae_ops = [], ae_keyNow = 5, ae_readyNow = 5, ae_obsNow = 5, ae_refusalNow = 5, ae_spentNow = 5,
      ae_claimNow = 5, ae_pooled = False, ae_claims = [],
      ae_info = \<lparr>ai_Attempts = 0, ai_Kind = [], ai_Target = [], ai_Exhausted = False, ai_Failures = [], ai_BudgetExhausted = False\<rparr>,
      ae_result = d, ae_ctx = CtxLive,
      ae_env = \<lparr>v_err = False, v_deadline = None, v_nowRequest = 5, v_nowCandidate = 5, v_nowRetry = 5, v_nowDeadline = 5, v_draw = F64 0\<rparr>,
      ae_live = True, ae_markNow = 5, ae_markParse = 5, ae_directiveNow = 5,
      ae_capture = \<lparr>bc_bytes = [], bc_err = None, bc_gone = False, bc_deadline = False\<rparr>, ae_read = BodyDone ''{}'', ae_gone = False\<rparr>"

definition ex_enter :: EnterEnv where
  "ex_enter = \<lparr>ee_nowCand = 3, ee_nowBudget = 3, ee_start = 3\<rparr>"

definition ex_run :: "DialResult list \<Rightarrow> (WalkEnd \<times> Walk) option" where
  "ex_run ds = provider_walk ex_cfg walk_policy 1 1 [(ex_cand, ex_enter)] (map ex_att ds) 9 False NewRegistry"

definition ex_chain :: "DialResult list \<Rightarrow> (WalkReturn option \<times> Walk) option" where
  "ex_chain ds = chain_loop ex_cfg 1 [(ex_cand, ex_enter)] (map ex_att ds) (newWalk (NewEngine walk_policy 1 1) NewRegistry)"

definition ex_stream :: DialResult where
  "ex_stream = DialResponse \<lparr>rs_status = 200, rs_header = [(''Content-Type'', [''text/event-stream''])], rs_body = 0\<rparr>"

lemma ex_ok: "Validate walk_policy = Inr ()" "cn_Recovery ex_cand = walk_policy" "pools_ok sha NewRegistry"
  unfolding Validate_iff_bounds
  by (simp_all add: policy_bounds_def walk_policy_def ex_cand_def pools_ok_def NewRegistry_def Let_def caps)

lemma ex_chain_ok: "\<forall>c\<in>set [(ex_cand, ex_enter)]. Validate (cn_Recovery (fst c)) = Inr ()"
  by (simp add: ex_ok)

lemma ex_stream_run:
  "map_option (\<lambda>(e, w). (case e of WalkAnswered x \<Rightarrow> Some (wa_credKey x) | _ \<Rightarrow> None, map ak_credKey (wk_asked w),
       map (\<lambda>a. hget (ak_header a) ''Authorization'') (wk_asked w))) (ex_run [ex_stream]) = Some (Some ''a'', [''a''], [''Bearer s1''])"
  by code_simp

lemma ex_refused:
  "map_option (\<lambda>(r, w). (r = None, map (\<lambda>ev. (av_msg ev, av_disposition ev)) (wk_events w)))
       (ex_chain [DialResponse \<lparr>rs_status = 404, rs_header = [], rs_body = 0\<rparr>]) = Some (True, [(''upstream_http_error'', ''terminal'')])"
  by code_simp

section \<open>The walk\<close>



text \<open>
  C2: no request carries the credential of another candidate. Every request the walk hands to a
  transport goes to the URL of a candidate of the chain with that candidate's transformed body, and its
  headers are the caller's forwarded ones with either no credential or a key registered under the
  identity of that candidate's own provider.
\<close>

theorem provider_walk_credentials:
  assumes "provider_walk cfg primary nowBudget nowCand cands es now gone r = Some (end, w)"
    and "Validate primary = Inr ()" and "\<forall>c\<in>set cands. Validate (cn_Recovery (fst c)) = Inr ()"
    and "pools_ok (wc_sha cfg) r" and "a \<in> set (wk_asked w)"
  shows "\<exists>cand. 1 \<le> ak_cand a \<and> ak_cand a \<le> int (length cands) \<and> fst (cands ! nat (ak_cand a - 1)) = cand
      \<and> ak_url a = upstream_url cfg cand \<and> wc_transform cfg cand (wc_body cfg) = Inr (ak_body a)
      \<and> (ak_credKey a = [] \<and> ak_header a = outbound_headers (wc_client cfg) (wc_requestID cfg) None
         \<or> (\<exists>p q k. cn_Cred cand = Some p \<and> PoolKey (wc_sha cfg) q = PoolKey (wc_sha cfg) p
              \<and> k \<in> set (cs_Keys (pv_Spec q)) \<and> ak_credKey a = k_ID k
              \<and> ak_header a = outbound_headers (wc_client cfg) (wc_requestID cfg) (Some (pv_Spec p, k))))"
proof -
  obtain rw w0 where fin: "finish_walk cfg now gone (rw, w0) = (end, w)"
    and w: "walk_ok cfg primary (map fst cands) (int (length cands)) w0"
    using provider_walk_chain [OF assms(1-4)] by blast
  from w have "\<forall>a\<in>set (wk_asked w0). \<exists>c i. in_chain (map fst cands) c i \<and> asked_by cfg c i a" by (simp add: walk_ok_def)
  with assms(5) finish_walk_frame(1) [OF fin] obtain c i where c: "in_chain (map fst cands) c i" "asked_by cfg c i a" by auto
  then have i: "ak_cand a = i" "1 \<le> i" "i \<le> int (length cands)" by (simp_all add: asked_by_def in_chain_def)
  then have "nat (i - 1) < length cands" by simp
  with c(1) have "fst (cands ! nat (i - 1)) = c" by (simp add: in_chain_def)
  with i c(2) show ?thesis unfolding asked_by_def by blast
qed

theorem provider_walk_credentials_witness:
  "\<exists>end w a. ex_run [ex_stream] = Some (end, w) \<and> a \<in> set (wk_asked w) \<and> ak_cand a = 1 \<and> ak_credKey a = ''a''
     \<and> hget (ak_header a) ''Authorization'' = ''Bearer s1''"
proof -
  obtain "end" w a where run: "ex_run [ex_stream] = Some (end, w)" "wk_asked w = [a]" "ak_credKey a = ''a''"
    "hget (ak_header a) ''Authorization'' = ''Bearer s1''"
    using ex_stream_run by auto
  from provider_walk_credentials [OF run(1) [unfolded ex_run_def] ex_ok(1) ex_chain_ok ex_ok(3), of a] run(2)
  have "1 \<le> ak_cand a" "ak_cand a \<le> int (length [(ex_cand, ex_enter)])" by auto
  with run show ?thesis by auto
qed

text \<open>
  C3: the completion record names the answer the client gets. When a walk ends in an answer, committed
  or retained, its candidate is the one of the chain at the answer's index, and the record's candidate,
  index, policy, provider and credential are those of that answer, whatever the walk tried after it.
\<close>

theorem provider_walk_accounted:
  assumes "provider_walk cfg primary nowBudget nowCand cands es now gone r = Some (WalkAnswered a, w)"
    and "Validate primary = Inr ()" and "\<forall>c\<in>set cands. Validate (cn_Recovery (fst c)) = Inr ()" and "pools_ok (wc_sha cfg) r"
  shows "1 \<le> wa_candIndex a \<and> wa_candIndex a \<le> int (length cands) \<and> fst (cands ! nat (wa_candIndex a - 1)) = wa_cand a
      \<and> wk_lastCand w = Some (wa_cand a) \<and> wk_lastCandIndex w = wa_candIndex a
      \<and> wk_lastPolicyHash w = cn_RecoveryHash (wa_cand a) \<and> wk_finalProvider w = cn_Label (wa_cand a)
      \<and> wk_lastCredentialID w = wa_credKey a"
proof -
  obtain rw w0 where fin: "finish_walk cfg now gone (rw, w0) = (WalkAnswered a, w)"
    and w: "walk_ok cfg primary (map fst cands) (int (length cands)) w0"
    using provider_walk_chain [OF assms] by blast
  have ia: "in_chain (map fst cands) (wa_cand a) (wa_candIndex a)" "walk_accounted w a"
    using finish_walk_answer [OF fin w] by blast+
  then have "1 \<le> wa_candIndex a" "wa_candIndex a \<le> int (length cands)" by (simp_all add: in_chain_def)
  then have "nat (wa_candIndex a - 1) < length cands" by linarith
  with ia show ?thesis by (simp add: in_chain_def walk_accounted_def)
qed

theorem provider_walk_accounted_witness:
  "\<exists>a w. ex_run [ex_stream] = Some (WalkAnswered a, w) \<and> wa_candIndex a = 1 \<and> wk_lastCredentialID w = ''a''"
proof -
  obtain a w where run: "ex_run [ex_stream] = Some (WalkAnswered a, w)" "wa_credKey a = ''a''"
  proof -
    obtain e w where e: "ex_run [ex_stream] = Some (e, w)" "(case e of WalkAnswered x \<Rightarrow> Some (wa_credKey x) | _ \<Rightarrow> None) = Some ''a''"
      using ex_stream_run by auto
    with that show ?thesis by (cases e) auto
  qed
  from provider_walk_accounted [OF run(1) [unfolded ex_run_def] ex_ok(1) ex_chain_ok ex_ok(3)] run
  have "1 \<le> wa_candIndex a" "wa_candIndex a \<le> int (length [(ex_cand, ex_enter)])" "wk_lastCredentialID w = ''a''" by auto
  with run show ?thesis by auto
qed





end
