(* ===== verification/Spec2Isabelle.thy ===== *)
theory Spec2Isabelle
  imports Recovery_Engine Recovery_Hash Credential_Pool Attempt_Observation Transport_Dial
    Egress_Execute Egress_Fairness Egress_Registry SSE_Keepalive Mem_Admission Stream_Recovery
    Auth_Partner Usage_Capture Usage_Pipeline Config_Recovery Inject_Request Json_Rewrite
    Http_Headers Error_Envelope Walk_Chain
begin

text \<open>
  A verification library for the OpenAI-compatible injector, a Go reverse proxy that forwards
  chat, responses and messages requests to upstream providers, recovers from their failures,
  and relays their answers.

  \<^bold>\<open>The program.\<close> A request is read under a process-wide buffering budget
  (\<open>internal/memlimit\<close>, \<open>internal/proxy/admission.go\<close>), then walked over provider candidates
  (\<open>internal/proxy/handler.go\<close>). An attempt takes a key from the candidate's rotation pool
  (\<open>internal/credential\<close>) and is dialed through an egress pool or a direct client
  (\<open>internal/transport\<close>) inside an exchange window. A failure is classified
  (\<open>internal/transport/errors.go\<close>) and put to the decision engine (\<open>internal/recovery\<close>), which reads
  a rule matrix resolved from layered policies and answers retry, fallback or stop under a
  budget of exchanges and time. A streamed answer is relayed line by line
  (\<open>internal/proxy/sse.go\<close>, \<open>sse_messages.go\<close>) under a heartbeat (\<open>keepalive.go\<close>); while it
  streams, a safety gate (\<open>continuation.go\<close>) collects the text the client has seen and an idle
  window (\<open>streamrecovery.go\<close>) bounds upstream silence; a stream cut short is continued by further
  requests to the same candidate as long as gate, window and envelope allow. Callers are
  authenticated against configured keys or a key store behind a cache (\<open>internal/auth\<close>), and what
  each request used is metered asynchronously (\<open>internal/usage\<close>).

  \<^bold>\<open>Theories and sources.\<close>
  \<^item> \<open>Prelude\<close>: Go's integers with wrap-around, time, decimal text, IEEE doubles, result folds, and
    the generic interfaces (token codecs, self-delimiting encodings, checked steps) as locales.
  \<^item> \<open>Recovery_Failure\<close> (\<open>action.go\<close>, \<open>failure.go\<close>), \<open>Recovery_Rule\<close> (\<open>rule.go\<close>, \<open>matrix.go\<close>),
    \<open>Recovery_Policy\<close> (\<open>policy.go\<close>, \<open>defaults.go\<close>), \<open>Recovery_Merge\<close> (\<open>merge.go\<close>, \<open>resolve.go\<close>),
    \<open>Recovery_Backoff\<close> (\<open>backoff.go\<close>, both \<open>retryafter.go\<close>), \<open>Recovery_Budget\<close> (\<open>budget.go\<close>),
    \<open>Recovery_Engine\<close> (\<open>engine.go\<close>), \<open>Recovery_Hash\<close> (\<open>hash.go\<close>): the policy layer. The matrix picks
    the most specific matching rule whatever the order of its rules; resolution keeps every
    policy valid; decisions respect commitment, the caller and the envelopes; a walk driven by
    them is bounded; the budget counts exactly; the policy encoding is injective.
  \<^item> \<open>Config_Recovery\<close> (\<open>config/recovery.go\<close>): the YAML blocks, \<open>time.ParseDuration\<close>, and the layers of
    a candidate. The built layer is independent of map order, and only the global layer and the model
    entry move what belongs to the request.
  \<^item> \<open>Credential_Pool\<close> (\<open>spec.go\<close>, \<open>provider.go\<close>, \<open>state.go\<close>, \<open>registry.go\<close>): rotation with cooldowns. No
    key is reused early, a ready key is always found, and a registered pool keeps its identity.
  \<^item> \<open>Transport_Seam\<close>, \<open>Transport_Errors\<close>, \<open>Attempt_Observation\<close> (\<open>errors.go\<close>, part of \<open>handler.go\<close>):
    error chains and what the engine is asked about; every observation is well formed.
  \<^item> \<open>Transport_Dial\<close> (\<open>transport.go\<close>): one windowed exchange as a step relation over its three
    goroutines. A failed dial has one owner, is released once, and a handoff frees the body.
  \<^item> \<open>Egress_Pool\<close>, \<open>Egress_Execute\<close>, \<open>Egress_Fairness\<close> (\<open>pool.go\<close>): schedulers, permits, health and the
    attempt loop. Permits come back, a possibly sent request is not replayed, smooth weighted
    round robin is fair. \<open>Egress_Registry\<close> (\<open>registry.go\<close>): pool generations across reloads.
  \<^item> \<open>SSE_Line\<close>, \<open>SSE_Relay\<close> (\<open>sse.go\<close>, \<open>sse_messages.go\<close>): the bounded reader and both relays over a
    writer, flush and observer. The pass over the buffered reader is the walk over the lines of
    the byte stream. \<open>SSE_Keepalive\<close> (\<open>keepalive.go\<close>, \<open>statusWriter\<close>): what reaches the client, byte
    for byte, and where a ping can land.
  \<^item> \<open>Mem_Admission\<close> (\<open>memlimit.go\<close>, \<open>admission.go\<close>): the process never buffers more than its limit.
  \<^item> \<open>Stream_Window\<close> (\<open>streamrecovery.go\<close>): the idle window cuts silence and nothing else.
  \<^item> \<open>Partial_Text\<close> (\<open>continuation.go\<close>): the safety gate over both surfaces; what it hands to a
    continuation is exactly the text of one plain answer.
  \<^item> \<open>Stream_Recovery\<close> (\<open>streamrecovery.go\<close>, the loop of \<open>handler.go\<close>): continuations after
    commitment, over the window, the gate, the envelope and the key pool. The loop returns within
    its bound, every continuation rests on a prefix the client has seen, and the end is reported
    with one owner.
  \<^item> \<open>Http_Headers\<close> (\<open>handler.go\<close>): the caller's token and the headers that cross the proxy. Nothing of
    the client's but three allow-listed headers goes upstream.
  \<^item> \<open>Error_Envelope\<close> (\<open>upstream_error.go\<close>, \<open>envelope_dialect.go\<close>): the error bodies of both dialects and
    what is kept of an upstream's error. Every body is JSON that reads back as its message; the
    capture is bounded and sanitised.
  \<^item> \<open>Provider_Walk\<close>, \<open>Walk_Chain\<close> (the walk of \<open>serve\<close> in \<open>handler.go\<close>): candidates, attempts, their
    credentials and exchanges, the reading of an answer, retention and exhaustion, over the engine,
    the key pools and one environment record per turn. The walk returns within its bounds, carries
    no foreign credential, and reports the answer it gives.
  \<^item> \<open>Inject_Request\<close> (\<open>inject.go\<close>, \<open>chat.go\<close>, \<open>responses.go\<close>, \<open>continuation.go\<close>, \<open>thinking.go\<close>,
    \<open>vision.go\<close>): request bodies. A transform keeps every member but the ones it owns, and the request
    of a continuation is the first request with the answer so far at its end.
  \<^item> \<open>Json_Text\<close>, \<open>Json_Rewrite\<close> (\<open>rewrite.go\<close>, \<open>strip.go\<close>): response bodies as bytes. The scanner's
    positions are those of the parsed document, and the model rewrite is the rename on the document; the
    removal of members is modelled with its two defects.
  \<^item> \<open>Auth_Token\<close> (\<open>keys.go\<close>, \<open>auth.go\<close>), \<open>Auth_Partner\<close> (\<open>cache.go\<close>, \<open>partner.go\<close>, \<open>store.go\<close>,
    \<open>pgstore.go\<close>): tokens, the decision cache, the key table and \<open>Authenticate\<close>. Tokens round-trip,
    the cache stays within its capacity, and a revoked key is accepted for a bounded time.
  \<^item> \<open>Usage_Capture\<close> (\<open>capture.go\<close>), \<open>Usage_Pipeline\<close> (\<open>pipeline.go\<close>): what one request used, over
    all its upstream calls, and the queue to the repository. No event is lost uncounted, and a
    closed pipeline drains.
  \<^item> This theory: the egress pool run under the recovery budget.

  \<^bold>\<open>How state is modelled.\<close> Go structs are records with the fields' names behind a prefix, closed
  sets of constants are datatypes, errors are sums or options, and machine integers are \<open>int\<close> with
  \<open>wrap64\<close> where the code could overflow. Clock readings are arguments, one per place the code
  reads the clock. Code under a mutex is a function; goroutines that share state are a step
  relation (\<open>Transport_Dial\<close>), a sequence of calls (\<open>Stream_Window\<close>, \<open>Mem_Admission\<close>,
  \<open>Egress_Registry\<close>, \<open>Auth_Partner\<close>, \<open>Usage_Pipeline\<close>) or a schedule of ticks (\<open>SSE_Keepalive\<close>). Code outside the repository is an
  argument: the HTTP client and dialer, the client connection, \<open>http.ParseTime\<close>, SHA-256, the
  shortest float format, the JSON decoder, random bytes, the database's answers. In
  \<open>Provider_Walk\<close> and \<open>Stream_Recovery\<close> the network, the client and the clocks of one turn or round
  are an environment record.

  \<^bold>\<open>Interfaces.\<close> Locales state what one component relies on in another and are interpreted on the
  model: the exchange budget the pool draws on (\<open>Transport_Seam\<close>, interpreted in \<open>Recovery_Budget\<close>
  and, as \<open>metered_pool\<close>, here), the writer contract of the relays (\<open>byte_sink\<close>, interpreted for
  both writers), and the codec and encoding interfaces of \<open>Prelude\<close>.

  \<^bold>\<open>Bounds and fuel.\<close> Loops over finite data are structural or have a measure. \<open>read_loop\<close> of
  \<open>Mem_Admission\<close> takes one more step than the input has bytes, which is enough because every block
  is positive (\<open>read_loop_complete\<close>). The unwrapping of bodies and the pool's attempt loop carry the
  code's own bounds. A run of empty reads is retried without the limit of one hundred that
  \<open>bufio\<close> has. \<open>recovery_loop\<close> consumes one environment per round, and \<open>recovery_is_bounded\<close> shows
  that one more than the configured maximum is enough. \<open>attempts_loop\<close> of \<open>Provider_Walk\<close> consumes one
  environment per attempt, and \<open>provider_walk_bounded\<close> shows that nine per candidate are enough.

  \<^bold>\<open>Not modelled.\<close> Of \<open>handler.go\<close>: the gates before the walk, the writing of a committed answer,
  the usage event and the free text of log records, which are calls in sequence around the parts
  above. The Messages dialect and the simulated usage of \<open>internal/inject\<close>, which translate between
  documents member by member; configuration beyond the recovery blocks, which copies decoded
  YAML fields and watches a file. The continuation builders and transforms of \<open>Inject_Request\<close> are
  on JSON values, and arguments of \<open>Provider_Walk\<close> and \<open>Stream_Recovery\<close>, which carry bytes. Network
  clients, the SQL stores and migrations, the HTTP server's lifecycle and the command line are calls
  into libraries with no logic of their own.
\<close>

section \<open>The pool under the recovery budget\<close>

interpretation metered: metered_pool AcquireExchange RequestExchanges "\<lambda>b. en_MaxExchanges (b_req b)" budget_at
  by unfold_locales

text \<open>
  C40: the egress pool spends exactly what the recovery budget grants. With the budget's clock
  running forward, an \<open>Execute\<close> under a live budget makes as many dials as the budget counts
  exchanges, never more than the request's envelope has left, and each dial runs under a
  positive window.
\<close>

theorem pool_within_budget:
  assumes "\<And>k. ev_claim env k \<le> ev_claim env (k + 1)" and "budget_at b (ev_claim env 0)"
    and "Execute AcquireExchange env ar st (Some b) = (r, ans)"
  shows "\<exists>b'. rn_budget r = Some b'
           \<and> RequestExchanges b' = RequestExchanges b + int (length (rn_dialed r))
           \<and> int (length (rn_dialed r)) \<le> en_MaxExchanges (b_req b) - RequestExchanges b
           \<and> (\<forall>(i, w)\<in>set (rn_dialed r). 0 < w)"
proof -
  have "metered.funded env b r" using metered.Execute_funded [OF assms(1,2), of ar st] assms(3) by simp
  then obtain b' where b': "rn_budget r = Some b'"
      "RequestExchanges b' = RequestExchanges b + int (length (rn_dialed r))"
      "en_MaxExchanges (b_req b') = en_MaxExchanges (b_req b)"
      "budget_at b' (ev_claim env (ai_Attempts (rn_info r)))" "\<forall>d\<in>set (rn_dialed r). 0 < snd d"
    by (auto simp: metered.funded_def)
  have "int (length (rn_dialed r)) \<le> en_MaxExchanges (b_req b) - RequestExchanges b"
    using live_budget.used_le_cap [OF b'(4)] b'(2,3) by simp
  moreover have "\<forall>(i, w)\<in>set (rn_dialed r). 0 < w" using b'(5) by auto
  ultimately show ?thesis using b'(1,2) by blast
qed

theorem pool_within_budget_witness:
  "\<exists>r ans b'. Execute AcquireExchange (ex_dial_env\<lparr>ev_claim := \<lambda>k. 2 * Second + k\<rparr>) ex_request ex_pool_state (Some ex_budget)
        = (r, ans)
      \<and> rn_budget r = Some b' \<and> RequestExchanges b' = 2 + int (length (rn_dialed r)) \<and> length (rn_dialed r) \<le> 2"
proof -
  let ?env = "ex_dial_env\<lparr>ev_claim := \<lambda>k. 2 * Second + k\<rparr>"
  obtain r ans where r: "Execute AcquireExchange ?env ex_request ex_pool_state (Some ex_budget) = (r, ans)"
    by (meson surj_pair)
  have "budget_at ex_budget (ev_claim ?env 0)"
    by (simp add: budget_at_def budget_inv_def ex_budget_def envelope_ok_def Second_def caps Minute_def)
  from pool_within_budget [OF _ this r] r show ?thesis by (auto simp: ex_budget_def RequestExchanges_def)
qed

end
